(* ===== verification/Prelude.thy ===== *)
theory Prelude
  imports Main "HOL-Library.Word" "HOL-Library.Multiset"
begin

text \<open>
  What every component shares: the machine integer types of the sources (ILP32, the ABI of the
  i386 machine whose kernel configuration and measurements the repository keeps: \<open>int\<close>,
  \<open>long\<close> and pointers have 32 bits), the little-endian byte images of integers,
  \<open>strncmp\<close>, half-open ranges of unsigned numbers and the collections of facts that
  the component proofs pass to the simplifier.
\<close>

section \<open>Machine integers\<close>

type_synonym byte = "8 word"
type_synonym u16 = "16 word"
type_synonym u32 = "32 word"
type_synonym u64 = "64 word"

unbundle bit_operations_syntax

named_theorems wire "byte images of integers and records, and their inverses"
named_theorems os_simps "what the system calls do to the descriptor table"
named_theorems covers "which pages a record, a list of records or a merge step covers"

section \<open>Lists\<close>

lemma sorted_wrt_butlast_last:
  "sorted_wrt P (xs @ [x]) \<longleftrightarrow> sorted_wrt P xs \<and> (\<forall>y\<in>set xs. P y x)"
  by (simp add: sorted_wrt_append)

lemma take_drop_split: "n \<le> length xs \<Longrightarrow> take n xs @ drop n xs = xs"
  by simp

lemma list_update_drop_nth:
  "i < length xs \<Longrightarrow> drop i xs = xs ! i # drop (Suc i) xs"
  by (rule Cons_nth_drop_Suc [symmetric])

lemma mset_concat_update:
  assumes "h < length xs"
  shows "mset (concat (xs[h := ys])) + mset (xs ! h) = mset (concat xs) + mset ys"
proof -
  have "concat xs = concat (take h xs) @ xs ! h @ concat (drop (Suc h) xs)"
    using id_take_nth_drop [OF assms] by (metis concat.simps(2) concat_append)
  moreover have "concat (xs[h := ys]) = concat (take h xs) @ ys @ concat (drop (Suc h) xs)"
    using assms by (simp add: upd_conv_take_nth_drop)
  ultimately show ?thesis by simp
qed

section \<open>Integers as bytes, least significant first\<close>

definition le16 :: "u16 \<Rightarrow> byte list" where
  "le16 w = [ucast w, ucast (drop_bit 8 w)]"

definition le32 :: "u32 \<Rightarrow> byte list" where
  "le32 w = [ucast w, ucast (drop_bit 8 w), ucast (drop_bit 16 w), ucast (drop_bit 24 w)]"

fun of_le16 :: "byte list \<Rightarrow> u16" where
  "of_le16 (b0 # b1 # _) = ucast b0 OR push_bit 8 (ucast b1)"
| "of_le16 _ = 0"

fun of_le32 :: "byte list \<Rightarrow> u32" where
  "of_le32 (b0 # b1 # b2 # b3 # _) =
     ucast b0 OR push_bit 8 (ucast b1) OR push_bit 16 (ucast b2) OR push_bit 24 (ucast b3)"
| "of_le32 _ = 0"

lemma length_le16 [simp, wire]: "length (le16 w) = 2"
  by (simp add: le16_def)

lemma length_le32 [simp, wire]: "length (le32 w) = 4"
  by (simp add: le32_def)

lemma of_le16_le16 [simp, wire]: "of_le16 (le16 w @ rest) = w"
  unfolding le16_def
  by (rule bit_word_eqI)
    (auto simp: bit_or_iff bit_push_bit_iff bit_ucast_iff bit_drop_bit_eq not_less)

lemma of_le32_le32 [simp, wire]: "of_le32 (le32 w @ rest) = w"
proof (rule bit_word_eqI)
  fix n assume n: "n < LENGTH(32)"
  consider "n < 8" | "8 \<le> n" "n < 16" | "16 \<le> n" "n < 24" | "24 \<le> n" by linarith
  then show "bit (of_le32 (le32 w @ rest)) n = bit w n"
    using n
    by cases (auto simp: le32_def bit_or_iff bit_push_bit_iff bit_ucast_iff bit_drop_bit_eq)
qed

lemma le32_inject [simp]: "le32 v = le32 w \<longleftrightarrow> v = w"
  by (metis append_Nil2 of_le32_le32)

section \<open>Comparison of byte strings\<close>

text \<open>
  \<open>strncmp\<close> of the C library on byte strings; the end of a list reads as the terminating
  zero byte. The result is the difference of the first bytes that differ, 0 when the first
  \<open>n\<close> bytes (up to a common terminator) agree.
\<close>

fun strncmp :: "byte list \<Rightarrow> byte list \<Rightarrow> nat \<Rightarrow> int" where
  "strncmp _ _ 0 = 0"
| "strncmp xs ys (Suc n) =
     (let x = (case xs of [] \<Rightarrow> 0 | c # _ \<Rightarrow> c);
          y = (case ys of [] \<Rightarrow> 0 | c # _ \<Rightarrow> c)
      in if x \<noteq> y then uint x - uint y
         else if x = 0 then 0
         else strncmp (tl xs) (tl ys) n)"

lemma strncmp_same [simp]: "strncmp xs xs n = 0"
  by (induction n arbitrary: xs) (auto simp: Let_def split: list.splits)

lemma strncmp_eq_prefix:
  assumes "0 \<notin> set ys" and "strncmp xs ys (length ys) = 0"
  shows "take (length ys) xs = ys"
  using assms
proof (induction ys arbitrary: xs)
  case Nil
  then show ?case by simp
next
  case (Cons y ys)
  then show ?case
    by (cases xs) (auto simp: Let_def word_uint_eq_iff split: if_splits)
qed

lemma strncmp_prefix:
  "0 \<notin> set ys \<Longrightarrow> strncmp (ys @ zs) ys (length ys) = 0"
  by (induction ys) (auto simp: Let_def)

section \<open>Ranges of unsigned numbers\<close>

text \<open>
  The numbers of a half-open range given by a start and a length, as a set of natural numbers;
  \<open>no_wrap\<close> says that the end of the range is still representable.
\<close>

definition span :: "'a::len word \<Rightarrow> 'a word \<Rightarrow> nat set" where
  "span s n = {unat s ..< unat s + unat n}"

definition no_wrap :: "'a::len word \<Rightarrow> 'a word \<Rightarrow> bool" where
  "no_wrap s n \<longleftrightarrow> unat s + unat n < 2 ^ LENGTH('a)"

lemma no_wrap_unat: "no_wrap s n \<Longrightarrow> unat (s + n) = unat s + unat n"
  by (simp add: no_wrap_def unat_word_ariths)

lemma unat_sub_le: "(b::'a::len word) \<le> a \<Longrightarrow> unat (a - b) = unat a - unat b"
  by (simp add: unat_sub word_le_nat_alt)

lemma unat_inc: "(i::'a::len word) < k \<Longrightarrow> unat (i + 1) = unat i + 1"
proof -
  assume "i < k"
  then have "unat i < unat k" by (simp add: word_less_nat_alt)
  moreover have "unat k < 2 ^ LENGTH('a)" by (rule unsigned_less)
  ultimately have "unat i + 1 < 2 ^ LENGTH('a)" by linarith
  then show ?thesis by (simp add: unat_word_ariths)
qed

lemma unat_of_small: "0 \<le> r \<Longrightarrow> r < 2 ^ 32 \<Longrightarrow> int (unat (word_of_int r :: u32)) = r"
  by (simp add: uint_word_of_int)

lemma unat_max: "unat (max (a::'a::len word) b) = max (unat a) (unat b)"
  by (auto simp: max_def word_le_nat_alt)

lemma unat_min: "unat (min (a::'a::len word) b) = min (unat a) (unat b)"
  by (auto simp: min_def word_le_nat_alt)

lemma span_empty [simp]: "span s 0 = {}"
  by (simp add: span_def)

lemma finite_span [simp]: "finite (span s n)"
  by (simp add: span_def)

end
