(* ===== verification/Posix.thy ===== *)
theory Posix
  imports Prelude
begin

text \<open>
  The part of the C library and of POSIX that the trace tools use: named files, a table of open
  descriptors with a position each, and \<open>open\<close>, \<open>read\<close>, \<open>lseek\<close> and
  \<open>close\<close> on them. What the sources cannot know (whether a call fails, how many bytes one
  \<open>read\<close> returns) is an environment that answers the \<open>n\<close>-th system call, so that the
  error paths of the tools are reachable and a theorem holds for every such environment. It also
  holds the bytes that an uninitialised local variable contains (\<open>env_junk\<close>, by call and
  offset), whether \<open>strdup\<close> finds memory, and whether the \<open>n\<close>-th
  \<open>fwrite\<close> to the standard output succeeds.
\<close>

record fdesc =
  fd_data :: "byte list"
  fd_pos :: nat

record os =
  os_files :: "string \<rightharpoonup> byte list"
  os_fds :: "fdesc option list"
  os_calls :: nat

record env =
  env_open :: "nat \<Rightarrow> bool"
  env_read :: "nat \<Rightarrow> nat option"
  env_seek :: "nat \<Rightarrow> bool"
  env_close :: "nat \<Rightarrow> bool"
  env_junk :: "nat \<Rightarrow> nat \<Rightarrow> byte"
  env_strdup :: bool
  env_fwrite :: "nat \<Rightarrow> bool"

definition tick :: "os \<Rightarrow> os" where
  "tick s = s\<lparr>os_calls := Suc (os_calls s)\<rparr>"

definition fd_of :: "os \<Rightarrow> nat \<Rightarrow> fdesc option" where
  "fd_of s fd = (if fd < length (os_fds s) then os_fds s ! fd else None)"

definition fd_set :: "nat \<Rightarrow> fdesc option \<Rightarrow> os \<Rightarrow> os" where
  "fd_set fd d s = s\<lparr>os_fds := (os_fds s)[fd := d]\<rparr>"

text \<open>\<open>open\<close> hands out the lowest descriptor that is not in use.\<close>

definition fd_alloc :: "fdesc \<Rightarrow> os \<Rightarrow> nat \<times> os" where
  "fd_alloc d s =
     (let k = length (takeWhile (\<lambda>x. x \<noteq> None) (os_fds s))
      in if k < length (os_fds s) then (k, fd_set k (Some d) s)
         else (k, s\<lparr>os_fds := os_fds s @ [Some d]\<rparr>))"

definition sys_open :: "env \<Rightarrow> string \<Rightarrow> os \<Rightarrow> nat option \<times> os" where
  "sys_open e name s =
     (case os_files s name of
        None \<Rightarrow> (None, tick s)
      | Some bs \<Rightarrow>
          if env_open e (os_calls s)
          then (let (k, s') = fd_alloc \<lparr>fd_data = bs, fd_pos = 0\<rparr> (tick s) in (Some k, s'))
          else (None, tick s))"

text \<open>\<open>None\<close> is the return value -1.\<close>

definition sys_read :: "env \<Rightarrow> nat \<Rightarrow> nat \<Rightarrow> os \<Rightarrow> byte list option \<times> os" where
  "sys_read e fd n s =
     (case fd_of s fd of
        None \<Rightarrow> (None, tick s)
      | Some d \<Rightarrow>
          (case env_read e (os_calls s) of
             None \<Rightarrow> (None, tick s)
           | Some m \<Rightarrow>
               (let bs = take (min m n) (drop (fd_pos d) (fd_data d))
                in (Some bs, tick (fd_set fd (Some (d\<lparr>fd_pos := fd_pos d + length bs\<rparr>)) s)))))"

definition sys_lseek :: "env \<Rightarrow> nat \<Rightarrow> nat \<Rightarrow> os \<Rightarrow> bool \<times> os" where
  "sys_lseek e fd pos s =
     (case fd_of s fd of
        None \<Rightarrow> (False, tick s)
      | Some d \<Rightarrow>
          if env_seek e (os_calls s) then (True, tick (fd_set fd (Some (d\<lparr>fd_pos := pos\<rparr>)) s))
          else (False, tick s))"

definition sys_close :: "env \<Rightarrow> nat \<Rightarrow> os \<Rightarrow> bool \<times> os" where
  "sys_close e fd s =
     (case fd_of s fd of
        None \<Rightarrow> (False, tick s)
      | Some _ \<Rightarrow> (env_close e (os_calls s), tick (fd_set fd None s)))"

definition open_fds :: "os \<Rightarrow> nat set" where
  "open_fds s = {fd. fd_of s fd \<noteq> None}"

text \<open>The bytes a descriptor has still to deliver.\<close>

definition pending :: "os \<Rightarrow> nat \<Rightarrow> byte list" where
  "pending s fd = (case fd_of s fd of None \<Rightarrow> [] | Some d \<Rightarrow> drop (fd_pos d) (fd_data d))"

section \<open>What the calls do\<close>

lemma fd_of_tick [simp, os_simps]: "fd_of (tick s) = fd_of s"
  by (simp add: fd_of_def tick_def fun_eq_iff)

lemma os_files_tick [simp, os_simps]: "os_files (tick s) = os_files s"
  by (simp add: tick_def)

lemma fd_of_fd_set [os_simps]:
  "fd_of s fd \<noteq> None \<Longrightarrow> fd_of (fd_set fd d s) = (fd_of s)(fd := d)"
  by (auto simp: fd_of_def fd_set_def fun_eq_iff split: if_splits)

lemma os_files_fd_set [simp, os_simps]: "os_files (fd_set fd d s) = os_files s"
  by (simp add: fd_set_def)

lemma nth_takeWhile_length_None:
  "length (takeWhile (\<lambda>x. x \<noteq> None) xs) < length xs \<Longrightarrow>
   xs ! length (takeWhile (\<lambda>x. x \<noteq> None) xs) = None"
  using nth_length_takeWhile [of "\<lambda>x. x \<noteq> None" xs] by simp

lemma fd_alloc_fresh [os_simps]:
  assumes "fd_alloc d s = (k, s')"
  shows "fd_of s k = None \<and> fd_of s' = (fd_of s)(k \<mapsto> d) \<and> os_files s' = os_files s"
  using assms nth_takeWhile_length_None [of "os_fds s"]
    length_takeWhile_le [of "\<lambda>x. x \<noteq> None" "os_fds s"]
  by (auto simp: fd_alloc_def Let_def fd_of_def fd_set_def fun_eq_iff nth_append
      split: if_splits)

lemma sys_open_Some:
  assumes "sys_open e name s = (Some fd, s')"
  shows "\<exists>bs. os_files s name = Some bs \<and> fd_of s fd = None \<and> os_files s' = os_files s
    \<and> fd_of s' = (fd_of s)(fd \<mapsto> \<lparr>fd_data = bs, fd_pos = 0\<rparr>)"
  using assms
  by (auto simp: sys_open_def split: option.splits if_splits prod.splits dest!: fd_alloc_fresh)

lemma sys_open_None: "sys_open e name s = (None, s') \<Longrightarrow> s' = tick s"
  by (auto simp: sys_open_def split: option.splits if_splits prod.splits)

lemma sys_read_None: "sys_read e fd n s = (None, s') \<Longrightarrow> s' = tick s"
  by (auto simp: sys_read_def Let_def split: option.splits)

lemma sys_read_Some:
  assumes "sys_read e fd n s = (Some bs, s')"
  shows "\<exists>d m. fd_of s fd = Some d \<and> env_read e (os_calls s) = Some m
    \<and> bs = take (min m n) (pending s fd)
    \<and> fd_of s' = (fd_of s)(fd \<mapsto> d\<lparr>fd_pos := fd_pos d + length bs\<rparr>)
    \<and> os_files s' = os_files s"
  using assms
  by (auto simp: sys_read_def Let_def pending_def fd_of_fd_set split: option.splits)

lemma sys_read_pending:
  assumes "sys_read e fd n s = (Some bs, s')"
  shows "pending s fd = bs @ pending s' fd \<and> length bs \<le> n"
proof -
  from sys_read_Some [OF assms] obtain d m where
    d: "fd_of s fd = Some d" and bs: "bs = take (min m n) (pending s fd)"
    and s': "fd_of s' = (fd_of s)(fd \<mapsto> d\<lparr>fd_pos := fd_pos d + length bs\<rparr>)"
    by blast
  have "pending s' fd = drop (length bs) (pending s fd)"
    using d s' by (simp add: pending_def add.commute)
  moreover have "bs @ drop (length bs) (pending s fd) = pending s fd"
    using bs by (auto simp: min_def)
  ultimately show ?thesis
    using bs by simp
qed

text \<open>
  \<open>only_fd fd s s'\<close>: between \<open>s\<close> and \<open>s'\<close> nothing but the descriptor
  \<open>fd\<close> changed. Reads and seeks satisfy it, and a \<open>close\<close> after them takes a
  freshly opened descriptor out of the table again.
\<close>

definition only_fd :: "nat \<Rightarrow> os \<Rightarrow> os \<Rightarrow> bool" where
  "only_fd fd s s' \<longleftrightarrow> (\<forall>k. k \<noteq> fd \<longrightarrow> fd_of s' k = fd_of s k) \<and> os_files s' = os_files s
     \<and> (fd_of s' fd = None \<longleftrightarrow> fd_of s fd = None)"

lemma only_fd_trans [os_simps]: "only_fd fd s s' \<Longrightarrow> only_fd fd s' s'' \<Longrightarrow> only_fd fd s s''"
  by (simp add: only_fd_def)

lemma sys_read_only_fd: "sys_read e fd n s = (r, s') \<Longrightarrow> only_fd fd s s'"
  by (cases r) (auto simp: only_fd_def dest!: sys_read_None sys_read_Some)

lemma sys_lseek_only_fd: "sys_lseek e fd n s = (r, s') \<Longrightarrow> only_fd fd s s'"
  by (auto simp: only_fd_def sys_lseek_def fd_of_fd_set split: option.splits if_splits)

lemma sys_close_fds:
  assumes "sys_close e fd s = (ok, s')"
  shows "fd_of s' = (fd_of s)(fd := None) \<and> os_files s' = os_files s"
  using assms
  by (auto simp: sys_close_def fd_of_fd_set fun_eq_iff split: option.splits)

lemma close_undoes_open:
  assumes "only_fd fd s1 s2" and "fd_of s fd = None" and "fd_of s1 = (fd_of s)(fd \<mapsto> d)"
    and "os_files s1 = os_files s"
  shows "fd_of (snd (sys_close e fd s2)) = fd_of s \<and> os_files (snd (sys_close e fd s2)) = os_files s"
proof -
  obtain ok s' where c: "sys_close e fd s2 = (ok, s')" by fastforce
  have "fd_of s' k = fd_of s k" for k
    using assms(1,2,3) sys_close_fds [OF c] by (cases "k = fd") (simp_all add: only_fd_def)
  then have "fd_of s' = fd_of s" by blast
  then show ?thesis
    using assms(1,4) sys_close_fds [OF c] c by (simp add: only_fd_def)
qed

end
