(* ===== verification/Trace_Lib.thy ===== *)
theory Trace_Lib
  imports Posix
begin

text \<open>
  The trace file format (\<open>prefetch_types.h\<close>) and the library that reads it
  (\<open>prefetch_lib.cpp\<close>). A trace file is a header of 10 bytes (magic, two version numbers
  and the offset of the data) and then records of 16 bytes. The integer returns of the C
  functions are kept as values that also say which branch returned, so that every error branch
  is visible.
\<close>

section \<open>Types of the format\<close>

record prefetch_trace_record_t =
  device :: u32
  inode_no :: u32
  range_start :: u32
  range_length :: u32

record prefetch_trace_header_t =
  magic :: "byte list"
  version_major :: u16
  version_minor :: u16
  data_start :: u16

definition MINORBITS :: nat where "MINORBITS = 20"

definition MINORMASK :: u32 where "MINORMASK = push_bit MINORBITS 1 - 1"

definition dev_major :: "u32 \<Rightarrow> u32" where "dev_major dev = drop_bit MINORBITS dev"

definition dev_minor :: "u32 \<Rightarrow> u32" where "dev_minor dev = dev AND MINORMASK"

definition trace_file_magic :: "byte list" where
  "trace_file_magic = [0x50, 0x46, 0x43, 0x48]"

definition PREFETCH_FORMAT_VERSION_MAJOR :: u16 where "PREFETCH_FORMAT_VERSION_MAJOR = 1"

definition PREFETCH_FORMAT_VERSION_MINOR :: u16 where "PREFETCH_FORMAT_VERSION_MINOR = 0"

definition record_size :: nat where "record_size = 16"

definition header_size :: nat where "header_size = 10"

text \<open>The images of the two structures in memory and in the file.\<close>

definition record_bytes :: "prefetch_trace_record_t \<Rightarrow> byte list" where
  "record_bytes r =
     le32 (device r) @ le32 (inode_no r) @ le32 (range_start r) @ le32 (range_length r)"

definition record_of_bytes :: "byte list \<Rightarrow> prefetch_trace_record_t" where
  "record_of_bytes bs =
     \<lparr>device = of_le32 bs, inode_no = of_le32 (drop 4 bs),
      range_start = of_le32 (drop 8 bs), range_length = of_le32 (drop 12 bs)\<rparr>"

definition header_bytes :: "prefetch_trace_header_t \<Rightarrow> byte list" where
  "header_bytes h =
     magic h @ le16 (version_major h) @ le16 (version_minor h) @ le16 (data_start h)"

definition header_of_bytes :: "byte list \<Rightarrow> prefetch_trace_header_t" where
  "header_of_bytes bs =
     \<lparr>magic = take 4 bs, version_major = of_le16 (drop 4 bs),
      version_minor = of_le16 (drop 6 bs), data_start = of_le16 (drop 8 bs)\<rparr>"

definition fill_trace_file_header :: prefetch_trace_header_t where
  "fill_trace_file_header =
     \<lparr>magic = trace_file_magic, version_major = PREFETCH_FORMAT_VERSION_MAJOR,
      version_minor = PREFETCH_FORMAT_VERSION_MINOR, data_start = of_nat header_size\<rparr>"

lemma length_record_bytes [simp, wire]: "length (record_bytes r) = record_size"
  by (simp add: record_bytes_def record_size_def)

lemma record_bytes_nonempty [simp]: "record_bytes r \<noteq> []"
  by (simp add: record_bytes_def le32_def)

lemma record_of_record_bytes [simp, wire]: "record_of_bytes (record_bytes r) = r"
  by (cases r) (simp add: record_of_bytes_def record_bytes_def of_le32_le32 [of _ "[]", simplified])

lemma length_fill_header_bytes [simp, wire]:
  "length (header_bytes fill_trace_file_header) = header_size"
  by (simp add: header_bytes_def fill_trace_file_header_def trace_file_magic_def header_size_def)

lemma header_of_fill_header_bytes [simp, wire]:
  "header_of_bytes (header_bytes fill_trace_file_header) = fill_trace_file_header"
  by (simp add: header_of_bytes_def header_bytes_def fill_trace_file_header_def
      trace_file_magic_def of_le16_le16 [of _ "[]", simplified])

section \<open>Opening\<close>

datatype open_error =
    Cannot_open
  | Cannot_read_header
  | Invalid_signature
  | Incompatible_version u16
  | Invalid_data_start u16
  | Cannot_seek u16

text \<open>
  The local variable \<open>header\<close> is not initialised: its first content is whatever the
  environment says is on the stack (10 bytes of \<open>env_junk\<close>), and a \<open>read\<close> that returns fewer bytes overwrites only a
  prefix of it. Every error after the \<open>open\<close> closes the descriptor.
\<close>

definition open_trace_file ::
  "env \<Rightarrow> string \<Rightarrow> os \<Rightarrow> (open_error + nat) \<times> os" where
  "open_trace_file e filename s =
     (let junk = map (env_junk e (os_calls s)) [0..<header_size] in
      case sys_open e filename s of
        (None, s1) \<Rightarrow> (Inl Cannot_open, s1)
      | (Some fd, s1) \<Rightarrow>
        (case sys_read e fd header_size s1 of
           (None, s2) \<Rightarrow> (Inl Cannot_read_header, snd (sys_close e fd s2))
         | (Some bs, s2) \<Rightarrow>
           (let header = header_of_bytes (bs @ drop (length bs) junk) in
            if strncmp (magic header) trace_file_magic 4 \<noteq> 0
            then (Inl Invalid_signature, snd (sys_close e fd s2))
            else if version_major header \<noteq> PREFETCH_FORMAT_VERSION_MAJOR
            then (Inl (Incompatible_version (version_major header)), snd (sys_close e fd s2))
            else if unat (data_start header) < header_size
            then (Inl (Invalid_data_start (data_start header)), snd (sys_close e fd s2))
            else
              (case sys_lseek e fd (unat (data_start header)) s2 of
                 (False, s3) \<Rightarrow> (Inl (Cannot_seek (data_start header)), snd (sys_close e fd s3))
               | (True, s3) \<Rightarrow> (Inr fd, s3)))))"

definition close_trace_file :: "env \<Rightarrow> nat \<Rightarrow> os \<Rightarrow> bool \<times> os" where
  "close_trace_file e fd s = sys_close e fd s"

section \<open>Reading records\<close>

datatype read_result =
    Read_ok prefetch_trace_record_t
  | Read_eof
  | Read_error
  | Read_short nat

definition read_prefetch_record :: "env \<Rightarrow> nat \<Rightarrow> os \<Rightarrow> read_result \<times> os" where
  "read_prefetch_record e fd s =
     (case sys_read e fd record_size s of
        (None, s') \<Rightarrow> (Read_error, s')
      | (Some bs, s') \<Rightarrow>
          if length bs = 0 then (Read_eof, s')
          else if length bs \<noteq> record_size then (Read_short (length bs), s')
          else (Read_ok (record_of_bytes bs), s'))"

lemma read_prefetch_record_pending:
  assumes "read_prefetch_record e fd s = (Read_ok r, s')"
  shows "\<exists>bs. length bs = record_size \<and> r = record_of_bytes bs \<and> pending s fd = bs @ pending s' fd"
  using assms sys_read_pending [of e fd record_size s]
  by (auto simp: read_prefetch_record_def split: option.splits prod.splits if_splits)

lemma read_prefetch_record_shrinks:
  "read_prefetch_record e fd s = (Read_ok r, s') \<Longrightarrow>
   length (pending s' fd) < length (pending s fd)"
  by (drule read_prefetch_record_pending) (auto simp: record_size_def)

lemma read_prefetch_record_frame:
  "read_prefetch_record e fd s = (res, s') \<Longrightarrow> only_fd fd s s'"
  by (auto simp: read_prefetch_record_def split: option.splits prod.splits if_splits
      dest: sys_read_only_fd)

text \<open>
  An environment in which no call fails and a \<open>read\<close> returns all the bytes it can:
  the reads of regular files that the tools expect.
\<close>

definition calm :: "env \<Rightarrow> bool" where
  "calm e \<longleftrightarrow> (\<forall>n. env_open e n \<and> env_seek e n \<and> env_close e n
     \<and> (\<exists>m\<ge>record_size. env_read e n = Some m))"

lemma calm_read:
  assumes "calm e" and "fd_of s fd = Some d" and "n \<le> record_size"
  shows "\<exists>s'. sys_read e fd n s = (Some (take n (pending s fd)), s')"
proof -
  from assms(1) obtain m where "m \<ge> record_size" "env_read e (os_calls s) = Some m"
    by (auto simp: calm_def)
  then show ?thesis
    using assms(2,3) by (simp add: sys_read_def pending_def Let_def min_absorb2)
qed

lemma calm_read_record:
  assumes "calm e" and "fd_of s fd \<noteq> None" and "pending s fd = record_bytes r @ rest"
  shows "\<exists>s'. read_prefetch_record e fd s = (Read_ok r, s') \<and> fd_of s' fd \<noteq> None
    \<and> pending s' fd = rest"
proof -
  from assms(2) obtain d where "fd_of s fd = Some d" by blast
  from calm_read [OF assms(1) this, of record_size] assms(3)
  obtain s' where s': "sys_read e fd record_size s = (Some (record_bytes r), s')"
    by auto
  with sys_read_pending [OF s'] sys_read_Some [OF s'] assms(3)
  show ?thesis by (auto simp: read_prefetch_record_def record_size_def)
qed

lemma open_trace_file_error_frame:
  assumes "open_trace_file e filename s = (Inl err, s')"
  shows "fd_of s' = fd_of s \<and> os_files s' = os_files s"
proof (cases "sys_open e filename s")
  case (Pair r s1)
  show ?thesis
  proof (cases r)
    case None
    with Pair assms show ?thesis by (auto simp: open_trace_file_def Let_def dest: sys_open_None)
  next
    case (Some fd)
    with Pair sys_open_Some [of e filename s fd s1]
    obtain d where fresh: "fd_of s fd = None" "fd_of s1 = (fd_of s)(fd \<mapsto> d)"
      and files: "os_files s1 = os_files s" by blast
    from close_undoes_open [OF _ fresh files] assms Pair Some show ?thesis
      by (auto simp: open_trace_file_def Let_def split: option.splits prod.splits if_splits bool.splits
          dest!: sys_read_only_fd sys_lseek_only_fd intro: only_fd_trans)
  qed
qed

lemma open_trace_file_fresh:
  assumes "open_trace_file e filename s = (Inr fd, s')"
  shows "fd_of s fd = None \<and> fd_of s' fd \<noteq> None"
proof -
  from assms obtain fd2 s1 bs s2 n where
    o: "sys_open e filename s = (Some fd2, s1)" and r: "sys_read e fd2 header_size s1 = (Some bs, s2)"
    and l: "sys_lseek e fd2 n s2 = (True, s')" and eq: "fd2 = fd"
    by (auto simp: open_trace_file_def Let_def split: option.splits prod.splits if_splits bool.splits)
  from sys_open_Some [OF o] sys_read_only_fd [OF r] sys_lseek_only_fd [OF l] eq show ?thesis
    by (auto simp: only_fd_def)
qed

lemma calm_read_eof:
  assumes "calm e" and "fd_of s fd \<noteq> None" and "pending s fd = []"
  shows "\<exists>s'. read_prefetch_record e fd s = (Read_eof, s') \<and> fd_of s' fd \<noteq> None"
proof -
  from assms(2) obtain d where "fd_of s fd = Some d" by blast
  from calm_read [OF assms(1) this, of record_size] assms(3)
  obtain s' where s': "sys_read e fd record_size s = (Some [], s')"
    by auto
  with sys_read_Some [OF s'] show ?thesis by (auto simp: read_prefetch_record_def)
qed

section \<open>Which files are accepted\<close>

text \<open>
  A complete header with the right magic, the supported major version and data that does not
  overlap the header; the data of such a file starts where the header says.
\<close>

definition valid_header :: "prefetch_trace_header_t \<Rightarrow> bool" where
  "valid_header h \<longleftrightarrow> magic h = trace_file_magic
     \<and> version_major h = PREFETCH_FORMAT_VERSION_MAJOR \<and> header_size \<le> unat (data_start h)"

definition valid_trace_file :: "byte list \<Rightarrow> bool" where
  "valid_trace_file bs \<longleftrightarrow>
     header_size \<le> length bs \<and> valid_header (header_of_bytes (take header_size bs))"

definition trace_data :: "byte list \<Rightarrow> byte list" where
  "trace_data bs = drop (unat (data_start (header_of_bytes (take header_size bs)))) bs"

lemma magic_strncmp:
  assumes "length m = 4"
  shows "strncmp m trace_file_magic 4 = 0 \<longleftrightarrow> m = trace_file_magic"
proof
  have len: "length trace_file_magic = 4" and nul: "0 \<notin> set trace_file_magic"
    by (simp_all add: trace_file_magic_def)
  assume "strncmp m trace_file_magic 4 = 0"
  with strncmp_eq_prefix [OF nul, of m] len assms show "m = trace_file_magic" by simp
qed simp

lemma length_magic_header_of_bytes: "4 \<le> length bs \<Longrightarrow> length (magic (header_of_bytes bs)) = 4"
  by (simp add: header_of_bytes_def)

text \<open>
  The checks of \<open>open_trace_file\<close> after a successful \<open>open\<close> and a header read that
  delivered \<open>bs\<close>, in one place: the header that is examined is \<open>bs\<close> followed by
  whatever the stack held.
\<close>

lemma open_trace_file_opened:
  assumes "sys_open e filename s = (Some fd, s1)"
    and "sys_read e fd header_size s1 = (Some bs, s2)"
    and "h = header_of_bytes (bs @ drop (length bs) (map (env_junk e (os_calls s)) [0..<header_size]))"
    and "valid_header h" and "env_seek e (os_calls s2)"
  shows "\<exists>s3. open_trace_file e filename s = (Inr fd, s3)
    \<and> sys_lseek e fd (unat (data_start h)) s2 = (True, s3)"
proof -
  from sys_read_Some [OF assms(2)] obtain d where "fd_of s2 fd = Some d" by auto
  with assms(5) obtain s3 where "sys_lseek e fd (unat (data_start h)) s2 = (True, s3)"
    by (simp add: sys_lseek_def)
  with assms(1-4) show ?thesis
    by (simp add: open_trace_file_def Let_def valid_header_def)
qed

lemma open_trace_file_calm:
  assumes "calm e" and "os_files s filename = Some bs" and "valid_trace_file bs"
  shows "\<exists>fd s'. open_trace_file e filename s = (Inr fd, s') \<and> fd_of s fd = None
    \<and> fd_of s' = (fd_of s)(fd \<mapsto> \<lparr>fd_data = bs,
          fd_pos = unat (data_start (header_of_bytes (take header_size bs)))\<rparr>)
    \<and> os_files s' = os_files s"
proof -
  from assms(1,2) obtain fd s1 where o: "sys_open e filename s = (Some fd, s1)"
    by (cases "fd_alloc \<lparr>fd_data = bs, fd_pos = 0\<rparr> (tick s)") (simp add: sys_open_def calm_def)
  from sys_open_Some [OF o] assms(2) have
    fresh: "fd_of s fd = None" and files: "os_files s1 = os_files s" and
    s1: "fd_of s1 = (fd_of s)(fd \<mapsto> \<lparr>fd_data = bs, fd_pos = 0\<rparr>)" by auto
  from s1 have p: "fd_of s1 fd = Some \<lparr>fd_data = bs, fd_pos = 0\<rparr>" "pending s1 fd = bs"
    by (simp_all add: pending_def)
  from calm_read [OF assms(1) p(1), of header_size] p(2) obtain s2 where
    r: "sys_read e fd header_size s1 = (Some (take header_size bs), s2)"
    by (auto simp: header_size_def record_size_def)
  from sys_read_Some [OF r] p have s2: "os_files s2 = os_files s1"
    "fd_of s2 = (fd_of s1)(fd \<mapsto> \<lparr>fd_data = bs, fd_pos = length (take header_size bs)\<rparr>)"
    by auto
  let ?h = "header_of_bytes (take header_size bs)"
  have "?h = header_of_bytes (take header_size bs @ drop (length (take header_size bs))
      (map (env_junk e (os_calls s)) [0..<header_size]))" and "valid_header ?h"
    using assms(3) by (simp_all add: valid_trace_file_def)
  from open_trace_file_opened [OF o r this] assms(1) obtain s3 where
    "open_trace_file e filename s = (Inr fd, s3)"
    "sys_lseek e fd (unat (data_start ?h)) s2 = (True, s3)" by (auto simp: calm_def)
  moreover from this(2) s2 s1 files have "fd_of s3 = (fd_of s)(fd \<mapsto>
      \<lparr>fd_data = bs, fd_pos = unat (data_start ?h)\<rparr>) \<and> os_files s3 = os_files s"
    by (auto simp: sys_lseek_def fd_of_fd_set split: if_splits)
  ultimately show ?thesis using fresh by blast
qed

end
