(* ===== verification/Trace_Read.thy ===== *)
theory Trace_Read
  imports Trace_Lib
begin

text \<open>
  Both trace tools read a file with the loop \<open>for (;;) { r = read_prefetch_record(...); ... }\<close>.
  The relation \<open>reads\<close> describes such a loop independently of what its body does with the
  records, and the locale \<open>record_source\<close> is the contract of the reader that makes it
  deliver exactly the records of the file. The library's reader is shown to satisfy it.
\<close>

section \<open>Successive reads\<close>

inductive reads ::
  "('s \<Rightarrow> read_result \<times> 's) \<Rightarrow> 's \<Rightarrow> prefetch_trace_record_t list \<Rightarrow> read_result \<Rightarrow> 's \<Rightarrow> bool"
  for read where
  stop: "read s = (res, s') \<Longrightarrow> (\<forall>r. res \<noteq> Read_ok r) \<Longrightarrow> reads read s [] res s'"
| more: "read s = (Read_ok r, s1) \<Longrightarrow> reads read s1 rs res s' \<Longrightarrow> reads read s (r # rs) res s'"

inductive_cases reads_NilE: "reads read s [] res s'"
inductive_cases reads_ConsE: "reads read s (r # rs) res s'"

lemma reads_deterministic:
  assumes "reads read s rs res s'" and "reads read s rs2 res2 s2'"
  shows "rs2 = rs \<and> res2 = res \<and> s2' = s'"
  using assms
proof (induction arbitrary: rs2 res2 s2' rule: reads.induct)
  case (stop s res s')
  from stop.prems show ?case
    by cases (use stop.hyps in simp_all)
next
  case (more s r s1 rs res s')
  from more.prems more.hyps(1) obtain rs3 where
    "rs2 = r # rs3" "reads read s1 rs3 res2 s2'"
    by cases (use more.hyps(1) in simp_all)
  with more.IH [of rs3] show ?case by blast
qed

lemma reads_final: "reads read s rs res s' \<Longrightarrow> \<forall>r. res \<noteq> Read_ok r"
  by (induction rule: reads.induct) auto

locale record_source =
  fixes read :: "'s \<Rightarrow> read_result \<times> 's"
    and ready :: "'s \<Rightarrow> bool"
    and remaining :: "'s \<Rightarrow> prefetch_trace_record_t list"
    and ending :: "'s \<Rightarrow> read_result"
  assumes read_next: "ready s \<Longrightarrow> remaining s = r # rs \<Longrightarrow>
      \<exists>s'. read s = (Read_ok r, s') \<and> ready s' \<and> remaining s' = rs \<and> ending s' = ending s"
    and read_end: "ready s \<Longrightarrow> remaining s = [] \<Longrightarrow> \<exists>s'. read s = (ending s, s')"
    and ending_final: "ending s \<noteq> Read_ok r"
begin

lemma reads_all: "ready s \<Longrightarrow> \<exists>s'. reads read s (remaining s) (ending s) s'"
proof (induction "remaining s" arbitrary: s)
  case Nil
  then show ?case using read_end [of s] ending_final by (metis reads.stop)
next
  case (Cons r rs)
  from read_next [OF Cons.prems, of r rs] Cons.hyps(2) obtain s1 where
    s1: "read s = (Read_ok r, s1)" "ready s1" "remaining s1 = rs" "ending s1 = ending s"
    by auto
  from Cons.hyps(1) [of s1] s1 obtain s' where "reads read s1 rs (ending s) s'" by auto
  with s1(1) Cons.hyps(2) show ?case by (metis reads.more)
qed

lemma reads_exactly:
  assumes "ready s" and "reads read s rs res s'"
  shows "rs = remaining s \<and> res = ending s"
  using reads_all [OF assms(1)] reads_deterministic [OF assms(2)] by blast

end

text \<open>In every environment the loop over the library's reader comes to an end.\<close>

lemma reads_exist: "\<exists>rs res s'. reads (read_prefetch_record e fd) s rs res s'"
proof (induction "length (pending s fd)" arbitrary: s rule: less_induct)
  case less
  obtain res s1 where rd: "read_prefetch_record e fd s = (res, s1)" by fastforce
  show ?case
  proof (cases "\<exists>r. res = Read_ok r")
    case True
    with rd less [of s1] show ?thesis
      by (metis read_prefetch_record_shrinks reads.more)
  next
    case False
    with rd show ?thesis by (blast intro: reads.stop)
  qed
qed

lemma reads_only_fd:
  "reads (read_prefetch_record e fd) s rs res s' \<Longrightarrow> only_fd fd s s'"
  by (induction rule: reads.induct)
    (auto dest!: read_prefetch_record_frame intro: only_fd_trans)

section \<open>The records of a byte string\<close>

function decode_records :: "byte list \<Rightarrow> prefetch_trace_record_t list" where
  "decode_records bs =
     (if length bs < record_size then []
      else record_of_bytes bs # decode_records (drop record_size bs))"
  by pat_completeness auto
termination
  by (relation "measure length") (auto simp: record_size_def)

declare decode_records.simps [simp del]

definition encode_records :: "prefetch_trace_record_t list \<Rightarrow> byte list" where
  "encode_records rs = concat (map record_bytes rs)"

lemma record_of_bytes_append [simp]: "record_of_bytes (record_bytes r @ rest) = r"
  by (cases r) (simp add: record_of_bytes_def record_bytes_def)

lemma decode_records_Nil [simp]: "decode_records [] = []"
  by (subst decode_records.simps) (simp add: record_size_def)

lemma decode_records_record [simp]:
  "decode_records (record_bytes r @ bs) = r # decode_records bs"
  by (subst decode_records.simps) simp

lemma decode_encode_records: "decode_records (encode_records rs) = rs"
  by (induction rs) (simp_all add: encode_records_def)

lemma length_encode_records: "length (encode_records rs) = record_size * length rs"
  by (induction rs) (simp_all add: encode_records_def)

lemma record_size_pos [simp]: "0 < record_size"
  by (simp add: record_size_def)

lemma take_record: "record_of_bytes (take record_size bs) = record_of_bytes bs"
proof -
  have take4: "of_le32 (take k cs) = of_le32 cs" if "4 \<le> k" for k cs
    using that by (cases cs rule: of_le32.cases) (auto simp: take_Cons' numeral_eq_Suc)
  show ?thesis
    by (simp add: record_of_bytes_def record_size_def drop_take take4)
qed

definition leftover :: "byte list \<Rightarrow> read_result" where
  "leftover bs =
     (if length bs mod record_size = 0 then Read_eof else Read_short (length bs mod record_size))"

section \<open>The library's reader satisfies the contract\<close>

definition fd_ready :: "env \<Rightarrow> nat \<Rightarrow> os \<Rightarrow> bool" where
  "fd_ready e fd s \<longleftrightarrow> calm e \<and> fd_of s fd \<noteq> None"

lemma decode_records_eq_Cons:
  "decode_records bs = r # rs \<Longrightarrow>
   record_size \<le> length bs \<and> r = record_of_bytes bs \<and> rs = decode_records (drop record_size bs)"
  by (subst (asm) decode_records.simps) (auto split: if_splits)

lemma decode_records_eq_Nil: "decode_records bs = [] \<Longrightarrow> length bs < record_size"
  by (subst (asm) decode_records.simps) (auto split: if_splits)

lemma calm_read_any:
  assumes "fd_ready e fd s"
  shows "\<exists>s'. sys_read e fd record_size s = (Some (take record_size (pending s fd)), s')
    \<and> fd_ready e fd s' \<and> pending s' fd = drop record_size (pending s fd)"
proof -
  from assms obtain d where "calm e" "fd_of s fd = Some d" by (auto simp: fd_ready_def)
  from calm_read [OF this, of record_size] obtain s' where
    s': "sys_read e fd record_size s = (Some (take record_size (pending s fd)), s')" by auto
  have "pending s fd = take record_size (pending s fd) @ pending s' fd"
    using sys_read_pending [OF s'] by simp
  then have "pending s' fd = drop record_size (pending s fd)"
    by (metis append_take_drop_id same_append_eq)
  then show ?thesis
    using s' sys_read_only_fd [OF s'] assms by (auto simp: fd_ready_def only_fd_def)
qed

interpretation lib: record_source "read_prefetch_record e fd" "fd_ready e fd"
  "\<lambda>s. decode_records (pending s fd)" "\<lambda>s. leftover (pending s fd)"
  for e fd
proof
  fix s r rs
  assume ready: "fd_ready e fd s" and "decode_records (pending s fd) = r # rs"
  then have r: "record_size \<le> length (pending s fd)" "r = record_of_bytes (pending s fd)"
      "rs = decode_records (drop record_size (pending s fd))"
    by (auto dest: decode_records_eq_Cons)
  from calm_read_any [OF ready] obtain s' where
    "sys_read e fd record_size s = (Some (take record_size (pending s fd)), s')"
    "fd_ready e fd s'" "pending s' fd = drop record_size (pending s fd)" by blast
  with r show "\<exists>s'. read_prefetch_record e fd s = (Read_ok r, s') \<and> fd_ready e fd s'
      \<and> decode_records (pending s' fd) = rs \<and> leftover (pending s' fd) = leftover (pending s fd)"
    by (auto simp: read_prefetch_record_def take_record leftover_def le_mod_geq min_absorb2)
next
  fix s
  assume ready: "fd_ready e fd s" and "decode_records (pending s fd) = []"
  then have "length (pending s fd) < record_size" by (auto dest: decode_records_eq_Nil)
  moreover from calm_read_any [OF ready] obtain s' where
    "sys_read e fd record_size s = (Some (take record_size (pending s fd)), s')" by blast
  ultimately show "\<exists>s'. read_prefetch_record e fd s = (leftover (pending s fd), s')"
    by (auto simp: read_prefetch_record_def leftover_def)
qed (simp add: leftover_def)

end
