(* ===== verification/Print_Trace.thy ===== *)
theory Print_Trace
  imports Trace_Read
begin

text \<open>
  The tool \<open>prefetch-print-trace\<close> (\<open>prefetch-print-trace.cpp\<close>): it prints one line of
  decimal numbers per record of a trace file. The messages on the standard error stream are not
  part of the model; the exit codes and the standard output are.
\<close>

section \<open>Printing one record\<close>

text \<open>The decimal conversions \<open>%u\<close> and \<open>%lu\<close> of \<open>printf\<close>.\<close>

fun show_nat :: "nat \<Rightarrow> string" where
  "show_nat n =
     (if n < 10 then [char_of (48 + n)] else show_nat (n div 10) @ [char_of (48 + n mod 10)])"

declare show_nat.simps [simp del]

definition show_word :: "'a::len word \<Rightarrow> string" where
  "show_word w = show_nat (unat w)"

abbreviation TAB :: string where
  "TAB \<equiv> [CHR 0x09]"

abbreviation NL :: string where
  "NL \<equiv> [CHR 0x0A]"

definition record_line :: "prefetch_trace_record_t \<Rightarrow> string" where
  "record_line r =
     show_word (dev_major (device r)) @ '':'' @ show_word (dev_minor (device r)) @ TAB
     @ show_word (inode_no r) @ TAB
     @ show_word (range_start r) @ TAB @ show_word (range_length r) @ NL"

section \<open>The tool\<close>

function print_loop :: "env \<Rightarrow> nat \<Rightarrow> os \<Rightarrow> read_result \<times> string \<times> os" where
  "print_loop e fd s =
     (case read_prefetch_record e fd s of
        (Read_ok r, s1) \<Rightarrow>
          (let (res, out, s2) = print_loop e fd s1 in (res, record_line r @ out, s2))
      | (res, s1) \<Rightarrow> (res, [], s1))"
  by pat_completeness auto
termination
  by (relation "measure (\<lambda>(e, fd, s). length (pending s fd))")
    (auto dest: read_prefetch_record_shrinks [OF sym] read_prefetch_record_shrinks)

declare print_loop.simps [simp del]

definition print_trace_main :: "env \<Rightarrow> string list \<Rightarrow> os \<Rightarrow> int \<times> string \<times> os" where
  "print_trace_main e args s =
     (case args of
        [filename] \<Rightarrow>
          (case open_trace_file e filename s of
             (Inl _, s1) \<Rightarrow> (1, [], s1)
           | (Inr fd, s1) \<Rightarrow>
               (case print_loop e fd s1 of
                  (res, out, s2) \<Rightarrow>
                    if res = Read_eof then (0, out, snd (close_trace_file e fd s2))
                    else (2, out, s2)))
      | _ \<Rightarrow> (1, ''Usage: prefetch-print-trace tracefile'' @ NL, s))"

section \<open>Correctness\<close>

lemma print_loop_reads:
  "reads (read_prefetch_record e fd) s rs res s' \<Longrightarrow>
   print_loop e fd s = (res, concat (map record_line rs), s')"
proof (induction rule: reads.induct)
  case (stop s res s')
  then show ?case by (subst print_loop.simps) (simp split: read_result.splits)
next
  case (more s r s1 rs res s')
  then show ?case by (subst print_loop.simps) simp
qed

lemma leftover_eof: "leftover bs = Read_eof \<longleftrightarrow> record_size dvd length bs"
  by (simp add: leftover_def dvd_eq_mod_eq_0)

lemma trace_file_fully_read:
  assumes "calm e" and "os_files s filename = Some bs" and "valid_trace_file bs"
  shows "\<exists>fd s1 s2. open_trace_file e filename s = (Inr fd, s1) \<and> fd_of s fd = None
    \<and> reads (read_prefetch_record e fd) s1 (decode_records (trace_data bs))
         (leftover (trace_data bs)) s2
    \<and> fd_of (snd (close_trace_file e fd s2)) = fd_of s
    \<and> os_files (snd (close_trace_file e fd s2)) = os_files s \<and> os_files s2 = os_files s"
proof -
  from open_trace_file_calm [OF assms] obtain fd s1 d where
    o: "open_trace_file e filename s = (Inr fd, s1)" and fresh: "fd_of s fd = None"
    and s1: "fd_of s1 = (fd_of s)(fd \<mapsto> d)" "os_files s1 = os_files s"
    and p: "pending s1 fd = trace_data bs"
    by (auto simp: pending_def trace_data_def)
  from assms(1) s1 have "fd_ready e fd s1" by (simp add: fd_ready_def)
  from lib.reads_all [OF this] p obtain s2 where
    r: "reads (read_prefetch_record e fd) s1 (decode_records (trace_data bs))
         (leftover (trace_data bs)) s2" by auto
  from reads_only_fd [OF r] close_undoes_open [OF _ fresh s1] o fresh r s1 show ?thesis
    by (auto simp: close_trace_file_def only_fd_def)
qed

end
