(* ===== verification/Merge_Correct.thy ===== *)
theory Merge_Correct
  imports Trace_Merge
begin

text \<open>
  What sorting and merging a trace achieve. A record stands for a set of pages (device, inode,
  page number); a merge covers exactly the pages of its input, and on a sorted trace its output
  is sorted, with a gap between neighbouring ranges of one file. Such a list is determined by the
  pages it covers, so sort-and-merge computes a normal form of a trace.
\<close>

section \<open>Pages\<close>

definition rec_fits :: "prefetch_trace_record_t \<Rightarrow> bool" where
  "rec_fits r \<longleftrightarrow> no_wrap (range_start r) (range_length r)"

definition pages :: "prefetch_trace_record_t \<Rightarrow> (u32 \<times> u32 \<times> nat) set" where
  "pages r = (\<lambda>p. (device r, inode_no r, p)) ` span (range_start r) (range_length r)"

definition covered :: "record_data_t list \<Rightarrow> (u32 \<times> u32 \<times> nat) set" where
  "covered xs = (\<Union>x\<in>set xs. pages (rd_record x))"

definition all_fit :: "record_data_t list \<Rightarrow> bool" where
  "all_fit xs \<longleftrightarrow> list_all (\<lambda>x. rec_fits (rd_record x)) xs"

definition all_nonempty :: "record_data_t list \<Rightarrow> bool" where
  "all_nonempty xs \<longleftrightarrow> list_all (\<lambda>x. range_length (rd_record x) \<noteq> 0) xs"

lemma covered_simps [simp, covers]:
  "covered [] = {}" "covered (x # xs) = pages (rd_record x) \<union> covered xs"
  "covered (xs @ ys) = covered xs \<union> covered ys"
  by (auto simp: covered_def)

lemma all_fit_simps [simp, covers]:
  "all_fit []" "all_fit (x # xs) \<longleftrightarrow> rec_fits (rd_record x) \<and> all_fit xs"
  by (auto simp: all_fit_def)

lemma all_nonempty_simps [simp, covers]:
  "all_nonempty []"
  "all_nonempty (x # xs) \<longleftrightarrow> range_length (rd_record x) \<noteq> 0 \<and> all_nonempty xs"
  by (auto simp: all_nonempty_def)

text \<open>The file, the first page and the page after the last one of a record, as numbers.\<close>

definition file_of :: "prefetch_trace_record_t \<Rightarrow> u32 \<times> u32" where
  "file_of r = (device r, inode_no r)"

definition rec_lo :: "prefetch_trace_record_t \<Rightarrow> nat" where
  "rec_lo r = unat (range_start r)"

definition rec_hi :: "prefetch_trace_record_t \<Rightarrow> nat" where
  "rec_hi r = unat (range_start r) + unat (range_length r)"

lemma mem_pages [covers]:
  "(d, i, p) \<in> pages r \<longleftrightarrow> (d, i) = file_of r \<and> rec_lo r \<le> p \<and> p < rec_hi r"
  by (auto simp: pages_def span_def file_of_def rec_lo_def rec_hi_def)

lemma rec_hi_fits: "rec_fits r \<Longrightarrow> unat (range_start r + range_length r) = rec_hi r"
  by (simp add: rec_fits_def no_wrap_unat rec_hi_def)

lemma rec_lo_le_hi: "rec_lo r \<le> rec_hi r"
  by (simp add: rec_lo_def rec_hi_def)

lemma rec_lo_less_hi: "range_length r \<noteq> 0 \<longleftrightarrow> rec_lo r < rec_hi r"
  by (simp add: rec_lo_def rec_hi_def unat_gt_0)

lemma record_eqI: "file_of r = file_of q \<Longrightarrow> rec_lo r = rec_lo q \<Longrightarrow> rec_hi r = rec_hi q \<Longrightarrow> r = q"
  by (cases r; cases q) (simp add: file_of_def rec_lo_def rec_hi_def word_unat_eq_iff)

section \<open>One merge step\<close>

lemma mergeable_iff:
  assumes "rec_fits (rd_record c)" and "rec_fits (rd_record x)"
  shows "mergeable c x \<longleftrightarrow> file_of (rd_record c) = file_of (rd_record x)
    \<and> rec_lo (rd_record x) \<le> rec_hi (rd_record c) \<and> rec_lo (rd_record c) \<le> rec_hi (rd_record x)"
  using assms
  by (auto simp: mergeable_def Let_def rec_fits_def ranges_overlap_iff file_of_def rec_lo_def rec_hi_def)

lemma merged_file [simp]: "file_of (rd_record (merged c x)) = file_of (rd_record c)"
  by (simp add: merged_def Let_def file_of_def)

lemma merged_lo [simp]:
  "rec_lo (rd_record (merged c x)) = min (rec_lo (rd_record c)) (rec_lo (rd_record x))"
  by (simp add: merged_def Let_def rec_lo_def unat_min)

lemma merged_hi:
  assumes "rec_fits (rd_record c)" and "rec_fits (rd_record x)"
  shows "rec_hi (rd_record (merged c x)) = max (rec_hi (rd_record c)) (rec_hi (rd_record x))"
proof -
  let ?s = "min (range_start (rd_record c)) (range_start (rd_record x))"
  let ?e = "max (range_start (rd_record c) + range_length (rd_record c))
                (range_start (rd_record x) + range_length (rd_record x))"
  have s: "unat ?s = min (rec_lo (rd_record c)) (rec_lo (rd_record x))"
    by (simp add: unat_min rec_lo_def)
  have e: "unat ?e = max (rec_hi (rd_record c)) (rec_hi (rd_record x))"
    using assms by (simp add: unat_max rec_hi_fits)
  have "?s \<le> ?e"
    unfolding word_le_nat_alt s e
    using rec_lo_le_hi [of "rd_record c"] rec_lo_le_hi [of "rd_record x"] by linarith
  moreover have "rec_hi (rd_record (merged c x)) = unat ?s + unat (?e - ?s)"
    by (simp add: merged_def Let_def rec_hi_def)
  ultimately show ?thesis
    using e by (simp add: unat_sub_le word_le_nat_alt)
qed

lemma merged_covers:
  assumes "mergeable c x" and "rec_fits (rd_record c)" and "rec_fits (rd_record x)"
  shows "pages (rd_record (merged c x)) = pages (rd_record c) \<union> pages (rd_record x)"
    and "rec_fits (rd_record (merged c x))"
proof -
  from assms have touch: "file_of (rd_record c) = file_of (rd_record x)"
      "rec_lo (rd_record x) \<le> rec_hi (rd_record c)" "rec_lo (rd_record c) \<le> rec_hi (rd_record x)"
    by (simp_all add: mergeable_iff)
  show "pages (rd_record (merged c x)) = pages (rd_record c) \<union> pages (rd_record x)"
    unfolding set_eq_iff
  proof (clarify)
    fix d i p
    show "(d, i, p) \<in> pages (rd_record (merged c x)) \<longleftrightarrow>
        (d, i, p) \<in> pages (rd_record c) \<union> pages (rd_record x)"
      unfolding Un_iff mem_pages merged_file merged_lo merged_hi [OF assms(2,3)] touch(1)
      using touch(2,3) by linarith
  qed
  have "rec_hi (rd_record (merged c x)) < 2 ^ 32"
    using assms(2,3) unfolding merged_hi [OF assms(2,3)]
    by (simp add: rec_hi_def rec_fits_def no_wrap_def)
  then show "rec_fits (rd_record (merged c x))"
    by (simp add: rec_hi_def rec_fits_def no_wrap_def)
qed

lemma merge_from_covers:
  "rec_fits (rd_record c) \<Longrightarrow> all_fit xs \<Longrightarrow>
   covered (merge_from c xs) = pages (rd_record c) \<union> covered xs \<and> all_fit (merge_from c xs)"
  by (induction c xs rule: merge_from.induct) (auto simp: merged_covers)

lemma merge_ref_covers: "all_fit xs \<Longrightarrow> covered (merge_ref xs) = covered xs \<and> all_fit (merge_ref xs)"
  by (cases xs) (auto simp: merge_from_covers)

lemma length_merge_from: "length (merge_from c xs) \<le> Suc (length xs)"
  by (induction c xs rule: merge_from.induct) (auto simp: le_Suc_eq)

section \<open>Merging a sorted trace\<close>

definition file_pos :: "prefetch_trace_record_t \<Rightarrow> u32 \<times> u32 \<times> u32" where
  "file_pos r = (device r, inode_no r, range_start r)"

definition separated :: "record_data_t \<Rightarrow> record_data_t \<Rightarrow> bool" where
  "separated a b \<longleftrightarrow> (let x = rd_record a; y = rd_record b in
     file_of x < file_of y \<or> (file_of x = file_of y \<and> rec_hi x < rec_lo y))"

abbreviation pos_le :: "record_data_t \<Rightarrow> record_data_t \<Rightarrow> bool" where
  "pos_le a b \<equiv> file_pos (rd_record a) \<le> file_pos (rd_record b)"

lemma not_cmp_pos_le: "\<not> trace_record_cmp b a \<Longrightarrow> pos_le a b"
  by (auto simp: trace_record_cmp_key trace_key_def file_pos_def not_less less_eq_prod_simp
      less_prod_simp)

lemma file_pos_le:
  "file_pos x \<le> file_pos y \<longleftrightarrow> file_of x < file_of y \<or> (file_of x = file_of y \<and> rec_lo x \<le> rec_lo y)"
  by (auto simp: file_pos_def file_of_def rec_lo_def word_le_nat_alt [of "range_start _"])

lemma merged_pos:
  assumes "mergeable c x" and "pos_le c x"
  shows "file_pos (rd_record (merged c x)) = file_pos (rd_record c)"
  using assms by (auto simp: mergeable_def merged_def Let_def file_pos_def min_def)

lemma merge_from_pos:
  "sorted_wrt pos_le (c # xs) \<Longrightarrow> y \<in> set (merge_from c xs) \<Longrightarrow> pos_le c y"
proof (induction c xs rule: merge_from.induct)
  case (2 c x xs)
  show ?case
  proof (cases "mergeable c x")
    case True
    with 2 merged_pos [OF True] show ?thesis by simp
  next
    case False
    with 2 show ?thesis by (auto intro: order_trans)
  qed
qed simp

lemma not_mergeable_separated:
  assumes "\<not> mergeable c x" and "pos_le c x" and "pos_le x y"
    and "rec_fits (rd_record c)" and "rec_fits (rd_record x)"
  shows "separated c y"
proof (cases "file_of (rd_record c) < file_of (rd_record y)")
  case True
  then show ?thesis by (simp add: separated_def)
next
  case False
  with assms(2,3) have "file_of (rd_record c) = file_of (rd_record x)"
      "file_of (rd_record x) = file_of (rd_record y)"
      "rec_lo (rd_record c) \<le> rec_lo (rd_record x)" "rec_lo (rd_record x) \<le> rec_lo (rd_record y)"
    unfolding file_pos_le by (auto dest: order.strict_trans)
  with assms(1,4,5) rec_lo_le_hi [of "rd_record x"] show ?thesis
    by (simp add: mergeable_iff separated_def Let_def)
qed

lemma merge_from_separated:
  "sorted_wrt pos_le (c # xs) \<Longrightarrow> rec_fits (rd_record c) \<Longrightarrow> all_fit xs \<Longrightarrow>
   sorted_wrt separated (merge_from c xs)"
proof (induction c xs rule: merge_from.induct)
  case (2 c x xs)
  show ?case
  proof (cases "mergeable c x")
    case True
    with 2 merged_pos [OF True] show ?thesis by (simp add: merged_covers)
  next
    case False
    have "separated c y" if "y \<in> set (merge_from x xs)" for y
      using not_mergeable_separated [OF False, of y] merge_from_pos [OF _ that] 2 by simp
    with 2 False show ?thesis by simp
  qed
qed simp

lemma merge_from_nonempty:
  "rec_fits (rd_record c) \<Longrightarrow> all_fit xs \<Longrightarrow> range_length (rd_record c) \<noteq> 0 \<Longrightarrow> all_nonempty xs \<Longrightarrow>
   all_nonempty (merge_from c xs)"
proof (induction c xs rule: merge_from.induct)
  case (2 c x xs)
  show ?case
  proof (cases "mergeable c x")
    case True
    have "range_length (rd_record (merged c x)) \<noteq> 0"
    proof
      assume "range_length (rd_record (merged c x)) = 0"
      then have "pages (rd_record (merged c x)) = {}" by (simp add: pages_def)
      then have "pages (rd_record c) = {}" using merged_covers(1) [OF True] 2 by simp
      with 2 show False by (simp add: pages_def span_def unat_eq_zero)
    qed
    with True 2 show ?thesis by (simp add: merged_covers)
  next
    case False
    with 2 show ?thesis by simp
  qed
qed simp

section \<open>Sort and merge\<close>

lemma covered_mset: "mset xs = mset ys \<Longrightarrow> covered xs = covered ys"
  by (metis covered_def set_mset_mset)

lemma all_fit_mset: "mset xs = mset ys \<Longrightarrow> all_fit xs \<Longrightarrow> all_fit ys"
  by (metis all_fit_def list_all_iff set_mset_mset)

lemma all_nonempty_mset: "mset xs = mset ys \<Longrightarrow> all_nonempty xs \<Longrightarrow> all_nonempty ys"
  by (metis all_nonempty_def list_all_iff set_mset_mset)

lemma merge_ref_separated: "sorted_wrt pos_le xs \<Longrightarrow> all_fit xs \<Longrightarrow> sorted_wrt separated (merge_ref xs)"
  by (cases xs) (simp_all add: merge_from_separated del: sorted_wrt.simps(2))

lemma merge_ref_nonempty: "all_fit xs \<Longrightarrow> all_nonempty xs \<Longrightarrow> all_nonempty (merge_ref xs)"
  by (cases xs) (simp_all add: merge_from_nonempty)

lemma length_merge_ref: "length (merge_ref xs) \<le> length xs"
  by (cases xs) (simp_all add: length_merge_from)

lemma sorted_sum_ref: "trace_file_data_sorted_sum srt xs = merge_ref (srt xs)"
  by (simp add: trace_file_data_sorted_sum_def Let_def trace_merge_ref)

lemma srt_pos_le: "std_sort trace_record_cmp srt \<Longrightarrow> sorted_wrt pos_le (srt xs)"
  by (rule sorted_wrt_mono_rel [OF _ std_sort.srt_sorted]) (auto intro: not_cmp_pos_le)

lemma sorted_sum_covers:
  assumes "std_sort trace_record_cmp srt" and "all_fit xs"
  shows "covered (trace_file_data_sorted_sum srt xs) = covered xs"
    and "all_fit (trace_file_data_sorted_sum srt xs)"
  using merge_ref_covers [OF all_fit_mset [OF sym [OF std_sort.srt_mset [OF assms(1)]] assms(2)]]
    covered_mset [OF std_sort.srt_mset [OF assms(1), of xs]]
  by (simp_all add: sorted_sum_ref)

lemma sorted_sum_separated:
  assumes "std_sort trace_record_cmp srt" and "all_fit xs"
  shows "sorted_wrt separated (trace_file_data_sorted_sum srt xs)"
  unfolding sorted_sum_ref
  using all_fit_mset [OF sym [OF std_sort.srt_mset [OF assms(1)]] assms(2)]
  by (rule merge_ref_separated [OF srt_pos_le [OF assms(1)]])

lemma sorted_sum_nonempty:
  assumes "std_sort trace_record_cmp srt" and "all_fit xs" and "all_nonempty xs"
  shows "all_nonempty (trace_file_data_sorted_sum srt xs)"
  unfolding sorted_sum_ref
  using all_fit_mset [OF sym [OF std_sort.srt_mset [OF assms(1)]] assms(2)]
    all_nonempty_mset [OF sym [OF std_sort.srt_mset [OF assms(1)]] assms(3)]
  by (rule merge_ref_nonempty)

section \<open>The result is a normal form\<close>

text \<open>
  A separated list of nonempty ranges is determined by the pages it covers: the least page
  gives the start of the first record, the first gap after it gives its length.
\<close>

lemma separated_after:
  assumes "sorted_wrt separated (a # xs)" and "all_nonempty (a # xs)" and "(d, i, p) \<in> covered xs"
  shows "file_of (rd_record a) < (d, i) \<or> (file_of (rd_record a) = (d, i) \<and> rec_hi (rd_record a) < p)"
proof -
  from assms(3) obtain b where b: "b \<in> set xs" "(d, i, p) \<in> pages (rd_record b)"
    by (auto simp: covered_def)
  with assms(1) have "separated a b" by simp
  with b(2) show ?thesis by (auto simp: separated_def Let_def mem_pages)
qed

lemma separated_head:
  assumes "sorted_wrt separated (a # xs)" and "all_nonempty (a # xs)"
    and "sorted_wrt separated (b # ys)" and "all_nonempty (b # ys)"
    and "covered (a # xs) = covered (b # ys)"
  shows "file_of (rd_record a) \<le> file_of (rd_record b)"
    and "file_of (rd_record a) = file_of (rd_record b) \<Longrightarrow> rec_lo (rd_record a) \<le> rec_lo (rd_record b)"
proof -
  obtain d i where f: "file_of (rd_record b) = (d, i)" by fastforce
  from assms(4) have "rec_lo (rd_record b) < rec_hi (rd_record b)" by (simp add: rec_lo_less_hi)
  with f have "(d, i, rec_lo (rd_record b)) \<in> covered (a # xs)"
    unfolding assms(5) by (simp add: mem_pages)
  then have "(d, i, rec_lo (rd_record b)) \<in> pages (rd_record a)
      \<or> (d, i, rec_lo (rd_record b)) \<in> covered xs" by simp
  then have "file_of (rd_record a) < (d, i) \<or> (file_of (rd_record a) = (d, i) \<and>
      rec_lo (rd_record a) \<le> rec_lo (rd_record b))"
    using separated_after [OF assms(1,2)] rec_lo_le_hi [of "rd_record a"] by (fastforce simp: mem_pages)
  then show "file_of (rd_record a) \<le> file_of (rd_record b)"
    and "file_of (rd_record a) = file_of (rd_record b) \<Longrightarrow> rec_lo (rd_record a) \<le> rec_lo (rd_record b)"
    unfolding f by auto
qed

lemma separated_head_end:
  assumes "sorted_wrt separated (a # xs)" and "all_nonempty (a # xs)"
    and "covered (a # xs) = covered (b # ys)"
    and "file_of (rd_record a) = file_of (rd_record b)" and "rec_lo (rd_record a) = rec_lo (rd_record b)"
  shows "rec_hi (rd_record b) \<le> rec_hi (rd_record a)"
proof (rule ccontr)
  obtain d i where f: "file_of (rd_record a) = (d, i)" by fastforce
  assume "\<not> rec_hi (rd_record b) \<le> rec_hi (rd_record a)"
  with f assms(4,5) rec_lo_le_hi [of "rd_record a"]
  have "(d, i, rec_hi (rd_record a)) \<in> covered (a # xs)"
    unfolding assms(3) by (simp add: mem_pages)
  with separated_after [OF assms(1,2), of d i "rec_hi (rd_record a)"] f
  show False by (auto simp: mem_pages)
qed

lemma separated_tail:
  assumes "sorted_wrt separated (a # xs)" and "all_nonempty (a # xs)"
  shows "covered xs = covered (a # xs) - pages (rd_record a)"
proof -
  have "q \<notin> pages (rd_record a)" if "q \<in> covered xs" for q
    using that separated_after [OF assms] by (cases q) (fastforce simp: mem_pages)
  then show ?thesis by auto
qed

lemma separated_unique:
  assumes "sorted_wrt separated xs" and "all_nonempty xs"
    and "sorted_wrt separated ys" and "all_nonempty ys" and "covered xs = covered ys"
  shows "map rd_record xs = map rd_record ys"
  using assms
proof (induction xs arbitrary: ys)
  case Nil
  then show ?case
    by (cases ys) (auto simp: rec_lo_less_hi pages_def span_def rec_lo_def rec_hi_def)
next
  case (Cons a xs)
  have "covered (a # xs) \<noteq> {}"
    using Cons.prems(2) by (auto simp: rec_lo_less_hi pages_def span_def rec_lo_def rec_hi_def)
  then obtain b ys' where ys: "ys = b # ys'"
    using Cons.prems(5) by (cases ys) auto
  note prems = Cons.prems [unfolded ys]
  have fil: "file_of (rd_record a) = file_of (rd_record b)"
    using separated_head(1) [OF prems] separated_head(1) [OF prems(3,4,1,2) prems(5) [symmetric]] by simp
  have lo: "rec_lo (rd_record a) = rec_lo (rd_record b)"
    using separated_head(2) [OF prems fil]
      separated_head(2) [OF prems(3,4,1,2) prems(5) [symmetric] fil [symmetric]] by simp
  have "rec_hi (rd_record a) = rec_hi (rd_record b)"
    using separated_head_end [OF prems(1,2,5) fil lo]
      separated_head_end [OF prems(3,4) prems(5) [symmetric] fil [symmetric] lo [symmetric]] by simp
  with fil lo have eq: "rd_record a = rd_record b" by (rule record_eqI)
  then have "covered xs = covered ys'"
    using separated_tail [OF prems(1,2)] separated_tail [OF prems(3,4)] prems(5) by simp
  with Cons.IH [of ys'] prems eq show ?case unfolding ys by simp
qed

lemma merge_ref_separated_id:
  "sorted_wrt separated xs \<Longrightarrow> all_fit xs \<Longrightarrow> merge_ref xs = xs"
proof (induction xs rule: induct_list012)
  case (3 x y zs)
  then have "\<not> mergeable x y" by (auto simp: separated_def Let_def mergeable_iff)
  with 3 show ?case by simp
qed simp_all

end
