(* ===== verification/Process_Trace.thy ===== *)
theory Process_Trace
  imports Print_Trace Merge_Correct
begin

text \<open>
  The tool \<open>prefetch-process-trace\<close> (\<open>prefetch-process-trace.cpp\<close>): reading the input
  traces, writing the result, the built-in unit tests and the command line. The option parser
  \<open>getopt_long\<close> belongs to the C library; \<open>main\<close> takes the sequence of its return
  values, each with the option's argument.
\<close>

section \<open>Reading the input traces\<close>

function read_data_loop ::
  "env \<Rightarrow> nat \<Rightarrow> int \<Rightarrow> os \<Rightarrow> read_result \<times> record_data_t list \<times> int \<times> os" where
  "read_data_loop e fd index s =
     (case read_prefetch_record e fd s of
        (Read_ok r, s1) \<Rightarrow>
          (let (res, rs, index', s2) = read_data_loop e fd (index + 1) s1
           in (res, \<lparr>rd_record = r, rd_index = index\<rparr> # rs, index', s2))
      | (res, s1) \<Rightarrow> (res, [], index, s1))"
  by pat_completeness auto
termination
  by (relation "measure (\<lambda>(e, fd, index, s). length (pending s fd))")
    (auto dest: read_prefetch_record_shrinks [OF sym] read_prefetch_record_shrinks)

declare read_data_loop.simps [simp del]

text \<open>
  The static counter \<open>index\<close> lives across calls and is threaded through, like the container
  that the records are appended to. A read error returns without closing the file.
\<close>

definition trace_file_read_data ::
  "env \<Rightarrow> string \<Rightarrow> record_data_t list \<Rightarrow> int \<Rightarrow> os
     \<Rightarrow> bool \<times> record_data_t list \<times> int \<times> os" where
  "trace_file_read_data e filename records index s =
     (case open_trace_file e filename s of
        (Inl _, s1) \<Rightarrow> (False, records, index, s1)
      | (Inr fd, s1) \<Rightarrow>
          (case read_data_loop e fd index s1 of
             (res, rs, index', s2) \<Rightarrow>
               if res = Read_eof
               then (True, records @ rs, index', snd (close_trace_file e fd s2))
               else (False, records @ rs, index', s2)))"

fun read_all_files ::
  "env \<Rightarrow> string list \<Rightarrow> record_data_t list \<Rightarrow> int \<Rightarrow> os
     \<Rightarrow> bool \<times> record_data_t list \<times> int \<times> os" where
  "read_all_files e [] records index s = (True, records, index, s)"
| "read_all_files e (f # fs) records index s =
     (case trace_file_read_data e f records index s of
        (False, records', index', s') \<Rightarrow> (False, records', index', s')
      | (True, records', index', s') \<Rightarrow> read_all_files e fs records' index' s')"

section \<open>Writing the result\<close>

fun write_records :: "env \<Rightarrow> nat \<Rightarrow> record_data_t list \<Rightarrow> bool \<times> byte list" where
  "write_records e k [] = (True, [])"
| "write_records e k (r # rs) =
     (if env_fwrite e k
      then (let (ok, out) = write_records e (Suc k) rs in (ok, record_bytes (rd_record r) @ out))
      else (False, []))"

definition output_trace_file_data :: "env \<Rightarrow> record_data_t list \<Rightarrow> bool \<times> byte list" where
  "output_trace_file_data e records =
     (if env_fwrite e 0
      then (let (ok, out) = write_records e 1 records
            in (ok, header_bytes fill_trace_file_header @ out))
      else (False, []))"

section \<open>The built-in unit tests\<close>

definition ranges_overlap_test :: "bool \<Rightarrow> u32 \<Rightarrow> u32 \<Rightarrow> u32 \<Rightarrow> u32 \<Rightarrow> bool" where
  "ranges_overlap_test result start1 len1 start2 len2 \<longleftrightarrow>
     ranges_overlap start1 len1 start2 len2 = result
     \<and> ranges_overlap start2 len2 start1 len1 = result"

definition unittest_ranges_overlap :: bool where
  "unittest_ranges_overlap \<longleftrightarrow>
     ranges_overlap_test True 0 1 1 1
   \<and> ranges_overlap_test True 0 2 2 2
   \<and> ranges_overlap_test True 1 2 3 1
   \<and> ranges_overlap_test True 1 3 3 5
   \<and> ranges_overlap_test True 1 3 2 7
   \<and> ranges_overlap_test True 1 6 3 4
   \<and> ranges_overlap_test True 0 4 0 9
   \<and> ranges_overlap_test True 1 1 1 7
   \<and> ranges_overlap_test True 2 2 1 7
   \<and> ranges_overlap_test True 2 2 0 4
   \<and> ranges_overlap_test False 1 2 4 1
   \<and> ranges_overlap_test False 1 1 3 7
   \<and> ranges_overlap_test False 1 1 6 3
   \<and> ranges_overlap_test False 10 10 22 222"

text \<open>A failing merge test is reported and the tests go on: the names of the failing ones.\<close>

definition trace_merge_test ::
  "string \<Rightarrow> record_data_t list \<Rightarrow> record_data_t list \<Rightarrow> string list" where
  "trace_merge_test test_name input expected =
     (if list_all2 record_data_eq expected (trace_merge input 0 (length input)) then []
      else [test_name])"

definition push_test_record :: "u32 \<times> u32 \<Rightarrow> int \<Rightarrow> u32 \<Rightarrow> u32 \<Rightarrow> record_data_t" where
  "push_test_record other index start len =
     \<lparr>rd_record = \<lparr>device = fst other, inode_no = snd other,
                   range_start = start, range_length = len\<rparr>,
      rd_index = index\<rparr>"

definition unittest_trace_merge :: "string list" where
  "unittest_trace_merge =
     (let inode1_7 = (1, 7); inode1_8 = (1, 8); inode2_7 = (2, 7);
          p = push_test_record inode1_7
      in trace_merge_test ''Empty trace'' [] []
       @ trace_merge_test ''One record'' [p 0 0 1] [p 0 0 1]
       @ trace_merge_test ''Two unrelated in the same inode'' [p 0 1 2, p 1 4 1] [p 0 1 2, p 1 4 1]
       @ trace_merge_test ''Two unrelated in different inode''
           [p 0 1 2, push_test_record inode1_8 1 1 2] [p 0 1 2, push_test_record inode1_8 1 1 2]
       @ trace_merge_test ''Two unrelated in different device, the same inode''
           [p 0 1 2, push_test_record inode2_7 1 1 2] [p 0 1 2, push_test_record inode2_7 1 1 2]
       @ trace_merge_test ''Two consecutive merged'' [p 0 1 1, p 1 2 1] [p 0 1 2]
       @ trace_merge_test ''Two the same merged'' [p 0 1 3, p 1 1 3] [p 0 1 3]
       @ trace_merge_test ''Three consecutive merged'' [p 0 1 1, p 1 2 1, p 2 3 2] [p 0 1 4]
       @ trace_merge_test ''Three overlapping merged'' [p 0 1 2, p 1 2 2, p 2 3 2] [p 0 1 4]
       @ trace_merge_test ''Two consecutive merged with not merged before''
           [p 0 0 2, p 1 4 1, p 2 5 1] [p 0 0 2, p 1 4 2]
       @ trace_merge_test ''Two consecutive merged with not merged after''
           [p 0 4 1, p 1 5 1, p 2 10 2] [p 0 4 2, p 2 10 2]
       @ trace_merge_test ''Two overlapping merged with not merged after''
           [p 0 0 4, p 1 0 9, p 2 10 7] [p 0 0 9, p 2 10 7]
       @ trace_merge_test ''Two overlapping merged with not merged after''
           [p 0 29 1, p 1 32 3, p 2 35 1, p 3 37 2, p 4 37 6, p 4 42 1]
           [p 0 29 1, p 1 32 4, p 3 37 6])"

section \<open>The command line\<close>

definition ascii :: "string \<Rightarrow> byte list" where
  "ascii s = map of_char s"

definition usage :: "byte list" where
  "usage = ascii (''Usage: prefetch-process-trace [options] -c command file1 ... '' @ NL
     @ ''Result is output on stdout'' @ NL @ ''Available commands:'' @ NL
     @ TAB @ ''sort-sum - concatenates, sorts and merges all input files'' @ NL)"

definition UNITTESTS :: int where "UNITTESTS = 1234"

text \<open>
  The option loop: an exit code with the standard output (\<open>Inl\<close>), or the command that was
  selected. The long option \<open>--help\<close> has the value 0 and reaches the default case.
\<close>

fun parse_options ::
  "env \<Rightarrow> string option \<Rightarrow> (int \<times> string) list \<Rightarrow> (int \<times> byte list) + string option" where
  "parse_options e command [] = Inr command"
| "parse_options e command ((c, optarg) # rest) =
     (if c = of_char CHR ''c'' then
        (if command \<noteq> None then Inl (1, usage)
         else if \<not> env_strdup e then Inl (1, [])
         else parse_options e (Some optarg) rest)
      else if c = of_char CHR ''h'' then Inl (0, usage)
      else if c = UNITTESTS then
        (if \<not> unittest_ranges_overlap then Inl (7, [])
         else Inl (0, ascii (''Unittests finished'' @ NL)))
      else Inl (1, usage))"

definition process_trace_main ::
  "(record_data_t list \<Rightarrow> record_data_t list) \<Rightarrow> env \<Rightarrow> (int \<times> string) list \<Rightarrow> string list \<Rightarrow> os
     \<Rightarrow> int \<times> byte list \<times> os" where
  "process_trace_main srt e opts files s =
     (case parse_options e None opts of
        Inl (code, out) \<Rightarrow> (code, out, s)
      | Inr None \<Rightarrow> (1, usage, s)
      | Inr (Some command) \<Rightarrow>
          if command = ''sort-sum'' then
            (case read_all_files e files [] 0 s of
               (False, _, _, s') \<Rightarrow> (1, [], s')
             | (True, records, _, s') \<Rightarrow>
                 (let (ok, out) = output_trace_file_data e (trace_file_data_sorted_sum srt records)
                  in if ok then (0, out, s') else (1, out, s')))
          else (1, usage, s))"

section \<open>Correctness of reading and writing\<close>

fun index_records :: "int \<Rightarrow> prefetch_trace_record_t list \<Rightarrow> record_data_t list" where
  "index_records i [] = []"
| "index_records i (r # rs) = \<lparr>rd_record = r, rd_index = i\<rparr> # index_records (i + 1) rs"

lemma map_rd_record_index [simp]: "map rd_record (index_records i rs) = rs"
  by (induction rs arbitrary: i) auto

lemma index_records_append:
  "index_records i (rs @ qs) = index_records i rs @ index_records (i + int (length rs)) qs"
  by (induction rs arbitrary: i) (auto simp: algebra_simps)

lemma read_data_loop_reads:
  "reads (read_prefetch_record e fd) s rs res s' \<Longrightarrow>
   read_data_loop e fd index s = (res, index_records index rs, index + int (length rs), s')"
proof (induction arbitrary: index rule: reads.induct)
  case (stop s res s')
  then show ?case by (subst read_data_loop.simps) (simp split: read_result.splits)
next
  case (more s r s1 rs res s')
  then show ?case by (subst read_data_loop.simps) (simp add: algebra_simps)
qed

lemma write_records_all:
  "(\<forall>n. env_fwrite e n) \<Longrightarrow> write_records e k rs = (True, encode_records (map rd_record rs))"
  by (induction rs arbitrary: k) (simp_all add: encode_records_def)

lemma output_trace_file_data_all:
  "(\<forall>n. env_fwrite e n) \<Longrightarrow> output_trace_file_data e rs =
     (True, header_bytes fill_trace_file_header @ encode_records (map rd_record rs))"
  by (simp add: output_trace_file_data_def write_records_all)

lemma trace_file_read_data_calm:
  assumes "calm e" and "os_files s filename = Some bs" and "valid_trace_file bs"
    and "record_size dvd length (trace_data bs)"
  shows "\<exists>s'. trace_file_read_data e filename records index s =
      (True, records @ index_records index (decode_records (trace_data bs)),
       index + int (length (decode_records (trace_data bs))), s')
    \<and> fd_of s' = fd_of s \<and> os_files s' = os_files s"
proof -
  from trace_file_fully_read [OF assms(1-3)] assms(4) obtain fd s1 s2 where
    o: "open_trace_file e filename s = (Inr fd, s1)" and
    r: "reads (read_prefetch_record e fd) s1 (decode_records (trace_data bs)) Read_eof s2" and
    c: "fd_of (snd (close_trace_file e fd s2)) = fd_of s"
       "os_files (snd (close_trace_file e fd s2)) = os_files s"
    by (auto simp: leftover_eof [symmetric])
  from read_data_loop_reads [OF r] o c show ?thesis
    by (simp add: trace_file_read_data_def)
qed

text \<open>The inputs that the tool accepts, and the records they hold in the order of reading.\<close>

definition good_trace :: "os \<Rightarrow> string \<Rightarrow> bool" where
  "good_trace s f \<longleftrightarrow> (case os_files s f of
     None \<Rightarrow> False
   | Some bs \<Rightarrow> valid_trace_file bs \<and> record_size dvd length (trace_data bs))"

definition file_records :: "os \<Rightarrow> string \<Rightarrow> prefetch_trace_record_t list" where
  "file_records s f =
     (case os_files s f of None \<Rightarrow> [] | Some bs \<Rightarrow> decode_records (trace_data bs))"

lemma read_all_files_calm:
  assumes "calm e" and "list_all (good_trace s) files"
  shows "\<exists>s' i. read_all_files e files records index s =
      (True, records @ index_records index (concat (map (file_records s) files)), i, s')
    \<and> fd_of s' = fd_of s \<and> os_files s' = os_files s"
  using assms(2)
proof (induction files arbitrary: records index s)
  case Nil
  then show ?case by simp
next
  case (Cons f fs)
  then obtain bs where bs: "os_files s f = Some bs" "valid_trace_file bs"
      "record_size dvd length (trace_data bs)"
    by (auto simp: good_trace_def split: option.splits)
  from trace_file_read_data_calm [OF assms(1) bs, of records index] obtain s1 where
    s1: "trace_file_read_data e f records index s =
        (True, records @ index_records index (file_records s f),
         index + int (length (file_records s f)), s1)"
      "fd_of s1 = fd_of s" "os_files s1 = os_files s"
    using bs(1) by (auto simp: file_records_def)
  have same: "good_trace s1 = good_trace s" "file_records s1 = file_records s"
    using s1(3) by (simp_all add: good_trace_def file_records_def fun_eq_iff)
  from Cons.IH [of s1 "records @ index_records index (file_records s f)"
      "index + int (length (file_records s f))"] Cons.prems s1 same
  show ?case by (simp add: index_records_append)
qed

text \<open>A trace that the tool has written is accepted by its own reader.\<close>

lemma written_trace:
  "valid_trace_file (header_bytes fill_trace_file_header @ bs)
   \<and> trace_data (header_bytes fill_trace_file_header @ bs) = bs"
proof -
  have start: "unat (data_start fill_trace_file_header) = header_size"
    by (simp add: fill_trace_file_header_def header_size_def)
  have "valid_header fill_trace_file_header"
    by (simp add: valid_header_def start) (simp add: fill_trace_file_header_def)
  then show ?thesis
    by (simp add: valid_trace_file_def trace_data_def start)
qed

section \<open>Properties\<close>

text \<open>
  an \<open>open_trace_file\<close> that fails, in whatever way and in whatever environment, leaves
  the descriptor table and the files as they were: no descriptor leaks on an error path.
\<close>

theorem open_trace_file_no_leak:
  assumes "open_trace_file e filename s = (Inl err, s')"
  shows "open_fds s' = open_fds s \<and> os_files s' = os_files s"
  using open_trace_file_error_frame [OF assms] by (simp add: open_fds_def)

text \<open>An environment without failures, for the witnesses.\<close>

definition calm_env :: env where
  "calm_env = \<lparr>env_open = (\<lambda>_. True), env_read = (\<lambda>_. Some 4096), env_seek = (\<lambda>_. True),
     env_close = (\<lambda>_. True), env_junk = (\<lambda>_ _. 0), env_strdup = True, env_fwrite = (\<lambda>_. True)\<rparr>"

lemma calm_calm_env: "calm calm_env"
  by (auto simp: calm_def calm_env_def record_size_def intro!: exI [of _ "4096"])

definition os_with :: "(string \<rightharpoonup> byte list) \<Rightarrow> os" where
  "os_with files = \<lparr>os_files = files, os_fds = replicate 3 (Some \<lparr>fd_data = [], fd_pos = 0\<rparr>), os_calls = 0\<rparr>"

text \<open>The pages of a list of records, without indices.\<close>

definition page_set :: "prefetch_trace_record_t list \<Rightarrow> (u32 \<times> u32 \<times> nat) set" where
  "page_set rs = (\<Union>r\<in>set rs. pages r)"

lemma covered_page_set: "covered xs = page_set (map rd_record xs)"
  by (simp add: covered_def page_set_def)

lemma page_set_append [simp]: "page_set (xs @ ys) = page_set xs \<union> page_set ys"
  by (auto simp: page_set_def)

lemma all_fit_list_all: "all_fit xs \<longleftrightarrow> list_all rec_fits (map rd_record xs)"
  by (simp add: all_fit_def list_all_iff)

definition sort_sum_opts :: "(int \<times> string) list" where
  "sort_sum_opts = [(of_char CHR ''c'', ''sort-sum'')]"

lemma process_trace_main_calm:
  assumes "calm e" and "\<forall>n. env_fwrite e n" and "env_strdup e" and "list_all (good_trace s) files"
  shows "\<exists>s'. process_trace_main srt e sort_sum_opts files s =
      (0, header_bytes fill_trace_file_header @ encode_records (map rd_record
            (trace_file_data_sorted_sum srt (index_records 0 (concat (map (file_records s) files))))), s')
    \<and> fd_of s' = fd_of s \<and> os_files s' = os_files s"
proof -
  from read_all_files_calm [OF assms(1,4), of "[]" 0] obtain s' i where
    "read_all_files e files [] 0 s =
       (True, index_records 0 (concat (map (file_records s) files)), i, s')"
    "fd_of s' = fd_of s" "os_files s' = os_files s" by auto
  then show ?thesis
    using assms(2,3)
    by (simp add: process_trace_main_def sort_sum_opts_def output_trace_file_data_all)
qed

text \<open>
  C2: \<open>prefetch-process-trace -c sort-sum file1 ...\<close>, run on readable trace files with whole
  records whose ranges do not wrap, exits with 0, writes a file that its own reader accepts, and
  that file records exactly the pages that the inputs record, in at most as many records, sorted,
  with a gap between two ranges of one file. No descriptor stays open.
\<close>

theorem process_trace_sort_sum:
  assumes "calm e" and "\<forall>n. env_fwrite e n" and "env_strdup e"
    and "std_sort trace_record_cmp srt"
    and "list_all (good_trace s) files"
    and "list_all rec_fits (concat (map (file_records s) files))"
  shows "\<exists>out s' rs. process_trace_main srt e sort_sum_opts files s = (0, out, s')
    \<and> valid_trace_file out \<and> trace_data out = encode_records rs
    \<and> page_set rs = page_set (concat (map (file_records s) files))
    \<and> length rs \<le> length (concat (map (file_records s) files))
    \<and> sorted_wrt (\<lambda>x y. file_of x < file_of y \<or> (file_of x = file_of y \<and> rec_hi x < rec_lo y)) rs
    \<and> open_fds s' = open_fds s"
proof -
  let ?in = "index_records 0 (concat (map (file_records s) files))"
  let ?sum = "trace_file_data_sorted_sum srt ?in"
  from process_trace_main_calm [OF assms(1,2,3,5), of srt] obtain s' where
    run: "process_trace_main srt e sort_sum_opts files s =
      (0, header_bytes fill_trace_file_header @ encode_records (map rd_record ?sum), s')"
      "fd_of s' = fd_of s" by blast
  have fit: "all_fit ?in" using assms(6) by (simp add: all_fit_list_all)
  have "page_set (map rd_record ?sum) = page_set (concat (map (file_records s) files))"
    using sorted_sum_covers(1) [OF assms(4) fit] by (simp add: covered_page_set)
  moreover have "length (map rd_record ?sum) \<le> length (concat (map (file_records s) files))"
    using length_merge_ref [of "srt ?in"] std_sort.length_srt [OF assms(4), of ?in]
    by (metis length_map map_rd_record_index sorted_sum_ref)
  moreover have "sorted_wrt (\<lambda>x y. file_of x < file_of y
      \<or> (file_of x = file_of y \<and> rec_hi x < rec_lo y)) (map rd_record ?sum)"
    using sorted_sum_separated [OF assms(4) fit]
    by (simp add: sorted_wrt_map separated_def [abs_def] Let_def)
  ultimately show ?thesis
    using run written_trace by (auto simp: open_fds_def)
qed

definition sample_record :: "u32 \<Rightarrow> u32 \<Rightarrow> prefetch_trace_record_t" where
  "sample_record start len =
     \<lparr>device = 0x300001, inode_no = 7, range_start = start, range_length = len\<rparr>"

definition sample_os :: os where
  "sample_os = os_with [''a'' \<mapsto> header_bytes fill_trace_file_header
       @ encode_records [sample_record 4 2, sample_record 0 1],
     ''b'' \<mapsto> header_bytes fill_trace_file_header @ encode_records [sample_record 5 3]]"

lemma sample_os_good: "good_trace sample_os ''a''" "good_trace sample_os ''b''"
  by (simp_all add: good_trace_def sample_os_def os_with_def written_trace length_encode_records)

lemma sample_os_records:
  "file_records sample_os ''a'' = [sample_record 4 2, sample_record 0 1]"
  "file_records sample_os ''b'' = [sample_record 5 3]"
  by (simp_all add: file_records_def sample_os_def os_with_def written_trace decode_encode_records)

theorem process_trace_sort_sum_witness:
  "\<exists>out s' rs. process_trace_main (cmp_sort trace_record_cmp) calm_env sort_sum_opts
      [''a'', ''b''] sample_os = (0, out, s')
    \<and> trace_data out = encode_records rs \<and> page_set rs = {(0x300001, 7, 0)} \<union> (\<lambda>p. (0x300001, 7, p)) ` {4..<8}"
proof -
  have "page_set (concat (map (file_records sample_os) [''a'', ''b''])) =
      {(0x300001, 7, 0)} \<union> (\<lambda>p. (0x300001, 7, p)) ` {4..<8}"
    by (auto simp: sample_os_records sample_record_def page_set_def pages_def span_def image_iff)
  with process_trace_sort_sum [OF calm_calm_env _ _ record_sort.std_sort_axioms, of sample_os "[''a'', ''b'']"]
  show ?thesis
    by (fastforce simp: calm_env_def sample_os_good sample_os_records sample_record_def
        rec_fits_def no_wrap_def)
qed

text \<open>
  C19: sort-and-merge computes a normal form. The result covers the pages of the input, its records
  are in the order of device and inode and, within a file, of pages, with at least one page between
  two of them that is not covered; and for every other conforming \<open>std::sort\<close> and every other
  split of the same pages into nonempty records the resulting records are the same.
\<close>

theorem sort_sum_normal_form:
  assumes "std_sort trace_record_cmp srt" and "all_fit xs" and "all_nonempty xs"
  shows "covered (trace_file_data_sorted_sum srt xs) = covered xs
    \<and> sorted_wrt (\<lambda>a b. let r = rd_record a; q = rd_record b in
        (device r, inode_no r) < (device q, inode_no q)
        \<or> (device r, inode_no r) = (device q, inode_no q)
          \<and> unat (range_start r) + unat (range_length r) < unat (range_start q))
        (trace_file_data_sorted_sum srt xs)
    \<and> (\<forall>srt' ys. std_sort trace_record_cmp srt' \<and> all_fit ys \<and> all_nonempty ys \<and> covered ys = covered xs
         \<longrightarrow> map rd_record (trace_file_data_sorted_sum srt' ys) = map rd_record (trace_file_data_sorted_sum srt xs))"
proof (intro conjI allI impI)
  show "covered (trace_file_data_sorted_sum srt xs) = covered xs" by (rule sorted_sum_covers(1) [OF assms(1,2)])
  show "sorted_wrt (\<lambda>a b. let r = rd_record a; q = rd_record b in
        (device r, inode_no r) < (device q, inode_no q)
        \<or> (device r, inode_no r) = (device q, inode_no q)
          \<and> unat (range_start r) + unat (range_length r) < unat (range_start q))
        (trace_file_data_sorted_sum srt xs)"
    using sorted_sum_separated [OF assms(1,2)]
    by (rule sorted_wrt_mono_rel [rotated]) (simp add: separated_def Let_def file_of_def rec_lo_def rec_hi_def)
  fix srt' ys assume ys: "std_sort trace_record_cmp srt' \<and> all_fit ys \<and> all_nonempty ys \<and> covered ys = covered xs"
  show "map rd_record (trace_file_data_sorted_sum srt' ys) = map rd_record (trace_file_data_sorted_sum srt xs)"
    by (rule separated_unique) (use ys in \<open>simp_all add: assms sorted_sum_separated sorted_sum_nonempty sorted_sum_covers\<close>)
qed

theorem sort_sum_normal_form_witness:
  "map rd_record (trace_file_data_sorted_sum (cmp_sort trace_record_cmp)
       [push_test_record (1, 7) 0 4 4]) =
   map rd_record (trace_file_data_sorted_sum (cmp_sort trace_record_cmp)
       [push_test_record (1, 7) 0 6 2, push_test_record (1, 7) 1 4 3])"
proof -
  have "covered [push_test_record (1, 7) 0 4 4] =
      covered [push_test_record (1, 7) 0 6 2, push_test_record (1, 7) 1 4 3]"
    by (auto simp: push_test_record_def pages_def span_def image_iff)
  moreover have "all_fit [push_test_record (1, 7) 0 4 4]" "all_nonempty [push_test_record (1, 7) 0 4 4]"
    "all_fit [push_test_record (1, 7) 0 6 2, push_test_record (1, 7) 1 4 3]"
    "all_nonempty [push_test_record (1, 7) 0 6 2, push_test_record (1, 7) 1 4 3]"
    by (simp_all add: push_test_record_def rec_fits_def no_wrap_def)
  ultimately show ?thesis
    using sort_sum_normal_form [OF record_sort.std_sort_axioms] record_sort.std_sort_axioms by blast
qed

text \<open>
  C31: with reads that deliver what is there, \<open>open_trace_file\<close> succeeds exactly when the header it
  looks at is valid: the bytes of the file, filled up with what the uninitialised local variable held
  where the file is shorter than the header. So for a file with a complete header the verdict is that
  of its magic, version and data offset; for a shorter one it depends on the stack. On success the
  new descriptor stands at the data offset, on an error no descriptor stays open.
\<close>

theorem open_trace_file_iff:
  assumes calm: "calm e" and bs: "os_files s filename = Some bs" and run: "open_trace_file e filename s = (res, s')"
    and header: "h = header_of_bytes (take header_size bs @ drop (length bs) (map (env_junk e (os_calls s)) [0..<header_size]))"
  shows "(case res of
      Inr fd \<Rightarrow> valid_header h \<and> fd \<notin> open_fds s \<and> pending s' fd = drop (unat (data_start h)) bs
    | Inl _ \<Rightarrow> \<not> valid_header h \<and> open_fds s' = open_fds s)
    \<and> (header_size \<le> length bs \<longrightarrow> (valid_header h \<longleftrightarrow> valid_trace_file bs))"
proof -
  let ?junk = "map (env_junk e (os_calls s)) [0..<header_size]"
  from calm bs obtain fd s1 where o: "sys_open e filename s = (Some fd, s1)"
    by (cases "fd_alloc \<lparr>fd_data = bs, fd_pos = 0\<rparr> (tick s)") (simp add: sys_open_def calm_def)
  from sys_open_Some [OF o] bs have p: "fd_of s1 fd = Some \<lparr>fd_data = bs, fd_pos = 0\<rparr>" and fresh: "fd_of s fd = None" by auto
  from calm_read [OF calm p, of header_size] p obtain s2 where
    r: "sys_read e fd header_size s1 = (Some (take header_size bs), s2)"
    by (auto simp: header_size_def record_size_def pending_def)
  from sys_read_Some [OF r] p have p2: "fd_of s2 fd = Some \<lparr>fd_data = bs, fd_pos = length (take header_size bs)\<rparr>" by auto
  have h: "h = header_of_bytes (take header_size bs @ drop (length (take header_size bs)) ?junk)"
    unfolding header by (cases "header_size \<le> length bs") simp_all
  have "length (take header_size bs @ drop (length bs) ?junk) = header_size" by (simp add: min_def)
  then have m: "length (magic h) = 4" unfolding header by (intro length_magic_header_of_bytes) (simp add: header_size_def)
  have seek: "env_seek e (os_calls s2)" using calm by (simp add: calm_def)
  have same: "header_size \<le> length bs \<longrightarrow> (valid_header h \<longleftrightarrow> valid_trace_file bs)"
    by (auto simp: header valid_trace_file_def)
  show ?thesis
  proof (cases "valid_header h")
    case True
    from open_trace_file_opened [OF o r h True seek] obtain s3 where
      s3: "open_trace_file e filename s = (Inr fd, s3)" "sys_lseek e fd (unat (data_start h)) s2 = (True, s3)" by blast
    then have "pending s3 fd = drop (unat (data_start h)) bs"
      using p2 seek by (auto simp: sys_lseek_def pending_def fd_of_fd_set)
    then show ?thesis using run s3(1) True fresh same by (auto simp: open_fds_def)
  next
    case False
    then have "\<exists>err. res = Inl err"
      using run o r h m by (auto simp: open_trace_file_def valid_header_def magic_strncmp Let_def split: if_splits)
    then obtain err where err: "res = Inl err" ..
    then have "open_fds s' = open_fds s" using open_trace_file_error_frame [of e filename s err s'] run by (simp add: open_fds_def)
    then show ?thesis using err False same by simp
  qed
qed

theorem open_trace_file_iff_witness:
  "\<exists>fd s'. open_trace_file calm_env ''a'' sample_os = (Inr fd, s')
    \<and> pending s' fd = encode_records [sample_record 4 2, sample_record 0 1]"
proof -
  obtain res s' where o: "open_trace_file calm_env ''a'' sample_os = (res, s')" by fastforce
  let ?bs = "header_bytes fill_trace_file_header @ encode_records [sample_record 4 2, sample_record 0 1]"
  have start: "unat (data_start fill_trace_file_header) = header_size" by (simp add: fill_trace_file_header_def header_size_def)
  have f: "os_files sample_os ''a'' = Some ?bs" by (simp add: sample_os_def os_with_def)
  from open_trace_file_iff [OF calm_calm_env f o refl] o show ?thesis
    by (cases res) (auto simp: written_trace start)
qed

theorem open_trace_file_no_leak_witness:
  "\<exists>s'. open_trace_file calm_env ''missing'' sample_os = (Inl Cannot_open, s')
    \<and> open_fds s' = open_fds sample_os"
proof -
  have "open_trace_file calm_env ''missing'' sample_os = (Inl Cannot_open, tick sample_os)"
    by (simp add: open_trace_file_def sys_open_def sample_os_def os_with_def)
  from this open_trace_file_no_leak [OF this] show ?thesis by blast
qed

text \<open>
  only the value -1 of the header read is checked, so the verdict on a file shorter than the
  header depends on what the uninitialised local variable holds: the same empty file is an empty
  trace (exit code 0) over one stack content and an invalid one (exit code 1) over another.
\<close>

theorem short_header_depends_on_stack:
  "fst (print_trace_main (calm_env\<lparr>env_junk := (\<lambda>_ k. header_bytes fill_trace_file_header ! k)\<rparr>)
      [''empty''] (os_with [''empty'' \<mapsto> []])) = 0
   \<and> fst (print_trace_main calm_env [''empty''] (os_with [''empty'' \<mapsto> []])) = 1"
  by code_simp

text \<open>
  C32: \<open>prefetch-print-trace\<close> prints one line for every whole record of a readable trace file,
  in order. When the data is a whole number of records it exits with 0 and has closed the file;
  otherwise it exits with 2 and the one descriptor that it opened is still open. No file changes.
\<close>

theorem print_trace_output:
  assumes "calm e" and "os_files s filename = Some bs" and "valid_trace_file bs"
  shows "\<exists>s'. print_trace_main e [filename] s =
    (if record_size dvd length (trace_data bs) then 0 else 2,
     concat (map record_line (decode_records (trace_data bs))), s')
    \<and> os_files s' = os_files s
    \<and> (if record_size dvd length (trace_data bs) then open_fds s' = open_fds s
       else \<exists>fd. fd \<notin> open_fds s \<and> open_fds s' = insert fd (open_fds s))"
proof -
  from trace_file_fully_read [OF assms] obtain fd s1 s2 where
    o: "open_trace_file e filename s = (Inr fd, s1)" "fd_of s fd = None"
    and r: "reads (read_prefetch_record e fd) s1 (decode_records (trace_data bs))
      (leftover (trace_data bs)) s2"
    and c: "fd_of (snd (close_trace_file e fd s2)) = fd_of s" "os_files (snd (close_trace_file e fd s2)) = os_files s" "os_files s2 = os_files s"
    by blast
  from open_trace_file_calm [OF assms] o(1) obtain d where d: "fd_of s1 = (fd_of s)(fd \<mapsto> d)" by auto
  have "open_fds s2 = insert fd (open_fds s)"
    using reads_only_fd [OF r] d by (auto simp: only_fd_def open_fds_def)
  moreover have "fd \<notin> open_fds s" "open_fds (snd (close_trace_file e fd s2)) = open_fds s" using o(2) c(1) by (simp_all add: open_fds_def)
  ultimately show ?thesis
    using o(1) print_loop_reads [OF r] leftover_eof [of "trace_data bs"] c(2,3) by (auto simp: print_trace_main_def)
qed

theorem print_trace_output_witness:
  "\<exists>s'. print_trace_main calm_env [''b''] sample_os =
    (0, ''3:1'' @ TAB @ ''7'' @ TAB @ ''5'' @ TAB @ ''3'' @ NL, s') \<and> open_fds s' = open_fds sample_os"
proof -
  let ?bs = "header_bytes fill_trace_file_header @ encode_records [sample_record 5 3]"
  have f: "os_files sample_os ''b'' = Some ?bs" by (simp add: sample_os_def os_with_def)
  have v: "valid_trace_file ?bs" by (simp add: written_trace)
  have line: "record_line (sample_record 5 3) = ''3:1'' @ TAB @ ''7'' @ TAB @ ''5'' @ TAB @ ''3'' @ NL"
    by code_simp
  from print_trace_output [OF calm_calm_env f v] line show ?thesis
    by (auto simp: written_trace length_encode_records decode_encode_records)
qed

text \<open>
  when a trace file was opened but could not be read to its end, \<open>trace_file_read_data\<close>
  returns an error without closing it: the descriptor stays in the table.
\<close>

theorem read_error_leaks_descriptor:
  assumes "trace_file_read_data e filename records index s = (False, records', index', s')"
    and "open_trace_file e filename s = (Inr fd, s1)"
  shows "fd \<in> open_fds s' \<and> fd \<notin> open_fds s"
proof -
  from open_trace_file_fresh [OF assms(2)] have
    fresh: "fd_of s fd = None" and opened: "fd_of s1 fd \<noteq> None" by auto
  obtain rs res s2 where r: "reads (read_prefetch_record e fd) s1 rs res s2"
    using reads_exist by blast
  from read_data_loop_reads [OF r] assms(1,2) have "s' = s2"
    by (auto simp: trace_file_read_data_def split: if_splits)
  with reads_only_fd [OF r] fresh opened show ?thesis by (simp add: only_fd_def open_fds_def)
qed

definition truncated_os :: os where
  "truncated_os = os_with [''t'' \<mapsto> header_bytes fill_trace_file_header @ [0]]"

theorem read_error_leaks_descriptor_witness:
  "3 \<in> open_fds (snd (snd (snd (trace_file_read_data calm_env ''t'' [] 0 truncated_os))))
   \<and> 3 \<notin> open_fds truncated_os"
proof -
  have "fst (trace_file_read_data calm_env ''t'' [] 0 truncated_os) = False" by code_simp
  moreover have "fst (open_trace_file calm_env ''t'' truncated_os) = Inr 3" by code_simp
  ultimately show ?thesis
    using read_error_leaks_descriptor [of calm_env "''t''" "[]" 0 truncated_os]
    by (metis prod.collapse)
qed

text \<open>the unit tests built into \<open>prefetch-process-trace\<close> pass.\<close>

theorem unittests_pass: "unittest_ranges_overlap \<and> unittest_trace_merge = []"
proof -
  have "unittest_ranges_overlap" by code_simp
  moreover have "unittest_trace_merge = []" by code_simp
  ultimately show ?thesis ..
qed

end
