(* ===== verification/Block_Math.thy ===== *)
theory Block_Math
  imports Prelude
begin

text \<open>
  The block arithmetic of \<open>e2moveblocks\<close> (\<open>ext3_layout_optimize.cpp\<close>): which part of an
  ext2/3 inode's block tree a file block lies in, and the estimate of the number of disk blocks,
  indirect blocks included, that a range of file blocks occupies. Block numbers (\<open>blk_t\<close>) are
  32-bit words and all their arithmetic wraps; block counts (\<open>e2_blkcnt_t\<close>, signed 64 bits)
  are \<open>int\<close>: the sums formed here stay far below their bound. A failed
  \<open>permanent_assert\<close> aborts the program and is the value \<open>None\<close>.
\<close>

section \<open>The zones of the block tree\<close>

text \<open>
  Constants of the ext2 on-disk format: the direct blocks and the slots of the three indirect
  blocks in an inode. \<open>EXT2_ADDR_PER_BLOCK\<close> of the file system's super block is the argument
  \<open>apb\<close> throughout.
\<close>

definition EXT2_NDIR_BLOCKS :: u32 where "EXT2_NDIR_BLOCKS = 12"
definition EXT2_IND_BLOCK :: nat where "EXT2_IND_BLOCK = 12"
definition EXT2_DIND_BLOCK :: nat where "EXT2_DIND_BLOCK = 13"
definition EXT2_TIND_BLOCK :: nat where "EXT2_TIND_BLOCK = 14"

definition is_direct_block :: "u32 \<Rightarrow> bool" where
  "is_direct_block block_in_inode = (if block_in_inode < EXT2_NDIR_BLOCKS then True else False)"

definition is_1indirect_block :: "u32 \<Rightarrow> u32 \<Rightarrow> bool" where
  "is_1indirect_block apb block_in_inode =
     (if block_in_inode < EXT2_NDIR_BLOCKS then False
      else (let b = block_in_inode - EXT2_NDIR_BLOCKS in
        if b < apb then True else False))"

definition is_2indirect_block :: "u32 \<Rightarrow> u32 \<Rightarrow> bool" where
  "is_2indirect_block apb block_in_inode =
     (if block_in_inode < EXT2_NDIR_BLOCKS then False
      else (let b = block_in_inode - EXT2_NDIR_BLOCKS in
        if b < apb then False
        else (let b = b - apb in
          if b < apb * apb then True else False)))"

definition is_3indirect_block :: "u32 \<Rightarrow> u32 \<Rightarrow> bool" where
  "is_3indirect_block apb block_in_inode =
     (if block_in_inode < EXT2_NDIR_BLOCKS then False
      else (let b = block_in_inode - EXT2_NDIR_BLOCKS in
        if b < apb then False
        else (let b = b - apb in
          if b < apb * apb then False else True)))"

record block_range =
  br_start_block :: u32
  br_blocks_count :: u32

definition in_range :: "u32 \<Rightarrow> block_range \<Rightarrow> bool" where
  "in_range block_number r =
     (if block_number < br_start_block r then False
      else if block_number \<ge> br_start_block r + br_blocks_count r then False
      else True)"

definition ceil_div :: "u64 \<Rightarrow> u64 \<Rightarrow> u64" where
  "ceil_div number divisor =
     (let result = number div divisor in
      if number mod divisor = 0 then result else result + 1)"

section \<open>The estimate\<close>

text \<open>
  The four \<open>if\<close> blocks of \<open>estimate_blocks_for_range\<close> in their order. The first three may
  advance \<open>start_block\<close> to the next zone; each returns the count so far and the start.
\<close>

definition estimate_direct :: "u32 \<Rightarrow> int \<times> u32 \<Rightarrow> int \<times> u32" where
  "estimate_direct end_block = (\<lambda>(blocks_count, start_block).
     if is_direct_block start_block then
       (let last_direct_block = EXT2_NDIR_BLOCKS - 1 in
        if is_direct_block end_block
        then (blocks_count + uint (end_block - start_block + 1), start_block)
        else (blocks_count + uint (last_direct_block - start_block + 1), EXT2_NDIR_BLOCKS))
     else (blocks_count, start_block))"

definition estimate_1indirect :: "u32 \<Rightarrow> u32 \<Rightarrow> int \<times> u32 \<Rightarrow> int \<times> u32" where
  "estimate_1indirect apb end_block = (\<lambda>(blocks_count, start_block).
     if is_1indirect_block apb start_block then
       (let last_1indirect_block = EXT2_NDIR_BLOCKS + apb - 1 in
        if is_1indirect_block apb end_block
        then (blocks_count + uint (end_block - start_block + 1) + 1, start_block)
        else (blocks_count + uint (last_1indirect_block - start_block + 1) + 1,
              last_1indirect_block + 1))
     else (blocks_count, start_block))"

definition estimate_2indirect :: "u32 \<Rightarrow> u32 \<Rightarrow> int \<times> u32 \<Rightarrow> int \<times> u32" where
  "estimate_2indirect apb end_block = (\<lambda>(blocks_count, start_block).
     if is_2indirect_block apb start_block then
       (let first_2indirect_block = EXT2_NDIR_BLOCKS + apb;
            last_2indirect_block = EXT2_NDIR_BLOCKS + apb + apb * apb - 1 in
        if is_2indirect_block apb end_block
        then (blocks_count + uint (end_block - start_block + 1) + 1
                + uint ((end_block - first_2indirect_block) div apb
                        - (start_block - first_2indirect_block) div apb + 1), start_block)
        else (blocks_count + uint (last_2indirect_block - start_block + 1) + 1
                + uint (last_2indirect_block div apb - start_block div apb + 1),
              last_2indirect_block + 1))
     else (blocks_count, start_block))"

definition estimate_3indirect :: "u32 \<Rightarrow> u32 \<Rightarrow> int \<times> u32 \<Rightarrow> int option" where
  "estimate_3indirect apb end_block = (\<lambda>(blocks_count, start_block).
     if is_3indirect_block apb start_block then
       (let first_3indirect_block = EXT2_NDIR_BLOCKS + apb + apb * apb in
        if is_3indirect_block apb end_block
        then Some (blocks_count + uint (end_block - start_block + 1)
                + uint ((end_block - first_3indirect_block) div apb
                        - (start_block - first_3indirect_block) div apb + 1)
                + uint ((end_block - first_3indirect_block) div (apb * apb)
                        - (start_block - first_3indirect_block) div (apb * apb) + 1)
                + 1)
        else None)
     else Some blocks_count)"

definition estimate_blocks_for_range :: "u32 \<Rightarrow> u32 \<Rightarrow> u32 \<Rightarrow> int option" where
  "estimate_blocks_for_range apb start_block blk_count =
     (let end_block = start_block + blk_count - 1 in
      if blk_count = 0 then Some 0
      else estimate_3indirect apb end_block
             (estimate_2indirect apb end_block
               (estimate_1indirect apb end_block
                 (estimate_direct end_block (0, start_block)))))"

text \<open>
  \<open>test_estimate_blocks_for_range\<close>, which \<open>main\<close> runs on the opened file system before
  anything else: every assertion must hold or the program aborts. The right-hand sides that
  mention \<open>apb\<close> are 32-bit expressions.
\<close>

definition test_estimate_blocks_for_range :: "u32 \<Rightarrow> bool" where
  "test_estimate_blocks_for_range apb \<longleftrightarrow>
     (let N = EXT2_NDIR_BLOCKS; est = estimate_blocks_for_range apb in
      est 0 0 = Some 0
    \<and> est 0 1 = Some 1
    \<and> est 1 1 = Some 1
    \<and> est 4 5 = Some 5
    \<and> est N 1 = Some 2
    \<and> est (N - 2) 6 = Some 7
    \<and> est (N + 2) 6 = Some 7
    \<and> est (N + apb - 1) 1 = Some 2
    \<and> est (N + apb) 1 = Some 3
    \<and> est (N + apb - 2) 6 = Some 9
    \<and> est (N + apb + 2) 6 = Some 8
    \<and> est (N + apb + apb - 3) 10 = Some (10 + 1 + 2)
    \<and> est (N + apb) (apb * apb) = Some (uint (apb * apb + 1 + apb))
    \<and> est (N + apb + apb * apb - 1) 1 = Some 3
    \<and> est (N + apb + apb * apb) 1 = Some 4
    \<and> est (N + apb + apb * apb - 3) 10 = Some 15
    \<and> est (N + apb + apb * apb) (apb * apb * apb) =
        Some (uint (apb * apb * apb + 1 + apb + apb * apb))
    \<and> est (N + apb + apb * apb + 1) apb = Some (uint (apb + 1 + 1 + 2))
    \<and> est (N + apb + apb * apb + apb * 5) (apb * apb) =
        Some (uint (apb * apb + 1 + 2 + apb)))"

section \<open>The block tree\<close>

text \<open>
  The nodes of an inode's block tree are named by the way to them, the last index first:
  \<open>[k]\<close> is the block in slot \<open>k\<close> of the inode, \<open>j # p\<close> the block in entry
  \<open>j\<close> of the indirect block \<open>p\<close>. \<open>block_path n i\<close> leads to file block
  \<open>i\<close> when an indirect block holds \<open>n\<close> numbers; the nodes that a range of file
  blocks occupies are the blocks themselves and every indirect block on the way to one of them.
\<close>

definition block_path :: "nat \<Rightarrow> nat \<Rightarrow> nat list" where
  "block_path n i =
     (if i < 12 then [i]
      else if i < 12 + n then [i - 12, 12]
      else if i < 12 + n + n * n
      then (let j = i - (12 + n) in [j mod n, j div n, 13])
      else (let j = i - (12 + n + n * n) in [j mod n, (j div n) mod n, j div (n * n), 14]))"

fun ancestors :: "nat list \<Rightarrow> nat list list" where
  "ancestors [] = []"
| "ancestors (j # p) = (j # p) # ancestors p"

definition range_nodes :: "nat \<Rightarrow> nat \<Rightarrow> nat \<Rightarrow> nat list set" where
  "range_nodes n s e = (\<Union>i\<in>{s..<e}. set (ancestors (block_path n i)))"

section \<open>How many nodes a range occupies\<close>

lemma div_image_atLeastLessThan:
  assumes "0 < (n::nat)" and "x < y"
  shows "(\<lambda>i. i div n) ` {x..<y} = {x div n .. (y - 1) div n}"
proof (intro equalityI subsetI)
  fix q assume q: "q \<in> {x div n .. (y - 1) div n}"
  show "q \<in> (\<lambda>i. i div n) ` {x..<y}"
  proof (cases "q = x div n")
    case True
    then show ?thesis using assms by auto
  next
    case False
    then have "x div n < q" using q by simp
    then have "x < q * n"
      using assms(1) by (metis div_less_iff_less_mult)
    moreover have "q * n \<le> y - 1"
      using q assms(1) by (metis atLeastAtMost_iff less_eq_div_iff_mult_less_eq)
    ultimately have "q * n \<in> {x..<y}" using assms by simp
    moreover have "q = q * n div n" using assms by simp
    ultimately show ?thesis by blast
  qed
next
  fix q assume "q \<in> (\<lambda>i. i div n) ` {x..<y}"
  then obtain i where "q = i div n" "x \<le> i" "i \<le> y - 1" by auto
  then show "q \<in> {x div n .. (y - 1) div n}"
    by (simp add: div_le_mono)
qed

lemma card_div_image:
  assumes "0 < (n::nat)" and "b \<le> x" and "x < y" and "inj f"
  shows "card ((\<lambda>i. f ((i - b) div n)) ` {x..<y}) = (y - 1 - b) div n - (x - b) div n + 1"
proof -
  have "(\<lambda>i. i - b) ` {x..<y} = {x - b ..< y - b}"
    using assms(2,3) by (simp add: image_minus_const_atLeastLessThan_nat)
  then have "(\<lambda>i. f ((i - b) div n)) ` {x..<y} = f ` ((\<lambda>i. i div n) ` {x - b ..< y - b})"
    using image_image [of "\<lambda>i. f (i div n)" "\<lambda>i. i - b" "{x..<y}"]
    by (simp add: image_image)
  also have "\<dots> = f ` {(x - b) div n .. (y - b - 1) div n}"
    using assms div_image_atLeastLessThan [of n "x - b" "y - b"] by simp
  finally have *: "(\<lambda>i. f ((i - b) div n)) ` {x..<y} = f ` {(x - b) div n .. (y - b - 1) div n}" .
  have le: "(x - b) div n \<le> (y - b - 1) div n" using assms by (intro div_le_mono) simp
  have "card (f ` {(x - b) div n .. (y - b - 1) div n}) = (y - b - 1) div n - (x - b) div n + 1"
    using inj_on_subset [OF assms(4) subset_UNIV] le by (simp add: card_image Suc_diff_le)
  then show ?thesis
    using * by (simp add: diff_right_commute)
qed

lemma range_nodes_split:
  assumes "s \<le> m" "m \<le> e"
  shows "range_nodes n s e = range_nodes n s m \<union> range_nodes n m e"
proof -
  have "{s..<e} = {s..<m} \<union> {m..<e}" using assms by auto
  then show ?thesis by (simp add: range_nodes_def)
qed

lemma finite_range_nodes [simp]: "finite (range_nodes n s e)"
  by (simp add: range_nodes_def)

lemma range_nodes_empty [simp]: "e \<le> s \<Longrightarrow> range_nodes n s e = {}"
  by (simp add: range_nodes_def)

lemma div_mod_inj: "a mod n = b mod n \<Longrightarrow> a div n = b div n \<Longrightarrow> a = (b::nat)"
  by (metis div_mult_mod_eq)

lemma div_mod_inj3:
  "a mod n = b mod n \<Longrightarrow> (a div n) mod n = (b div n) mod n \<Longrightarrow> a div (n * n) = b div (n * n)
   \<Longrightarrow> a = (b::nat)"
  by (metis div_mod_inj div_mult2_eq)

lemma block_path_direct: "i < 12 \<Longrightarrow> block_path n i = [i]"
  by (simp add: block_path_def)

lemma block_path_1: "12 \<le> i \<Longrightarrow> i < 12 + n \<Longrightarrow> block_path n i = [i - 12, 12]"
  by (simp add: block_path_def)

lemma block_path_2:
  "12 + n \<le> i \<Longrightarrow> i < 12 + n + n * n \<Longrightarrow>
   block_path n i = [(i - (12 + n)) mod n, (i - (12 + n)) div n, 13]"
  by (simp add: block_path_def Let_def)

lemma block_path_3:
  "12 + n + n * n \<le> i \<Longrightarrow>
   block_path n i = [(i - (12 + n + n * n)) mod n, ((i - (12 + n + n * n)) div n) mod n,
     (i - (12 + n + n * n)) div n div n, 14]"
  by (simp add: block_path_def Let_def div_mult2_eq)

lemma card_zone_direct:
  assumes "y \<le> 12"
  shows "card (range_nodes n x y) = y - x"
proof -
  have "range_nodes n x y = (\<lambda>i. [i]) ` {x..<y}"
    using assms by (auto simp: range_nodes_def block_path_direct)
  then show ?thesis by (simp add: card_image inj_on_def)
qed

lemma card_zone_1:
  assumes "12 \<le> x" and "x < y" and "y \<le> 12 + n"
  shows "card (range_nodes n x y) = (y - x) + 1"
proof -
  have "range_nodes n x y = (\<Union>i\<in>{x..<y}. {[i - 12, 12], [12]})"
    unfolding range_nodes_def using assms by (intro SUP_cong) (auto simp: block_path_1)
  also have "\<dots> = (\<lambda>i. [i - 12, 12]) ` {x..<y} \<union> {[12]}" using assms by auto
  finally have *: "range_nodes n x y = (\<lambda>i. [i - 12, 12]) ` {x..<y} \<union> {[12]}" .
  have "card ((\<lambda>i. [i - 12, 12]) ` {x..<y}) = y - x"
    using assms by (subst card_image) (auto simp: inj_on_def)
  then show ?thesis unfolding * by (subst card_Un_disjoint) auto
qed

lemma card_zone_2:
  assumes "12 + n \<le> x" and "x < y" and "y \<le> 12 + n + n * n" and "0 < n"
  shows "card (range_nodes n x y)
    = (y - x) + 1 + ((y - 1 - (12 + n)) div n - (x - (12 + n)) div n + 1)"
proof -
  let ?j = "\<lambda>i. i - (12 + n)"
  have *: "range_nodes n x y = (\<Union>i\<in>{x..<y}. {[?j i mod n, ?j i div n, 13], [?j i div n, 13], [13]})"
    unfolding range_nodes_def using assms by (intro SUP_cong) (auto simp: block_path_2)
  let ?A = "(\<lambda>i. [?j i mod n, ?j i div n, 13]) ` {x..<y}"
  let ?B = "(\<lambda>i. (\<lambda>q. [q, 13]) (?j i div n)) ` {x..<y}"
  have "range_nodes n x y = ?A \<union> ?B \<union> {[13]}" unfolding * using assms(2) by auto
  moreover have "card ?A = y - x"
    using assms(1) by (subst card_image) (auto simp: inj_on_def dest!: div_mod_inj)
  moreover have "card ?B = (y - 1 - (12 + n)) div n - (x - (12 + n)) div n + 1"
    using assms by (intro card_div_image) (auto simp: inj_on_def)
  moreover have "card (?A \<union> ?B) = card ?A + card ?B" by (rule card_Un_disjoint) auto
  moreover have "card (?A \<union> ?B \<union> {[13]}) = card (?A \<union> ?B) + 1" by (subst card_Un_disjoint) auto
  ultimately show ?thesis by simp
qed

lemma leaf3_inj:
  assumes "a mod n # [(a div n) mod n, a div n div n, 14::nat]
    = b mod n # [(b div n) mod n, b div n div n, 14]"
  shows "a = b"
proof -
  have 1: "a mod n = b mod n" and 2: "(a div n) mod n = (b div n) mod n"
    and 3: "a div n div n = b div n div n"
    using assms unfolding list.inject by auto
  show ?thesis by (rule div_mod_inj [OF 1 div_mod_inj [OF 2 3]])
qed

lemma node3_inj: "inj (\<lambda>q. [q mod n, q div n, 14::nat])"
proof (rule injI)
  fix a b assume eq: "[a mod n, a div n, 14::nat] = [b mod n, b div n, 14]"
  show "a = b" by (rule div_mod_inj [of a n b]) (use eq in simp_all)
qed

lemma card_zone_3:
  assumes "12 + n + n * n \<le> x" and "x < y" and "0 < n"
  shows "card (range_nodes n x y)
    = (y - x) + 1 + ((y - 1 - (12 + n + n * n)) div n - (x - (12 + n + n * n)) div n + 1)
        + ((y - 1 - (12 + n + n * n)) div (n * n) - (x - (12 + n + n * n)) div (n * n) + 1)"
proof -
  let ?j = "\<lambda>i. i - (12 + n + n * n)"
  let ?B' = "\<lambda>q. [q mod n, q div n, 14]"
  have *: "range_nodes n x y =
      (\<Union>i\<in>{x..<y}. {?j i mod n # ?B' (?j i div n), ?B' (?j i div n), [?j i div (n * n), 14], [14]})"
    unfolding range_nodes_def using assms
    by (intro SUP_cong) (auto simp: block_path_3 div_mult2_eq)
  let ?A = "(\<lambda>i. ?j i mod n # ?B' (?j i div n)) ` {x..<y}"
  let ?B = "(\<lambda>i. ?B' (?j i div n)) ` {x..<y}"
  let ?C = "(\<lambda>i. (\<lambda>q. [q, 14]) (?j i div (n * n))) ` {x..<y}"
  have "range_nodes n x y = ?A \<union> ?B \<union> ?C \<union> {[14]}" unfolding * using assms(2) by auto
  moreover have "card ?A = y - x"
  proof -
    have "inj_on (\<lambda>i. ?j i mod n # ?B' (?j i div n)) {x..<y}"
    proof (rule inj_onI)
      fix a b assume ab: "a \<in> {x..<y}" "b \<in> {x..<y}"
        and eq: "?j a mod n # ?B' (?j a div n) = ?j b mod n # ?B' (?j b div n)"
      then have "?j a = ?j b" by (intro leaf3_inj [OF eq])
      then show "a = b" using ab assms(1) by (simp add: eq_diff_iff)
    qed
    then have "card ?A = card {x..<y}" by (rule card_image)
    then show ?thesis by (simp only: card_atLeastLessThan)
  qed
  moreover have "card ?B = (y - 1 - (12 + n + n * n)) div n - (x - (12 + n + n * n)) div n + 1"
    using assms by (intro card_div_image [OF _ _ _ node3_inj]) simp_all
  moreover have "card ?C
      = (y - 1 - (12 + n + n * n)) div (n * n) - (x - (12 + n + n * n)) div (n * n) + 1"
    by (rule card_div_image [where f = "\<lambda>q. [q, 14]"])
      (use assms in \<open>simp_all add: inj_def\<close>)
  moreover have "card (?A \<union> ?B) = card ?A + card ?B"
    by (rule card_Un_disjoint) auto
  moreover have "card (?A \<union> ?B \<union> ?C) = card (?A \<union> ?B) + card ?C" by (rule card_Un_disjoint) auto
  moreover have "card (?A \<union> ?B \<union> ?C \<union> {[14]}) = card (?A \<union> ?B \<union> ?C) + 1"
    by (subst card_Un_disjoint) auto
  ultimately show ?thesis by (simp only: ac_simps)
qed

section \<open>The estimate against the tree\<close>

text \<open>
  The condition under which the zone boundaries are computed without wrap-around: 12 entries or
  more in an indirect block, and the first three zones within 32 bits (every ext2 block size, 1 KB
  to 64 KB, satisfies it).
\<close>

definition tree_fits :: "u32 \<Rightarrow> bool" where
  "tree_fits apb \<longleftrightarrow> 12 \<le> unat apb \<and> 12 + unat apb + unat apb * unat apb < 2 ^ 32"

lemma tree_fits_mult: "tree_fits apb \<Longrightarrow> unat (apb * apb) = unat apb * unat apb"
  by (simp add: tree_fits_def unat_word_ariths)

lemma EXT2_NDIR_unat [simp]: "unat EXT2_NDIR_BLOCKS = 12"
  by (simp add: EXT2_NDIR_BLOCKS_def)

lemma is_direct_block_iff: "is_direct_block w \<longleftrightarrow> unat w < 12"
  by (simp add: is_direct_block_def word_less_nat_alt)

lemma unat_minus_NDIR: "\<not> w < EXT2_NDIR_BLOCKS \<Longrightarrow> unat (w - EXT2_NDIR_BLOCKS) = unat w - 12"
  by (simp add: unat_sub_le not_less)

lemma unat_minus_NDIR_apb:
  "\<not> w < EXT2_NDIR_BLOCKS \<Longrightarrow> \<not> w - EXT2_NDIR_BLOCKS < apb \<Longrightarrow>
   unat (w - EXT2_NDIR_BLOCKS - apb) = unat w - (12 + unat apb)"
  by (simp add: unat_sub_le not_less)

lemma is_1indirect_block_iff:
  "is_1indirect_block apb w \<longleftrightarrow> 12 \<le> unat w \<and> unat w < 12 + unat apb"
  using unat_minus_NDIR [of w]
  by (auto simp: is_1indirect_block_def Let_def word_less_nat_alt split: if_splits)

lemma is_2indirect_block_iff:
  assumes "tree_fits apb"
  shows "is_2indirect_block apb w \<longleftrightarrow>
    12 + unat apb \<le> unat w \<and> unat w < 12 + unat apb + unat apb * unat apb"
proof (cases "\<not> w < EXT2_NDIR_BLOCKS \<and> \<not> w - EXT2_NDIR_BLOCKS < apb")
  case True
  then show ?thesis
    using unat_minus_NDIR [of w] unat_minus_NDIR_apb [of w apb] tree_fits_mult [OF assms]
    by (auto simp: is_2indirect_block_def Let_def word_less_nat_alt)
next
  case False
  then show ?thesis
    using unat_minus_NDIR [of w]
    by (auto simp: is_2indirect_block_def Let_def word_less_nat_alt)
qed

lemma is_3indirect_block_iff:
  assumes "tree_fits apb"
  shows "is_3indirect_block apb w \<longleftrightarrow> 12 + unat apb + unat apb * unat apb \<le> unat w"
proof -
  have "is_3indirect_block apb w \<longleftrightarrow>
      \<not> is_direct_block w \<and> \<not> is_1indirect_block apb w \<and> \<not> is_2indirect_block apb w"
    by (simp add: is_direct_block_def is_1indirect_block_def is_2indirect_block_def
        is_3indirect_block_def Let_def)
  also have "\<dots> \<longleftrightarrow> 12 + unat apb + unat apb * unat apb \<le> unat w"
    unfolding is_direct_block_iff is_1indirect_block_iff is_2indirect_block_iff [OF assms]
    by linarith
  finally show ?thesis .
qed

lemma uint_length:
  assumes "unat b \<le> unat (a::u32)" and "unat a - unat b + 1 < 2 ^ 32"
  shows "uint (a - b + 1) = int (unat a - unat b + 1)"
proof -
  have "unat (a - b + 1) = unat a - unat b + 1"
    using assms by (subst unat_plus_if') (simp add: unat_sub_le word_le_nat_alt)
  then show ?thesis by (simp add: uint_nat)
qed

lemma unat_zone_starts:
  assumes "tree_fits apb"
  shows "unat (EXT2_NDIR_BLOCKS + apb) = 12 + unat apb"
    and "unat (EXT2_NDIR_BLOCKS + apb - 1) = 12 + unat apb - 1"
    and "unat (EXT2_NDIR_BLOCKS + apb + apb * apb) = 12 + unat apb + unat apb * unat apb"
    and "unat (EXT2_NDIR_BLOCKS + apb + apb * apb - 1) = 12 + unat apb + unat apb * unat apb - 1"
proof -
  have m: "unat (apb * apb) = unat apb * unat apb" by (rule tree_fits_mult [OF assms])
  show a: "unat (EXT2_NDIR_BLOCKS + apb) = 12 + unat apb"
    using assms by (subst unat_plus_if') (simp add: tree_fits_def)
  show b: "unat (EXT2_NDIR_BLOCKS + apb + apb * apb) = 12 + unat apb + unat apb * unat apb"
    using assms a m by (subst unat_plus_if') (simp add: tree_fits_def)
  show "unat (EXT2_NDIR_BLOCKS + apb - 1) = 12 + unat apb - 1"
    using a by (subst unat_sub_le) (auto simp: word_le_nat_alt)
  show "unat (EXT2_NDIR_BLOCKS + apb + apb * apb - 1) = 12 + unat apb + unat apb * unat apb - 1"
    using b by (subst unat_sub_le) (auto simp: word_le_nat_alt)
qed

lemma estimate_3indirect_exact:
  assumes "tree_fits apb" and "12 + unat apb + unat apb * unat apb \<le> unat s" and "unat s \<le> unat e"
  shows "estimate_3indirect apb e (c, s)
    = Some (c + int (card (range_nodes (unat apb) (unat s) (unat e + 1))))"
proof -
  let ?n = "unat apb" let ?f = "12 + unat apb + unat apb * unat apb"
  let ?w = "EXT2_NDIR_BLOCKS + apb + apb * apb"
  have n: "0 < ?n" using assms(1) by (simp add: tree_fits_def)
  have f: "unat ?w = ?f" by (rule unat_zone_starts [OF assms(1)])
  have e32: "unat e < 2 ^ 32" using unsigned_less [of e] by simp
  have sub: "unat (e - ?w) = unat e - ?f" "unat (s - ?w) = unat s - ?f"
    using assms f by (simp_all add: unat_sub_le word_le_nat_alt)
  have q: "uint ((e - ?w) div d - (s - ?w) div d + 1)
      = int ((unat e - ?f) div unat d - (unat s - ?f) div unat d + 1)" for d
  proof -
    have "(unat e - ?f) div unat d \<le> unat e - ?f" by simp
    then have lt: "(unat e - ?f) div unat d - (unat s - ?f) div unat d + 1 < 2 ^ 32"
      using e32 n assms(2,3) by linarith
    have "uint ((e - ?w) div d - (s - ?w) div d + 1)
        = int (unat ((e - ?w) div d) - unat ((s - ?w) div d) + 1)"
      by (rule uint_length)
        (use assms(2,3) sub lt in \<open>simp_all only: unat_div div_le_mono diff_le_mono\<close>)
    then show ?thesis by (simp only: unat_div sub)
  qed
  have l: "uint (e - s + 1) = int (unat e - unat s + 1)"
    by (rule uint_length) (use assms e32 in simp_all)
  have c: "card (range_nodes ?n (unat s) (unat e + 1))
    = (unat e + 1 - unat s) + 1 + ((unat e - ?f) div ?n - (unat s - ?f) div ?n + 1)
      + ((unat e - ?f) div (?n * ?n) - (unat s - ?f) div (?n * ?n) + 1)"
    using card_zone_3 [OF assms(2), of "unat e + 1"] assms(3) n by simp
  have z: "is_3indirect_block apb s" "is_3indirect_block apb e"
    using assms by (simp_all add: is_3indirect_block_iff)
  have "estimate_3indirect apb e (c, s) = Some (c + uint (e - s + 1)
        + uint ((e - ?w) div apb - (s - ?w) div apb + 1)
        + uint ((e - ?w) div (apb * apb) - (s - ?w) div (apb * apb) + 1) + 1)"
    by (simp only: estimate_3indirect_def z Let_def if_True prod.case)
  also have "\<dots> = Some (c + int (unat e - unat s + 1)
        + int ((unat e - ?f) div ?n - (unat s - ?f) div ?n + 1)
        + int ((unat e - ?f) div (?n * ?n) - (unat s - ?f) div (?n * ?n) + 1) + 1)"
    by (simp only: l q tree_fits_mult [OF assms(1)])
  also have "\<dots> = Some (c + int (card (range_nodes ?n (unat s) (unat e + 1))))"
    unfolding c using assms(3) by (simp add: Suc_diff_le)
  finally show ?thesis .
qed


lemma estimate_2indirect_exact:
  assumes "tree_fits apb" and "12 + unat apb \<le> unat s" and "unat s \<le> unat e"
    and "unat e < 12 + unat apb + unat apb * unat apb"
  shows "estimate_2indirect apb e (c, s)
    = (c + int (card (range_nodes (unat apb) (unat s) (unat e + 1))), s)"
proof -
  let ?n = "unat apb" let ?f = "12 + unat apb" let ?w = "EXT2_NDIR_BLOCKS + apb"
  have n: "0 < ?n" using assms(1) by (simp add: tree_fits_def)
  have f: "unat ?w = ?f" by (rule unat_zone_starts [OF assms(1)])
  have e32: "unat e < 2 ^ 32" using unsigned_less [of e] by simp
  have sub: "unat (e - ?w) = unat e - ?f" "unat (s - ?w) = unat s - ?f"
    using assms f by (simp_all add: unat_sub_le word_le_nat_alt)
  have "(unat e - ?f) div ?n \<le> unat e - ?f" by simp
  then have lt: "(unat e - ?f) div ?n - (unat s - ?f) div ?n + 1 < 2 ^ 32"
    using e32 n assms(2,3) by linarith
  have q: "uint ((e - ?w) div apb - (s - ?w) div apb + 1)
      = int ((unat e - ?f) div ?n - (unat s - ?f) div ?n + 1)"
    using uint_length [of "(s - ?w) div apb" "(e - ?w) div apb"] assms(3) lt
    by (simp only: unat_div sub div_le_mono diff_le_mono)
  have l: "uint (e - s + 1) = int (unat e - unat s + 1)"
    by (rule uint_length) (use assms e32 in simp_all)
  have c: "card (range_nodes ?n (unat s) (unat e + 1))
    = (unat e + 1 - unat s) + 1 + ((unat e - ?f) div ?n - (unat s - ?f) div ?n + 1)"
    using card_zone_2 [OF assms(2), of "unat e + 1"] assms n by simp
  have z: "is_2indirect_block apb s" "is_2indirect_block apb e"
    using assms by (simp_all add: is_2indirect_block_iff)
  have "estimate_2indirect apb e (c, s) = (c + uint (e - s + 1) + 1
        + uint ((e - ?w) div apb - (s - ?w) div apb + 1), s)"
    by (simp only: estimate_2indirect_def z Let_def if_True prod.case)
  also have "\<dots> = (c + int (card (range_nodes ?n (unat s) (unat e + 1))), s)"
    unfolding l q c using assms(3) by (simp add: Suc_diff_le)
  finally show ?thesis .
qed

text \<open>
  Where the range runs on into the zone of the triply indirect block the code divides the block
  numbers themselves, not their offsets in the zone, which may count one indirect block too many.
\<close>

lemma unshifted_quotients:
  assumes "12 \<le> (n::nat)" and "12 + n \<le> s" and "s < 12 + n + n * n"
  shows "(12 + n + n * n - 1) div n - s div n + 1
      = (12 + n + n * n - 1 - (12 + n)) div n - (s - (12 + n)) div n + 1
    \<or> (12 + n + n * n - 1) div n - s div n + 1
      = (12 + n + n * n - 1 - (12 + n)) div n - (s - (12 + n)) div n + 1 + 1"
proof -
  define t where "t = s - (12 + n)"
  have s: "s = (12 + t) + n" and t: "t < n * n" using assms(2,3) by (simp_all add: t_def)
  have q: "t div n < n" using t by (rule less_mult_imp_div_less)
  have "12 + n + n * n - 1 = (n + 1) * n + 11" by simp
  then have "(12 + n + n * n - 1) div n = (n + 1) + 11 div n"
    using assms(1) div_mult_self3 [of n "n + 1" 11] by (simp only:)
  then have l: "(12 + n + n * n - 1) div n = n + 1" using assms(1) by simp
  have "n * n - 1 = (n - 1) * n + (n - 1)" using assms(1) by (cases n) simp_all
  then have "(n * n - 1) div n = (n - 1) + (n - 1) div n"
    using assms(1) div_mult_self3 [of n "n - 1" "n - 1"] by (simp only:)
  then have r: "(n * n - 1) div n = n - 1" using assms(1) by simp
  have s': "s div n = (12 + t) div n + 1"
    using s assms(1) div_add_self2 [of n "12 + t"] by simp
  have "t div n \<le> (12 + t) div n" by (rule div_le_mono) simp
  moreover have "(12 + t) div n \<le> (n + t) div n" by (rule div_le_mono) (use assms(1) in simp)
  moreover have "(n + t) div n = t div n + 1"
    using assms(1) div_add_self1 [of n t] by simp
  ultimately have "(12 + t) div n = t div n \<or> (12 + t) div n = t div n + 1" by linarith
  moreover have "12 + n + n * n - 1 - (12 + n) = n * n - 1" by simp
  ultimately show ?thesis using q l r s' by (auto simp flip: t_def)
qed

lemma estimate_2indirect_over:
  assumes "tree_fits apb" and "12 + unat apb \<le> unat s"
    and "unat s < 12 + unat apb + unat apb * unat apb"
    and "12 + unat apb + unat apb * unat apb \<le> unat e"
  shows "\<exists>d. (d = 0 \<or> d = 1) \<and> estimate_2indirect apb e (c, s)
    = (c + int (card (range_nodes (unat apb) (unat s) (12 + unat apb + unat apb * unat apb))) + d,
       EXT2_NDIR_BLOCKS + apb + apb * apb)"
proof -
  let ?n = "unat apb" let ?l = "12 + unat apb + unat apb * unat apb"
  let ?w = "EXT2_NDIR_BLOCKS + apb + apb * apb - 1"
  have n: "12 \<le> ?n" using assms(1) by (simp add: tree_fits_def)
  have w: "unat ?w = ?l - 1" by (rule unat_zone_starts [OF assms(1)])
  have l32: "?l < 2 ^ 32" using assms(1) by (simp add: tree_fits_def)
  have "(?l - 1) div ?n \<le> ?l - 1" by simp
  then have lt: "(?l - 1) div ?n - unat s div ?n + 1 < 2 ^ 32" using l32 by linarith
  have "unat s \<le> ?l - 1" using assms(3) by simp
  then have q: "uint (?w div apb - s div apb + 1) = int ((?l - 1) div ?n - unat s div ?n + 1)"
    using uint_length [of "s div apb" "?w div apb"] lt by (simp only: unat_div w div_le_mono)
  have d: "uint (?w - s + 1) = int (?l - 1 - unat s + 1)"
    using uint_length [of s ?w] \<open>unat s \<le> ?l - 1\<close> l32 w by linarith
  have z: "is_2indirect_block apb s" "\<not> is_2indirect_block apb e"
    using assms by (simp_all add: is_2indirect_block_iff)
  have c: "card (range_nodes ?n (unat s) ?l)
    = (?l - unat s) + 1 + ((?l - 1 - (12 + ?n)) div ?n - (unat s - (12 + ?n)) div ?n + 1)"
    using card_zone_2 [OF assms(2,3)] n by simp
  have "estimate_2indirect apb e (c, s) = (c + uint (?w - s + 1) + 1
        + uint (?w div apb - s div apb + 1), ?w + 1)"
    by (simp only: estimate_2indirect_def z Let_def if_True if_False prod.case)
  also have "\<dots> = (c + int (?l - 1 - unat s + 1) + 1
        + int ((?l - 1) div ?n - unat s div ?n + 1), ?w + 1)"
    by (simp only: q d)
  also have "?w + 1 = EXT2_NDIR_BLOCKS + apb + apb * apb" by simp
  finally have e: "estimate_2indirect apb e (c, s) = (c + int (?l - 1 - unat s + 1) + 1
        + int ((?l - 1) div ?n - unat s div ?n + 1), EXT2_NDIR_BLOCKS + apb + apb * apb)" .
  have ls: "int (?l - 1 - unat s + 1) = int (?l - unat s)" using assms(3) by simp
  from unshifted_quotients [OF n assms(2,3)] show ?thesis
  proof
    assume u: "(?l - 1) div ?n - unat s div ?n + 1
      = (?l - 1 - (12 + ?n)) div ?n - (unat s - (12 + ?n)) div ?n + 1"
    have "c + int (?l - 1 - unat s + 1) + 1 + int ((?l - 1) div ?n - unat s div ?n + 1)
      = c + int (card (range_nodes ?n (unat s) ?l)) + 0"
      unfolding ls unfolding c u of_nat_add by linarith
    then show ?thesis unfolding e by blast
  next
    assume u: "(?l - 1) div ?n - unat s div ?n + 1
      = (?l - 1 - (12 + ?n)) div ?n - (unat s - (12 + ?n)) div ?n + 1 + 1"
    have "c + int (?l - 1 - unat s + 1) + 1 + int ((?l - 1) div ?n - unat s div ?n + 1)
      = c + int (card (range_nodes ?n (unat s) ?l)) + 1"
      unfolding ls unfolding c u of_nat_add by linarith
    then show ?thesis unfolding e by blast
  qed
qed

lemma card_range_nodes_next:
  assumes "s \<le> m" and "m \<le> e" and "range_nodes n s m \<inter> range_nodes n m e = {}"
  shows "card (range_nodes n s e) = card (range_nodes n s m) + card (range_nodes n m e)"
  unfolding range_nodes_split [OF assms(1,2)]
  by (rule card_Un_disjoint) (simp_all only: finite_range_nodes assms(3))

lemma slot_in_zone:
  assumes p: "p \<in> set (ancestors (block_path n i))"
  shows "(last p < 12 \<longleftrightarrow> i < 12) \<and> (last p < 13 \<longleftrightarrow> i < 12 + n)
    \<and> (last p < 14 \<longleftrightarrow> i < 12 + n + n * n)"
proof -
  consider "i < 12" | "12 \<le> i" "i < 12 + n" | "12 + n \<le> i" "i < 12 + n + n * n"
    | "12 + n + n * n \<le> i" by linarith
  then show ?thesis
  proof cases
    case 1
    then have "last p = i" using p by (simp add: block_path_direct)
    then show ?thesis using 1 by simp
  next
    case 2
    have "last p = 12" using p unfolding block_path_1 [OF 2] by (simp only: ancestors.simps) force
    then show ?thesis using 2 by simp
  next
    case 3
    have "last p = 13" using p unfolding block_path_2 [OF 3] by (simp only: ancestors.simps) force
    then show ?thesis using 3 by simp
  next
    case 4
    have "last p = 14" using p unfolding block_path_3 [OF 4] by (simp only: ancestors.simps) force
    then show ?thesis using 4 by simp
  qed
qed

lemma zones_disjoint:
  assumes "m = 12 \<or> m = 12 + n \<or> m = 12 + n + n * n"
  shows "range_nodes n s m \<inter> range_nodes n m e = {}"
proof (intro equals0I)
  fix p assume "p \<in> range_nodes n s m \<inter> range_nodes n m e"
  then obtain i j where ij: "i < m" "m \<le> j" and p: "p \<in> set (ancestors (block_path n i))"
    "p \<in> set (ancestors (block_path n j))"
    by (auto simp: range_nodes_def)
  show False
    using assms ij slot_in_zone [OF p(1)] slot_in_zone [OF p(2)] by linarith
qed

text \<open>The three stages that remain when the range starts in the zone given.\<close>

lemma estimate_from_2indirect:
  assumes "tree_fits apb" and "12 + unat apb \<le> unat s" and "unat s \<le> unat e"
  shows "\<exists>d. (d = 0 \<or> d = 1 \<and> unat s < 12 + unat apb + unat apb * unat apb
      \<and> 12 + unat apb + unat apb * unat apb \<le> unat e)
    \<and> estimate_3indirect apb e (estimate_2indirect apb e (c, s))
      = Some (c + int (card (range_nodes (unat apb) (unat s) (unat e + 1))) + d)"
proof -
  let ?n = "unat apb" let ?l = "12 + unat apb + unat apb * unat apb"
  let ?w = "EXT2_NDIR_BLOCKS + apb + apb * apb"
  have w: "unat ?w = ?l" by (rule unat_zone_starts [OF assms(1)])
  consider "?l \<le> unat s" | "unat e < ?l" | "unat s < ?l" "?l \<le> unat e" by linarith
  then show ?thesis
  proof cases
    case 1
    then have "\<not> is_2indirect_block apb s" by (simp add: is_2indirect_block_iff [OF assms(1)])
    then have "estimate_2indirect apb e (c, s) = (c, s)" by (simp add: estimate_2indirect_def)
    then show ?thesis using estimate_3indirect_exact [OF assms(1) 1 assms(3), of c] by simp
  next
    case 2
    have "\<not> is_3indirect_block apb s"
      using assms 2 by (simp add: is_3indirect_block_iff)
    then have "estimate_3indirect apb e (c', s) = Some c'" for c'
      by (simp add: estimate_3indirect_def)
    then show ?thesis using estimate_2indirect_exact [OF assms 2, of c] by simp
  next
    case 3
    obtain d where d: "d = 0 \<or> d = 1" and e2: "estimate_2indirect apb e (c, s)
        = (c + int (card (range_nodes ?n (unat s) ?l)) + d, ?w)"
      using estimate_2indirect_over [OF assms(1,2) 3] by blast
    have e3: "estimate_3indirect apb e (c', ?w)
        = Some (c' + int (card (range_nodes ?n ?l (unat e + 1))))" for c'
      using estimate_3indirect_exact [OF assms(1), of ?w e c'] 3(2) unfolding w by simp
    have "card (range_nodes ?n (unat s) (unat e + 1))
        = card (range_nodes ?n (unat s) ?l) + card (range_nodes ?n ?l (unat e + 1))"
      using 3 by (intro card_range_nodes_next zones_disjoint) simp_all
    then have "c + int (card (range_nodes ?n (unat s) ?l)) + d
          + int (card (range_nodes ?n ?l (unat e + 1)))
        = c + int (card (range_nodes ?n (unat s) (unat e + 1))) + d" by linarith
    then show ?thesis unfolding e2 e3 using d 3 by blast
  qed
qed

lemma estimate_from_1indirect:
  assumes "tree_fits apb" and "12 \<le> unat s" and "unat s \<le> unat e"
  shows "\<exists>d. (d = 0 \<or> d = 1 \<and> unat s < 12 + unat apb + unat apb * unat apb
      \<and> 12 + unat apb + unat apb * unat apb \<le> unat e)
    \<and> estimate_3indirect apb e (estimate_2indirect apb e (estimate_1indirect apb e (c, s)))
      = Some (c + int (card (range_nodes (unat apb) (unat s) (unat e + 1))) + d)"
proof -
  let ?n = "unat apb" let ?l = "12 + unat apb" let ?w = "EXT2_NDIR_BLOCKS + apb"
  have w: "unat ?w = ?l" and w1: "unat (?w - 1) = ?l - 1" by (rule unat_zone_starts [OF assms(1)])+
  have e32: "unat e < 2 ^ 32" using unsigned_less [of e] by simp
  consider "?l \<le> unat s" | "unat e < ?l" | "unat s < ?l" "?l \<le> unat e" by linarith
  then show ?thesis
  proof cases
    case 1
    then have "\<not> is_1indirect_block apb s" by (simp add: is_1indirect_block_iff)
    then have "estimate_1indirect apb e (c, s) = (c, s)" by (simp add: estimate_1indirect_def)
    then show ?thesis using estimate_from_2indirect [OF assms(1) 1 assms(3), of c] by simp
  next
    case 2
    then have z: "is_1indirect_block apb s" "is_1indirect_block apb e"
      using assms by (simp_all add: is_1indirect_block_iff)
    have u: "uint (e - s + 1) = int (unat e - unat s + 1)"
      by (rule uint_length) (use assms 2 e32 in linarith)+
    have "\<not> is_2indirect_block apb s" "\<not> is_3indirect_block apb s"
      using assms 2 by (simp_all add: is_2indirect_block_iff is_3indirect_block_iff)
    then have "estimate_3indirect apb e (estimate_2indirect apb e (c', s)) = Some c'" for c'
      by (simp add: estimate_2indirect_def estimate_3indirect_def)
    moreover have "estimate_1indirect apb e (c, s) = (c + uint (e - s + 1) + 1, s)"
      by (simp only: estimate_1indirect_def z Let_def if_True prod.case)
    moreover have "card (range_nodes ?n (unat s) (unat e + 1)) = (unat e + 1 - unat s) + 1"
      using card_zone_1 [OF assms(2), of "unat e + 1" ?n] assms(3) 2 by simp
    ultimately show ?thesis unfolding u using assms(3) by (simp add: Suc_diff_le)
  next
    case 3
    have z: "is_1indirect_block apb s" "\<not> is_1indirect_block apb e"
      using assms 3 by (simp_all add: is_1indirect_block_iff)
    have l32: "?l < 2 ^ 32" using 3(2) e32 by linarith
    have u: "uint (?w - 1 - s + 1) = int (?l - 1 - unat s + 1)"
      using uint_length [of s "?w - 1"] 3(1) l32 unfolding w1 by linarith
    have e1: "estimate_1indirect apb e (c, s) = (c + int (?l - 1 - unat s + 1) + 1, ?w)"
      by (simp only: estimate_1indirect_def z Let_def if_True if_False prod.case u diff_add_cancel)
    have "card (range_nodes ?n (unat s) ?l) = (?l - unat s) + 1"
      using card_zone_1 [OF assms(2) 3(1)] by simp
    moreover have "card (range_nodes ?n (unat s) (unat e + 1))
        = card (range_nodes ?n (unat s) ?l) + card (range_nodes ?n ?l (unat e + 1))"
      using 3 by (intro card_range_nodes_next zones_disjoint) simp_all
    ultimately have "c + int (?l - 1 - unat s + 1) + 1 + int (card (range_nodes ?n ?l (unat e + 1))) + d
        = c + int (card (range_nodes ?n (unat s) (unat e + 1))) + d" for d
      using 3(1) by simp
    moreover have "unat s < 12 + ?n + ?n * ?n" using 3(1) by linarith
    moreover obtain d where "d = 0 \<or> d = 1 \<and> 12 + ?n + ?n * ?n \<le> unat e"
      "estimate_3indirect apb e (estimate_2indirect apb e (c + int (?l - 1 - unat s + 1) + 1, ?w))
        = Some (c + int (?l - 1 - unat s + 1) + 1 + int (card (range_nodes ?n ?l (unat e + 1))) + d)"
      using estimate_from_2indirect [OF assms(1), of ?w e "c + int (?l - 1 - unat s + 1) + 1"] 3(2)
      unfolding w by blast
    ultimately show ?thesis unfolding e1 by (intro exI [of _ d]) (simp only: simp_thms)
  qed
qed

lemma estimate_bound:
  assumes "tree_fits apb" and "unat s + unat c \<le> 2 ^ 32"
  shows "\<exists>d. (d = 0 \<or> d = 1 \<and> unat s < 12 + unat apb + unat apb * unat apb
      \<and> 12 + unat apb + unat apb * unat apb < unat s + unat c)
    \<and> estimate_blocks_for_range apb s c
      = Some (int (card (range_nodes (unat apb) (unat s) (unat s + unat c))) + d)"
proof (cases "c = 0")
  case True
  then show ?thesis by (simp add: estimate_blocks_for_range_def)
next
  case False
  let ?n = "unat apb" let ?e = "s + c - 1"
  have c0: "0 < unat c" using False by (simp add: unat_gt_0)
  have "?e = s + (c - 1)" by simp
  moreover have "unat (c - 1) = unat c - 1" using c0 by (simp add: unat_sub_le word_le_nat_alt)
  ultimately have e: "unat ?e = unat s + unat c - 1" using assms(2) c0
    by (subst \<open>?e = s + (c - 1)\<close>, subst unat_plus_if') simp
  then have se: "unat s \<le> unat ?e" "unat ?e + 1 = unat s + unat c" using c0 by linarith+
  have est: "estimate_blocks_for_range apb s c = estimate_3indirect apb ?e (estimate_2indirect apb ?e
      (estimate_1indirect apb ?e (estimate_direct ?e (0, s))))"
    using False by (simp add: estimate_blocks_for_range_def Let_def)
  have e32: "unat ?e < 2 ^ 32" using unsigned_less [of ?e] by simp
  consider "12 \<le> unat s" | "unat ?e < 12" | "unat s < 12" "12 \<le> unat ?e" by linarith
  then show ?thesis
  proof cases
    case 1
    then have "\<not> is_direct_block s" by (simp add: is_direct_block_iff)
    then have "estimate_direct ?e (0, s) = (0, s)" by (simp add: estimate_direct_def)
    then show ?thesis
      using estimate_from_1indirect [OF assms(1) 1 se(1), of 0] se(2) unfolding est
      by (simp only: add_0) (metis Suc_eq_plus1 less_Suc_eq_le)
  next
    case 2
    then have z: "is_direct_block s" "is_direct_block ?e" using se(1) by (simp_all add: is_direct_block_iff)
    have u: "uint (?e - s + 1) = int (unat ?e - unat s + 1)"
      by (rule uint_length) (use se(1) 2 in simp_all)
    have "\<not> is_1indirect_block apb s" "\<not> is_2indirect_block apb s" "\<not> is_3indirect_block apb s"
      using se 2 assms(1)
      by (simp_all add: is_1indirect_block_iff is_2indirect_block_iff is_3indirect_block_iff)
    then have "estimate_3indirect apb ?e (estimate_2indirect apb ?e (estimate_1indirect apb ?e (c', s)))
        = Some c'" for c'
      by (simp add: estimate_1indirect_def estimate_2indirect_def estimate_3indirect_def)
    moreover have "estimate_direct ?e (0, s) = (0 + uint (?e - s + 1), s)"
      by (simp only: estimate_direct_def z Let_def if_True prod.case)
    moreover have "card (range_nodes ?n (unat s) (unat s + unat c)) = unat ?e + 1 - unat s"
      using card_zone_direct [of "unat ?e + 1" ?n "unat s"] se(2) 2 by simp
    ultimately show ?thesis unfolding est u using se(1) by (simp add: Suc_diff_le)
  next
    case 3
    have z: "is_direct_block s" "\<not> is_direct_block ?e" using 3 by (simp_all add: is_direct_block_iff)
    have N: "unat (EXT2_NDIR_BLOCKS - 1) = 11" by (simp add: EXT2_NDIR_BLOCKS_def)
    have "uint (EXT2_NDIR_BLOCKS - 1 - s + 1) = int (11 - unat s + 1)"
      by (rule uint_length [of s "EXT2_NDIR_BLOCKS - 1", unfolded N]) (use 3(1) in simp_all)
    moreover have "int (11 - unat s + 1) = int (12 - unat s)" using 3(1) by simp
    ultimately have u: "uint (EXT2_NDIR_BLOCKS - 1 - s + 1) = int (12 - unat s)" by (simp only:)
    have e0: "estimate_direct ?e (0, s) = (0 + int (12 - unat s), EXT2_NDIR_BLOCKS)"
      by (simp only: estimate_direct_def z Let_def if_True if_False prod.case u)
    have "card (range_nodes ?n (unat s) 12) = 12 - unat s" by (rule card_zone_direct) simp
    moreover have "card (range_nodes ?n (unat s) (unat ?e + 1))
        = card (range_nodes ?n (unat s) 12) + card (range_nodes ?n 12 (unat ?e + 1))"
      using 3 by (intro card_range_nodes_next zones_disjoint) simp_all
    ultimately have "0 + int (12 - unat s) + int (card (range_nodes ?n 12 (unat ?e + 1))) + d
        = int (card (range_nodes ?n (unat s) (unat ?e + 1))) + d" for d by simp
    moreover have "unat s < 12 + ?n + ?n * ?n" using 3(1) by linarith
    moreover have "12 + ?n + ?n * ?n < unat s + unat c" if "12 + ?n + ?n * ?n \<le> unat ?e"
      using that se(2) by linarith
    moreover obtain d where "d = 0 \<or> d = 1 \<and> 12 + ?n + ?n * ?n \<le> unat ?e"
      "estimate_3indirect apb ?e (estimate_2indirect apb ?e (estimate_1indirect apb ?e
          (0 + int (12 - unat s), EXT2_NDIR_BLOCKS)))
        = Some (0 + int (12 - unat s) + int (card (range_nodes ?n 12 (unat ?e + 1))) + d)"
      using estimate_from_1indirect [OF assms(1), of EXT2_NDIR_BLOCKS ?e "0 + int (12 - unat s)"] 3(2)
      unfolding EXT2_NDIR_unat by blast
    ultimately show ?thesis unfolding est e0 se(2) by (intro exI [of _ d] conjI) (blast, simp only:)
  qed
qed

text \<open>
  The estimate can be one too large: 21 file blocks around the end of the doubly indirect zone
  occupy 26 blocks, 27 are counted.
\<close>

lemma estimate_over_by_one:
  "estimate_blocks_for_range 256 65784 21 = Some 27 \<and> card (range_nodes 256 65784 65805) = 26"
proof
  show "estimate_blocks_for_range 256 65784 21 = Some 27" by code_simp
  have "card (range_nodes 256 65784 65805)
      = card (range_nodes 256 65784 65804) + card (range_nodes 256 65804 65805)"
    by (rule card_range_nodes_next) (simp_all add: zones_disjoint)
  then show "card (range_nodes 256 65784 65805) = 26"
    using card_zone_2 [of 256 65784 65804] card_zone_3 [of 256 65804 65805] by simp
qed

text \<open>
  C18: for every range that ends within 32-bit block numbers the estimate is the exact number of
  disk blocks (data and indirect blocks of all levels) that the range occupies in a file without
  holes, or one more, the latter only for a range that crosses from the zone of the doubly
  indirect block into that of the triply indirect one. So the area that is searched for is never
  too small.
\<close>

theorem estimate_blocks_for_range_exact:
  assumes "tree_fits apb" and "unat s + unat c \<le> 2 ^ 32"
  shows "\<exists>d. (d = 0 \<or> d = 1 \<and> unat s < 12 + unat apb + unat apb * unat apb
      \<and> 12 + unat apb + unat apb * unat apb < unat s + unat c)
    \<and> estimate_blocks_for_range apb s c
      = Some (int (card (range_nodes (unat apb) (unat s) (unat s + unat c))) + d)"
  by (rule estimate_bound [OF assms])

theorem estimate_blocks_for_range_exact_witness:
  "\<exists>d. (d = (0::int) \<or> d = 1 \<and> unat (65784::u32) < 65804 \<and> 65804 < unat (65784::u32) + unat (21::u32))
    \<and> estimate_blocks_for_range 256 65784 21
      = Some (int (card (range_nodes (unat (256::u32)) (unat (65784::u32)) (unat (65784::u32) + unat (21::u32)))) + d)"
  using estimate_blocks_for_range_exact [of 256 65784 21] by (simp add: tree_fits_def)

text \<open>
  the self test passes for 1, 2 and 4 KB blocks, and aborts the program on a file system with
  8 KB blocks, where the number of blocks under the triply indirect block does not fit 32 bits.
\<close>

theorem test_estimate_blocks_for_range_results:
  "test_estimate_blocks_for_range 256 \<and> test_estimate_blocks_for_range 512
   \<and> test_estimate_blocks_for_range 1024 \<and> \<not> test_estimate_blocks_for_range 2048"
proof (intro conjI)
  show "test_estimate_blocks_for_range 256" by code_simp
  show "test_estimate_blocks_for_range 512" by code_simp
  show "test_estimate_blocks_for_range 1024" by code_simp
  show "\<not> test_estimate_blocks_for_range 2048" by code_simp
qed

end
