(* ===== verification/Block_Tree.thy ===== *)
theory Block_Tree
  imports Block_Math
begin

text \<open>
  The block trees of the inodes of an ext2/3 file system as the relocator sees them: inodes,
  indirect blocks as lists of little-endian block numbers, and the abstract effect of moving one
  node of one tree to another disk block. This is the specification that the relocation code of
  \<open>Relocation\<close> is proved to implement.
\<close>

section \<open>Inodes and indirect blocks\<close>

record ext2_inode =
  i_mode :: u16
  i_size :: u32
  i_size_high :: u32
  i_block :: "u32 list"

fun block_words :: "byte list \<Rightarrow> u32 list" where
  "block_words (b0 # b1 # b2 # b3 # bs) = of_le32 [b0, b1, b2, b3] # block_words bs"
| "block_words _ = []"

definition words_block :: "u32 list \<Rightarrow> byte list" where
  "words_block ws = concat (map le32 ws)"

lemma block_words_le32 [wire]: "block_words (le32 w @ bs) = w # block_words bs"
proof -
  have "block_words (le32 w @ bs) = of_le32 (le32 w) # block_words bs"
    by (simp add: le32_def)
  then show ?thesis using of_le32_le32 [of w "[]"] by simp
qed

lemma block_words_words_block [simp, wire]: "block_words (words_block ws) = ws"
  by (induction ws) (simp_all add: words_block_def block_words_le32)

section \<open>Trees\<close>

text \<open>
  What the file system holds: which blocks the bitmap marks as used, the contents of the blocks and
  the inodes. \<open>node_block\<close> follows a path (last index first) through the indirect blocks; 0
  is a hole.
\<close>

record disk_view =
  v_used :: "u32 \<Rightarrow> bool"
  v_blk :: "u32 \<Rightarrow> byte list"
  v_inode :: "u32 \<Rightarrow> ext2_inode"

fun node_block :: "(u32 \<Rightarrow> byte list) \<Rightarrow> u32 list \<Rightarrow> nat list \<Rightarrow> u32" where
  "node_block blk ib [] = 0"
| "node_block blk ib [k] = ib ! k"
| "node_block blk ib (j # k # p) =
     (let b = node_block blk ib (k # p) in if b = 0 then 0 else block_words (blk b) ! j)"

definition node :: "disk_view \<Rightarrow> u32 \<Rightarrow> nat list \<Rightarrow> u32" where
  "node v ino p = node_block (v_blk v) (i_block (v_inode v ino)) p"

text \<open>
  \<open>zone_depth k\<close>: the length of the paths to the file blocks under slot \<open>k\<close> of the inode.
\<close>

definition zone_depth :: "nat \<Rightarrow> nat" where
  "zone_depth k = (if k < 12 then 1 else k - 10)"

definition tree_path :: "nat \<Rightarrow> nat list \<Rightarrow> bool" where
  "tree_path n p \<longleftrightarrow> p \<noteq> [] \<and> last p < 15 \<and> length p \<le> zone_depth (last p)
     \<and> (\<forall>j\<in>set (butlast p). j < n)"

definition leaf :: "nat list \<Rightarrow> bool" where
  "leaf p \<longleftrightarrow> length p = zone_depth (last p)"

text \<open>The contents of the file block at a leaf, \<open>None\<close> for a hole.\<close>

definition file_data :: "disk_view \<Rightarrow> u32 \<Rightarrow> nat list \<Rightarrow> byte list option" where
  "file_data v ino p = (if node v ino p = 0 then None else Some (v_blk v (node v ino p)))"

text \<open>
  Consistency of a file system, for the data blocks \<open>D\<close> among the blocks
  \<open>valid\<close> that the bitmap covers, and the inodes \<open>inos\<close> that own block trees: blocks that are
  free are data blocks; every node of every tree is a used data block; no block is in two places;
  indirect blocks hold \<open>n\<close> numbers.
\<close>

record geometry =
  g_valid :: "u32 set"
  g_data :: "u32 set"
  g_inos :: "u32 set"
  g_addr :: nat

definition key :: "geometry \<Rightarrow> u32 \<Rightarrow> nat list \<Rightarrow> bool" where
  "key g ino p \<longleftrightarrow> ino \<in> g_inos g \<and> tree_path (g_addr g) p"

definition consistent :: "geometry \<Rightarrow> disk_view \<Rightarrow> bool" where
  "consistent g v \<longleftrightarrow>
     g_data g \<subseteq> g_valid g \<and> 0 \<notin> g_data g
   \<and> (\<forall>b\<in>g_valid g. \<not> v_used v b \<longrightarrow> b \<in> g_data g)
   \<and> (\<forall>ino\<in>g_inos g. length (i_block (v_inode v ino)) = 15)
   \<and> (\<forall>ino p. key g ino p \<longrightarrow> node v ino p \<noteq> 0 \<longrightarrow>
        node v ino p \<in> g_data g \<and> v_used v (node v ino p)
      \<and> (\<not> leaf p \<longrightarrow> length (block_words (v_blk v (node v ino p))) = g_addr g))
   \<and> (\<forall>ino p ino' p'. key g ino p \<longrightarrow> key g ino' p' \<longrightarrow> node v ino p \<noteq> 0 \<longrightarrow>
        node v ino p = node v ino' p' \<longrightarrow> ino = ino' \<and> p = p')"

text \<open>One node moved: copy, bitmap, and the pointer in the inode or in the parent.\<close>

definition move_node :: "u32 \<Rightarrow> nat list \<Rightarrow> u32 \<Rightarrow> disk_view \<Rightarrow> disk_view" where
  "move_node ino p t v =
     (let s = node v ino p;
          v1 = v\<lparr>v_blk := (v_blk v)(t := v_blk v s), v_used := (v_used v)(t := True, s := False)\<rparr>
      in case p of
           [] \<Rightarrow> v
         | j # q \<Rightarrow>
             if q = []
             then v1\<lparr>v_inode := (v_inode v)(ino := (v_inode v ino)\<lparr>i_block := (i_block (v_inode v ino))[j := t]\<rparr>)\<rparr>
             else (let pb = node v ino q in
               v1\<lparr>v_blk := (v_blk v1)(pb := words_block ((block_words (v_blk v pb))[j := t]))\<rparr>))"

section \<open>Paths\<close>

lemma tree_path_Cons:
  "q \<noteq> [] \<Longrightarrow> tree_path n (j # q) \<longleftrightarrow> j < n \<and> tree_path n q \<and> length q < zone_depth (last q)"
  by (auto simp: tree_path_def)

lemma tree_path_single: "tree_path n [k] \<longleftrightarrow> k < 15"
  by (auto simp: tree_path_def zone_depth_def)

lemma key_Cons:
  "q \<noteq> [] \<Longrightarrow> key g ino (j # q) \<longleftrightarrow> j < g_addr g \<and> key g ino q \<and> \<not> leaf q"
  by (auto simp: key_def tree_path_Cons leaf_def) (auto simp: tree_path_def)

lemma key_single: "key g ino [k] \<longleftrightarrow> ino \<in> g_inos g \<and> k < 15"
  by (simp add: key_def tree_path_single)

lemma node_single [simp]: "node v ino [k] = i_block (v_inode v ino) ! k"
  by (simp add: node_def)

lemma node_Cons:
  "q \<noteq> [] \<Longrightarrow> node v ino (j # q)
     = (if node v ino q = 0 then 0 else block_words (v_blk v (node v ino q)) ! j)"
  by (cases q) (simp_all add: node_def Let_def)

lemma key_not_Nil [simp]: "\<not> key g ino []"
  by (simp add: key_def tree_path_def)

lemma node_parent: "q \<noteq> [] \<Longrightarrow> node v ino (j # q) \<noteq> 0 \<Longrightarrow> node v ino q \<noteq> 0"
  by (simp add: node_Cons split: if_splits)

lemma block_path_tree:
  assumes "0 < n" and "i < 12 + n + n * n + n * n * n"
  shows "tree_path n (block_path n i) \<and> leaf (block_path n i)"
proof -
  consider "i < 12" | "12 \<le> i" "i < 12 + n" | "12 + n \<le> i" "i < 12 + n + n * n"
    | "12 + n + n * n \<le> i" by linarith
  then show ?thesis
  proof cases
    case 1
    then show ?thesis by (simp add: block_path_direct tree_path_single leaf_def zone_depth_def)
  next
    case 2
    then have "i - 12 < n" by simp
    then show ?thesis
      by (simp add: block_path_1 [OF 2] tree_path_def leaf_def zone_depth_def)
  next
    case 3
    then have "(i - (12 + n)) div n < n" by (intro less_mult_imp_div_less) simp
    then show ?thesis
      using assms(1) by (simp add: block_path_2 [OF 3] tree_path_def leaf_def zone_depth_def)
  next
    case 4
    then have "i - (12 + n + n * n) < n * n * n" using assms(2) by simp
    then have "(i - (12 + n + n * n)) div n div n < n"
      by (intro less_mult_imp_div_less) (simp add: mult.assoc)
    then show ?thesis
      using assms(1) by (simp add: block_path_3 [OF 4] tree_path_def leaf_def zone_depth_def)
  qed
qed

section \<open>Moving one node\<close>

lemma consistentD:
  assumes "consistent g v" and "key g ino p" and "node v ino p \<noteq> 0"
  shows "node v ino p \<in> g_data g" and "v_used v (node v ino p)"
    and "\<not> leaf p \<Longrightarrow> length (block_words (v_blk v (node v ino p))) = g_addr g"
  using assms unfolding consistent_def by blast+

lemma consistent_inj:
  assumes "consistent g v" and "key g ino p" and "key g ino' p'" and "node v ino p \<noteq> 0"
    and "node v ino p = node v ino' p'"
  shows "ino = ino' \<and> p = p'"
  using assms unfolding consistent_def by blast

lemma consistent_length:
  "consistent g v \<Longrightarrow> ino \<in> g_inos g \<Longrightarrow> length (i_block (v_inode v ino)) = 15"
  by (simp add: consistent_def)

lemma used_neq: "v_used v b \<Longrightarrow> \<not> v_used v t \<Longrightarrow> b \<noteq> t"
  by auto

text \<open>The contents of a block that a tree holds, after the move.\<close>

lemma move_blk:
  assumes c: "consistent g v" and k: "key g ino p" "node v ino p \<noteq> 0"
    and t: "\<not> v_used v t"
    and k': "key g ino' q" "node v ino' q \<noteq> 0"
  shows "v_blk (move_node ino p t v) (if ino' = ino \<and> q = p then t else node v ino' q)
    = (if ino' = ino \<and> p = hd p # q \<and> q \<noteq> []
       then words_block ((block_words (v_blk v (node v ino q)))[hd p := t])
       else v_blk v (node v ino' q))"
proof -
  obtain j r where p: "p = j # r" using k(1) by (cases p) auto
  have nt: "node v ino' q \<noteq> t" using consistentD(2) [OF c k'] t by blast
  show ?thesis
  proof (cases "r = []")
    case True
    then show ?thesis using nt k'(1) by (auto simp: move_node_def p Let_def)
  next
    case False
    then have kr: "key g ino r" "node v ino r \<noteq> 0"
      using k by (simp_all add: p key_Cons node_parent)
    have tr: "node v ino r \<noteq> t" using consistentD(2) [OF c kr] t by blast
    have "node v ino' q = node v ino r \<longleftrightarrow> ino' = ino \<and> q = r"
      using consistent_inj [OF c k'(1) kr(1) k'(2)] by blast
    then show ?thesis
      using nt tr False by (auto simp: move_node_def p Let_def)
  qed
qed

lemma move_inode:
  "v_inode (move_node ino p t v) ino' =
    (if ino' = ino \<and> length p = 1
     then (v_inode v ino)\<lparr>i_block := (i_block (v_inode v ino))[hd p := t]\<rparr> else v_inode v ino')"
  by (cases p) (auto simp: move_node_def Let_def)

lemma move_used:
  "p \<noteq> [] \<Longrightarrow> v_used (move_node ino p t v) = (v_used v)(t := True, node v ino p := False)"
  by (cases p) (auto simp: move_node_def Let_def)

lemma node_move:
  assumes c: "consistent g v" and k: "key g ino p" "node v ino p \<noteq> 0"
    and t: "\<not> v_used v t" "t \<in> g_data g"
    and k': "key g ino' q"
  shows "node (move_node ino p t v) ino' q = (if ino' = ino \<and> q = p then t else node v ino' q)"
  using k'
proof (induction q)
  case Nil
  then show ?case by simp
next
  case (Cons j q)
  show ?case
  proof (cases "q = []")
    case True
    have "ino' = ino \<Longrightarrow> j < length (i_block (v_inode v ino))"
      using Cons.prems True consistent_length [OF c, of ino] by (simp add: key_single)
    moreover obtain k r where "p = k # r" using k(1) by (cases p) auto
    ultimately show ?thesis using True
      by (cases "j = k"; cases "r = []") (auto simp: move_inode)
  next
    case False
    then have kq: "key g ino' q" and j: "j < g_addr g" and nl: "\<not> leaf q"
      using Cons.prems by (simp_all add: key_Cons)
    note IH = Cons.IH [OF kq]
    have t0: "t \<noteq> 0" using c t(2) by (auto simp: consistent_def)
    show ?thesis
    proof (cases "node v ino' q = 0")
      case True
      then have "node (move_node ino p t v) ino' q = 0" using IH k(2) by auto
      moreover have "\<not> (ino' = ino \<and> j # q = p)" using True k(2) node_parent [OF False] by blast
      ultimately show ?thesis using True by (auto simp: node_Cons False)
    next
      case nz: False
      have *: "node (move_node ino p t v) ino' (j # q)
        = block_words (v_blk (move_node ino p t v) (if ino' = ino \<and> q = p then t else node v ino' q)) ! j"
        using IH nz t0 by (simp add: node_Cons False)
      have len: "length (block_words (v_blk v (node v ino' q))) = g_addr g"
        by (rule consistentD(3) [OF c kq nz nl])
      show ?thesis
      proof (cases "ino' = ino \<and> p = hd p # q")
        case True
        have "node (move_node ino p t v) ino' (j # q)
            = (block_words (v_blk v (node v ino q)))[hd p := t] ! j"
          unfolding * move_blk [OF c k t(1) kq nz] using True False by simp
        moreover have "j # q = p \<longleftrightarrow> j = hd p" using True by (metis list.sel(1))
        ultimately show ?thesis
          using True len j nz by (simp add: nth_list_update node_Cons False)
      next
        case neq: False
        have "node (move_node ino p t v) ino' (j # q) = block_words (v_blk v (node v ino' q)) ! j"
          unfolding * move_blk [OF c k t(1) kq nz] using neq by auto
        moreover have "\<not> (ino' = ino \<and> j # q = p)" using neq by force
        moreover have "node v ino' (j # q) = block_words (v_blk v (node v ino' q)) ! j"
          using nz by (simp add: node_Cons False)
        ultimately show ?thesis by (simp only: if_False)
      qed
    qed
  qed
qed


lemma consistent_move:
  assumes c: "consistent g v" and k: "key g ino p" "node v ino p \<noteq> 0"
    and t: "\<not> v_used v t" "t \<in> g_data g"
  shows "consistent g (move_node ino p t v)"
  unfolding consistent_def
proof (intro conjI allI impI ballI)
  let ?v = "move_node ino p t v" and ?s = "node v ino p"
  have p: "p \<noteq> []" using k(1) by auto
  have s: "?s \<in> g_data g" "v_used v ?s" using consistentD [OF c k] by auto
  note N = node_move [OF c k t] and U = move_used [OF p, of ino t v]
  show "g_data g \<subseteq> g_valid g" "0 \<notin> g_data g" using c by (simp_all add: consistent_def)
  show "b \<in> g_data g" if "b \<in> g_valid g" "\<not> v_used ?v b" for b
    using that c s by (auto simp: U consistent_def split: if_splits)
  show "length (i_block (v_inode ?v ino')) = 15" if "ino' \<in> g_inos g" for ino'
    using that consistent_length [OF c] by (auto simp: move_inode)
  fix ino' q assume k': "key g ino' q" and nz: "node ?v ino' q \<noteq> 0"
  note nz' = nz [unfolded N [OF k']]
  show "node ?v ino' q \<in> g_data g"
    using nz' t(2) consistentD(1) [OF c k'] by (auto simp: N [OF k'] split: if_splits)
  show "v_used ?v (node ?v ino' q)"
    using nz' consistentD(2) [OF c k'] consistent_inj [OF c k' k(1)] t(1) s(2)
    by (auto simp: N [OF k'] U split: if_splits)
  show "length (block_words (v_blk ?v (node ?v ino' q))) = g_addr g" if nl: "\<not> leaf q"
  proof -
    have nzv: "node v ino' q \<noteq> 0" using nz' k(2) by (auto split: if_splits)
    show ?thesis
      unfolding N [OF k'] move_blk [OF c k t(1) k' nzv]
      using consistentD(3) [OF c k' nzv nl] by auto
  qed
next
  let ?v = "move_node ino p t v"
  note N = node_move [OF c k t]
  fix i1 q1 i2 q2
  assume k1: "key g i1 q1" and k2: "key g i2 q2" and nz: "node ?v i1 q1 \<noteq> 0"
    and eq: "node ?v i1 q1 = node ?v i2 q2"
  have used: "node v i q \<noteq> t" if "key g i q" "node v i q \<noteq> 0" for i q
    using consistentD(2) [OF c that] t(1) by blast
  show "i1 = i2"
    using eq nz used [OF k1] used [OF k2] consistent_inj [OF c k1 k2]
    unfolding N [OF k1] N [OF k2] by (auto split: if_splits)
  show "q1 = q2"
    using eq nz used [OF k1] used [OF k2] consistent_inj [OF c k1 k2]
    unfolding N [OF k1] N [OF k2] by (auto split: if_splits)
qed

lemma file_data_move:
  assumes c: "consistent g v" and k: "key g ino p" "node v ino p \<noteq> 0"
    and t: "\<not> v_used v t" "t \<in> g_data g"
    and k': "key g ino' q" "leaf q"
  shows "file_data (move_node ino p t v) ino' q = file_data v ino' q"
proof (cases "node v ino' q = 0")
  case True
  then show ?thesis using k(2) by (auto simp: file_data_def node_move [OF c k t k'(1)])
next
  case False
  have t0: "t \<noteq> 0" using c t(2) by (auto simp: consistent_def)
  have "\<not> (ino' = ino \<and> p = hd p # q \<and> q \<noteq> [])"
    using k(1) k' by (metis key_Cons)
  then show ?thesis
    using False t0 move_blk [OF c k t(1) k'(1) False]
    by (auto simp: file_data_def node_move [OF c k t k'(1)] split: if_splits)
qed

end
