(* ===== verification/Ext2_Library.thy ===== *)
theory Ext2_Library
  imports Block_Tree
begin

text \<open>
  The interface of the library \<open>libext2fs\<close> that \<open>e2moveblocks\<close> calls. The library is not part
  of the sources: its calls are the fields of a record \<open>ext2fs\<close> over an opaque state
  \<open>'l\<close> (the open file system with its bitmaps, caches and device), an argument of every
  definition that uses them, and what the program relies on is the locale \<open>ext2_library\<close>.
  \<open>None\<close> and \<open>False\<close> are a nonzero \<open>errcode_t\<close>. \<open>malloc\<close> of the C library, which
  may fail too, is in the same record.
\<close>

section \<open>The calls\<close>

record super_block =
  s_blocks_count :: u32
  s_free_blocks_count :: u32
  s_first_ino :: u32
  s_feature_compat :: u32
  s_feature_incompat :: u32
  s_feature_ro_compat :: u32

text \<open>
  \<open>filesystem_info\<close> holds the handle \<open>fs\<close>: of the structure behind it, the super block
  (\<open>s_first_ino\<close> is the value of \<open>EXT2_FIRST_INO\<close>), the block size, the first block of
  the block bitmap, and the free block counts of the group descriptors, which the program reads
  and writes itself; \<open>fs_lib\<close> is the rest. \<open>fs_buffers\<close> counts the block buffers that
  are allocated and not freed.
\<close>

record 'l filesystem_info =
  fs_super :: super_block
  fs_blocksize :: u32
  fs_map_start :: u32
  fs_group_free :: "u16 list"
  fs_lib :: 'l
  fs_buffers :: nat

record 'l ext2fs =
  x_check_if_mounted :: "string \<Rightarrow> (bool \<times> bool) option"
  x_open :: "string \<Rightarrow> 'l filesystem_info option"
  x_supported :: "u32 \<times> u32 \<times> u32"
  x_read_bitmaps :: "'l \<Rightarrow> bool \<times> 'l"
  x_flush :: "'l \<Rightarrow> bool \<times> 'l"
  x_close :: "'l \<Rightarrow> bool \<times> 'l"
  x_malloc :: "u32 \<Rightarrow> 'l \<Rightarrow> bool \<times> 'l"
  x_test_block_bitmap :: "u32 \<Rightarrow> 'l \<Rightarrow> bool"
  x_mark_block_bitmap :: "u32 \<Rightarrow> 'l \<Rightarrow> 'l"
  x_unmark_block_bitmap :: "u32 \<Rightarrow> 'l \<Rightarrow> 'l"
  x_mark_bb_dirty :: "'l \<Rightarrow> 'l"
  x_group_of_blk :: "u32 \<Rightarrow> nat"
  x_read_blk :: "u32 \<Rightarrow> 'l \<Rightarrow> byte list option \<times> 'l"
  x_write_blk :: "u32 \<Rightarrow> byte list \<Rightarrow> 'l \<Rightarrow> bool \<times> 'l"
  x_read_ind_block :: "u32 \<Rightarrow> 'l \<Rightarrow> u32 list option \<times> 'l"
  x_write_ind_block :: "u32 \<Rightarrow> u32 list \<Rightarrow> 'l \<Rightarrow> bool \<times> 'l"
  x_read_inode :: "u32 \<Rightarrow> 'l \<Rightarrow> ext2_inode option \<times> 'l"
  x_write_inode :: "u32 \<Rightarrow> ext2_inode \<Rightarrow> 'l \<Rightarrow> bool \<times> 'l"
  x_inode_has_valid_blocks :: "ext2_inode \<Rightarrow> bool"
  x_namei_follow :: "byte list \<Rightarrow> 'l \<Rightarrow> u32 option \<times> 'l"

section \<open>What the program relies on\<close>

text \<open>
  A \<open>view\<close> gives the bitmap, the data blocks and the inodes that the library state stands for.
  The laws say what a call that reports success has done to it: reads return what is there and
  change nothing, writes to a data block (one that is not part of the file system's own tables)
  replace that block, bitmap calls are exact on the blocks the bitmap covers. Whether an inode has
  blocks of its own depends on its type and sizes, and on which of its slots are in use, not on
  the numbers in them.
\<close>

locale ext2_library =
  fixes lib :: "'l ext2fs" and view :: "'l \<Rightarrow> disk_view" and g :: geometry
  assumes test_bitmap:
    "b \<in> g_valid g \<Longrightarrow> x_test_block_bitmap lib b l = v_used (view l) b"
  and mark_bitmap: "b \<in> g_valid g \<Longrightarrow>
    view (x_mark_block_bitmap lib b l) = (view l)\<lparr>v_used := (v_used (view l))(b := True)\<rparr>"
  and unmark_bitmap: "b \<in> g_valid g \<Longrightarrow>
    view (x_unmark_block_bitmap lib b l) = (view l)\<lparr>v_used := (v_used (view l))(b := False)\<rparr>"
  and mark_dirty: "view (x_mark_bb_dirty lib l) = view l"
  and malloc: "x_malloc lib n l = (ok, l') \<Longrightarrow> view l' = view l"
  and read_blk: "x_read_blk lib b l = (Some d, l') \<Longrightarrow> b \<in> g_data g \<Longrightarrow>
    d = v_blk (view l) b \<and> view l' = view l"
  and write_blk: "x_write_blk lib b d l = (True, l') \<Longrightarrow> b \<in> g_data g \<Longrightarrow>
    view l' = (view l)\<lparr>v_blk := (v_blk (view l))(b := d)\<rparr>"
  and read_ind: "x_read_ind_block lib b l = (Some ws, l') \<Longrightarrow> b \<in> g_data g \<Longrightarrow>
    ws = block_words (v_blk (view l) b) \<and> view l' = view l"
  and write_ind: "x_write_ind_block lib b ws l = (True, l') \<Longrightarrow> b \<in> g_data g \<Longrightarrow>
    length ws = g_addr g \<Longrightarrow> view l' = (view l)\<lparr>v_blk := (v_blk (view l))(b := words_block ws)\<rparr>"
  and read_inode: "x_read_inode lib ino l = (Some nd, l') \<Longrightarrow>
    nd = v_inode (view l) ino \<and> view l' = view l"
  and read_inode_view: "x_read_inode lib ino l = (r, l') \<Longrightarrow> view l' = view l"
  and namei: "x_namei_follow lib name l = (found, l') \<Longrightarrow> view l' = view l"
  and write_inode: "x_write_inode lib ino nd l = (True, l') \<Longrightarrow>
    view l' = (view l)\<lparr>v_inode := (v_inode (view l))(ino := nd)\<rparr>"
  and valid_blocks: "length bs = length (i_block nd) \<Longrightarrow>
    (\<forall>k<length bs. bs ! k = 0 \<longleftrightarrow> i_block nd ! k = 0) \<Longrightarrow>
    x_inode_has_valid_blocks lib (nd\<lparr>i_block := bs\<rparr>) = x_inode_has_valid_blocks lib nd"

text \<open>A library whose device and memory never fail.\<close>

locale reliable_library = ext2_library +
  assumes malloc_ok: "fst (x_malloc lib n l)"
  and read_blk_ok: "b \<in> g_data g \<Longrightarrow> fst (x_read_blk lib b l) \<noteq> None"
  and write_blk_ok: "b \<in> g_data g \<Longrightarrow> fst (x_write_blk lib b d l)"
  and read_ind_ok: "b \<in> g_data g \<Longrightarrow> fst (x_read_ind_block lib b l) \<noteq> None"
  and write_ind_ok: "b \<in> g_data g \<Longrightarrow> fst (x_write_ind_block lib b ws l)"
  and read_inode_ok: "ino \<in> g_inos g \<Longrightarrow> fst (x_read_inode lib ino l) \<noteq> None"
  and write_inode_ok: "ino \<in> g_inos g \<Longrightarrow> fst (x_write_inode lib ino nd l)"

section \<open>A file system in memory\<close>

text \<open>
  A library state that is the view itself, with a count of the calls that may fail, and a
  library on it: \<open>ok n\<close> says whether the \<open>n\<close>-th such call succeeds. It satisfies
  the laws for every \<open>ok\<close> and every geometry, and serves the concrete runs.
\<close>

record image =
  im_view :: disk_view
  im_calls :: nat

definition im_tick :: "image \<Rightarrow> image" where
  "im_tick l = l\<lparr>im_calls := Suc (im_calls l)\<rparr>"

definition im_try :: "(nat \<Rightarrow> bool) \<Rightarrow> (disk_view \<Rightarrow> disk_view) \<Rightarrow> image \<Rightarrow> bool \<times> image" where
  "im_try ok f l =
     (if ok (im_calls l) then (True, (im_tick l)\<lparr>im_view := f (im_view l)\<rparr>) else (False, im_tick l))"

definition im_get :: "(nat \<Rightarrow> bool) \<Rightarrow> (disk_view \<Rightarrow> 'a) \<Rightarrow> image \<Rightarrow> 'a option \<times> image" where
  "im_get ok f l = (if ok (im_calls l) then Some (f (im_view l)) else None, im_tick l)"

definition image_lib :: "(nat \<Rightarrow> bool) \<Rightarrow> (string \<Rightarrow> image filesystem_info option) \<Rightarrow> image ext2fs" where
  "image_lib ok op =
    \<lparr>x_check_if_mounted = (\<lambda>_. Some (False, False)), x_open = op, x_supported = (0x3c, 0x6, 0x3),
     x_read_bitmaps = im_try ok id, x_flush = im_try ok id, x_close = im_try ok id,
     x_malloc = (\<lambda>_. im_try ok id),
     x_test_block_bitmap = (\<lambda>b l. v_used (im_view l) b),
     x_mark_block_bitmap = (\<lambda>b l. l\<lparr>im_view := (im_view l)\<lparr>v_used := (v_used (im_view l))(b := True)\<rparr>\<rparr>),
     x_unmark_block_bitmap = (\<lambda>b l. l\<lparr>im_view := (im_view l)\<lparr>v_used := (v_used (im_view l))(b := False)\<rparr>\<rparr>),
     x_mark_bb_dirty = id, x_group_of_blk = (\<lambda>b. unat b div 8192),
     x_read_blk = (\<lambda>b. im_get ok (\<lambda>v. v_blk v b)),
     x_write_blk = (\<lambda>b d. im_try ok (\<lambda>v. v\<lparr>v_blk := (v_blk v)(b := d)\<rparr>)),
     x_read_ind_block = (\<lambda>b. im_get ok (\<lambda>v. block_words (v_blk v b))),
     x_write_ind_block = (\<lambda>b ws. im_try ok (\<lambda>v. v\<lparr>v_blk := (v_blk v)(b := words_block ws)\<rparr>)),
     x_read_inode = (\<lambda>ino. im_get ok (\<lambda>v. v_inode v ino)),
     x_write_inode = (\<lambda>ino nd. im_try ok (\<lambda>v. v\<lparr>v_inode := (v_inode v)(ino := nd)\<rparr>)),
     x_inode_has_valid_blocks = (\<lambda>nd. i_mode nd AND 0xF000 = 0x8000 \<or> i_mode nd AND 0xF000 = 0x4000),
     x_namei_follow = (\<lambda>name l. (if name = [47, 97] then Some 12 else None, l))\<rparr>"

lemmas image_defs = image_lib_def im_try_def im_get_def im_tick_def

interpretation image: ext2_library "image_lib ok op" im_view g for ok op g
  by unfold_locales (auto simp: image_defs split: if_splits)

interpretation healthy: reliable_library "image_lib (\<lambda>_. True) op" im_view g for op g
  by unfold_locales (auto simp: image_defs)

end
