(* ===== verification/Relocation.thy ===== *)
theory Relocation
  imports Ext2_Library
begin

text \<open>
  The relocator of \<open>e2moveblocks\<close> (\<open>ext3_layout_optimize.cpp\<close>): the search for a free area,
  the copy of one raw block with its bitmap and group updates, the relocation of a pointer in an
  inode or an indirect block, of a file block with the indirect blocks on the way to it, and of a
  list of ranges. Messages to the standard error output are left out. A function that returns
  \<open>int\<close> 1 or 0 returns \<open>bool\<close>, or an \<open>outcome\<close> where a failed
  \<open>permanent_assert\<close> can end the program.
\<close>

datatype 'a outcome = Done 'a | Failed | Aborted

section \<open>The search for free space\<close>

definition addr_per_block :: "'l filesystem_info \<Rightarrow> u32" where
  "addr_per_block fs = fs_blocksize fs div 4"

text \<open>
  The loop over the blocks from \<open>block_map->start\<close> to \<open>s_blocks_count\<close>, with the current run
  length; \<open>None\<close> is \<open>return 0\<close>.
\<close>

function find_contiguous_loop ::
  "'l ext2fs \<Rightarrow> 'l filesystem_info \<Rightarrow> u32 \<Rightarrow> u32 \<Rightarrow> u32 \<Rightarrow> u32 option" where
  "find_contiguous_loop lib fs size_in_blocks i contiguous_free_blocks =
     (if i < s_blocks_count (fs_super fs) then
        if \<not> x_test_block_bitmap lib i (fs_lib fs) then
          (let contiguous_free_blocks = contiguous_free_blocks + 1 in
           if contiguous_free_blocks \<ge> size_in_blocks then Some (i + 1 - size_in_blocks)
           else find_contiguous_loop lib fs size_in_blocks (i + 1) contiguous_free_blocks)
        else find_contiguous_loop lib fs size_in_blocks (i + 1) 0
      else None)"
  by pat_completeness auto
termination
  by (relation "measure (\<lambda>(lib, fs, size, i, c). unat (s_blocks_count (fs_super fs)) - unat i)")
    (auto simp: unat_inc word_less_nat_alt)

declare find_contiguous_loop.simps [simp del]

definition find_contiguous_free_space ::
  "'l ext2fs \<Rightarrow> 'l filesystem_info \<Rightarrow> u32 \<Rightarrow> u32 option" where
  "find_contiguous_free_space lib fs size_in_blocks =
     (if s_free_blocks_count (fs_super fs) < size_in_blocks then None
      else find_contiguous_loop lib fs size_in_blocks (fs_map_start fs) 0)"

record relocation =
  rl_inode_number :: u32
  rl_block_offset :: u32
  rl_blocks_count :: u32

section \<open>Buffers and raw blocks\<close>

text \<open>A buffer is only counted: its contents are always overwritten before they are used.\<close>

definition get_block_buffer :: "'l ext2fs \<Rightarrow> 'l filesystem_info \<Rightarrow> bool \<times> 'l filesystem_info" where
  "get_block_buffer lib fs =
     (case x_malloc lib (fs_blocksize fs) (fs_lib fs) of
        (True, l) \<Rightarrow> (True, fs\<lparr>fs_lib := l, fs_buffers := fs_buffers fs + 1\<rparr>)
      | (False, l) \<Rightarrow> (False, fs\<lparr>fs_lib := l\<rparr>))"

definition free_block_buffer :: "'l filesystem_info \<Rightarrow> 'l filesystem_info" where
  "free_block_buffer fs = fs\<lparr>fs_buffers := fs_buffers fs - 1\<rparr>"

definition relocate_raw_block ::
  "'l ext2fs \<Rightarrow> 'l filesystem_info \<Rightarrow> u32 \<Rightarrow> u32 \<Rightarrow> bool \<times> 'l filesystem_info" where
  "relocate_raw_block lib fs source_block target_block =
     (if \<not> x_test_block_bitmap lib source_block (fs_lib fs) then (False, fs)
      else if x_test_block_bitmap lib target_block (fs_lib fs) then (False, fs)
      else
        (case get_block_buffer lib fs of
           (False, fs) \<Rightarrow> (False, fs)
         | (True, fs) \<Rightarrow>
             (case x_read_blk lib source_block (fs_lib fs) of
                (None, l) \<Rightarrow> (False, fs\<lparr>fs_lib := l\<rparr>)
              | (Some block_buf, l) \<Rightarrow>
                  (case x_write_blk lib target_block block_buf l of
                     (False, l) \<Rightarrow> (False, fs\<lparr>fs_lib := l\<rparr>)
                   | (True, l) \<Rightarrow>
                       (let fs = free_block_buffer (fs\<lparr>fs_lib := l\<rparr>);
                            l = x_mark_block_bitmap lib target_block (fs_lib fs);
                            l = x_unmark_block_bitmap lib source_block l;
                            l = x_mark_bb_dirty lib l;
                            sg = x_group_of_blk lib source_block;
                            tg = x_group_of_blk lib target_block;
                            gd = (fs_group_free fs)[sg := fs_group_free fs ! sg + 1];
                            gd = gd[tg := gd ! tg - 1]
                        in (True, fs\<lparr>fs_lib := l, fs_group_free := gd\<rparr>))))))"

section \<open>Pointers\<close>

text \<open>Returned: success, the inode in memory, the next target block, the file system.\<close>

definition relocate_block_in_inode ::
  "'l ext2fs \<Rightarrow> 'l filesystem_info \<Rightarrow> ext2_inode \<Rightarrow> nat \<Rightarrow> u32 \<Rightarrow> block_range
    \<Rightarrow> bool \<times> ext2_inode \<times> u32 \<times> 'l filesystem_info" where
  "relocate_block_in_inode lib fs inode index_in_inode_blocks target_block relocation_area =
     (let block = i_block inode ! index_in_inode_blocks in
      if block = 0 then (True, inode, target_block, fs)
      else if in_range block relocation_area then (True, inode, target_block, fs)
      else
        (case relocate_raw_block lib fs block target_block of
           (False, fs) \<Rightarrow> (False, inode, target_block, fs)
         | (True, fs) \<Rightarrow>
             (True, inode\<lparr>i_block := (i_block inode)[index_in_inode_blocks := target_block]\<rparr>,
              target_block + 1, fs)))"

text \<open>The value of \<open>Done\<close> is \<open>*next_indirect_block\<close>.\<close>

definition relocate_block_in_indirect_block ::
  "'l ext2fs \<Rightarrow> 'l filesystem_info \<Rightarrow> u32 \<Rightarrow> u32 \<Rightarrow> u32 \<Rightarrow> block_range
    \<Rightarrow> u32 outcome \<times> u32 \<times> 'l filesystem_info" where
  "relocate_block_in_indirect_block lib fs indirect_block_number index_in_indirect_block
      target_block relocation_area =
     (if \<not> index_in_indirect_block < fs_blocksize fs div 4 then (Aborted, target_block, fs)
      else if indirect_block_number = 0 then (Failed, target_block, fs)
      else
        (case x_read_ind_block lib indirect_block_number (fs_lib fs) of
           (None, l) \<Rightarrow> (Failed, target_block, fs\<lparr>fs_lib := l\<rparr>)
         | (Some block_numbers, l) \<Rightarrow>
             (let fs = fs\<lparr>fs_lib := l\<rparr>;
                  block = block_numbers ! unat index_in_indirect_block
              in if block = 0 then (Done block, target_block, fs)
                 else if in_range block relocation_area then (Done block, target_block, fs)
                 else
                   (case relocate_raw_block lib fs block target_block of
                      (False, fs) \<Rightarrow> (Failed, target_block, fs)
                    | (True, fs) \<Rightarrow>
                        (case x_write_ind_block lib indirect_block_number
                                (block_numbers[unat index_in_indirect_block := target_block])
                                (fs_lib fs) of
                           (False, l) \<Rightarrow> (Failed, target_block + 1, fs\<lparr>fs_lib := l\<rparr>)
                         | (True, l) \<Rightarrow> (Done target_block, target_block + 1, fs\<lparr>fs_lib := l\<rparr>))))))"

section \<open>A file block\<close>

text \<open>
  The chain of zones in \<open>relocate_block\<close>. The indirect block is always relocated before its
  entry, and the block found in the entry is the indirect block of the next level.
\<close>

definition relocate_block_1indirect ::
  "'l ext2fs \<Rightarrow> 'l filesystem_info \<Rightarrow> ext2_inode \<Rightarrow> u32 \<Rightarrow> u32 \<Rightarrow> block_range
    \<Rightarrow> unit outcome \<times> ext2_inode \<times> u32 \<times> 'l filesystem_info" where
  "relocate_block_1indirect lib fs inode block_in_inode target_block relocation_area =
     (case relocate_block_in_inode lib fs inode EXT2_IND_BLOCK target_block relocation_area of
        (False, inode, target_block, fs) \<Rightarrow> (Failed, inode, target_block, fs)
      | (True, inode, target_block, fs) \<Rightarrow>
          (let indirect_block = i_block inode ! EXT2_IND_BLOCK;
               index_in_indirect_block = block_in_inode - EXT2_NDIR_BLOCKS
           in if indirect_block = 0 then (Done (), inode, target_block, fs)
              else
                (case relocate_block_in_indirect_block lib fs indirect_block
                        index_in_indirect_block target_block relocation_area of
                   (Done _, target_block, fs) \<Rightarrow> (Done (), inode, target_block, fs)
                 | (Failed, target_block, fs) \<Rightarrow> (Failed, inode, target_block, fs)
                 | (Aborted, target_block, fs) \<Rightarrow> (Aborted, inode, target_block, fs))))"

definition relocate_block_2indirect ::
  "'l ext2fs \<Rightarrow> 'l filesystem_info \<Rightarrow> ext2_inode \<Rightarrow> u32 \<Rightarrow> u32 \<Rightarrow> block_range
    \<Rightarrow> unit outcome \<times> ext2_inode \<times> u32 \<times> 'l filesystem_info" where
  "relocate_block_2indirect lib fs inode block_in_inode target_block relocation_area =
     (case relocate_block_in_inode lib fs inode EXT2_DIND_BLOCK target_block relocation_area of
        (False, inode, target_block, fs) \<Rightarrow> (Failed, inode, target_block, fs)
      | (True, inode, target_block, fs) \<Rightarrow>
          (let apb = addr_per_block fs;
               indirect_block = i_block inode ! EXT2_DIND_BLOCK;
               index_in_1indirect_block = (block_in_inode - EXT2_NDIR_BLOCKS - apb) div apb;
               index_in_2indirect_block = (block_in_inode - EXT2_NDIR_BLOCKS - apb) mod apb
           in if indirect_block = 0 then (Done (), inode, target_block, fs)
              else
                (case relocate_block_in_indirect_block lib fs indirect_block
                        index_in_1indirect_block target_block relocation_area of
                   (Failed, target_block, fs) \<Rightarrow> (Failed, inode, target_block, fs)
                 | (Aborted, target_block, fs) \<Rightarrow> (Aborted, inode, target_block, fs)
                 | (Done next_indirect_block, target_block, fs) \<Rightarrow>
                     if next_indirect_block = 0 then (Done (), inode, target_block, fs)
                     else
                       (case relocate_block_in_indirect_block lib fs next_indirect_block
                               index_in_2indirect_block target_block relocation_area of
                          (Done _, target_block, fs) \<Rightarrow> (Done (), inode, target_block, fs)
                        | (Failed, target_block, fs) \<Rightarrow> (Failed, inode, target_block, fs)
                        | (Aborted, target_block, fs) \<Rightarrow> (Aborted, inode, target_block, fs)))))"

definition relocate_block_pointers ::
  "'l ext2fs \<Rightarrow> 'l filesystem_info \<Rightarrow> ext2_inode \<Rightarrow> u32 \<Rightarrow> u32 \<Rightarrow> block_range
    \<Rightarrow> unit outcome \<times> ext2_inode \<times> u32 \<times> 'l filesystem_info" where
  "relocate_block_pointers lib fs inode block_in_inode target_block relocation_area =
     (if is_direct_block block_in_inode then
        (case relocate_block_in_inode lib fs inode (unat block_in_inode) target_block
                relocation_area of
           (ok, inode, target_block, fs) \<Rightarrow>
             (if ok then Done () else Failed, inode, target_block, fs))
      else if is_1indirect_block (addr_per_block fs) block_in_inode then
        relocate_block_1indirect lib fs inode block_in_inode target_block relocation_area
      else if is_2indirect_block (addr_per_block fs) block_in_inode then
        relocate_block_2indirect lib fs inode block_in_inode target_block relocation_area
      else (Done (), inode, target_block, fs))"

definition relocate_block ::
  "'l ext2fs \<Rightarrow> 'l filesystem_info \<Rightarrow> u32 \<Rightarrow> u32 \<Rightarrow> u32 \<Rightarrow> block_range
    \<Rightarrow> unit outcome \<times> u32 \<times> 'l filesystem_info" where
  "relocate_block lib fs inode_number block_in_inode target_block relocation_area =
     (case x_read_inode lib inode_number (fs_lib fs) of
        (None, l) \<Rightarrow> (Failed, target_block, fs\<lparr>fs_lib := l\<rparr>)
      | (Some inode, l) \<Rightarrow>
          (let fs = fs\<lparr>fs_lib := l\<rparr> in
           if \<not> x_inode_has_valid_blocks lib inode then (Done (), target_block, fs)
           else
             (case get_block_buffer lib fs of
                (False, fs) \<Rightarrow> (Failed, target_block, fs)
              | (True, fs) \<Rightarrow>
                  (case relocate_block_pointers lib fs inode block_in_inode target_block
                          relocation_area of
                     (Aborted, inode, target_block, fs) \<Rightarrow> (Aborted, target_block, fs)
                   | (Failed, inode, target_block, fs) \<Rightarrow>
                       (Failed, target_block, free_block_buffer fs)
                   | (Done _, inode, target_block, fs) \<Rightarrow>
                       (case x_write_inode lib inode_number inode (fs_lib fs) of
                          (False, l) \<Rightarrow>
                            (Failed, target_block, free_block_buffer (fs\<lparr>fs_lib := l\<rparr>))
                        | (True, l) \<Rightarrow>
                            (Done (), target_block, free_block_buffer (fs\<lparr>fs_lib := l\<rparr>)))))))"

section \<open>Ranges and lists of ranges\<close>

text \<open>\<open>n\<close> iterations of the loop of \<open>relocate_blocks\<close> are left, the next with \<open>i\<close>.\<close>

fun relocate_blocks_loop ::
  "'l ext2fs \<Rightarrow> 'l filesystem_info \<Rightarrow> relocation \<Rightarrow> u32 \<Rightarrow> nat \<Rightarrow> u32 \<Rightarrow> block_range
    \<Rightarrow> unit outcome \<times> u32 \<times> 'l filesystem_info" where
  "relocate_blocks_loop lib fs r i 0 target_block relocation_area = (Done (), target_block, fs)"
| "relocate_blocks_loop lib fs r i (Suc n) target_block relocation_area =
     (case relocate_block lib fs (rl_inode_number r) (rl_block_offset r + i) target_block
             relocation_area of
        (Done _, target_block, fs) \<Rightarrow>
          relocate_blocks_loop lib fs r (i + 1) n target_block relocation_area
      | (err, target_block, fs) \<Rightarrow> (err, target_block, fs))"

definition relocate_blocks ::
  "'l ext2fs \<Rightarrow> 'l filesystem_info \<Rightarrow> relocation \<Rightarrow> u32 \<Rightarrow> block_range
    \<Rightarrow> unit outcome \<times> u32 \<times> 'l filesystem_info" where
  "relocate_blocks lib fs r target_block relocation_area =
     relocate_blocks_loop lib fs r 0 (unat (rl_blocks_count r)) target_block relocation_area"

text \<open>The loop over the relocations in \<open>main\<close>.\<close>

fun relocate_list ::
  "'l ext2fs \<Rightarrow> 'l filesystem_info \<Rightarrow> relocation list \<Rightarrow> u32 \<Rightarrow> block_range
    \<Rightarrow> unit outcome \<times> u32 \<times> 'l filesystem_info" where
  "relocate_list lib fs [] relocation_block relocation_area = (Done (), relocation_block, fs)"
| "relocate_list lib fs (r # rs) relocation_block relocation_area =
     (case relocate_blocks lib fs r relocation_block relocation_area of
        (Done _, relocation_block, fs) \<Rightarrow>
          relocate_list lib fs rs relocation_block relocation_area
      | (err, relocation_block, fs) \<Rightarrow> (err, relocation_block, fs))"

end
