(* ===== verification/C_Text.thy ===== *)
theory C_Text
  imports Prelude
begin

text \<open>
  The functions of the C library that read text, on byte strings: \<open>fgets\<close> on the bytes still to
  read, \<open>strtok\<close> with its rest, \<open>atol\<close> and \<open>strtol\<close> with their saturation, the conversions of \<open>sscanf\<close>
  and \<open>printf\<close> for decimal numbers. \<open>long\<close> has 32 bits.
\<close>

section \<open>Strings and numbers\<close>

definition fgets :: "nat \<Rightarrow> byte list \<Rightarrow> (byte list \<times> byte list) option" where
  "fgets n input =
     (if input = [] then None
      else (let m = min (length (takeWhile (\<lambda>c. c \<noteq> 10) input) + 1) (n - 1)
            in Some (take m input, drop m input)))"

definition c_string :: "byte list \<Rightarrow> byte list" where
  "c_string s = takeWhile (\<lambda>c. c \<noteq> 0) s"

text \<open>For \<open>strtok\<close>: the delimiters blank, tab and newline; the rest is what the next call continues with.\<close>

definition delimiter :: "byte \<Rightarrow> bool" where
  "delimiter c \<longleftrightarrow> c = 32 \<or> c = 9 \<or> c = 10"

definition strtok :: "byte list \<Rightarrow> byte list option \<times> byte list" where
  "strtok s =
     (let s = dropWhile delimiter s in
      if s = [] then (None, [])
      else (Some (takeWhile (\<lambda>c. \<not> delimiter c) s),
            drop 1 (dropWhile (\<lambda>c. \<not> delimiter c) s)))"

definition is_digit :: "byte \<Rightarrow> bool" where
  "is_digit c \<longleftrightarrow> 48 \<le> c \<and> c \<le> 57"

definition digits_value :: "byte list \<Rightarrow> int" where
  "digits_value s = fold (\<lambda>c v. v * 10 + (uint c - 48)) (takeWhile is_digit s) 0"

definition clamp_long :: "int \<Rightarrow> int" where
  "clamp_long v = max (- (2 ^ 31)) (min (2 ^ 31 - 1) v)"

definition atol :: "byte list \<Rightarrow> int" where
  "atol s =
     (let s = dropWhile (\<lambda>c. c = 32 \<or> 9 \<le> c \<and> c \<le> 13) s in
      clamp_long (case s of
          [] \<Rightarrow> 0
        | c # s' \<Rightarrow> if c = 45 then - digits_value s'
                    else if c = 43 then digits_value s' else digits_value s))"

text \<open>\<open>strtol\<close> in base 10: the value and what \<open>endptr\<close> points to.\<close>

definition strtol10 :: "byte list \<Rightarrow> int \<times> byte list" where
  "strtol10 s =
     (let t = dropWhile (\<lambda>c. c = 32 \<or> 9 \<le> c \<and> c \<le> 13) s;
          u = (case t of c # t' \<Rightarrow> if c = 45 \<or> c = 43 then t' else t | [] \<Rightarrow> t) in
      if takeWhile is_digit u = [] then (0, s) else (atol s, dropWhile is_digit u))"

section \<open>Numbers in formats\<close>

definition white :: "byte \<Rightarrow> bool" where
  "white c \<longleftrightarrow> c = 32 \<or> 9 \<le> c \<and> c \<le> 13"

text \<open>A decimal number: the value that the conversion reads, and the rest of the text.\<close>

definition scan_int :: "byte list \<Rightarrow> (int \<times> byte list) option" where
  "scan_int s =
     (let t = dropWhile white s;
          u = (case t of c # t' \<Rightarrow> if c = 45 \<or> c = 43 then t' else t | [] \<Rightarrow> t) in
      if takeWhile is_digit u = [] then None
      else Some (if take 1 t = [45] then - digits_value u else digits_value u, dropWhile is_digit u))"

text \<open>\<open>%Ld\<close> saturates at 64 bits; \<open>%u\<close> at 32 bits, where a negative number is negated as a word.\<close>

definition scan_Ld :: "byte list \<Rightarrow> (int \<times> byte list) option" where
  "scan_Ld s =
     (case scan_int s of None \<Rightarrow> None | Some (v, r) \<Rightarrow> Some (max (- (2 ^ 63)) (min (2 ^ 63 - 1) v), r))"

definition scan_u :: "byte list \<Rightarrow> (u32 \<times> byte list) option" where
  "scan_u s =
     (case scan_int s of None \<Rightarrow> None | Some (v, r) \<Rightarrow> Some (if \<bar>v\<bar> \<ge> 2 ^ 32 then - 1 else word_of_int v, r))"

text \<open>Literal characters of a format, and a blank, which any white space matches.\<close>

definition scan_literal :: "byte list \<Rightarrow> byte list \<Rightarrow> byte list option" where
  "scan_literal w s = (if take (length w) s = w then Some (drop (length w) s) else None)"

definition scan_white :: "byte list \<Rightarrow> byte list" where
  "scan_white s = dropWhile white s"

lemma scan_int_less: "scan_int s = Some (v, r) \<Longrightarrow> List.length r < List.length s"
proof -
  assume a: "scan_int s = Some (v, r)"
  let ?t = "dropWhile white s"
  let ?u = "case ?t of c # t' \<Rightarrow> if c = 45 \<or> c = 43 then t' else ?t | [] \<Rightarrow> ?t"
  have u: "takeWhile is_digit ?u \<noteq> []" "r = dropWhile is_digit ?u" using a by (auto simp: scan_int_def Let_def split: if_splits)
  then have "List.length r < List.length ?u"
    by (cases ?u) (auto split: if_splits intro: le_imp_less_Suc length_dropWhile_le)
  also have "List.length ?u \<le> List.length ?t" by (auto split: list.split)
  also have "\<dots> \<le> List.length s" by (rule length_dropWhile_le)
  finally show ?thesis .
qed

text \<open>The input ends before a number that is missing (behind white space and a sign).\<close>

definition number_at_end :: "byte list \<Rightarrow> bool" where
  "number_at_end s \<longleftrightarrow> (case dropWhile white s of c # t' \<Rightarrow> (c = 45 \<or> c = 43) \<and> t' = [] | [] \<Rightarrow> True)"

text \<open>The digits that \<open>%u\<close> prints, and \<open>%Ld\<close>.\<close>

fun dec :: "nat \<Rightarrow> byte list" where
  "dec n = (if n < 10 then [of_nat (48 + n)] else dec (n div 10) @ [of_nat (48 + n mod 10)])"

declare dec.simps [simp del]

definition dec_int :: "int \<Rightarrow> byte list" where
  "dec_int i = (if i < 0 then 45 # dec (nat (- i)) else dec (nat i))"

section \<open>Reading back what was printed\<close>

lemma digit_byte: "n < 10 \<Longrightarrow> is_digit (of_nat (48 + n)) \<and> uint (of_nat (48 + n) :: byte) = 48 + int n"
proof -
  assume n: "n < 10"
  then have u: "uint (of_nat (48 + n) :: byte) = 48 + int n"
    unfolding uint_nat by (simp only: unat_of_nat) (simp add: take_bit_nat_eq_self)
  then show ?thesis using n by (simp add: is_digit_def word_le_def del: of_nat_add)
qed

lemma dec_digits: "dec n \<noteq> [] \<and> (\<forall>c\<in>set (dec n). is_digit c)"
proof (induction n rule: dec.induct)
  case (1 n)
  then show ?case using digit_byte [of n] digit_byte [of "n mod 10"] by (subst (1 2) dec.simps) (auto simp del: of_nat_add)
qed

lemma dec_value: "fold (\<lambda>c v. v * 10 + (uint c - 48)) (dec n) 0 = int n"
proof (induction n rule: dec.induct)
  case (1 n)
  show ?case
  proof (cases "n < 10")
    case True
    then show ?thesis using digit_byte [of n] by (simp add: dec.simps [of n] del: of_nat_add)
  next
    case False
    then show ?thesis using 1 digit_byte [of "n mod 10"] by (simp add: dec.simps [of n] del: of_nat_add) presburger
  qed
qed

lemma digit_range: "is_digit c \<Longrightarrow> 48 \<le> c \<and> c \<le> 57"
  by (simp add: is_digit_def)

lemma not_digit: "\<not> is_digit 32" "\<not> is_digit 10" "\<not> is_digit 43" "\<not> is_digit 45"
  by (simp_all add: is_digit_def)

lemma digit_not_white: "is_digit c \<Longrightarrow> \<not> white c \<and> c \<noteq> 45 \<and> c \<noteq> 43"
  by (auto simp: is_digit_def white_def word_le_nat_alt)

text \<open>A number ends before \<open>rest\<close>.\<close>

definition ends_number :: "byte list \<Rightarrow> bool" where
  "ends_number rest \<longleftrightarrow> (case rest of [] \<Rightarrow> True | c # _ \<Rightarrow> \<not> is_digit c)"

lemma digits_dec:
  assumes "ends_number rest"
  shows "digits_value (dec n @ rest) = int n" and "takeWhile is_digit (dec n @ rest) \<noteq> []" and "dropWhile is_digit (dec n @ rest) = rest"
proof -
  have r: "takeWhile is_digit rest = []" "dropWhile is_digit rest = rest"
    using assms by (cases rest; simp add: ends_number_def)+
  have t: "takeWhile is_digit (dec n @ rest) = dec n" "dropWhile is_digit (dec n @ rest) = rest"
    using dec_digits [of n] r by (simp_all add: takeWhile_append dropWhile_append)
  then show "digits_value (dec n @ rest) = int n" "takeWhile is_digit (dec n @ rest) \<noteq> []" "dropWhile is_digit (dec n @ rest) = rest"
    using dec_digits [of n] dec_value [of n] by (simp_all add: digits_value_def)
qed

lemma scan_int_dec: "ends_number rest \<Longrightarrow> scan_int (dec_int i @ rest) = Some (i, rest)"
proof -
  assume e: "ends_number rest"
  note d = digits_dec [OF e]
  show ?thesis
  proof (cases "i < 0")
    case True
    then show ?thesis using d [of "nat (- i)"] by (simp add: scan_int_def dec_int_def white_def Let_def)
  next
    case False
    obtain c t where ct: "dec (nat i) = c # t" using dec_digits [of "nat i"] by (cases "dec (nat i)") auto
    have "is_digit c" using dec_digits [of "nat i"] ct by simp
    then show ?thesis using d [of "nat i"] digit_not_white [of c] False by (simp add: scan_int_def dec_int_def ct Let_def)
  qed
qed

lemma scan_int_blank: "scan_int (32 # s) = scan_int s"
  by (simp add: scan_int_def white_def)

lemma scan_Ld_dec: "ends_number rest \<Longrightarrow> - (2 ^ 63) \<le> i \<Longrightarrow> i < 2 ^ 63 \<Longrightarrow> scan_Ld (dec_int i @ rest) = Some (i, rest)"
  by (simp add: scan_Ld_def scan_int_dec)

lemma scan_u_dec: "ends_number rest \<Longrightarrow> scan_u (dec (unat w) @ rest) = Some (w, rest)"
proof -
  assume e: "ends_number rest"
  have "dec (unat w) = dec_int (uint w)" unfolding dec_int_def unat_eq_nat_uint by simp
  then have "scan_int (dec (unat w) @ rest) = Some (uint w, rest)" by (simp only: scan_int_dec [OF e])
  moreover have "\<not> \<bar>uint w\<bar> \<ge> 2 ^ 32" using uint_lt2p [of w] by simp
  ultimately show ?thesis by (simp only: scan_u_def option.case prod.case if_False word_of_int_uint)
qed

lemma scan_blank: "scan_Ld (32 # s) = scan_Ld s" "scan_u (32 # s) = scan_u s"
  by (simp_all add: scan_Ld_def scan_u_def scan_int_blank)

text \<open>A whole line comes back from \<open>fgets\<close> when it fits into the buffer.\<close>

lemma fgets_line:
  assumes "10 \<notin> set line" and "length line + 1 < n"
  shows "fgets n (line @ 10 # rest) = Some (line @ [10], rest)"
proof -
  have "takeWhile (\<lambda>c. c \<noteq> 10) (line @ 10 # rest) = line" using assms(1) by (subst takeWhile_append2) auto
  then show ?thesis using assms(2) by (simp add: fgets_def Let_def)
qed

lemma c_string_line: "0 \<notin> set line \<Longrightarrow> c_string (line @ [10]) = line @ [10]"
  unfolding c_string_def by (subst takeWhile_eq_all_conv) auto

end
