(* ===== verification/Layout_List.thy ===== *)
theory Layout_List
  imports Relocation C_Text
begin

text \<open>
  The layout file of \<open>e2moveblocks\<close>: one line per range, \<open>file-or-inode [offset [length]]\<close> in
  pages, comments with \<open>#\<close>. \<open>process_layout_list\<close> resolves each line to a
  \<open>relocation\<close> in file system blocks, cut to the size of the file, and adds up the estimates.
\<close>

section \<open>File sizes\<close>

definition LINUX_S_ISREG :: "u16 \<Rightarrow> bool" where
  "LINUX_S_ISREG m \<longleftrightarrow> m AND 0xF000 = 0x8000"

definition inode_file_size :: "ext2_inode \<Rightarrow> u64" where
  "inode_file_size inode =
     (if LINUX_S_ISREG (i_mode inode)
      then ucast (i_size inode) OR push_bit 32 (ucast (i_size_high inode))
      else ucast (i_size inode))"

definition file_size_in_blocks :: "'l filesystem_info \<Rightarrow> ext2_inode \<Rightarrow> u32" where
  "file_size_in_blocks fs inode = ucast (ceil_div (inode_file_size inode) (ucast (fs_blocksize fs)))"

section \<open>One line\<close>

text \<open>
  The loop body after the fields are split: \<open>Next\<close> continues with the table of relocations and the
  estimate, \<open>Full\<close> is \<open>return 1\<close> because the table is full, \<open>Abort\<close> a failed assertion.
\<close>

datatype 'l line_step = Next "relocation list" int 'l | Full 'l | Abort 'l

definition MEMORY_FOR_RELOCATIONS :: nat where "MEMORY_FOR_RELOCATIONS = 20000"

text \<open>
  The range in blocks of a line for a file of \<open>size\<close> blocks; \<open>None\<close> when it begins behind the
  end. All arithmetic is that of 32-bit block numbers.
\<close>

definition clip_range :: "u32 \<Rightarrow> u32 \<Rightarrow> byte list option \<Rightarrow> byte list option \<Rightarrow> (u32 \<times> u32) option" where
  "clip_range factor file_size offset_field length_field =
     (let offset = (case offset_field of None \<Rightarrow> 0 | Some f \<Rightarrow> word_of_int (atol f) * factor) in
      if offset \<ge> file_size then None
      else
        (let count = (case length_field of None \<Rightarrow> file_size - offset
                      | Some f \<Rightarrow> word_of_int (atol f) * factor)
         in if offset + count > file_size then Some (offset, file_size - offset)
            else Some (offset, count)))"

definition resolve_inode ::
  "'l ext2fs \<Rightarrow> byte list \<Rightarrow> 'l \<Rightarrow> u32 option \<times> 'l" where
  "resolve_inode lib file_name l =
     (if hd file_name = 47 then x_namei_follow lib file_name l
      else if hd file_name \<ge> 48 \<and> hd file_name \<le> 57 then (Some (word_of_int (atol file_name)), l)
      else (None, l))"

definition process_fields ::
  "'l ext2fs \<Rightarrow> 'l filesystem_info \<Rightarrow> u32 \<Rightarrow> byte list \<Rightarrow> byte list option \<Rightarrow> byte list option
    \<Rightarrow> relocation list \<Rightarrow> int \<Rightarrow> 'l \<Rightarrow> 'l line_step" where
  "process_fields lib fs factor file_name offset_field length_field rs est l =
     (case resolve_inode lib file_name l of
        (None, l) \<Rightarrow> Next rs est l
      | (Some ino, l) \<Rightarrow>
          if ino < s_first_ino (fs_super fs) then Next rs est l
          else if length rs \<ge> MEMORY_FOR_RELOCATIONS then Full l
          else
            (case x_read_inode lib ino l of
               (None, l) \<Rightarrow> Next rs est l
             | (Some inode, l) \<Rightarrow>
                 (case clip_range factor (file_size_in_blocks fs inode) offset_field length_field of
                    None \<Rightarrow> Next rs est l
                  | Some (offset, cnt) \<Rightarrow>
                      (case estimate_blocks_for_range (addr_per_block fs) offset cnt of
                         None \<Rightarrow> Abort l
                       | Some e \<Rightarrow>
                           Next (rs @ [\<lparr>rl_inode_number = ino, rl_block_offset = offset,
                                        rl_blocks_count = cnt\<rparr>]) (est + e) l))))"

definition process_line ::
  "'l ext2fs \<Rightarrow> 'l filesystem_info \<Rightarrow> u32 \<Rightarrow> byte list
    \<Rightarrow> relocation list \<Rightarrow> int \<Rightarrow> 'l \<Rightarrow> 'l line_step" where
  "process_line lib fs factor line_buf rs est l =
     (let line = c_string line_buf in
      if line = [] then Next rs est l
      else if hd line = 35 then Next rs est l
      else if hd line = 10 then Next rs est l
      else
        (case strtok line of
           (None, _) \<Rightarrow> Next rs est l
         | (Some field1, rest) \<Rightarrow>
             (let (field2, rest) = strtok rest;
                  (field3, rest) = strtok rest
              in process_fields lib fs factor field1 field2 field3 rs est l)))"

section \<open>The list\<close>

definition BUF_SIZE :: nat where "BUF_SIZE = 1024"

lemma fgets_shorter: "fgets BUF_SIZE inp = Some (line, rest) \<Longrightarrow> length rest < length inp"
  by (auto simp: fgets_def Let_def BUF_SIZE_def split: if_splits)

function process_lines ::
  "'l ext2fs \<Rightarrow> 'l filesystem_info \<Rightarrow> u32 \<Rightarrow> byte list \<Rightarrow> relocation list \<Rightarrow> int \<Rightarrow> 'l
    \<Rightarrow> (relocation list \<times> int) outcome \<times> 'l" where
  "process_lines lib fs factor input rs est l =
     (case fgets BUF_SIZE input of
        None \<Rightarrow> (Done (rs, est), l)
      | Some (line_buf, rest) \<Rightarrow>
          (case process_line lib fs factor line_buf rs est l of
             Next rs est l \<Rightarrow> process_lines lib fs factor rest rs est l
           | Full l \<Rightarrow> (Done (rs, est), l)
           | Abort l \<Rightarrow> (Aborted, l)))"
  by pat_completeness auto
termination
  by (relation "measure (\<lambda>(_, _, _, input, _). length input)") (auto dest: fgets_shorter)

declare process_lines.simps [simp del]

text \<open>\<open>content\<close>: what \<open>fopen\<close> finds; 12 bytes are the size of a \<open>relocation\<close>.\<close>

definition process_layout_list ::
  "'l ext2fs \<Rightarrow> 'l filesystem_info \<Rightarrow> int \<Rightarrow> byte list option
    \<Rightarrow> (relocation list \<times> int) outcome \<times> 'l filesystem_info" where
  "process_layout_list lib fs page_size content =
     (case content of
        None \<Rightarrow> (Failed, fs)
      | Some input \<Rightarrow>
          (case x_malloc lib (of_nat MEMORY_FOR_RELOCATIONS * 12) (fs_lib fs) of
             (False, l) \<Rightarrow> (Failed, fs\<lparr>fs_lib := l\<rparr>)
           | (True, l) \<Rightarrow>
               (let block_size = uint (fs_blocksize fs);
                    page_to_blocks_factor = page_size div block_size
                in if page_to_blocks_factor * block_size \<noteq> page_size
                   then (Failed, fs\<lparr>fs_lib := l\<rparr>)
                   else (case process_lines lib fs (word_of_int page_to_blocks_factor) input [] 0 l of
                           (r, l) \<Rightarrow> (r, fs\<lparr>fs_lib := l\<rparr>)))))"

section \<open>What the list contains\<close>

text \<open>
  Every relocation that is accepted is in the file it names (as far as the inode's size, taken
  modulo 32 bits of blocks, says), and names no reserved inode.
\<close>

lemma clip_range_inside:
  assumes "clip_range factor file_size off len = Some (offset, cnt)"
  shows "unat offset < unat file_size" and "offset + cnt \<le> file_size"
    and "no_wrap offset cnt \<Longrightarrow> unat offset + unat cnt \<le> unat file_size"
proof -
  have lt: "offset < file_size" and c: "cnt = file_size - offset \<or> offset + cnt \<le> file_size"
    using assms by (auto simp: clip_range_def Let_def not_le not_less split: if_splits)
  then show "unat offset < unat file_size" by (simp add: word_less_nat_alt)
  show le: "offset + cnt \<le> file_size" using c by auto
  show "unat offset + unat cnt \<le> unat file_size" if "no_wrap offset cnt"
    using le no_wrap_unat [OF that] by (simp add: word_le_nat_alt)
qed

definition estimates :: "u32 \<Rightarrow> relocation list \<Rightarrow> int option" where
  "estimates apb rs = fold (\<lambda>r acc. case acc of None \<Rightarrow> None | Some a \<Rightarrow>
     (case estimate_blocks_for_range apb (rl_block_offset r) (rl_blocks_count r) of
        None \<Rightarrow> None | Some e \<Rightarrow> Some (a + e))) rs (Some 0)"

lemma estimates_snoc:
  "estimates apb (rs @ [r]) = (case estimates apb rs of None \<Rightarrow> None | Some a \<Rightarrow>
     (case estimate_blocks_for_range apb (rl_block_offset r) (rl_blocks_count r) of
        None \<Rightarrow> None | Some e \<Rightarrow> Some (a + e)))"
  by (simp add: estimates_def)

lemma estimates_Nil [simp]: "estimates apb [] = Some 0"
  by (simp add: estimates_def)

definition in_file :: "'l filesystem_info \<Rightarrow> disk_view \<Rightarrow> relocation \<Rightarrow> bool" where
  "in_file fs v r \<longleftrightarrow> s_first_ino (fs_super fs) \<le> rl_inode_number r
     \<and> rl_block_offset r < file_size_in_blocks fs (v_inode v (rl_inode_number r))
     \<and> rl_block_offset r + rl_blocks_count r
         \<le> file_size_in_blocks fs (v_inode v (rl_inode_number r))"

definition list_ok :: "'l filesystem_info \<Rightarrow> disk_view \<Rightarrow> relocation list \<Rightarrow> int \<Rightarrow> bool" where
  "list_ok fs v rs est \<longleftrightarrow> estimates (addr_per_block fs) rs = Some est
     \<and> length rs \<le> MEMORY_FOR_RELOCATIONS \<and> (\<forall>r\<in>set rs. in_file fs v r)"

context ext2_library begin

lemma resolve_inode_view: "resolve_inode lib name l = (r, l') \<Longrightarrow> view l' = view l"
  by (auto simp: resolve_inode_def dest: namei split: if_splits)

lemma process_fields_ok:
  assumes "process_fields lib fs factor name f2 f3 rs est l = st" and "list_ok fs (view l) rs est"
  shows "case st of Next rs' est' l' \<Rightarrow> view l' = view l \<and> list_ok fs (view l) rs' est'
    | Full l' \<Rightarrow> view l' = view l | Abort l' \<Rightarrow> view l' = view l"
proof -
  obtain r l1 where r: "resolve_inode lib name l = (r, l1)" by fastforce
  note v1 = resolve_inode_view [OF r]
  show ?thesis
  proof (cases "r = None \<or> (\<exists>ino. r = Some ino \<and> (ino < s_first_ino (fs_super fs)
      \<or> length rs \<ge> MEMORY_FOR_RELOCATIONS))")
    case True
    then show ?thesis using assms r v1 by (auto simp: process_fields_def)
  next
    case False
    then obtain ino where ino: "r = Some ino" "\<not> ino < s_first_ino (fs_super fs)"
      "length rs < MEMORY_FOR_RELOCATIONS" by auto
    obtain nd l2 where rd: "x_read_inode lib ino l1 = (nd, l2)" by fastforce
    note v2 = read_inode_view [OF rd]
    show ?thesis
    proof (cases nd)
      case None
      then show ?thesis using assms r v1 v2 ino rd by (auto simp: process_fields_def)
    next
      case (Some inode)
      then have nd: "inode = v_inode (view l) ino" using read_inode [of ino l1 inode l2] rd v1 by simp
      show ?thesis
      proof (cases "clip_range factor (file_size_in_blocks fs inode) f2 f3")
        case None
        then show ?thesis using assms r v1 v2 ino rd Some by (auto simp: process_fields_def)
      next
        case cr: (Some a)
        obtain offset cnt where a: "a = (offset, cnt)" by fastforce
        note cl = clip_range_inside [OF cr [unfolded a]]
        then show ?thesis
          using assms r v1 v2 ino rd Some cr a nd
          by (auto simp: process_fields_def list_ok_def estimates_snoc in_file_def
              word_less_nat_alt [of _ "file_size_in_blocks _ _"] not_less split: option.splits)
      qed
    qed
  qed
qed

lemma process_line_ok:
  assumes "process_line lib fs factor line rs est l = st" and "list_ok fs (view l) rs est"
  shows "case st of Next rs' est' l' \<Rightarrow> view l' = view l \<and> list_ok fs (view l) rs' est'
    | Full l' \<Rightarrow> view l' = view l | Abort l' \<Rightarrow> view l' = view l"
  using assms process_fields_ok [OF _ assms(2)]
  by (auto simp: process_line_def Let_def split: if_splits prod.splits option.splits)

lemma process_lines_ok:
  assumes "process_lines lib fs factor inp rs est l = (res, l')" and "list_ok fs (view l) rs est"
  shows "view l' = view l \<and> res \<noteq> Failed
    \<and> (\<forall>rs' est'. res = Done (rs', est') \<longrightarrow> list_ok fs (view l) rs' est')"
  using assms
proof (induction "length inp" arbitrary: inp rs est l rule: less_induct)
  case less
  note unfold = less.prems(1) [unfolded process_lines.simps [of lib fs factor inp]]
  show ?case
  proof (cases "fgets BUF_SIZE inp")
    case None
    then show ?thesis using unfold less.prems(2) by auto
  next
    case (Some a)
    obtain line rest where a: "a = (line, rest)" by fastforce
    have sh: "length rest < length inp" using Some a by (intro fgets_shorter) simp
    have st: "case process_line lib fs factor line rs est l of
        Next rs' est' l' \<Rightarrow> view l' = view l \<and> list_ok fs (view l) rs' est'
      | Full l' \<Rightarrow> view l' = view l | Abort l' \<Rightarrow> view l' = view l"
      by (rule process_line_ok [OF refl less.prems(2)])
    show ?thesis
    proof (cases "process_line lib fs factor line rs est l")
      case (Next rs1 est1 l1)
      then have "process_lines lib fs factor rest rs1 est1 l1 = (res, l')"
        using unfold Some a by simp
      moreover have v: "view l1 = view l" "list_ok fs (view l1) rs1 est1" using st Next by simp_all
      ultimately show ?thesis using less.hyps [OF sh, of rs1 est1 l1] v(1) by simp
    next
      case (Full l1)
      then show ?thesis using unfold Some a st less.prems(2) by auto
    next
      case (Abort l1)
      then show ?thesis using unfold Some a st by auto
    qed
  qed
qed

lemma process_layout_list_ok:
  assumes "process_layout_list lib fs page_size content = (res, fs')"
  shows "view (fs_lib fs') = view (fs_lib fs) \<and> fs' = fs\<lparr>fs_lib := fs_lib fs'\<rparr>
    \<and> (\<forall>rs est. res = Done (rs, est) \<longrightarrow> list_ok fs (view (fs_lib fs)) rs est)"
proof -
  have ok0: "list_ok fs v [] 0" for v by (simp add: list_ok_def)
  show ?thesis
    using assms ok0
    by (auto simp: process_layout_list_def Let_def dest!: malloc process_lines_ok
        split: option.splits prod.splits bool.splits if_splits)
qed

end

end
