(* ===== verification/Free_Space.thy ===== *)
theory Free_Space
  imports Relocation
begin

text \<open>
  What \<open>find_contiguous_free_space\<close> finds: the first run of enough free blocks in the part of the
  device that the block bitmap covers, and nothing only if there is none (or the super block's
  count of free blocks already rules it out).
\<close>

definition free_run :: "'l ext2fs \<Rightarrow> 'l filesystem_info \<Rightarrow> nat \<Rightarrow> nat \<Rightarrow> bool" where
  "free_run lib fs a n \<longleftrightarrow> unat (fs_map_start fs) \<le> a
     \<and> a + n \<le> unat (s_blocks_count (fs_super fs))
     \<and> (\<forall>b. a \<le> b \<longrightarrow> b < a + n \<longrightarrow> \<not> x_test_block_bitmap lib (of_nat b) (fs_lib fs))"

lemma find_contiguous_loop_spec:
  assumes "unat c < unat n" and "unat c \<le> unat i - unat (fs_map_start fs)"
    and "fs_map_start fs \<le> i"
    and "\<And>b. unat i - unat c \<le> b \<Longrightarrow> b < unat i \<Longrightarrow> \<not> x_test_block_bitmap lib (of_nat b) (fs_lib fs)"
    and "\<And>a. a < unat i - unat c \<Longrightarrow> \<not> free_run lib fs a (unat n)"
  shows "case find_contiguous_loop lib fs n i c of
      None \<Rightarrow> \<forall>a. \<not> free_run lib fs a (unat n)
    | Some b \<Rightarrow> free_run lib fs (unat b) (unat n) \<and> (\<forall>a<unat b. \<not> free_run lib fs a (unat n))"
  using assms
proof (induction lib fs n i c rule: find_contiguous_loop.induct)
  case (1 lib fs n i c)
  note IH = 1(1,2) and pre = 1(3-7)
  let ?used = "\<lambda>b. x_test_block_bitmap lib b (fs_lib fs)"
  show ?case
  proof (cases "i < s_blocks_count (fs_super fs)")
    case False
    have "\<not> free_run lib fs a (unat n)" for a
    proof (cases "a < unat i - unat c")
      case True
      then show ?thesis by (rule pre(5))
    next
      case False2: False
      show ?thesis
      proof
        assume "free_run lib fs a (unat n)"
        then have "a + unat n \<le> unat i"
          using False by (simp add: free_run_def word_less_nat_alt)
        then show False using False2 pre(1) by linarith
      qed
    qed
    then show ?thesis using False by (subst find_contiguous_loop.simps) simp
  next
    case lt: True
    have ui: "unat (i + 1) = unat i + 1" by (rule unat_inc [OF lt])
    have si: "fs_map_start fs \<le> i + 1"
      using pre(3) ui by (simp add: word_le_nat_alt)
    show ?thesis
    proof (cases "?used i")
      case True
      have none: "\<not> free_run lib fs a (unat n)" if a: "a < unat (i + 1) - unat 0" for a
      proof (cases "a < unat i - unat c")
        case True
        then show ?thesis by (rule pre(5))
      next
        case False
        show ?thesis
        proof
          assume "free_run lib fs a (unat n)"
          moreover have "a \<le> unat i" "unat i < a + unat n" using a ui False pre(1) by simp_all
          ultimately have "\<not> ?used (of_nat (unat i))" unfolding free_run_def by blast
          then show False using \<open>?used i\<close> by simp
        qed
      qed
      have "case find_contiguous_loop lib fs n (i + 1) 0 of
          None \<Rightarrow> \<forall>a. \<not> free_run lib fs a (unat n)
        | Some b \<Rightarrow> free_run lib fs (unat b) (unat n) \<and> (\<forall>a<unat b. \<not> free_run lib fs a (unat n))"
        using pre(1) si none lt True by (intro IH(2)) simp_all
      then show ?thesis using lt True by (subst find_contiguous_loop.simps) simp
    next
      case False
      have "c < n" using pre(1) by (simp add: word_less_nat_alt)
      then have uc: "unat (c + 1) = unat c + 1" by (rule unat_inc)
      have free: "\<not> ?used (of_nat b)" if "unat i - unat c \<le> b" "b < unat i + 1" for b
        using that pre(4) [of b] False by (cases "b = unat i") simp_all
      have ci: "unat c \<le> unat i" using pre(2) by linarith
      show ?thesis
      proof (cases "c + 1 \<ge> n")
        case True
        then have n: "unat n = unat c + 1" using uc pre(1) by (simp add: word_le_nat_alt)
        have "n \<le> i + 1" using n ui ci by (simp add: word_le_nat_alt)
        then have u: "unat (i + 1 - n) = unat i - unat c" using n ui by (simp add: unat_sub_le)
        have "unat (fs_map_start fs) \<le> unat i - unat c"
          using pre(2,3) ci by (simp add: word_le_nat_alt)
        then have "free_run lib fs (unat i - unat c) (unat n)"
          using n free lt ci by (auto simp: free_run_def word_less_nat_alt)
        then show ?thesis
          using lt False True u pre(5) by (subst find_contiguous_loop.simps) (simp add: Let_def)
      next
        case more: False
        have "case find_contiguous_loop lib fs n (i + 1) (c + 1) of
            None \<Rightarrow> \<forall>a. \<not> free_run lib fs a (unat n)
          | Some b \<Rightarrow> free_run lib fs (unat b) (unat n) \<and> (\<forall>a<unat b. \<not> free_run lib fs a (unat n))"
          using more si uc ui pre free lt False
          by (intro IH(1)) (simp_all add: word_le_nat_alt not_le)
        then show ?thesis
          using lt False more by (subst find_contiguous_loop.simps) (simp add: Let_def)
      qed
    qed
  qed
qed

lemma find_contiguous_spec:
  assumes "0 < n"
  shows "case find_contiguous_free_space lib fs n of
      None \<Rightarrow> s_free_blocks_count (fs_super fs) < n \<or> (\<forall>a. \<not> free_run lib fs a (unat n))
    | Some b \<Rightarrow> free_run lib fs (unat b) (unat n)
        \<and> (\<forall>a<unat b. \<not> free_run lib fs a (unat n))"
proof -
  have "\<not> free_run lib fs a (unat n)" if "a < unat (fs_map_start fs)" for a
    using that by (simp add: free_run_def)
  then show ?thesis
    using find_contiguous_loop_spec [of 0 n "fs_map_start fs" fs lib] assms
    by (auto simp: find_contiguous_free_space_def word_less_nat_alt split: option.splits)
qed

end
