(* ===== verification/Relocation_Spec.thy ===== *)
theory Relocation_Spec
  imports Block_Tree
begin

text \<open>
  What relocating the nodes of a set of trees into an area may do to a file system, as a relation
  between views (\<open>moved\<close>), the invariant that the relocator keeps (\<open>area_inv\<close>), and the
  one abstract step that keeps both.
\<close>

text \<open>A used block that belongs to no tree: inode tables, extended attributes, other metadata.\<close>

definition foreign :: "geometry \<Rightarrow> disk_view \<Rightarrow> u32 \<Rightarrow> bool" where
  "foreign g v b \<longleftrightarrow> v_used v b \<and> (\<forall>ino p. key g ino p \<longrightarrow> node v ino p \<noteq> b)"

text \<open>
  \<open>moved g A v v'\<close>: every node is where it was, or was moved from outside the area \<open>A\<close>
  into it; every file block has the contents it had (holes stay holes); nothing but block pointers
  changed in the inodes; blocks of nobody are untouched.
\<close>

definition moved :: "geometry \<Rightarrow> block_range \<Rightarrow> disk_view \<Rightarrow> disk_view \<Rightarrow> bool" where
  "moved g A v v' \<longleftrightarrow>
     (\<forall>ino p. key g ino p \<longrightarrow> node v' ino p = node v ino p
        \<or> node v ino p \<noteq> 0 \<and> \<not> in_range (node v ino p) A \<and> in_range (node v' ino p) A
          \<and> node v' ino p \<noteq> 0)
   \<and> (\<forall>ino p. key g ino p \<longrightarrow> leaf p \<longrightarrow> file_data v' ino p = file_data v ino p)
   \<and> (\<forall>ino. (v_inode v' ino)\<lparr>i_block := []\<rparr> = (v_inode v ino)\<lparr>i_block := []\<rparr>)
   \<and> (\<forall>ino. ino \<notin> g_inos g \<longrightarrow> v_inode v' ino = v_inode v ino)
   \<and> (\<forall>b. foreign g v b \<longrightarrow> foreign g v' b \<and> v_blk v' b = v_blk v b)"

lemma moved_refl [intro, simp]: "moved g A v v"
  by (simp add: moved_def)

lemma moved_trans:
  assumes 1: "moved g A v v1" and 2: "moved g A v1 v2"
  shows "moved g A v v2"
proof -
  have "node v2 ino p = node v ino p \<or> node v ino p \<noteq> 0 \<and> \<not> in_range (node v ino p) A
      \<and> in_range (node v2 ino p) A \<and> node v2 ino p \<noteq> 0" if "key g ino p" for ino p
    using that 1 2 unfolding moved_def by metis
  moreover have "file_data v2 ino p = file_data v ino p" if "key g ino p" "leaf p" for ino p
    using that 1 2 unfolding moved_def by metis
  moreover have "(v_inode v2 ino)\<lparr>i_block := []\<rparr> = (v_inode v ino)\<lparr>i_block := []\<rparr>" for ino
    using 1 2 unfolding moved_def by metis
  moreover have "v_inode v2 ino = v_inode v ino" if "ino \<notin> g_inos g" for ino
    using that 1 2 unfolding moved_def by metis
  moreover have "foreign g v2 b \<and> v_blk v2 b = v_blk v b" if "foreign g v b" for b
    using that 1 2 unfolding moved_def by metis
  ultimately show ?thesis unfolding moved_def by blast
qed

text \<open>The nodes among \<open>K\<close> that still lie outside the area.\<close>

definition outside :: "block_range \<Rightarrow> disk_view \<Rightarrow> (u32 \<times> nat list) set \<Rightarrow> (u32 \<times> nat list) set" where
  "outside A v K = {(ino, p) \<in> K. node v ino p \<noteq> 0 \<and> \<not> in_range (node v ino p) A}"

text \<open>
  The invariant: the file system is consistent, the area from the next target on is free, and
  what is left of it suffices for the nodes of \<open>K\<close> that are still outside.
\<close>

definition area_inv :: "geometry \<Rightarrow> block_range \<Rightarrow> (u32 \<times> nat list) set \<Rightarrow> disk_view \<Rightarrow> u32 \<Rightarrow> bool" where
  "area_inv g A K v t \<longleftrightarrow>
     consistent g v \<and> finite K \<and> (\<forall>(ino, p)\<in>K. key g ino p)
   \<and> no_wrap (br_start_block A) (br_blocks_count A)
   \<and> (\<forall>b. in_range b A \<longrightarrow> b \<in> g_valid g)
   \<and> br_start_block A \<le> t
   \<and> unat t + card (outside A v K) \<le> unat (br_start_block A) + unat (br_blocks_count A)
   \<and> (\<forall>b. t \<le> b \<longrightarrow> in_range b A \<longrightarrow> \<not> v_used v b)"

lemma in_range_iff:
  assumes "no_wrap (br_start_block A) (br_blocks_count A)"
  shows "in_range b A \<longleftrightarrow> unat b \<in> span (br_start_block A) (br_blocks_count A)"
  using assms by (auto simp: in_range_def span_def word_less_nat_alt word_le_nat_alt no_wrap_unat)

lemma area_target:
  assumes inv: "area_inv g A K v t" and k: "(ino, p) \<in> K" "node v ino p \<noteq> 0"
    "\<not> in_range (node v ino p) A"
  shows "in_range t A" and "\<not> v_used v t" and "t \<in> g_data g" and "t \<noteq> 0"
    and "unat (t + 1) = unat t + 1"
proof -
  have "(ino, p) \<in> outside A v K" using k by (simp add: outside_def)
  moreover have "finite (outside A v K)"
    using inv by (auto simp: area_inv_def outside_def intro: finite_subset)
  ultimately have "0 < card (outside A v K)" by (auto simp: card_gt_0_iff)
  then have lt: "unat t < unat (br_start_block A) + unat (br_blocks_count A)"
    using inv unfolding area_inv_def by linarith
  then show r: "in_range t A"
    using inv by (subst in_range_iff) (auto simp: area_inv_def span_def word_le_nat_alt)
  then show u: "\<not> v_used v t" using inv by (simp add: area_inv_def)
  show d: "t \<in> g_data g" using inv r u by (auto simp: area_inv_def consistent_def)
  then show "t \<noteq> 0" using inv by (auto simp: area_inv_def consistent_def)
  have "unat (br_start_block A) + unat (br_blocks_count A) < 2 ^ 32"
    using inv by (simp add: area_inv_def no_wrap_def)
  then show "unat (t + 1) = unat t + 1" using lt by (simp add: unat_word_ariths)
qed

theorem area_step:
  assumes inv: "area_inv g A K v t" and k: "(ino, p) \<in> K" "node v ino p \<noteq> 0"
    "\<not> in_range (node v ino p) A"
  shows "area_inv g A K (move_node ino p t v) (t + 1)" and "moved g A v (move_node ino p t v)"
    and "node (move_node ino p t v) ino p = t"
proof -
  let ?v = "move_node ino p t v" and ?s = "node v ino p"
  have c: "consistent g v" and kk: "key g ino p" and fin: "finite K"
    using inv k(1) by (auto simp: area_inv_def)
  then have p: "p \<noteq> []" by auto
  note tgt = area_target [OF inv k]
  note N = node_move [OF c kk k(2) tgt(2,3)]
  note U = move_used [OF p, of ino t v]
  show nt: "node ?v ino p = t" using N [OF kk] by simp
  have out: "outside A ?v K = outside A v K - {(ino, p)}"
    using inv N tgt(1) by (auto simp: outside_def area_inv_def split: if_splits)
  have "(ino, p) \<in> outside A v K" using k by (simp add: outside_def)
  moreover have "finite (outside A v K)"
    using fin by (auto simp: outside_def intro: finite_subset)
  ultimately have "card (outside A v K) = card (outside A ?v K) + 1"
    unfolding out by (metis card.remove Suc_eq_plus1)
  moreover have "t < t + 1" using tgt(5) by (simp add: word_less_nat_alt)
  ultimately show "area_inv g A K ?v (t + 1)"
    using inv tgt(5) consistent_move [OF c kk k(2) tgt(2,3)]
    by (auto simp: area_inv_def U intro: order_trans less_imp_le)
  have "?s \<in> g_data g" "v_used v ?s" using consistentD [OF c kk k(2)] by auto
  have nodes: "node ?v ino' q = node v ino' q \<or> node v ino' q \<noteq> 0
      \<and> \<not> in_range (node v ino' q) A \<and> in_range (node ?v ino' q) A \<and> node ?v ino' q \<noteq> 0"
    if "key g ino' q" for ino' q
    using N [OF that] k tgt(1,4) by auto
  have frame: "foreign g ?v b \<and> v_blk ?v b = v_blk v b" if f: "foreign g v b" for b
  proof -
    have bt: "b \<noteq> t" using f tgt(2) by (auto simp: foreign_def)
    have bs: "b \<noteq> ?s" using f kk by (auto simp: foreign_def)
    have "node ?v ino' q \<noteq> b" if "key g ino' q" for ino' q
      using N [OF that] f bt that by (auto simp: foreign_def)
    moreover have "v_blk ?v b = v_blk v b"
    proof (cases "tl p = []")
      case True
      then show ?thesis using p bt by (cases p) (auto simp: move_node_def Let_def)
    next
      case False
      have "p = hd p # tl p" using p by simp
      then have "key g ino (tl p)" using kk key_Cons [OF False] by metis
      then have "b \<noteq> node v ino (tl p)" using f by (auto simp: foreign_def)
      then show ?thesis using p bt False by (cases p) (auto simp: move_node_def Let_def)
    qed
    ultimately show ?thesis using f bt bs by (simp add: foreign_def U)
  qed
  have ino: "ino \<in> g_inos g" using kk by (simp add: key_def)
  show "moved g A v ?v"
    unfolding moved_def
    using nodes frame file_data_move [OF c kk k(2) tgt(2,3)] ino
    by (intro conjI allI impI) (auto simp: move_inode)
qed

lemma outside_subset:
  "K \<subseteq> K' \<Longrightarrow> outside A v K \<subseteq> outside A v K'"
  by (auto simp: outside_def)

text \<open>A node of the area stays there.\<close>

lemma moved_keeps:
  assumes "moved g A v v'" and "key g ino p"
    and "node v ino p = 0 \<or> in_range (node v ino p) A"
  shows "node v' ino p = node v ino p"
  using assms unfolding moved_def by metis

end
