(* ===== verification/Relocation_Correct.thy ===== *)
theory Relocation_Correct
  imports Relocation Relocation_Spec
begin

text \<open>
  The relocator implements the abstract moves of \<open>Relocation_Spec\<close>, for every library that keeps
  the laws of \<open>ext2_library\<close>; with \<open>reliable_library\<close> it succeeds. While a file block is
  relocated its inode is in memory: \<open>overlay\<close> is the file system with that inode in place.
\<close>

definition overlay :: "u32 \<Rightarrow> ext2_inode \<Rightarrow> disk_view \<Rightarrow> disk_view" where
  "overlay ino nd v = v\<lparr>v_inode := (v_inode v)(ino := nd)\<rparr>"

definition same_fs :: "'l filesystem_info \<Rightarrow> 'l filesystem_info \<Rightarrow> bool" where
  "same_fs fs fs' \<longleftrightarrow> fs_super fs' = fs_super fs \<and> fs_blocksize fs' = fs_blocksize fs
     \<and> fs_map_start fs' = fs_map_start fs \<and> fs_buffers fs' = fs_buffers fs"

lemma same_fs_refl [simp]: "same_fs fs fs"
  by (simp add: same_fs_def)

lemma same_fs_trans: "same_fs fs fs1 \<Longrightarrow> same_fs fs1 fs2 \<Longrightarrow> same_fs fs fs2"
  by (simp add: same_fs_def)

lemma same_fs_apb: "same_fs fs fs' \<Longrightarrow> addr_per_block fs' = addr_per_block fs"
  by (simp add: same_fs_def addr_per_block_def)

lemma node_overlay_same: "node (overlay ino nd v) ino [k] = i_block nd ! k"
  by (simp add: overlay_def)

lemma v_used_overlay [simp]: "v_used (overlay ino nd v) = v_used v"
  and v_blk_overlay [simp]: "v_blk (overlay ino nd v) = v_blk v"
  and v_inode_overlay [simp]: "v_inode (overlay ino nd v) = (v_inode v)(ino := nd)"
  by (simp_all add: overlay_def)

text \<open>A node that needs no (further) relocation.\<close>

definition settled :: "block_range \<Rightarrow> disk_view \<Rightarrow> u32 \<Rightarrow> nat list \<Rightarrow> bool" where
  "settled A v ino p \<longleftrightarrow> node v ino p = 0 \<or> in_range (node v ino p) A"

lemma settled_hole: "q \<noteq> [] \<Longrightarrow> node v ino q = 0 \<Longrightarrow> settled A v ino (j # q)"
  by (simp add: settled_def node_Cons)

lemma settled_moved:
  "moved g A v v' \<Longrightarrow> key g ino p \<Longrightarrow> settled A v ino p \<Longrightarrow> settled A v' ino p"
  unfolding settled_def by (metis moved_keeps)

lemma area_inv_key: "area_inv g A K v t \<Longrightarrow> (ino, p) \<in> K \<Longrightarrow> key g ino p"
  by (auto simp: area_inv_def)

text \<open>
  The nodes that a relocation is about, and its goal: every block of the range that is under the
  direct, the indirect or the doubly indirect slots, with its indirect blocks, is in the area or a
  hole. The zone of the triply indirect block is left where it is.
\<close>

definition relocation_nodes :: "nat \<Rightarrow> relocation \<Rightarrow> (u32 \<times> nat list) set" where
  "relocation_nodes n r = Pair (rl_inode_number r) `
     range_nodes n (unat (rl_block_offset r)) (unat (rl_block_offset r) + unat (rl_blocks_count r))"

definition relocated :: "nat \<Rightarrow> block_range \<Rightarrow> disk_view \<Rightarrow> relocation \<Rightarrow> bool" where
  "relocated n A v r \<longleftrightarrow> (\<forall>i. unat (rl_block_offset r) \<le> i \<longrightarrow>
     i < unat (rl_block_offset r) + unat (rl_blocks_count r) \<longrightarrow> i < 12 + n + n * n \<longrightarrow>
     (\<forall>p\<in>set (ancestors (block_path n i)). settled A v (rl_inode_number r) p))"

definition in_tree :: "geometry \<Rightarrow> relocation \<Rightarrow> bool" where
  "in_tree g r \<longleftrightarrow> unat (rl_block_offset r) + unat (rl_blocks_count r) < 2 ^ 32
     \<and> (\<forall>(ino, p)\<in>relocation_nodes (g_addr g) r. key g ino p)"

lemma inode_only_blocks:
  "nd'\<lparr>i_block := []\<rparr> = nd\<lparr>i_block := []\<rparr> \<Longrightarrow> nd' = nd\<lparr>i_block := i_block nd'\<rparr>"
  by (cases nd; cases nd') simp

lemma finite_relocation_nodes [simp]: "finite (relocation_nodes n r)"
  by (simp add: relocation_nodes_def)

lemma relocation_nodesI:
  assumes "unat (rl_block_offset r) \<le> i"
    and "i < unat (rl_block_offset r) + unat (rl_blocks_count r)"
    and "p \<in> set (ancestors (block_path n i))"
  shows "(rl_inode_number r, p) \<in> relocation_nodes n r"
  unfolding relocation_nodes_def range_nodes_def
  using assms by (intro imageI UN_I [of i]) simp_all

lemma relocated_moved:
  assumes "moved g A v v'" and "in_tree g r" and "relocated (g_addr g) A v r"
  shows "relocated (g_addr g) A v' r"
  unfolding relocated_def
proof (intro allI impI ballI)
  fix i p assume i: "unat (rl_block_offset r) \<le> i"
    "i < unat (rl_block_offset r) + unat (rl_blocks_count r)" "i < 12 + g_addr g + g_addr g * g_addr g"
    and p: "p \<in> set (ancestors (block_path (g_addr g) i))"
  then have "(rl_inode_number r, p) \<in> relocation_nodes (g_addr g) r"
    by (intro relocation_nodesI)
  then have "key g (rl_inode_number r) p" using assms(2) by (auto simp: in_tree_def)
  then show "settled A v' (rl_inode_number r) p"
    using assms(3) i p settled_moved [OF assms(1)] unfolding relocated_def by blast
qed

context ext2_library begin

lemma moved_valid_blocks:
  assumes m: "moved g A v v'" and c: "consistent g v" "consistent g v'"
  shows "x_inode_has_valid_blocks lib (v_inode v' ino) = x_inode_has_valid_blocks lib (v_inode v ino)"
proof (cases "ino \<in> g_inos g")
  case True
  let ?bs = "i_block (v_inode v' ino)"
  have eq: "v_inode v' ino = (v_inode v ino)\<lparr>i_block := ?bs\<rparr>"
    using m by (intro inode_only_blocks) (simp add: moved_def)
  have len: "length ?bs = 15" "length (i_block (v_inode v ino)) = 15"
    using c True by (simp_all add: consistent_length)
  have "?bs ! k = 0 \<longleftrightarrow> i_block (v_inode v ino) ! k = 0" if "k < 15" for k
  proof -
    have "key g ino [k]" using that True by (simp add: key_single)
    then have "node v' ino [k] = 0 \<longleftrightarrow> node v ino [k] = 0" using m unfolding moved_def by metis
    then show ?thesis by simp
  qed
  then show ?thesis using valid_blocks [of ?bs "v_inode v ino"] len eq by simp
next
  case False
  then show ?thesis using m by (simp add: moved_def)
qed

lemma raw_moves:
  assumes r: "relocate_raw_block lib fs s t = (True, fs')"
    and d: "s \<in> g_data g" "t \<in> g_data g" and "g_data g \<subseteq> g_valid g"
  shows "view (fs_lib fs') = (view (fs_lib fs))\<lparr>v_blk := (v_blk (view (fs_lib fs)))(t := v_blk (view (fs_lib fs)) s),
      v_used := (v_used (view (fs_lib fs)))(t := True, s := False)\<rparr>"
    and "same_fs fs fs'"
proof -
  have v: "s \<in> g_valid g" "t \<in> g_valid g" using assms by auto
  obtain fs1 b l1 l2 where
    m: "get_block_buffer lib fs = (True, fs1)"
    and rd: "x_read_blk lib s (fs_lib fs1) = (Some b, l1)"
    and wr: "x_write_blk lib t b l1 = (True, l2)"
    and fs': "fs_lib fs' = x_mark_bb_dirty lib (x_unmark_block_bitmap lib s (x_mark_block_bitmap lib t l2))"
      "fs_super fs' = fs_super fs1 \<and> fs_blocksize fs' = fs_blocksize fs1
       \<and> fs_map_start fs' = fs_map_start fs1 \<and> fs_buffers fs' = fs_buffers fs1 - 1"
    using r by (auto simp: relocate_raw_block_def Let_def free_block_buffer_def
        split: if_splits prod.splits bool.splits option.splits)
  have "view (fs_lib fs1) = view (fs_lib fs)" and s1: "fs_super fs1 = fs_super fs"
    "fs_blocksize fs1 = fs_blocksize fs" "fs_map_start fs1 = fs_map_start fs"
    "fs_buffers fs1 = fs_buffers fs + 1"
    using m malloc by (auto simp: get_block_buffer_def split: prod.splits bool.splits)
  then show "view (fs_lib fs') = (view (fs_lib fs))\<lparr>v_blk := (v_blk (view (fs_lib fs)))(t := v_blk (view (fs_lib fs)) s),
      v_used := (v_used (view (fs_lib fs)))(t := True, s := False)\<rparr>"
    using read_blk [OF rd d(1)] write_blk [OF wr d(2)] v
    by (simp add: fs'(1) mark_dirty unmark_bitmap mark_bitmap)
  show "same_fs fs fs'" using fs'(2) s1 by (simp add: same_fs_def)
qed

text \<open>
  The situation in which a pointer is relocated: the overlay is in the invariant, the pointer is
  one of the nodes to relocate.
\<close>

lemma in_inode_step:
  assumes r: "relocate_block_in_inode lib fs nd k t A = (True, nd', t', fs')"
    and inv: "area_inv g A K (overlay ino nd (view (fs_lib fs))) t" and k: "(ino, [k]) \<in> K"
  shows "area_inv g A K (overlay ino nd' (view (fs_lib fs'))) t'"
    and "moved g A (overlay ino nd (view (fs_lib fs))) (overlay ino nd' (view (fs_lib fs')))"
    and "same_fs fs fs'" and "i_block nd' ! k = 0 \<or> in_range (i_block nd' ! k) A"
proof -
  let ?v = "overlay ino nd (view (fs_lib fs))"
  have c: "consistent g ?v" and key: "key g ino [k]" using inv k by (auto simp: area_inv_def)
  consider (skip) "i_block nd ! k = 0 \<or> in_range (i_block nd ! k) A" "nd' = nd" "t' = t" "fs' = fs"
    | (move) "i_block nd ! k \<noteq> 0" "\<not> in_range (i_block nd ! k) A"
      "relocate_raw_block lib fs (i_block nd ! k) t = (True, fs')" "t' = t + 1"
      "nd' = nd\<lparr>i_block := (i_block nd)[k := t]\<rparr>"
    using r by (auto simp: relocate_block_in_inode_def Let_def split: if_splits prod.splits bool.splits)
  then have "area_inv g A K (overlay ino nd' (view (fs_lib fs'))) t'
    \<and> moved g A ?v (overlay ino nd' (view (fs_lib fs')))
    \<and> same_fs fs fs' \<and> (i_block nd' ! k = 0 \<or> in_range (i_block nd' ! k) A)"
  proof cases
    case skip
    then show ?thesis using inv by simp
  next
    case move
    have n: "node ?v ino [k] \<noteq> 0" "\<not> in_range (node ?v ino [k]) A"
      using move by (simp_all add: node_overlay_same)
    note tgt = area_target [OF inv k n]
    have s: "i_block nd ! k \<in> g_data g"
      using consistentD(1) [OF c key n(1)] by (simp add: node_overlay_same)
    have sub: "g_data g \<subseteq> g_valid g" using c by (simp add: consistent_def)
    have eq: "overlay ino nd' (view (fs_lib fs')) = move_node ino [k] t ?v"
      using raw_moves(1) [OF move(3) s tgt(3) sub] move(5)
      by (simp add: move_node_def overlay_def Let_def)
    have "length (i_block nd) = 15 \<and> k < 15"
      using consistent_length [OF c, of ino] key by (simp add: key_single)
    then show ?thesis
      using area_step [OF inv k n] raw_moves(2) [OF move(3) s tgt(3) sub] tgt(1) eq move(4,5)
      by simp
  qed
  then show "area_inv g A K (overlay ino nd' (view (fs_lib fs'))) t'"
    "moved g A ?v (overlay ino nd' (view (fs_lib fs')))" "same_fs fs fs'"
    "i_block nd' ! k = 0 \<or> in_range (i_block nd' ! k) A" by blast+
qed

lemma in_indirect_step:
  assumes r: "relocate_block_in_indirect_block lib fs ind j t A = (Done nxt, t', fs')"
    and inv: "area_inv g A K (overlay ino nd (view (fs_lib fs))) t" and k: "(ino, unat j # q) \<in> K"
    and q: "q \<noteq> []" "node (overlay ino nd (view (fs_lib fs))) ino q = ind" "ind \<noteq> 0"
  shows "area_inv g A K (overlay ino nd (view (fs_lib fs'))) t'"
    and "moved g A (overlay ino nd (view (fs_lib fs))) (overlay ino nd (view (fs_lib fs')))"
    and "same_fs fs fs'"
    and "node (overlay ino nd (view (fs_lib fs'))) ino (unat j # q) = nxt"
    and "nxt = 0 \<or> in_range nxt A"
proof -
  let ?v = "overlay ino nd (view (fs_lib fs))"
  have c: "consistent g ?v" and key: "key g ino (unat j # q)" using inv k by (auto simp: area_inv_def)
  then have kq: "key g ino q" "\<not> leaf q" "unat j < g_addr g" using q(1) by (simp_all add: key_Cons)
  have nq: "node ?v ino q \<noteq> 0" using q by simp
  have ind: "ind \<in> g_data g" using consistentD(1) [OF c kq(1) nq] q(2) by simp
  have sub: "g_data g \<subseteq> g_valid g" using c by (simp add: consistent_def)
  define ws where "ws = block_words (v_blk (view (fs_lib fs)) ind)"
  have len: "length ws = g_addr g"
    using consistentD(3) [OF c kq(1) nq kq(2)] q(2) by (simp add: ws_def)
  have nj: "node ?v ino (unat j # q) = ws ! unat j" using q by (simp add: node_Cons ws_def)
  obtain l where rd: "x_read_ind_block lib ind (fs_lib fs) = (Some ws, l)" and vl: "view l = view (fs_lib fs)"
    and cases: "(ws ! unat j = 0 \<or> in_range (ws ! unat j) A) \<and> nxt = ws ! unat j \<and> t' = t \<and> fs' = fs\<lparr>fs_lib := l\<rparr>
      \<or> ws ! unat j \<noteq> 0 \<and> \<not> in_range (ws ! unat j) A \<and> nxt = t \<and> t' = t + 1 \<and>
        (\<exists>fs1 l1. relocate_raw_block lib (fs\<lparr>fs_lib := l\<rparr>) (ws ! unat j) t = (True, fs1)
          \<and> x_write_ind_block lib ind (ws[unat j := t]) (fs_lib fs1) = (True, l1)
          \<and> fs' = fs1\<lparr>fs_lib := l1\<rparr>)"
  proof -
    obtain ws' l where rd: "x_read_ind_block lib ind (fs_lib fs) = (Some ws', l)"
      using r q(3) by (auto simp: relocate_block_in_indirect_block_def Let_def
          split: if_splits prod.splits option.splits)
    then have ws': "ws' = ws" "view l = view (fs_lib fs)" using read_ind [OF rd ind] by (simp_all add: ws_def)
    show thesis
      using r q(3) rd ws' that
      by (auto simp: relocate_block_in_indirect_block_def Let_def
          split: if_splits prod.splits option.splits bool.splits)
  qed
  have "area_inv g A K (overlay ino nd (view (fs_lib fs'))) t'
    \<and> moved g A ?v (overlay ino nd (view (fs_lib fs')))
    \<and> same_fs fs fs' \<and> node (overlay ino nd (view (fs_lib fs'))) ino (unat j # q) = nxt
    \<and> (nxt = 0 \<or> in_range nxt A)"
    using cases
  proof (elim disjE conjE exE)
    assume "ws ! unat j = 0" "nxt = ws ! unat j" "t' = t" "fs' = fs\<lparr>fs_lib := l\<rparr>"
    then show ?thesis using inv vl nj by (simp add: same_fs_def)
  next
    assume "in_range (ws ! unat j) A" "nxt = ws ! unat j" "t' = t" "fs' = fs\<lparr>fs_lib := l\<rparr>"
    then show ?thesis using inv vl nj by (simp add: same_fs_def)
  next
    fix fs1 l1
    assume nz: "ws ! unat j \<noteq> 0" "\<not> in_range (ws ! unat j) A" and eqs: "nxt = t" "t' = t + 1"
      "fs' = fs1\<lparr>fs_lib := l1\<rparr>"
      and raw: "relocate_raw_block lib (fs\<lparr>fs_lib := l\<rparr>) (ws ! unat j) t = (True, fs1)"
      and wr: "x_write_ind_block lib ind (ws[unat j := t]) (fs_lib fs1) = (True, l1)"
    have n: "node ?v ino (unat j # q) \<noteq> 0" "\<not> in_range (node ?v ino (unat j # q)) A"
      using nz by (simp_all only: nj) simp_all
    note tgt = area_target [OF inv k n]
    have s: "ws ! unat j \<in> g_data g" using consistentD(1) [OF c key n(1)] by (simp only: nj)
    have it: "ind \<noteq> t" using consistentD(2) [OF c kq(1) nq] q(2) tgt(2) by auto
    have "overlay ino nd (view (fs_lib fs')) = move_node ino (unat j # q) t ?v"
      using raw_moves(1) [OF raw s tgt(3) sub] write_ind [OF wr ind] len q it eqs(3) nj vl
      by (simp add: move_node_def overlay_def Let_def ws_def)
    then show ?thesis
      using area_step [OF inv k n] raw_moves(2) [OF raw s tgt(3) sub] tgt(1) eqs
      by (simp add: same_fs_def)
  qed
  then show "area_inv g A K (overlay ino nd (view (fs_lib fs'))) t'"
    "moved g A ?v (overlay ino nd (view (fs_lib fs')))" "same_fs fs fs'"
    "node (overlay ino nd (view (fs_lib fs'))) ino (unat j # q) = nxt"
    "nxt = 0 \<or> in_range nxt A" by blast+
qed

text \<open>The indirect zones, one level after the other.\<close>

lemma in_inode_settles:
  assumes "relocate_block_in_inode lib fs nd k t A = (True, nd', t', fs')"
    and "area_inv g A K (overlay ino nd (view (fs_lib fs))) t" and "(ino, [k]) \<in> K"
  shows "settled A (overlay ino nd' (view (fs_lib fs'))) ino [k]"
  using in_inode_step(4) [OF assms] by (simp add: settled_def)

lemma in_indirect_settles:
  assumes "relocate_block_in_indirect_block lib fs ind j t A = (Done nxt, t', fs')"
    and "area_inv g A K (overlay ino nd (view (fs_lib fs))) t" and "(ino, unat j # q) \<in> K"
    and "q \<noteq> []" "node (overlay ino nd (view (fs_lib fs))) ino q = ind" "ind \<noteq> 0"
  shows "settled A (overlay ino nd (view (fs_lib fs'))) ino (unat j # q)"
  using in_indirect_step(4,5) [OF assms] by (simp add: settled_def)

lemma level1_step:
  assumes r: "relocate_block_1indirect lib fs nd b t A = (Done (), nd', t', fs')"
    and inv: "area_inv g A K (overlay ino nd (view (fs_lib fs))) t"
    and k: "(ino, [12]) \<in> K" "(ino, [unat (b - EXT2_NDIR_BLOCKS), 12]) \<in> K"
  shows "area_inv g A K (overlay ino nd' (view (fs_lib fs'))) t'
    \<and> moved g A (overlay ino nd (view (fs_lib fs))) (overlay ino nd' (view (fs_lib fs')))
    \<and> same_fs fs fs' \<and> settled A (overlay ino nd' (view (fs_lib fs'))) ino [12]
    \<and> settled A (overlay ino nd' (view (fs_lib fs'))) ino [unat (b - EXT2_NDIR_BLOCKS), 12]"
proof -
  let ?j = "b - EXT2_NDIR_BLOCKS"
  obtain fs1 t1 where r1: "relocate_block_in_inode lib fs nd 12 t A = (True, nd', t1, fs1)"
    and r2: "i_block nd' ! 12 = 0 \<and> t' = t1 \<and> fs' = fs1 \<or> i_block nd' ! 12 \<noteq> 0 \<and>
      (\<exists>nxt. relocate_block_in_indirect_block lib fs1 (i_block nd' ! 12) ?j t1 A = (Done nxt, t', fs'))"
    using r by (auto simp: relocate_block_1indirect_def EXT2_IND_BLOCK_def Let_def
        split: prod.splits bool.splits if_splits outcome.splits)
  note s1 = in_inode_step [OF r1 inv k(1)] and t1 = in_inode_settles [OF r1 inv k(1)]
  from r2 show ?thesis
  proof (elim disjE conjE exE)
    assume "i_block nd' ! 12 = 0" "t' = t1" "fs' = fs1"
    then show ?thesis using s1(1-3) t1 settled_hole [of "[12]"] by (simp add: node_overlay_same)
  next
    fix nxt
    assume nz: "i_block nd' ! 12 \<noteq> 0"
      and r3: "relocate_block_in_indirect_block lib fs1 (i_block nd' ! 12) ?j t1 A = (Done nxt, t', fs')"
    note hyp = r3 s1(1) k(2) list.distinct(2) node_overlay_same nz
    note s2 = in_indirect_step [OF hyp] and t2 = in_indirect_settles [OF hyp]
    show ?thesis
      using s2(1) moved_trans [OF s1(2) s2(2)] same_fs_trans [OF s1(3) s2(3)]
        settled_moved [OF s2(2) area_inv_key [OF inv k(1)] t1] t2 by blast
  qed
qed

lemma level2_step:
  assumes r: "relocate_block_2indirect lib fs nd b t A = (Done (), nd', t', fs')"
    and inv: "area_inv g A K (overlay ino nd (view (fs_lib fs))) t"
    and apb: "apb = addr_per_block fs"
    and k: "(ino, [13]) \<in> K" "(ino, [unat ((b - EXT2_NDIR_BLOCKS - apb) div apb), 13]) \<in> K"
      "(ino, [unat ((b - EXT2_NDIR_BLOCKS - apb) mod apb), unat ((b - EXT2_NDIR_BLOCKS - apb) div apb), 13]) \<in> K"
  shows "area_inv g A K (overlay ino nd' (view (fs_lib fs'))) t'
    \<and> moved g A (overlay ino nd (view (fs_lib fs))) (overlay ino nd' (view (fs_lib fs')))
    \<and> same_fs fs fs' \<and> settled A (overlay ino nd' (view (fs_lib fs'))) ino [13]
    \<and> settled A (overlay ino nd' (view (fs_lib fs'))) ino [unat ((b - EXT2_NDIR_BLOCKS - apb) div apb), 13]
    \<and> settled A (overlay ino nd' (view (fs_lib fs'))) ino
        [unat ((b - EXT2_NDIR_BLOCKS - apb) mod apb), unat ((b - EXT2_NDIR_BLOCKS - apb) div apb), 13]"
proof -
  let ?i = "(b - EXT2_NDIR_BLOCKS - apb) div apb" and ?j = "(b - EXT2_NDIR_BLOCKS - apb) mod apb"
  obtain fs1 t1 where r1: "relocate_block_in_inode lib fs nd 13 t A = (True, nd', t1, fs1)"
    and r2: "i_block nd' ! 13 = 0 \<and> t' = t1 \<and> fs' = fs1 \<or> i_block nd' ! 13 \<noteq> 0 \<and>
      (\<exists>nxt t2 fs2. relocate_block_in_indirect_block lib fs1 (i_block nd' ! 13)
          ((b - EXT2_NDIR_BLOCKS - addr_per_block fs1) div addr_per_block fs1) t1 A = (Done nxt, t2, fs2)
        \<and> (nxt = 0 \<and> t' = t2 \<and> fs' = fs2 \<or> nxt \<noteq> 0 \<and>
          (\<exists>d. relocate_block_in_indirect_block lib fs2 nxt
            ((b - EXT2_NDIR_BLOCKS - addr_per_block fs1) mod addr_per_block fs1) t2 A = (Done d, t', fs'))))"
    using r by (auto simp: relocate_block_2indirect_def EXT2_DIND_BLOCK_def Let_def
        split: prod.splits bool.splits if_splits outcome.splits)
  note s1 = in_inode_step [OF r1 inv k(1)] and t1 = in_inode_settles [OF r1 inv k(1)]
  note r2 = r2 [unfolded same_fs_apb [OF s1(3), folded apb]]
  note k13 = area_inv_key [OF inv k(1)] and ki = area_inv_key [OF inv k(2)]
  let ?v1 = "overlay ino nd' (view (fs_lib fs1))"
  from r2 show ?thesis
  proof (elim disjE conjE exE)
    assume nz: "i_block nd' ! 13 = 0" and e: "t' = t1" "fs' = fs1"
    then have h: "node ?v1 ino [13] = 0" by (simp add: node_overlay_same)
    then have "node ?v1 ino [unat ?i, 13] = 0" by (simp add: node_Cons)
    then show ?thesis
      using s1(1-3) t1 h e settled_hole [of "[13]"] settled_hole [of "[unat ?i, 13]"] by simp
  next
    fix nxt t2 fs2
    assume nz: "i_block nd' ! 13 \<noteq> 0"
      and r3: "relocate_block_in_indirect_block lib fs1 (i_block nd' ! 13) ?i t1 A = (Done nxt, t2, fs2)"
      and e: "nxt = 0" "t' = t2" "fs' = fs2"
    note hyp = r3 s1(1) k(2) list.distinct(2) node_overlay_same nz
    note s2 = in_indirect_step [OF hyp] and t2 = in_indirect_settles [OF hyp]
    have "settled A (overlay ino nd' (view (fs_lib fs2))) ino [unat ?j, unat ?i, 13]"
      using settled_hole [of "[unat ?i, 13]"] s2(4) e(1) by blast
    then show ?thesis
      using s2(1) moved_trans [OF s1(2) s2(2)] same_fs_trans [OF s1(3) s2(3)]
        settled_moved [OF s2(2) k13 t1] t2 e by blast
  next
    fix nxt t2 fs2 d
    assume nz: "i_block nd' ! 13 \<noteq> 0" "nxt \<noteq> 0"
      and r3: "relocate_block_in_indirect_block lib fs1 (i_block nd' ! 13) ?i t1 A = (Done nxt, t2, fs2)"
      and r4: "relocate_block_in_indirect_block lib fs2 nxt ?j t2 A = (Done d, t', fs')"
    note hyp = r3 s1(1) k(2) list.distinct(2) node_overlay_same nz(1)
    note s2 = in_indirect_step [OF hyp] and t2 = in_indirect_settles [OF hyp]
    note hyp2 = r4 s2(1) k(3) list.distinct(2) s2(4) nz(2)
    note s3 = in_indirect_step [OF hyp2] and t3 = in_indirect_settles [OF hyp2]
    show ?thesis
      using s3(1) moved_trans [OF s1(2) moved_trans [OF s2(2) s3(2)]]
        same_fs_trans [OF s1(3) same_fs_trans [OF s2(3) s3(3)]]
        settled_moved [OF moved_trans [OF s2(2) s3(2)] k13 t1] settled_moved [OF s3(2) ki t2] t3
      by blast
  qed
qed

lemma pointers_step:
  assumes r: "relocate_block_pointers lib fs nd b t A = (Done (), nd', t', fs')"
    and inv: "area_inv g A K (overlay ino nd (view (fs_lib fs))) t"
    and apb: "tree_fits (addr_per_block fs)" "g_addr g = unat (addr_per_block fs)"
    and k: "\<forall>p\<in>set (ancestors (block_path (g_addr g) (unat b))). (ino, p) \<in> K"
  shows "area_inv g A K (overlay ino nd' (view (fs_lib fs'))) t'
    \<and> moved g A (overlay ino nd (view (fs_lib fs))) (overlay ino nd' (view (fs_lib fs')))
    \<and> same_fs fs fs'
    \<and> (unat b < 12 + g_addr g + g_addr g * g_addr g \<longrightarrow>
        (\<forall>p\<in>set (ancestors (block_path (g_addr g) (unat b))).
           settled A (overlay ino nd' (view (fs_lib fs'))) ino p))"
proof -
  let ?n = "g_addr g" let ?apb = "addr_per_block fs"
  consider (d) "unat b < 12" | (i1) "12 \<le> unat b" "unat b < 12 + ?n"
    | (i2) "12 + ?n \<le> unat b" "unat b < 12 + ?n + ?n * ?n" | (i3) "12 + ?n + ?n * ?n \<le> unat b"
    by linarith
  then show ?thesis
  proof cases
    case d
    then have r': "relocate_block_in_inode lib fs nd (unat b) t A = (True, nd', t', fs')"
      using r by (auto simp: relocate_block_pointers_def is_direct_block_iff
          split: prod.splits if_splits)
    have kb: "(ino, [unat b]) \<in> K" using k by (simp add: block_path_direct [OF d])
    show ?thesis
      using in_inode_step [OF r' inv kb] in_inode_settles [OF r' inv kb]
      by (simp add: block_path_direct [OF d])
  next
    case i1
    then have r': "relocate_block_1indirect lib fs nd b t A = (Done (), nd', t', fs')"
      using r apb(2)
      by (simp add: relocate_block_pointers_def is_direct_block_iff is_1indirect_block_iff)
    have j: "unat (b - EXT2_NDIR_BLOCKS) = unat b - 12"
      using i1 by (intro unat_minus_NDIR) (simp add: word_less_nat_alt)
    have "(ino, [12]) \<in> K" "(ino, [unat (b - EXT2_NDIR_BLOCKS), 12]) \<in> K"
      using k unfolding block_path_1 [OF i1] j by simp_all
    from level1_step [OF r' inv this] show ?thesis
      unfolding block_path_1 [OF i1] j by simp
  next
    case i2
    then have r': "relocate_block_2indirect lib fs nd b t A = (Done (), nd', t', fs')"
      using r apb
      by (simp add: relocate_block_pointers_def is_direct_block_iff is_1indirect_block_iff
          is_2indirect_block_iff)
    have "unat (b - EXT2_NDIR_BLOCKS - ?apb) = unat b - (12 + ?n)"
      using i2 unat_minus_NDIR [of b] unat_minus_NDIR_apb [of b ?apb] apb(2)
      by (simp add: word_less_nat_alt)
    then have j: "unat ((b - EXT2_NDIR_BLOCKS - ?apb) div ?apb) = (unat b - (12 + ?n)) div ?n"
      "unat ((b - EXT2_NDIR_BLOCKS - ?apb) mod ?apb) = (unat b - (12 + ?n)) mod ?n"
      using apb(2) by (simp_all add: unat_div unat_mod)
    have "(ino, [13]) \<in> K" "(ino, [unat ((b - EXT2_NDIR_BLOCKS - ?apb) div ?apb), 13]) \<in> K"
      "(ino, [unat ((b - EXT2_NDIR_BLOCKS - ?apb) mod ?apb),
         unat ((b - EXT2_NDIR_BLOCKS - ?apb) div ?apb), 13]) \<in> K"
      using k unfolding block_path_2 [OF i2] j by simp_all
    from level2_step [OF r' inv refl this] show ?thesis
      unfolding block_path_2 [OF i2] j by simp
  next
    case i3
    then have "nd' = nd \<and> t' = t \<and> fs' = fs"
      using r apb
      by (simp add: relocate_block_pointers_def is_direct_block_iff is_1indirect_block_iff
          is_2indirect_block_iff)
    then show ?thesis using inv i3 by simp
  qed
qed

lemma overlay_triv: "overlay ino (v_inode v ino) v = v"
  by (simp add: overlay_def)

lemma block_step:
  assumes r: "relocate_block lib fs ino b t A = (Done (), t', fs')"
    and inv: "area_inv g A K (view (fs_lib fs)) t"
    and apb: "tree_fits (addr_per_block fs)" "g_addr g = unat (addr_per_block fs)"
    and k: "\<forall>p\<in>set (ancestors (block_path (g_addr g) (unat b))). (ino, p) \<in> K"
  shows "area_inv g A K (view (fs_lib fs')) t'
    \<and> moved g A (view (fs_lib fs)) (view (fs_lib fs')) \<and> same_fs fs fs'
    \<and> (x_inode_has_valid_blocks lib (v_inode (view (fs_lib fs)) ino) \<longrightarrow>
        unat b < 12 + g_addr g + g_addr g * g_addr g \<longrightarrow>
        (\<forall>p\<in>set (ancestors (block_path (g_addr g) (unat b))). settled A (view (fs_lib fs')) ino p))"
proof -
  let ?nd = "v_inode (view (fs_lib fs)) ino"
  obtain l where rd: "x_read_inode lib ino (fs_lib fs) = (Some ?nd, l)" and l: "view l = view (fs_lib fs)"
    and cont: "(if \<not> x_inode_has_valid_blocks lib ?nd then t' = t \<and> fs' = fs\<lparr>fs_lib := l\<rparr>
      else \<exists>fs1 nd' fs2 l2. get_block_buffer lib (fs\<lparr>fs_lib := l\<rparr>) = (True, fs1)
        \<and> relocate_block_pointers lib fs1 ?nd b t A = (Done (), nd', t', fs2)
        \<and> x_write_inode lib ino nd' (fs_lib fs2) = (True, l2)
        \<and> fs' = free_block_buffer (fs2\<lparr>fs_lib := l2\<rparr>))"
  proof -
    obtain nd l where rd: "x_read_inode lib ino (fs_lib fs) = (Some nd, l)"
      using r by (auto simp: relocate_block_def split: prod.splits option.splits)
    then have "nd = ?nd" "view l = view (fs_lib fs)" using read_inode [OF rd] by simp_all
    then show thesis
      using r rd that
      by (auto simp: relocate_block_def Let_def
          split: prod.splits option.splits bool.splits outcome.splits if_splits)
  qed
  show ?thesis
  proof (cases "x_inode_has_valid_blocks lib ?nd")
    case False
    then show ?thesis using cont inv l by (simp add: same_fs_def)
  next
    case True
    then obtain fs1 nd' fs2 l2 where gb: "get_block_buffer lib (fs\<lparr>fs_lib := l\<rparr>) = (True, fs1)"
      and rp: "relocate_block_pointers lib fs1 ?nd b t A = (Done (), nd', t', fs2)"
      and wr: "x_write_inode lib ino nd' (fs_lib fs2) = (True, l2)"
      and fs': "fs' = free_block_buffer (fs2\<lparr>fs_lib := l2\<rparr>)" using cont by auto
    have fs1: "view (fs_lib fs1) = view (fs_lib fs)" "fs_super fs1 = fs_super fs"
      "fs_blocksize fs1 = fs_blocksize fs" "fs_map_start fs1 = fs_map_start fs"
      "fs_buffers fs1 = fs_buffers fs + 1"
      using gb malloc l by (auto simp: get_block_buffer_def split: prod.splits bool.splits)
    then have ap: "addr_per_block fs1 = addr_per_block fs" by (simp add: addr_per_block_def)
    have inv1: "area_inv g A K (overlay ino ?nd (view (fs_lib fs1))) t"
      using inv fs1(1) by (simp add: overlay_triv)
    have v': "view (fs_lib fs') = overlay ino nd' (view (fs_lib fs2))"
      using write_inode [OF wr] by (simp add: fs' free_block_buffer_def overlay_def)
    note st = pointers_step [OF rp inv1 apb [folded ap] k]
    have "same_fs fs fs'"
      using st fs1 by (simp add: same_fs_def fs' free_block_buffer_def)
    then show ?thesis using st fs1(1) by (simp add: v' overlay_triv)
  qed
qed

lemma loop_step:
  assumes "relocate_blocks_loop lib fs r i n t A = (Done (), t', fs')"
    and "area_inv g A K (view (fs_lib fs)) t"
    and "tree_fits (addr_per_block fs)" "g_addr g = unat (addr_per_block fs)"
    and "relocation_nodes (g_addr g) r \<subseteq> K"
    and "unat i + n = unat (rl_blocks_count r)"
    and "unat (rl_block_offset r) + unat (rl_blocks_count r) < 2 ^ 32"
    and "x_inode_has_valid_blocks lib (v_inode (view (fs_lib fs)) (rl_inode_number r))"
    and "\<forall>j. unat (rl_block_offset r) \<le> j \<longrightarrow> j < unat (rl_block_offset r) + unat i \<longrightarrow>
      j < 12 + g_addr g + g_addr g * g_addr g \<longrightarrow> (\<forall>p\<in>set (ancestors (block_path (g_addr g) j)).
        settled A (view (fs_lib fs)) (rl_inode_number r) p)"
  shows "area_inv g A K (view (fs_lib fs')) t' \<and> moved g A (view (fs_lib fs)) (view (fs_lib fs'))
    \<and> same_fs fs fs' \<and> relocated (g_addr g) A (view (fs_lib fs')) r"
  using assms
proof (induction n arbitrary: i t fs)
  case 0
  then show ?case by (simp add: relocated_def)
next
  case (Suc n)
  let ?b = "rl_block_offset r + i" let ?ino = "rl_inode_number r" let ?off = "unat (rl_block_offset r)"
  obtain t1 fs1 where b1: "relocate_block lib fs ?ino ?b t A = (Done (), t1, fs1)"
    and rest: "relocate_blocks_loop lib fs1 r (i + 1) n t1 A = (Done (), t', fs')"
    using Suc.prems(1) by (auto split: prod.splits outcome.splits)
  have ub: "unat ?b = ?off + unat i"
    using Suc.prems(6,7) by (simp add: unat_word_ariths)
  have ui: "unat (i + 1) = unat i + 1"
    using Suc.prems(6) unsigned_less [of "rl_blocks_count r"]
    by (intro unat_inc [of i "rl_blocks_count r"]) (simp add: word_less_nat_alt)
  have sub: "(?ino, p) \<in> K" if "j \<in> {?off ..< ?off + unat (rl_blocks_count r)}"
    "p \<in> set (ancestors (block_path (g_addr g) j))" for j p
    using that Suc.prems(5) relocation_nodesI [of r j p] by auto
  have inr: "?off + unat i \<in> {?off ..< ?off + unat (rl_blocks_count r)}" using Suc.prems(6) by simp
  have kb: "\<forall>p\<in>set (ancestors (block_path (g_addr g) (unat ?b))). (?ino, p) \<in> K"
    unfolding ub using sub [OF inr] by blast
  note st = block_step [OF b1 Suc.prems(2-4) kb]
  have c: "consistent g (view (fs_lib fs))" "consistent g (view (fs_lib fs1))"
    using st Suc.prems(2) by (simp_all add: area_inv_def)
  have mv: "moved g A (view (fs_lib fs)) (view (fs_lib fs1))" using st by blast
  have set1: "settled A (view (fs_lib fs1)) ?ino p"
    if j: "?off \<le> j" "j < ?off + unat (i + 1)" "j < 12 + g_addr g + g_addr g * g_addr g"
      and p: "p \<in> set (ancestors (block_path (g_addr g) j))" for j p
  proof (cases "j = ?off + unat i")
    case True
    then show ?thesis using st Suc.prems(8) j(3) p ub by auto
  next
    case False
    then have "j < ?off + unat i" using j(2) ui by simp
    then have "settled A (view (fs_lib fs)) ?ino p" using Suc.prems(9) j p by blast
    moreover have "key g ?ino p"
      using sub [of j p] p j(1) \<open>j < ?off + unat i\<close> Suc.prems(6)
      by (intro area_inv_key [OF Suc.prems(2)]) simp
    ultimately show ?thesis using settled_moved [OF mv] by blast
  qed
  have "area_inv g A K (view (fs_lib fs')) t' \<and> moved g A (view (fs_lib fs1)) (view (fs_lib fs'))
    \<and> same_fs fs1 fs' \<and> relocated (g_addr g) A (view (fs_lib fs')) r"
  proof (rule Suc.IH [OF rest])
    show "area_inv g A K (view (fs_lib fs1)) t1" using st by blast
    show "tree_fits (addr_per_block fs1)" "g_addr g = unat (addr_per_block fs1)"
      using Suc.prems(3,4) same_fs_apb [of fs fs1] st by simp_all
    show "relocation_nodes (g_addr g) r \<subseteq> K" by fact
    show "unat (i + 1) + n = unat (rl_blocks_count r)" using Suc.prems(6) ui by simp
    show "unat (rl_block_offset r) + unat (rl_blocks_count r) < 2 ^ 32" by fact
    show "x_inode_has_valid_blocks lib (v_inode (view (fs_lib fs1)) ?ino)"
      using Suc.prems(8) moved_valid_blocks [OF mv c] by simp
  qed (use set1 in blast)
  then show ?case using moved_trans [OF mv] same_fs_trans st by blast
qed

lemma range_step:
  assumes "relocate_blocks lib fs r t A = (Done (), t', fs')"
    and "area_inv g A K (view (fs_lib fs)) t"
    and "tree_fits (addr_per_block fs)" "g_addr g = unat (addr_per_block fs)"
    and "relocation_nodes (g_addr g) r \<subseteq> K" and "in_tree g r"
    and "x_inode_has_valid_blocks lib (v_inode (view (fs_lib fs)) (rl_inode_number r))"
  shows "area_inv g A K (view (fs_lib fs')) t' \<and> moved g A (view (fs_lib fs)) (view (fs_lib fs'))
    \<and> same_fs fs fs' \<and> relocated (g_addr g) A (view (fs_lib fs')) r"
  by (rule loop_step [OF assms(1) [unfolded relocate_blocks_def] assms(2-5)])
    (use assms(6,7) in \<open>simp_all add: in_tree_def\<close>)

lemma list_step:
  assumes "relocate_list lib fs rs t A = (Done (), t', fs')"
    and "area_inv g A K (view (fs_lib fs)) t"
    and "tree_fits (addr_per_block fs)" "g_addr g = unat (addr_per_block fs)"
    and "\<forall>r\<in>set rs. relocation_nodes (g_addr g) r \<subseteq> K \<and> in_tree g r
      \<and> x_inode_has_valid_blocks lib (v_inode (view (fs_lib fs)) (rl_inode_number r))"
  shows "area_inv g A K (view (fs_lib fs')) t' \<and> moved g A (view (fs_lib fs)) (view (fs_lib fs'))
    \<and> same_fs fs fs' \<and> (\<forall>r\<in>set rs. relocated (g_addr g) A (view (fs_lib fs')) r)"
  using assms
proof (induction rs arbitrary: t fs)
  case Nil
  then show ?case by simp
next
  case (Cons r rs)
  obtain t1 fs1 where b1: "relocate_blocks lib fs r t A = (Done (), t1, fs1)"
    and rest: "relocate_list lib fs1 rs t1 A = (Done (), t', fs')"
    using Cons.prems(1) by (auto split: prod.splits outcome.splits)
  have r: "relocation_nodes (g_addr g) r \<subseteq> K" "in_tree g r"
    "x_inode_has_valid_blocks lib (v_inode (view (fs_lib fs)) (rl_inode_number r))"
    using Cons.prems(5) by simp_all
  note st = range_step [OF b1 Cons.prems(2-4) r]
  have c: "consistent g (view (fs_lib fs))" "consistent g (view (fs_lib fs1))"
    using st Cons.prems(2) by (simp_all add: area_inv_def)
  have mv: "moved g A (view (fs_lib fs)) (view (fs_lib fs1))" using st by blast
  have "area_inv g A K (view (fs_lib fs')) t' \<and> moved g A (view (fs_lib fs1)) (view (fs_lib fs'))
    \<and> same_fs fs1 fs' \<and> (\<forall>r\<in>set rs. relocated (g_addr g) A (view (fs_lib fs')) r)"
  proof (rule Cons.IH [OF rest])
    show "area_inv g A K (view (fs_lib fs1)) t1" using st by blast
    show "tree_fits (addr_per_block fs1)" "g_addr g = unat (addr_per_block fs1)"
      using Cons.prems(3,4) same_fs_apb [of fs fs1] st by simp_all
    show "\<forall>r\<in>set rs. relocation_nodes (g_addr g) r \<subseteq> K \<and> in_tree g r
      \<and> x_inode_has_valid_blocks lib (v_inode (view (fs_lib fs1)) (rl_inode_number r))"
      using Cons.prems(5) moved_valid_blocks [OF mv c] by simp
  qed
  moreover have "relocated (g_addr g) A (view (fs_lib fs')) r"
    using calculation st r(2) relocated_moved by blast
  ultimately show ?case using moved_trans [OF mv] same_fs_trans st by auto
qed

end

end
