(* ===== verification/Relocation_Progress.thy ===== *)
theory Relocation_Progress
  imports Relocation_Correct
begin

text \<open>
  On a device that does not fail the relocator succeeds: no check of the bitmap, no assertion and
  no call stops it, because the area that was estimated suffices for every node that has to move.
\<close>

context reliable_library begin

lemma raw_succeeds:
  assumes "v_used (view (fs_lib fs)) s" "\<not> v_used (view (fs_lib fs)) t"
    and d: "s \<in> g_data g" "t \<in> g_data g" "g_data g \<subseteq> g_valid g"
  shows "\<exists>fs'. relocate_raw_block lib fs s t = (True, fs')"
proof -
  have v: "s \<in> g_valid g" "t \<in> g_valid g" using d by auto
  obtain fs1 where m: "get_block_buffer lib fs = (True, fs1)"
    using malloc_ok [of "fs_blocksize fs" "fs_lib fs"]
    by (cases "x_malloc lib (fs_blocksize fs) (fs_lib fs)") (auto simp: get_block_buffer_def)
  obtain b l1 where rd: "x_read_blk lib s (fs_lib fs1) = (Some b, l1)"
    using read_blk_ok [OF d(1), of "fs_lib fs1"] by (cases "x_read_blk lib s (fs_lib fs1)") auto
  obtain l2 where wr: "x_write_blk lib t b l1 = (True, l2)"
    using write_blk_ok [OF d(2), of b l1] by (cases "x_write_blk lib t b l1") auto
  show ?thesis
    using assms v m rd wr by (simp add: relocate_raw_block_def test_bitmap Let_def)
qed

lemma in_inode_succeeds:
  assumes inv: "area_inv g A K (overlay ino nd (view (fs_lib fs))) t" and k: "(ino, [k]) \<in> K"
  shows "\<exists>nd' t' fs'. relocate_block_in_inode lib fs nd k t A = (True, nd', t', fs')"
proof (cases "i_block nd ! k = 0 \<or> in_range (i_block nd ! k) A")
  case True
  then show ?thesis by (auto simp: relocate_block_in_inode_def Let_def)
next
  case False
  let ?v = "overlay ino nd (view (fs_lib fs))"
  have c: "consistent g ?v" and key: "key g ino [k]" using inv k by (auto simp: area_inv_def)
  have n: "node ?v ino [k] \<noteq> 0" "\<not> in_range (node ?v ino [k]) A"
    using False by (simp_all add: node_overlay_same)
  note tgt = area_target [OF inv k n]
  have "\<exists>fs'. relocate_raw_block lib fs (i_block nd ! k) t = (True, fs')"
    using consistentD [OF c key n(1)] tgt c
    by (intro raw_succeeds) (simp_all add: node_overlay_same consistent_def)
  then show ?thesis using False by (auto simp: relocate_block_in_inode_def Let_def)
qed

lemma in_indirect_succeeds:
  assumes inv: "area_inv g A K (overlay ino nd (view (fs_lib fs))) t" and k: "(ino, unat j # q) \<in> K"
    and q: "q \<noteq> []" "node (overlay ino nd (view (fs_lib fs))) ino q = ind" "ind \<noteq> 0"
    and apb: "g_addr g = unat (addr_per_block fs)"
  shows "\<exists>nxt t' fs'. relocate_block_in_indirect_block lib fs ind j t A = (Done nxt, t', fs')"
proof -
  let ?v = "overlay ino nd (view (fs_lib fs))"
  have c: "consistent g ?v" and key: "key g ino (unat j # q)" using inv k by (auto simp: area_inv_def)
  then have kq: "key g ino q" "\<not> leaf q" "unat j < g_addr g" using q(1) by (simp_all add: key_Cons)
  have nq: "node ?v ino q \<noteq> 0" using q by simp
  have ind: "ind \<in> g_data g" using consistentD(1) [OF c kq(1) nq] q(2) by simp
  have sub: "g_data g \<subseteq> g_valid g" using c by (simp add: consistent_def)
  have j: "j < fs_blocksize fs div 4"
    using kq(3) apb by (simp add: word_less_nat_alt addr_per_block_def)
  obtain ws l where rd: "x_read_ind_block lib ind (fs_lib fs) = (Some ws, l)"
    using read_ind_ok [OF ind, of "fs_lib fs"] by (cases "x_read_ind_block lib ind (fs_lib fs)") auto
  have ws: "ws = block_words (v_blk (view (fs_lib fs)) ind)" "view l = view (fs_lib fs)"
    using read_ind [OF rd ind] by simp_all
  have nj: "node ?v ino (unat j # q) = ws ! unat j" using q ws by (simp add: node_Cons)
  show ?thesis
  proof (cases "ws ! unat j = 0 \<or> in_range (ws ! unat j) A")
    case True
    then show ?thesis
      using j q(3) rd by (auto simp: relocate_block_in_indirect_block_def Let_def)
  next
    case False
    then have n: "node ?v ino (unat j # q) \<noteq> 0" "\<not> in_range (node ?v ino (unat j # q)) A"
      by (simp_all only: nj) simp_all
    note tgt = area_target [OF inv k n]
    have "\<exists>fs'. relocate_raw_block lib (fs\<lparr>fs_lib := l\<rparr>) (ws ! unat j) t = (True, fs')"
      using consistentD [OF c key n(1)] tgt sub ws(2)
      by (intro raw_succeeds) (simp_all only: nj, simp_all)
    then obtain fs1 where raw: "relocate_raw_block lib (fs\<lparr>fs_lib := l\<rparr>) (ws ! unat j) t = (True, fs1)"
      by blast
    obtain l1 where "x_write_ind_block lib ind (ws[unat j := t]) (fs_lib fs1) = (True, l1)"
      using write_ind_ok [OF ind] by (metis prod.collapse)
    then show ?thesis
      using j q(3) rd False raw by (auto simp: relocate_block_in_indirect_block_def Let_def)
  qed
qed

lemma level1_succeeds:
  assumes inv: "area_inv g A K (overlay ino nd (view (fs_lib fs))) t"
    and apb: "g_addr g = unat (addr_per_block fs)"
    and k: "(ino, [12]) \<in> K" "(ino, [unat (b - EXT2_NDIR_BLOCKS), 12]) \<in> K"
  shows "\<exists>nd' t' fs'. relocate_block_1indirect lib fs nd b t A = (Done (), nd', t', fs')"
proof -
  obtain nd1 t1 fs1 where r1: "relocate_block_in_inode lib fs nd 12 t A = (True, nd1, t1, fs1)"
    using in_inode_succeeds [OF inv k(1)] by blast
  note s1 = in_inode_step [OF r1 inv k(1)]
  show ?thesis
  proof (cases "i_block nd1 ! 12 = 0")
    case True
    then show ?thesis using r1 by (simp add: relocate_block_1indirect_def EXT2_IND_BLOCK_def)
  next
    case False
    have "\<exists>nxt t' fs'. relocate_block_in_indirect_block lib fs1 (i_block nd1 ! 12)
        (b - EXT2_NDIR_BLOCKS) t1 A = (Done nxt, t', fs')"
      using apb same_fs_apb [OF s1(3)]
      by (intro in_indirect_succeeds [OF s1(1) k(2) list.distinct(2) node_overlay_same False]) simp
    then show ?thesis
      using r1 False by (auto simp: relocate_block_1indirect_def EXT2_IND_BLOCK_def)
  qed
qed

lemma level2_succeeds:
  assumes inv: "area_inv g A K (overlay ino nd (view (fs_lib fs))) t"
    and apb: "g_addr g = unat (addr_per_block fs)" "apb = addr_per_block fs"
    and k: "(ino, [13]) \<in> K" "(ino, [unat ((b - EXT2_NDIR_BLOCKS - apb) div apb), 13]) \<in> K"
      "(ino, [unat ((b - EXT2_NDIR_BLOCKS - apb) mod apb), unat ((b - EXT2_NDIR_BLOCKS - apb) div apb), 13]) \<in> K"
  shows "\<exists>nd' t' fs'. relocate_block_2indirect lib fs nd b t A = (Done (), nd', t', fs')"
proof -
  let ?i = "(b - EXT2_NDIR_BLOCKS - apb) div apb" and ?j = "(b - EXT2_NDIR_BLOCKS - apb) mod apb"
  obtain nd1 t1 fs1 where r1: "relocate_block_in_inode lib fs nd 13 t A = (True, nd1, t1, fs1)"
    using in_inode_succeeds [OF inv k(1)] by blast
  note s1 = in_inode_step [OF r1 inv k(1)]
  have a1: "addr_per_block fs1 = apb" using same_fs_apb [OF s1(3)] apb(2) by simp
  show ?thesis
  proof (cases "i_block nd1 ! 13 = 0")
    case True
    then show ?thesis using r1 by (simp add: relocate_block_2indirect_def EXT2_DIND_BLOCK_def Let_def)
  next
    case False
    note hyp = s1(1) k(2) list.distinct(2) node_overlay_same False
    obtain nxt t2 fs2 where r2: "relocate_block_in_indirect_block lib fs1 (i_block nd1 ! 13) ?i t1 A
        = (Done nxt, t2, fs2)"
      using in_indirect_succeeds [OF hyp] apb a1 by auto
    note s2 = in_indirect_step [OF r2 hyp]
    have a2: "addr_per_block fs2 = apb" using same_fs_apb [OF s2(3)] a1 by simp
    show ?thesis
    proof (cases "nxt = 0")
      case True
      then show ?thesis
        using r1 False r2 a1 by (simp add: relocate_block_2indirect_def EXT2_DIND_BLOCK_def Let_def)
    next
      case nz: False
      have "\<exists>d t' fs'. relocate_block_in_indirect_block lib fs2 nxt ?j t2 A = (Done d, t', fs')"
        using in_indirect_succeeds [OF s2(1) k(3) list.distinct(2) s2(4) nz] apb a2 by simp
      then show ?thesis
        using r1 False r2 nz a1
        by (auto simp: relocate_block_2indirect_def EXT2_DIND_BLOCK_def Let_def)
    qed
  qed
qed

lemma pointers_succeed:
  assumes inv: "area_inv g A K (overlay ino nd (view (fs_lib fs))) t"
    and apb: "tree_fits (addr_per_block fs)" "g_addr g = unat (addr_per_block fs)"
    and k: "\<forall>p\<in>set (ancestors (block_path (g_addr g) (unat b))). (ino, p) \<in> K"
  shows "\<exists>nd' t' fs'. relocate_block_pointers lib fs nd b t A = (Done (), nd', t', fs')"
proof -
  let ?n = "g_addr g" let ?apb = "addr_per_block fs"
  consider (d) "unat b < 12" | (i1) "12 \<le> unat b" "unat b < 12 + ?n"
    | (i2) "12 + ?n \<le> unat b" "unat b < 12 + ?n + ?n * ?n" | (i3) "12 + ?n + ?n * ?n \<le> unat b"
    by linarith
  then show ?thesis
  proof cases
    case d
    have kb: "(ino, [unat b]) \<in> K" using k by (simp add: block_path_direct [OF d])
    show ?thesis
      using in_inode_succeeds [OF inv kb] d
      by (auto simp: relocate_block_pointers_def is_direct_block_iff)
  next
    case i1
    have j: "unat (b - EXT2_NDIR_BLOCKS) = unat b - 12"
      using i1 by (intro unat_minus_NDIR) (simp add: word_less_nat_alt)
    have "(ino, [12]) \<in> K" "(ino, [unat (b - EXT2_NDIR_BLOCKS), 12]) \<in> K"
      using k unfolding block_path_1 [OF i1] j by simp_all
    from level1_succeeds [OF inv apb(2) this] show ?thesis
      using i1 apb(2)
      by (simp add: relocate_block_pointers_def is_direct_block_iff is_1indirect_block_iff)
  next
    case i2
    have "unat (b - EXT2_NDIR_BLOCKS - ?apb) = unat b - (12 + ?n)"
      using i2 unat_minus_NDIR [of b] unat_minus_NDIR_apb [of b ?apb] apb(2)
      by (simp add: word_less_nat_alt)
    then have j: "unat ((b - EXT2_NDIR_BLOCKS - ?apb) div ?apb) = (unat b - (12 + ?n)) div ?n"
      "unat ((b - EXT2_NDIR_BLOCKS - ?apb) mod ?apb) = (unat b - (12 + ?n)) mod ?n"
      using apb(2) by (simp_all add: unat_div unat_mod)
    have "(ino, [13]) \<in> K" "(ino, [unat ((b - EXT2_NDIR_BLOCKS - ?apb) div ?apb), 13]) \<in> K"
      "(ino, [unat ((b - EXT2_NDIR_BLOCKS - ?apb) mod ?apb),
         unat ((b - EXT2_NDIR_BLOCKS - ?apb) div ?apb), 13]) \<in> K"
      using k unfolding block_path_2 [OF i2] j by simp_all
    from level2_succeeds [OF inv apb(2) refl this] show ?thesis
      using i2 apb
      by (simp add: relocate_block_pointers_def is_direct_block_iff is_1indirect_block_iff
          is_2indirect_block_iff)
  next
    case i3
    then show ?thesis
      using apb
      by (simp add: relocate_block_pointers_def is_direct_block_iff is_1indirect_block_iff
          is_2indirect_block_iff)
  qed
qed

lemma block_succeeds:
  assumes inv: "area_inv g A K (view (fs_lib fs)) t"
    and apb: "tree_fits (addr_per_block fs)" "g_addr g = unat (addr_per_block fs)"
    and k: "\<forall>p\<in>set (ancestors (block_path (g_addr g) (unat b))). (ino, p) \<in> K"
    and ino: "ino \<in> g_inos g"
  shows "\<exists>t' fs'. relocate_block lib fs ino b t A = (Done (), t', fs')"
proof -
  let ?nd = "v_inode (view (fs_lib fs)) ino"
  obtain l where rd: "x_read_inode lib ino (fs_lib fs) = (Some ?nd, l)" and l: "view l = view (fs_lib fs)"
    using read_inode_ok [OF ino, of "fs_lib fs"] read_inode
    by (cases "x_read_inode lib ino (fs_lib fs)") auto
  show ?thesis
  proof (cases "x_inode_has_valid_blocks lib ?nd")
    case False
    then show ?thesis using rd by (simp add: relocate_block_def Let_def)
  next
    case True
    obtain l1 where m: "x_malloc lib (fs_blocksize fs) l = (True, l1)"
      using malloc_ok [of "fs_blocksize fs" l] by (cases "x_malloc lib (fs_blocksize fs) l") auto
    let ?fs1 = "fs\<lparr>fs_lib := l1, fs_buffers := fs_buffers fs + 1\<rparr>"
    have gb: "get_block_buffer lib (fs\<lparr>fs_lib := l\<rparr>) = (True, ?fs1)"
      using m by (simp add: get_block_buffer_def)
    have "area_inv g A K (overlay ino ?nd (view (fs_lib ?fs1))) t"
      using inv malloc [OF m] l by (simp add: overlay_triv)
    moreover have "addr_per_block ?fs1 = addr_per_block fs" by (simp add: addr_per_block_def)
    ultimately obtain nd' t' fs2 where
      rp: "relocate_block_pointers lib ?fs1 ?nd b t A = (Done (), nd', t', fs2)"
      using pointers_succeed [of A K ino ?nd ?fs1 t b] apb k by auto
    obtain l2 where "x_write_inode lib ino nd' (fs_lib fs2) = (True, l2)"
      using write_inode_ok [OF ino] by (metis prod.collapse)
    then show ?thesis using rd True gb rp by (simp add: relocate_block_def Let_def)
  qed
qed

lemma loop_succeeds:
  assumes "area_inv g A K (view (fs_lib fs)) t"
    and "tree_fits (addr_per_block fs)" "g_addr g = unat (addr_per_block fs)"
    and "relocation_nodes (g_addr g) r \<subseteq> K" and "rl_inode_number r \<in> g_inos g"
    and "unat i + n = unat (rl_blocks_count r)"
    and "unat (rl_block_offset r) + unat (rl_blocks_count r) < 2 ^ 32"
  shows "\<exists>t' fs'. relocate_blocks_loop lib fs r i n t A = (Done (), t', fs')"
  using assms
proof (induction n arbitrary: i t fs)
  case 0
  then show ?case by simp
next
  case (Suc n)
  let ?b = "rl_block_offset r + i" let ?off = "unat (rl_block_offset r)"
  have ub: "unat ?b = ?off + unat i"
    using Suc.prems(6,7) by (simp add: unat_word_ariths)
  have ui: "unat (i + 1) = unat i + 1"
    using Suc.prems(6)
    by (intro unat_inc [of i "rl_blocks_count r"]) (simp add: word_less_nat_alt)
  have kb: "\<forall>p\<in>set (ancestors (block_path (g_addr g) (unat ?b))). (rl_inode_number r, p) \<in> K"
    unfolding ub using Suc.prems(4,6) relocation_nodesI [of r "?off + unat i"] by auto
  obtain t1 fs1 where b1: "relocate_block lib fs (rl_inode_number r) ?b t A = (Done (), t1, fs1)"
    using block_succeeds [OF Suc.prems(1-3) kb Suc.prems(5)] by blast
  note st = block_step [OF b1 Suc.prems(1-3) kb]
  have a: "addr_per_block fs1 = addr_per_block fs" using same_fs_apb st by blast
  have "\<exists>t' fs'. relocate_blocks_loop lib fs1 r (i + 1) n t1 A = (Done (), t', fs')"
    using st a Suc.prems ui by (intro Suc.IH) simp_all
  then show ?case using b1 by simp
qed

lemma list_succeeds:
  assumes "area_inv g A K (view (fs_lib fs)) t"
    and "tree_fits (addr_per_block fs)" "g_addr g = unat (addr_per_block fs)"
    and "\<forall>r\<in>set rs. relocation_nodes (g_addr g) r \<subseteq> K \<and> in_tree g r \<and> rl_inode_number r \<in> g_inos g
      \<and> x_inode_has_valid_blocks lib (v_inode (view (fs_lib fs)) (rl_inode_number r))"
  shows "\<exists>t' fs'. relocate_list lib fs rs t A = (Done (), t', fs')"
  using assms
proof (induction rs arbitrary: t fs)
  case Nil
  then show ?case by simp
next
  case (Cons r rs)
  have r: "relocation_nodes (g_addr g) r \<subseteq> K" "in_tree g r" "rl_inode_number r \<in> g_inos g"
    "x_inode_has_valid_blocks lib (v_inode (view (fs_lib fs)) (rl_inode_number r))"
    using Cons.prems(4) by simp_all
  obtain t1 fs1 where b1: "relocate_blocks lib fs r t A = (Done (), t1, fs1)"
    using loop_succeeds [OF Cons.prems(1-3) r(1,3), of 0] r(2)
    by (auto simp: relocate_blocks_def in_tree_def)
  note st = range_step [OF b1 Cons.prems(1-3) r(1,2,4)]
  have c: "consistent g (view (fs_lib fs))" "consistent g (view (fs_lib fs1))"
    using st Cons.prems(1) by (simp_all add: area_inv_def)
  have mv: "moved g A (view (fs_lib fs)) (view (fs_lib fs1))" using st by blast
  have "\<exists>t' fs'. relocate_list lib fs1 rs t1 A = (Done (), t', fs')"
  proof (rule Cons.IH)
    show "area_inv g A K (view (fs_lib fs1)) t1" using st by blast
    show "tree_fits (addr_per_block fs1)" "g_addr g = unat (addr_per_block fs1)"
      using Cons.prems(2,3) same_fs_apb [of fs fs1] st by simp_all
    show "\<forall>r\<in>set rs. relocation_nodes (g_addr g) r \<subseteq> K \<and> in_tree g r \<and> rl_inode_number r \<in> g_inos g
      \<and> x_inode_has_valid_blocks lib (v_inode (view (fs_lib fs1)) (rl_inode_number r))"
      using Cons.prems(4) moved_valid_blocks [OF mv c] by simp
  qed
  then show ?case using b1 by simp
qed

end

end
