(* ===== verification/E2moveblocks.thy ===== *)
theory E2moveblocks
  imports Layout_List Free_Space Relocation_Progress
begin

text \<open>
  The program \<open>e2moveblocks\<close>: opening and closing the file system, the phase that moves the
  blocks, and \<open>main\<close>. The theorems about the whole phase are here: on a reliable device it
  moves every listed block into one contiguous area and changes no file.
\<close>

section \<open>The program\<close>

text \<open>
  Built, as the Makefile does, with \<open>ENABLE_HTREE\<close> and without \<open>ENABLE_COMPRESSION\<close>.
  \<open>None\<close> is \<open>return 0\<close>.
\<close>

definition open_filesystem :: "'l ext2fs \<Rightarrow> string \<Rightarrow> bool \<Rightarrow> 'l filesystem_info option" where
  "open_filesystem lib file_name force =
     (case x_check_if_mounted lib file_name of
        None \<Rightarrow> None
      | Some (mounted, busy) \<Rightarrow>
          if mounted \<and> \<not> force then None
          else if busy \<and> \<not> force then None
          else
            (case x_open lib file_name of
               None \<Rightarrow> None
             | Some fs \<Rightarrow>
                 (let sb = fs_super fs; (compat, incompat, ro_compat) = x_supported lib in
                  if s_feature_compat sb AND NOT compat \<noteq> 0 then None
                  else if s_feature_incompat sb AND NOT incompat \<noteq> 0 then None
                  else if s_feature_ro_compat sb AND NOT ro_compat \<noteq> 0 then None
                  else
                    (case x_read_bitmaps lib (fs_lib fs) of
                       (False, l) \<Rightarrow> None
                     | (True, l) \<Rightarrow> Some (fs\<lparr>fs_lib := l\<rparr>)))))"

definition close_filesystem :: "'l ext2fs \<Rightarrow> 'l filesystem_info \<Rightarrow> 'l filesystem_info" where
  "close_filesystem lib fs =
     (let (flushed, l) = x_flush lib (fs_lib fs);
          (closed, l) = x_close lib l
      in fs\<lparr>fs_lib := l\<rparr>)"

text \<open>
  The end of \<open>main\<close>, from the search for the area: \<open>None\<close> when there is no area, otherwise
  how the loop over the relocations ended. The estimate, a 64-bit count, is passed on and stored
  in the area as an \<open>unsigned int\<close>.
\<close>

definition move_listed_blocks ::
  "'l ext2fs \<Rightarrow> 'l filesystem_info \<Rightarrow> relocation list \<Rightarrow> int
    \<Rightarrow> (unit outcome \<times> u32 \<times> 'l filesystem_info) option" where
  "move_listed_blocks lib fs relocations size_in_blocks =
     (case find_contiguous_free_space lib fs (word_of_int size_in_blocks) of
        None \<Rightarrow> None
      | Some found_first_block \<Rightarrow>
          Some (relocate_list lib fs relocations found_first_block
            \<lparr>br_start_block = found_first_block,
             br_blocks_count = word_of_int size_in_blocks\<rparr>))"

text \<open>
  The exit status, \<open>None\<close> for \<open>abort\<close>, and the file system as it was left; the arguments
  exclude the program's name. \<open>fopen\<close> of a layout file is \<open>files\<close>.
\<close>

definition parse_arguments :: "string list \<Rightarrow> (bool \<times> string \<times> string) option" where
  "parse_arguments args =
     (if length args = 2 then Some (False, args ! 0, args ! 1)
      else if length args = 3 \<and> args ! 0 = ''--force'' then Some (True, args ! 1, args ! 2)
      else None)"

definition e2moveblocks_main ::
  "'l ext2fs \<Rightarrow> int \<Rightarrow> (string \<Rightarrow> byte list option) \<Rightarrow> string list
    \<Rightarrow> int option \<times> 'l filesystem_info option" where
  "e2moveblocks_main lib page_size files args =
     (case parse_arguments args of
        None \<Rightarrow> (Some 1, None)
      | Some (force, devicename, layoutfile) \<Rightarrow>
          (case open_filesystem lib devicename force of
             None \<Rightarrow> (Some 3, None)
           | Some fs \<Rightarrow>
               if \<not> test_estimate_blocks_for_range (addr_per_block fs) then (None, Some fs)
               else
                 (case process_layout_list lib fs page_size (files layoutfile) of
                    (Aborted, fs) \<Rightarrow> (None, Some fs)
                  | (Failed, fs) \<Rightarrow> (Some 5, Some fs)
                  | (Done (relocations, size_in_blocks), fs) \<Rightarrow>
                      (case move_listed_blocks lib fs relocations size_in_blocks of
                         None \<Rightarrow> (Some 4, Some fs)
                       | Some (Aborted, _, fs) \<Rightarrow> (None, Some fs)
                       | Some (Failed, _, fs) \<Rightarrow> (Some 10, Some fs)
                       | Some (Done _, _, fs) \<Rightarrow> (Some 0, Some (close_filesystem lib fs))))))"

section \<open>The whole phase\<close>

lemma ancestors_tree_path: "tree_path n p \<Longrightarrow> q \<in> set (ancestors p) \<Longrightarrow> tree_path n q"
proof (induction p)
  case (Cons j p)
  show ?case
  proof (cases "p = []")
    case False
    then have "tree_path n p" using Cons.prems(1) by (simp add: tree_path_Cons)
    then show ?thesis using Cons by auto
  qed (use Cons.prems in simp)
qed simp

text \<open>What is asked of the relocations: in the trees of inodes that have blocks.\<close>

definition tree_size :: "nat \<Rightarrow> nat" where
  "tree_size n = 12 + n + n * n + n * n * n"

definition listed :: "'l ext2fs \<Rightarrow> geometry \<Rightarrow> disk_view \<Rightarrow> relocation \<Rightarrow> bool" where
  "listed lib g v r \<longleftrightarrow> rl_inode_number r \<in> g_inos g
     \<and> x_inode_has_valid_blocks lib (v_inode v (rl_inode_number r))
     \<and> unat (rl_block_offset r) + unat (rl_blocks_count r) < 2 ^ 32
     \<and> unat (rl_block_offset r) + unat (rl_blocks_count r) \<le> tree_size (g_addr g)"

text \<open>
  The facts that both theorems about the phase start from: what is known of the opened file system
  and of the list.
\<close>

definition phase_ready ::
  "'l ext2fs \<Rightarrow> ('l \<Rightarrow> disk_view) \<Rightarrow> geometry \<Rightarrow> 'l filesystem_info \<Rightarrow> relocation list \<Rightarrow> int
    \<Rightarrow> bool" where
  "phase_ready lib view g fs rs est \<longleftrightarrow> consistent g (view (fs_lib fs))
     \<and> tree_fits (addr_per_block fs) \<and> g_addr g = unat (addr_per_block fs)
     \<and> (\<forall>b. fs_map_start fs \<le> b \<longrightarrow> b < s_blocks_count (fs_super fs) \<longrightarrow> b \<in> g_valid g)
     \<and> (\<forall>r\<in>set rs. listed lib g (view (fs_lib fs)) r)
     \<and> estimates (addr_per_block fs) rs = Some est \<and> est < 2 ^ 32"

lemma listed_in_tree: "listed lib g v r \<Longrightarrow> 0 < g_addr g \<Longrightarrow> in_tree g r"
  unfolding in_tree_def
proof (intro conjI ballI, goal_cases)
  case 1
  then show ?case by (simp add: listed_def)
next
  case (2 k)
  then obtain i p where k: "k = (rl_inode_number r, p)"
    and i: "i < unat (rl_block_offset r) + unat (rl_blocks_count r)"
    and p: "p \<in> set (ancestors (block_path (g_addr g) i))"
    by (auto simp: relocation_nodes_def range_nodes_def)
  have "i < 12 + g_addr g + g_addr g * g_addr g + g_addr g * g_addr g * g_addr g"
    using 2 i by (simp add: listed_def tree_size_def)
  then have "tree_path (g_addr g) p"
    using ancestors_tree_path [OF _ p] block_path_tree 2 by blast
  then show ?case using 2 k by (simp add: key_def listed_def)
qed

lemma card_relocation_nodes:
  "card (relocation_nodes n r) =
    card (range_nodes n (unat (rl_block_offset r)) (unat (rl_block_offset r) + unat (rl_blocks_count r)))"
  by (simp add: relocation_nodes_def card_image inj_on_def)

lemma estimates_cover:
  assumes "estimates apb rs = Some est" and "tree_fits apb"
    and "\<forall>r\<in>set rs. unat (rl_block_offset r) + unat (rl_blocks_count r) < 2 ^ 32"
  shows "int (card (\<Union>r\<in>set rs. relocation_nodes (unat apb) r)) \<le> est"
  using assms(1,3)
proof (induction rs arbitrary: est rule: rev_induct)
  case Nil
  then show ?case by simp
next
  case (snoc r rs)
  let ?K = "\<Union>r\<in>set rs. relocation_nodes (unat apb) r"
  obtain a e where a: "estimates apb rs = Some a" and est: "est = a + e"
    and e: "estimate_blocks_for_range apb (rl_block_offset r) (rl_blocks_count r) = Some e"
    using snoc.prems(1) by (auto simp: estimates_snoc split: option.splits)
  have "int (card (relocation_nodes (unat apb) r)) \<le> e"
    using estimate_bound [OF assms(2), of "rl_block_offset r" "rl_blocks_count r"] e snoc.prems(2)
    unfolding card_relocation_nodes by auto
  moreover have "int (card ?K) \<le> a" using snoc.IH [OF a] snoc.prems(2) by simp
  moreover have "card (?K \<union> relocation_nodes (unat apb) r)
      \<le> card ?K + card (relocation_nodes (unat apb) r)" by (rule card_Un_le)
  moreover have "(\<Union>r\<in>set (rs @ [r]). relocation_nodes (unat apb) r)
      = ?K \<union> relocation_nodes (unat apb) r" by auto
  ultimately show ?case using est by simp
qed

text \<open>The area that the search returns is fit for the relocation.\<close>

context ext2_library begin

lemma area_found:
  assumes f: "find_contiguous_free_space lib fs (word_of_int est) = Some b"
    and est: "0 \<le> est" "est < 2 ^ 32"
    and c: "consistent g (view (fs_lib fs))"
    and valid: "\<forall>b. fs_map_start fs \<le> b \<longrightarrow> b < s_blocks_count (fs_super fs) \<longrightarrow> b \<in> g_valid g"
    and K: "finite K" "\<forall>(ino, p)\<in>K. key g ino p" "int (card K) \<le> est"
  shows "area_inv g \<lparr>br_start_block = b, br_blocks_count = word_of_int est\<rparr> K (view (fs_lib fs)) b"
proof -
  let ?n = "word_of_int est :: u32" let ?A = "\<lparr>br_start_block = b, br_blocks_count = ?n\<rparr>"
  have n: "unat ?n = nat est" using est by (simp add: unat_eq_nat_uint uint_word_of_int_eq take_bit_int_eq_self)
  have card: "card (outside ?A (view (fs_lib fs)) K) \<le> unat ?n"
  proof -
    have "outside ?A (view (fs_lib fs)) K \<subseteq> K" by (auto simp: outside_def)
    then have "card (outside ?A (view (fs_lib fs)) K) \<le> card K" using K(1) by (rule card_mono [rotated])
    then show ?thesis using K(3) n by simp
  qed
  show ?thesis
  proof (cases "?n = 0")
    case True
    have "unat b < 2 ^ LENGTH(32)" by (rule unsigned_less)
    then have "no_wrap b ?n" using True by (simp add: no_wrap_def)
    moreover have "\<not> in_range b' ?A" for b'
      using True by (auto simp: in_range_def)
    ultimately show ?thesis using c K card by (simp add: area_inv_def True)
  next
    case False
    then have run: "free_run lib fs (unat b) (unat ?n)"
      using find_contiguous_spec [where n = ?n and lib = lib and fs = fs] f by (simp add: word_neq_0_conv)
    have "unat (s_blocks_count (fs_super fs)) < 2 ^ LENGTH(32)" by (rule unsigned_less)
    then have nw: "no_wrap b ?n" using run by (simp add: free_run_def no_wrap_def)
    have r: "in_range b' ?A \<longleftrightarrow> unat b \<le> unat b' \<and> unat b' < unat b + unat ?n" for b'
      using nw by (subst in_range_iff) (auto simp: span_def)
    have v: "b' \<in> g_valid g" if "in_range b' ?A" for b'
      using that run valid unfolding r free_run_def by (simp add: word_le_nat_alt word_less_nat_alt)
    have "\<not> v_used (view (fs_lib fs)) b'" if "in_range b' ?A" for b'
    proof -
      have "\<not> x_test_block_bitmap lib (of_nat (unat b')) (fs_lib fs)"
        using that run unfolding r free_run_def by blast
      then show ?thesis using test_bitmap [OF v [OF that]] by simp
    qed
    then show ?thesis using c K card nw v by (simp add: area_inv_def)
  qed
qed

lemma phase_inv:
  assumes r: "phase_ready lib view g fs rs est"
    and f: "find_contiguous_free_space lib fs (word_of_int est) = Some b"
  shows "area_inv g \<lparr>br_start_block = b, br_blocks_count = word_of_int est\<rparr>
      (\<Union>r\<in>set rs. relocation_nodes (g_addr g) r) (view (fs_lib fs)) b"
    and "\<forall>r\<in>set rs. relocation_nodes (g_addr g) r \<subseteq> (\<Union>r\<in>set rs. relocation_nodes (g_addr g) r)
      \<and> in_tree g r \<and> x_inode_has_valid_blocks lib (v_inode (view (fs_lib fs)) (rl_inode_number r))"
proof -
  have n: "0 < g_addr g" using r by (simp add: phase_ready_def tree_fits_def)
  have it: "in_tree g r" if "r \<in> set rs" for r
    using that r n by (auto simp: phase_ready_def intro: listed_in_tree)
  have cov: "int (card (\<Union>r\<in>set rs. relocation_nodes (g_addr g) r)) \<le> est"
    using r estimates_cover [of "addr_per_block fs" rs est]
    by (simp add: phase_ready_def listed_def)
  show "area_inv g \<lparr>br_start_block = b, br_blocks_count = word_of_int est\<rparr>
      (\<Union>r\<in>set rs. relocation_nodes (g_addr g) r) (view (fs_lib fs)) b"
  proof (rule area_found [OF f])
    show "\<forall>(ino, p)\<in>(\<Union>r\<in>set rs. relocation_nodes (g_addr g) r). key g ino p"
      using it by (auto simp: in_tree_def)
    show "0 \<le> est" using cov by linarith
  qed (use r cov in \<open>simp_all add: phase_ready_def\<close>)
  show "\<forall>r\<in>set rs. relocation_nodes (g_addr g) r \<subseteq> (\<Union>r\<in>set rs. relocation_nodes (g_addr g) r)
      \<and> in_tree g r \<and> x_inode_has_valid_blocks lib (v_inode (view (fs_lib fs)) (rl_inode_number r))"
    using it r by (auto simp: phase_ready_def listed_def)
qed

lemma phase_safe:
  assumes r: "phase_ready lib view g fs rs est"
    and f: "find_contiguous_free_space lib fs (word_of_int est) = Some b"
    and A: "A = \<lparr>br_start_block = b, br_blocks_count = word_of_int est\<rparr>"
    and d: "relocate_list lib fs rs b A = (Done (), t, fs')"
  shows "moved g A (view (fs_lib fs)) (view (fs_lib fs')) \<and> consistent g (view (fs_lib fs'))
    \<and> (\<forall>r\<in>set rs. relocated (g_addr g) A (view (fs_lib fs')) r)
    \<and> unat t \<le> unat b + nat est"
proof -
  note inv = phase_inv(1) [OF r f, folded A] and rs = phase_inv(2) [OF r f]
  have g: "tree_fits (addr_per_block fs)" "g_addr g = unat (addr_per_block fs)" "est < 2 ^ 32"
    using r by (simp_all add: phase_ready_def)
  note st = list_step [OF d inv g(1,2) rs]
  have "unat t \<le> unat b + unat (word_of_int est :: u32)"
    using st by (simp add: area_inv_def A)
  moreover have "unat (word_of_int est :: u32) \<le> nat est"
  proof (cases "0 \<le> est")
    case True
    then show ?thesis
      using g(3) by (simp add: unat_eq_nat_uint uint_word_of_int_eq take_bit_int_eq_self)
  next
    case False
    moreover have "0 \<le> est"
      using estimates_cover [of "addr_per_block fs" rs est] r
      by (simp add: phase_ready_def listed_def)
    ultimately show ?thesis by simp
  qed
  ultimately show ?thesis using st by (simp add: area_inv_def)
qed

end

context reliable_library begin

lemma phase_succeeds:
  assumes r: "phase_ready lib view g fs rs est"
    and f: "find_contiguous_free_space lib fs (word_of_int est) = Some b"
    and A: "A = \<lparr>br_start_block = b, br_blocks_count = word_of_int est\<rparr>"
  shows "\<exists>t fs'. relocate_list lib fs rs b A = (Done (), t, fs')"
proof -
  note inv = phase_inv(1) [OF r f, folded A] and rs = phase_inv(2) [OF r f]
  have g: "tree_fits (addr_per_block fs)" "g_addr g = unat (addr_per_block fs)"
    using r by (simp_all add: phase_ready_def)
  show ?thesis
    using rs r by (intro list_succeeds [OF inv g]) (auto simp: phase_ready_def listed_def)
qed

end

end
