(* ===== verification/E2moveblocks_Props.thy ===== *)
theory E2moveblocks_Props
  imports E2moveblocks
begin

text \<open>
  The properties of \<open>e2moveblocks\<close>, and the file system in memory on which their witnesses
  run: one regular file, inode 12, on a device of 1000 blocks of 1 KB, with two direct blocks, an
  indirect block and one block behind it, and holes.
\<close>

section \<open>A small file system\<close>

definition sample_inode :: ext2_inode where
  "sample_inode = \<lparr>i_mode = 0x81A4, i_size = 13312, i_size_high = 0,
     i_block = [100, 102, 0, 0, 0, 0, 0, 0, 0, 0, 0, 0, 200, 0, 0]\<rparr>"

definition sample_view :: disk_view where
  "sample_view = \<lparr>v_used = (\<lambda>b. b < 50 \<or> b = 100 \<or> b = 102 \<or> b = 200 \<or> b = 300),
     v_blk = (\<lambda>b. if b = 200 then words_block (300 # replicate 255 0) else [ucast b]),
     v_inode = (\<lambda>ino. if ino = 12 then sample_inode else \<lparr>i_mode = 0, i_size = 0, i_size_high = 0, i_block = []\<rparr>)\<rparr>"

definition sample_geometry :: geometry where
  "sample_geometry = \<lparr>g_valid = {1 ..< 1000}, g_data = {50 ..< 1000}, g_inos = {12}, g_addr = 256\<rparr>"

definition sample_fs :: "image filesystem_info" where
  "sample_fs = \<lparr>fs_super = \<lparr>s_blocks_count = 1000, s_free_blocks_count = 900, s_first_ino = 11,
      s_feature_compat = 0x4, s_feature_incompat = 0x2, s_feature_ro_compat = 0x1\<rparr>,
     fs_blocksize = 1024, fs_map_start = 1, fs_group_free = [900],
     fs_lib = \<lparr>im_view = sample_view, im_calls = 0\<rparr>, fs_buffers = 0\<rparr>"

definition sample_op :: "string \<Rightarrow> image filesystem_info option" where
  "sample_op name = (if name = ''/dev/sda'' then Some sample_fs else None)"

abbreviation sample_lib :: "image ext2fs" where
  "sample_lib \<equiv> image_lib (\<lambda>_. True) sample_op"

definition sample_relocation :: relocation where
  "sample_relocation = \<lparr>rl_inode_number = 12, rl_block_offset = 0, rl_blocks_count = 13\<rparr>"

lemmas sample_defs = sample_view_def sample_geometry_def sample_inode_def

lemma sample_node:
  "key sample_geometry ino p \<Longrightarrow> node sample_view ino p =
     (if p = [0] then 100 else if p = [1] then 102 else if p = [12] then 200
      else if p = [0, 12] then 300 else 0)"
proof (induction p)
  case Nil
  then show ?case by simp
next
  case (Cons j q)
  show ?case
  proof (cases "q = []")
    case True
    then have j: "j < 15" "ino = 12" using Cons.prems by (simp_all add: key_single sample_geometry_def)
    then have "j \<in> {0, 1, 2, 3, 4, 5, 6, 7, 8, 9, 10, 11, 12, 13, 14}" by (simp, presburger)
    then show ?thesis using True j by (auto simp: sample_defs)
  next
    case False
    then have k: "key sample_geometry ino q" "j < 256" "\<not> leaf q"
      using Cons.prems by (simp_all add: key_Cons sample_geometry_def)
    have "q \<noteq> [0]" "q \<noteq> [1]" "q \<noteq> [0, 12]" using k(3) by (auto simp: leaf_def zone_depth_def)
    then show ?thesis
      using Cons.IH [OF k(1)] False k(2)
      by (cases "q = [12]"; cases j) (auto simp: node_Cons sample_view_def)
  qed
qed

lemma sample_consistent: "consistent sample_geometry sample_view"
  unfolding consistent_def
proof (intro conjI allI impI ballI)
  fix ino p assume k: "key sample_geometry ino p" and nz: "node sample_view ino p \<noteq> 0"
  show "node sample_view ino p \<in> g_data sample_geometry"
    using nz unfolding sample_node [OF k] by (auto simp: sample_geometry_def split: if_splits)
  show "v_used sample_view (node sample_view ino p)"
    using nz unfolding sample_node [OF k] by (auto simp: sample_view_def split: if_splits)
  show "length (block_words (v_blk sample_view (node sample_view ino p))) = g_addr sample_geometry"
    if "\<not> leaf p"
    using nz that unfolding sample_node [OF k]
    by (auto simp: sample_view_def sample_geometry_def leaf_def zone_depth_def split: if_splits)
  fix ino' p' assume k': "key sample_geometry ino' p'"
    and eq: "node sample_view ino p = node sample_view ino' p'"
  show "p = p'"
    using nz eq unfolding sample_node [OF k] sample_node [OF k'] by (auto split: if_splits)
  show "ino = ino'" using k k' by (simp add: key_def sample_geometry_def)
qed (auto simp: sample_defs)

lemma sample_search: "find_contiguous_free_space sample_lib sample_fs 14 = Some 50"
  by code_simp

lemma sample_ready:
  "phase_ready sample_lib im_view sample_geometry sample_fs [sample_relocation] 14"
  unfolding phase_ready_def
proof (intro conjI)
  have v: "im_view (fs_lib sample_fs) = sample_view" by (simp add: sample_fs_def)
  show "consistent sample_geometry (im_view (fs_lib sample_fs))" using sample_consistent v by simp
  have a: "addr_per_block sample_fs = 256" by (simp add: addr_per_block_def sample_fs_def)
  show "tree_fits (addr_per_block sample_fs)" by (simp add: a tree_fits_def)
  show "g_addr sample_geometry = unat (addr_per_block sample_fs)" by (simp add: a sample_geometry_def)
  show "\<forall>b. fs_map_start sample_fs \<le> b \<longrightarrow> b < s_blocks_count (fs_super sample_fs) \<longrightarrow>
      b \<in> g_valid sample_geometry"
    by (simp add: sample_fs_def sample_geometry_def)
  show "\<forall>r\<in>set [sample_relocation]. listed sample_lib sample_geometry (im_view (fs_lib sample_fs)) r"
    by (simp add: v listed_def sample_relocation_def sample_defs image_lib_def tree_size_def)
  show "estimates (addr_per_block sample_fs) [sample_relocation] = Some 14" by code_simp
qed simp


section \<open>Properties\<close>

lemma phase_estimate: "phase_ready lib view g fs rs est \<Longrightarrow> 0 \<le> est \<and> est < 2 ^ 32"
  using estimates_cover [of "addr_per_block fs" rs est] by (simp add: phase_ready_def listed_def)

lemma unat_estimate: "0 \<le> est \<Longrightarrow> est < 2 ^ 32 \<Longrightarrow> unat (word_of_int est :: u32) = nat est"
  by (simp add: unat_eq_nat_uint uint_word_of_int_eq take_bit_int_eq_self)

text \<open>
  C1: moving the listed blocks is correct on a device that does not fail. For every consistent file
  system and every list of ranges with the sum of their estimates, the phase finds no free area
  only if there is no run of so many free blocks; otherwise it ends without error, every listed
  block under the direct, indirect and doubly indirect slots is afterwards in one contiguous area
  that was free (or is a hole), no block was written behind the area, every file has the contents
  it had, and the file system is consistent.
\<close>

theorem move_listed_blocks_correct:
  assumes "reliable_library lib view g" and "phase_ready lib view g fs rs est"
  shows "case move_listed_blocks lib fs rs est of
      None \<Rightarrow> 0 < est \<longrightarrow> unat (s_free_blocks_count (fs_super fs)) < nat est
        \<or> (\<forall>a. \<not> free_run lib fs a (nat est))
    | Some (out, t, fs') \<Rightarrow> out = Done () \<and> (\<exists>A. unat (br_blocks_count A) = nat est
        \<and> (0 < est \<longrightarrow> free_run lib fs (unat (br_start_block A)) (nat est))
        \<and> moved g A (view (fs_lib fs)) (view (fs_lib fs'))
        \<and> (\<forall>r\<in>set rs. relocated (g_addr g) A (view (fs_lib fs')) r)
        \<and> unat t \<le> unat (br_start_block A) + nat est
        \<and> consistent g (view (fs_lib fs')))"
proof (cases "find_contiguous_free_space lib fs (word_of_int est)")
  case None
  have est: "0 \<le> est" "est < 2 ^ 32" using phase_estimate [OF assms(2)] by blast+
  show ?thesis
    using None find_contiguous_spec [where n = "word_of_int est" and lib = lib and fs = fs]
      unat_estimate [OF est]
    by (auto simp: move_listed_blocks_def word_less_nat_alt)
next
  case (Some b)
  let ?A = "\<lparr>br_start_block = b, br_blocks_count = word_of_int est\<rparr>"
  have lib: "ext2_library lib view g" by (rule reliable_library.axioms(1) [OF assms(1)])
  have est: "0 \<le> est" "est < 2 ^ 32" using phase_estimate [OF assms(2)] by blast+
  obtain t fs' where run: "relocate_list lib fs rs b ?A = (Done (), t, fs')"
    using reliable_library.phase_succeeds [OF assms Some refl] by blast
  have free: "0 < est \<longrightarrow> free_run lib fs (unat b) (nat est)"
    using Some find_contiguous_spec [where n = "word_of_int est" and lib = lib and fs = fs]
      unat_estimate [OF est] by (auto simp: word_less_nat_alt)
  show ?thesis
    using ext2_library.phase_safe [OF lib assms(2) Some refl run] unat_estimate [OF est] free Some run
    by (auto simp: move_listed_blocks_def intro!: exI [of _ ?A])
qed

theorem move_listed_blocks_correct_witness:
  "case move_listed_blocks sample_lib sample_fs [sample_relocation] 14 of
      None \<Rightarrow> False
    | Some (out, t, fs') \<Rightarrow> out = Done () \<and> (\<exists>A. unat (br_blocks_count A) = 14
        \<and> moved sample_geometry A sample_view (im_view (fs_lib fs'))
        \<and> relocated 256 A (im_view (fs_lib fs')) sample_relocation
        \<and> consistent sample_geometry (im_view (fs_lib fs')))"
  using move_listed_blocks_correct [OF healthy.reliable_library_axioms sample_ready]
  by (auto simp: move_listed_blocks_def sample_search sample_fs_def [THEN arg_cong, of fs_lib]
      sample_geometry_def [THEN arg_cong, of g_addr] split: prod.splits)

text \<open>
  C4: when the device or memory may fail at any call, the phase may stop early, but whenever it
  reports success the same holds: all listed blocks are in the area, no file changed, the file
  system is consistent.
\<close>

theorem move_listed_blocks_safe:
  assumes "ext2_library lib view g" and "phase_ready lib view g fs rs est"
    and "move_listed_blocks lib fs rs est = Some (Done (), t, fs')"
  shows "\<exists>A. unat (br_blocks_count A) = nat est
    \<and> moved g A (view (fs_lib fs)) (view (fs_lib fs'))
    \<and> (\<forall>r\<in>set rs. relocated (g_addr g) A (view (fs_lib fs')) r)
    \<and> consistent g (view (fs_lib fs'))"
proof -
  obtain b where b: "find_contiguous_free_space lib fs (word_of_int est) = Some b"
    using assms(3) by (auto simp: move_listed_blocks_def split: option.splits)
  let ?A = "\<lparr>br_start_block = b, br_blocks_count = word_of_int est\<rparr>"
  have run: "relocate_list lib fs rs b ?A = (Done (), t, fs')"
    using assms(3) b by (simp add: move_listed_blocks_def)
  have est: "0 \<le> est" "est < 2 ^ 32" using phase_estimate [OF assms(2)] by blast+
  show ?thesis
    using ext2_library.phase_safe [OF assms(1,2) b refl run] unat_estimate [OF est]
    by (intro exI [of _ ?A]) auto
qed

theorem move_listed_blocks_safe_witness:
  "\<exists>t fs' A. move_listed_blocks sample_lib sample_fs [sample_relocation] 14 = Some (Done (), t, fs')
    \<and> moved sample_geometry A sample_view (im_view (fs_lib fs'))
    \<and> consistent sample_geometry (im_view (fs_lib fs'))"
proof -
  obtain t fs' where run:
    "move_listed_blocks sample_lib sample_fs [sample_relocation] 14 = Some (Done (), t, fs')"
    using healthy.phase_succeeds [OF sample_ready, of 50 "\<lparr>br_start_block = 50, br_blocks_count = 14\<rparr>"]
    by (auto simp: move_listed_blocks_def sample_search)
  have "im_view (fs_lib sample_fs) = sample_view" by (simp add: sample_fs_def)
  then show ?thesis
    using move_listed_blocks_safe [OF image.ext2_library_axioms sample_ready run] run by auto
qed

text \<open>
  C20: the search for free space returns the first run of the wanted length in the blocks that the
  bitmap covers, or fails when there is none or the super block counts fewer free blocks.
\<close>

theorem find_contiguous_free_space_first_fit:
  assumes "0 < n"
  shows "case find_contiguous_free_space lib fs n of
      None \<Rightarrow> s_free_blocks_count (fs_super fs) < n \<or> (\<forall>a. \<not> free_run lib fs a (unat n))
    | Some b \<Rightarrow> free_run lib fs (unat b) (unat n)
        \<and> (\<forall>a<unat b. \<not> free_run lib fs a (unat n))"
  by (rule find_contiguous_spec [OF assms])

theorem find_contiguous_free_space_first_fit_witness:
  "free_run sample_lib sample_fs 50 14"
  using find_contiguous_free_space_first_fit [of 14 sample_fs sample_lib] by (simp add: sample_search)

lemma wrapped_sum_le:
  fixes a b c :: u32
  assumes "a + b \<le> c"
  shows "unat a + unat b \<le> unat c \<or> 2 ^ 32 \<le> unat a + unat b \<and> unat a + unat b - 2 ^ 32 \<le> unat c"
proof -
  have "(unat a + unat b) mod 2 ^ 32 \<le> unat c"
    using assms by (simp add: word_le_nat_alt unat_word_ariths)
  moreover have "unat a < 2 ^ 32" "unat b < 2 ^ 32" using unsigned_less [of a] unsigned_less [of b] by simp_all
  then have "(unat a + unat b) mod 2 ^ 32
      = (if unat a + unat b < 2 ^ 32 then unat a + unat b else unat a + unat b - 2 ^ 32)"
    by (simp add: mod_if)
  ultimately show ?thesis by (simp split: if_splits)
qed

text \<open>
  C21: the layout list is read without touching the file system, and every relocation in the table
  is for an inode that is not reserved and starts inside the file. It also ends inside the file,
  unless offset and length add up to \<open>2 ^ 32\<close> or more: then only the wrapped sum is checked, and only
  it is below the size of the file. The table has at most 20000 entries, and the size that is
  searched for is the sum of the estimates of exactly these entries.
\<close>

theorem process_layout_list_correct:
  assumes "ext2_library lib view g"
    and "process_layout_list lib fs page_size content = (res, fs')"
  shows "view (fs_lib fs') = view (fs_lib fs) \<and> fs' = fs\<lparr>fs_lib := fs_lib fs'\<rparr>
    \<and> (\<forall>rs est. res = Done (rs, est) \<longrightarrow> estimates (addr_per_block fs) rs = Some est
        \<and> length rs \<le> 20000
        \<and> (\<forall>r\<in>set rs. s_first_ino (fs_super fs) \<le> rl_inode_number r
            \<and> (let size = unat (file_size_in_blocks fs (v_inode (view (fs_lib fs)) (rl_inode_number r)));
                   stop = unat (rl_block_offset r) + unat (rl_blocks_count r)
               in unat (rl_block_offset r) < size
                 \<and> (stop \<le> size \<or> 2 ^ 32 \<le> stop \<and> stop - 2 ^ 32 \<le> size))))"
proof (intro conjI allI impI ballI)
  note ok = ext2_library.process_layout_list_ok [OF assms]
  show "view (fs_lib fs') = view (fs_lib fs)" "fs' = fs\<lparr>fs_lib := fs_lib fs'\<rparr>"
    using ok by blast+
  fix rs est assume "res = Done (rs, est)"
  then have l: "list_ok fs (view (fs_lib fs)) rs est" using ok by simp
  then show "estimates (addr_per_block fs) rs = Some est" "length rs \<le> 20000"
    by (simp_all add: list_ok_def MEMORY_FOR_RELOCATIONS_def)
  fix r assume "r \<in> set rs"
  then have "in_file fs (view (fs_lib fs)) r" using l by (simp add: list_ok_def)
  then show "s_first_ino (fs_super fs) \<le> rl_inode_number r"
    and "let size = unat (file_size_in_blocks fs (v_inode (view (fs_lib fs)) (rl_inode_number r)));
             stop = unat (rl_block_offset r) + unat (rl_blocks_count r)
         in unat (rl_block_offset r) < size \<and> (stop \<le> size \<or> 2 ^ 32 \<le> stop \<and> stop - 2 ^ 32 \<le> size)"
    using wrapped_sum_le by (auto simp: in_file_def Let_def word_less_nat_alt)
qed

text \<open>The line \<open>/a 0 3\<close>.\<close>

theorem process_layout_list_correct_witness:
  "(\<exists>fs'. process_layout_list sample_lib sample_fs 4096 (Some [47, 97, 32, 48, 32, 51, 10])
      = (Done ([\<lparr>rl_inode_number = 12, rl_block_offset = 0, rl_blocks_count = 12\<rparr>], 12), fs'))
   \<and> estimates (addr_per_block sample_fs)
       [\<lparr>rl_inode_number = 12, rl_block_offset = 0, rl_blocks_count = 12\<rparr>] = Some 12"
proof -
  define r where "r = process_layout_list sample_lib sample_fs 4096 (Some [47, 97, 32, 48, 32, 51, 10])"
  have f: "fst r = Done ([\<lparr>rl_inode_number = 12, rl_block_offset = 0, rl_blocks_count = 12\<rparr>], 12)"
    unfolding r_def by code_simp
  have "r = (fst r, snd r)" by simp
  then show ?thesis
    using process_layout_list_correct [OF image.ext2_library_axioms, of _ _ sample_fs 4096 _ "fst r" "snd r"]
      f unfolding r_def by (metis prod.collapse)
qed

text \<open>
  C22: a raw block is moved only if the source is marked used and the target free. Then its contents
  are in the target, the bitmap and the free block counts of the two groups (16-bit, modulo) are
  updated, no other block, bit or inode changes, and no buffer is left allocated.
\<close>

theorem relocate_raw_block_effect:
  assumes "ext2_library lib view g" and "g_data g \<subseteq> g_valid g"
    and "s \<in> g_data g" and "t \<in> g_data g"
    and "relocate_raw_block lib fs s t = (True, fs')"
  shows "v_used (view (fs_lib fs)) s \<and> \<not> v_used (view (fs_lib fs)) t
    \<and> view (fs_lib fs') = (view (fs_lib fs))
        \<lparr>v_blk := (v_blk (view (fs_lib fs)))(t := v_blk (view (fs_lib fs)) s),
         v_used := (v_used (view (fs_lib fs)))(t := True, s := False)\<rparr>
    \<and> (\<forall>k. k < length (fs_group_free fs) \<longrightarrow>
        fs_group_free fs' ! k = fs_group_free fs ! k
          + (if k = x_group_of_blk lib s then 1 else 0) - (if k = x_group_of_blk lib t then 1 else 0))
    \<and> fs_buffers fs' = fs_buffers fs"
proof -
  have v: "s \<in> g_valid g" "t \<in> g_valid g" using assms(2-4) by auto
  note tb = ext2_library.test_bitmap [OF assms(1)]
  have bits: "x_test_block_bitmap lib s (fs_lib fs)" "\<not> x_test_block_bitmap lib t (fs_lib fs)"
    using assms(5) by (auto simp: relocate_raw_block_def split: if_splits)
  have gd: "fs_group_free fs' = (let sg = x_group_of_blk lib s; tg = x_group_of_blk lib t;
      gd = (fs_group_free fs)[sg := fs_group_free fs ! sg + 1] in gd[tg := gd ! tg - 1])"
    using assms(5)
    by (auto simp: relocate_raw_block_def Let_def free_block_buffer_def get_block_buffer_def
        split: if_splits prod.splits bool.splits option.splits)
  show ?thesis
    using bits tb v ext2_library.raw_moves [OF assms(1,5,3,4,2)]
    by (auto simp: gd Let_def nth_list_update same_fs_def)
qed

theorem relocate_raw_block_effect_witness:
  "\<exists>fs'. relocate_raw_block sample_lib sample_fs 100 50 = (True, fs')
    \<and> v_blk (im_view (fs_lib fs')) 50 = [100] \<and> \<not> v_used (im_view (fs_lib fs')) 100"
proof -
  have "\<exists>fs'. relocate_raw_block sample_lib sample_fs 100 50 = (True, fs')"
    by (rule healthy.raw_succeeds [where g = sample_geometry])
      (auto simp: sample_fs_def sample_defs)
  then obtain fs' where r: "relocate_raw_block sample_lib sample_fs 100 50 = (True, fs')" by blast
  show ?thesis
    using relocate_raw_block_effect [OF image.ext2_library_axioms [of _ _ sample_geometry] _ _ _ r] r
    by (auto simp: sample_fs_def sample_defs)
qed

text \<open>
  A buffer is lost when the device fails: if the source block cannot be read, or the target not
  written, \<open>relocate_raw_block\<close> reports failure without freeing its buffer.
\<close>

theorem relocate_raw_block_leaks_buffer:
  assumes "x_test_block_bitmap lib s (fs_lib fs)" and "\<not> x_test_block_bitmap lib t (fs_lib fs)"
    and "x_malloc lib (fs_blocksize fs) (fs_lib fs) = (True, l)"
    and "fst (x_read_blk lib s l) = None
      \<or> (\<exists>d l'. x_read_blk lib s l = (Some d, l') \<and> \<not> fst (x_write_blk lib t d l'))"
  shows "\<exists>fs'. relocate_raw_block lib fs s t = (False, fs') \<and> fs_buffers fs' = fs_buffers fs + 1"
  using assms
  by (cases "x_read_blk lib s l")
    (auto simp: relocate_raw_block_def get_block_buffer_def split: option.splits prod.splits bool.splits)

theorem relocate_raw_block_leaks_buffer_witness:
  "\<exists>fs'. relocate_raw_block (image_lib (\<lambda>n. n = 0) sample_op) sample_fs 100 50 = (False, fs')
    \<and> fs_buffers fs' = 1"
  using relocate_raw_block_leaks_buffer [of "image_lib (\<lambda>n. n = 0) sample_op" 100 sample_fs 50
      "\<lparr>im_view = sample_view, im_calls = 1\<rparr>"]
  by (auto simp: sample_fs_def sample_defs image_defs)

text \<open>
  C34: \<open>main\<close> writes nothing before it has an area: when it ends with status 5 (layout list) or 4
  (no free area), the file system is the one that was opened.
\<close>

theorem e2moveblocks_early_exit:
  assumes "ext2_library lib view g"
    and "e2moveblocks_main lib page_size files args = (Some c, Some fs')" and "c = 5 \<or> c = 4"
  shows "\<exists>force device layout fs. parse_arguments args = Some (force, device, layout)
    \<and> open_filesystem lib device force = Some fs \<and> view (fs_lib fs') = view (fs_lib fs)"
proof -
  obtain force device layout where a: "parse_arguments args = Some (force, device, layout)"
    using assms(2) by (cases "parse_arguments args") (auto simp: e2moveblocks_main_def)
  obtain fs where o: "open_filesystem lib device force = Some fs"
    using assms(2) a by (cases "open_filesystem lib device force") (auto simp: e2moveblocks_main_def)
  obtain res fs1 where p: "process_layout_list lib fs page_size (files layout) = (res, fs1)"
    by fastforce
  have "view (fs_lib fs1) = view (fs_lib fs)"
    using ext2_library.process_layout_list_ok [OF assms(1) p] by blast
  moreover have "fs' = fs1"
    using assms(2,3) a o p
    by (auto simp: e2moveblocks_main_def split: if_splits outcome.splits option.splits prod.splits)
  ultimately show ?thesis using a o by simp
qed

theorem e2moveblocks_early_exit_witness:
  "\<exists>fs'. e2moveblocks_main sample_lib 4096 (\<lambda>_. None) [''/dev/sda'', ''layout''] = (Some 5, Some fs')
    \<and> (\<exists>fs. open_filesystem sample_lib ''/dev/sda'' False = Some fs
        \<and> im_view (fs_lib fs') = im_view (fs_lib fs))"
proof -
  define r where "r = e2moveblocks_main sample_lib 4096 (\<lambda>_. None) [''/dev/sda'', ''layout'']"
  have f: "fst r = Some 5" "snd r \<noteq> None" unfolding r_def by code_simp+
  then obtain fs' where r: "r = (Some 5, Some fs')" by (cases r) auto
  have a: "parse_arguments [''/dev/sda'', ''layout''] = Some (False, ''/dev/sda'', ''layout'')"
    by (simp add: parse_arguments_def)
  show ?thesis
    using e2moveblocks_early_exit [OF image.ext2_library_axioms r [unfolded r_def]] a r
    unfolding r_def by auto
qed

text \<open>
  An example of a failure that is not rolled back: when the new copy of an indirect block cannot be
  read back, \<open>relocate_block\<close> returns 0 with the inode still pointing to the old indirect block, which
  the bitmap of the handle gives as free, and the new one in no tree.
\<close>

lemma relocate_block_failure_dangling:
  "case relocate_block (image_lib (\<lambda>n. n < 5) sample_op) sample_fs 12 12 50
      \<lparr>br_start_block = 50, br_blocks_count = 14\<rparr> of (out, t, fs') \<Rightarrow>
    out = Failed \<and> t = 51
    \<and> i_block (v_inode (im_view (fs_lib fs')) 12) ! 12 = 200
    \<and> \<not> v_used (im_view (fs_lib fs')) 200 \<and> v_used (im_view (fs_lib fs')) 50"
  by (simp add: relocate_block_def relocate_block_pointers_def relocate_block_1indirect_def
      relocate_block_in_inode_def relocate_block_in_indirect_block_def relocate_raw_block_def
      get_block_buffer_def free_block_buffer_def image_defs sample_fs_def sample_view_def
      sample_inode_def is_direct_block_def is_1indirect_block_def addr_per_block_def
      EXT2_NDIR_BLOCKS_def EXT2_IND_BLOCK_def in_range_def Let_def)

end
