(* ===== verification/E2blockmap.thy ===== *)
theory E2blockmap
  imports E2moveblocks Print_Trace
begin

text \<open>
  The tool \<open>e2blockmap\<close> (\<open>e2blockmap.cpp\<close>): it prints where the blocks of a file lie.
  The library's \<open>ext2fs_block_iterate2\<close>, which calls the program's function for one block after
  the other, is the parameter \<open>iterate\<close>, and the locale \<open>block_iterator\<close> says what it is
  relied on to do. Messages to the standard error output are left out.
\<close>

section \<open>Blocks as the library presents them\<close>

record visit =
  vi_blocknr :: u32
  vi_blockcnt :: int
  vi_ref_blk :: u32
  vi_ref_offset :: int

definition BLOCK_ABORT :: int where "BLOCK_ABORT = 2"
definition BLOCK_COUNT_IND :: int where "BLOCK_COUNT_IND = -1"
definition BLOCK_COUNT_DIND :: int where "BLOCK_COUNT_DIND = -2"
definition BLOCK_COUNT_TIND :: int where "BLOCK_COUNT_TIND = -3"
definition BLOCK_COUNT_TRANSLATOR :: int where "BLOCK_COUNT_TRANSLATOR = -4"

definition block_type_string :: "int \<Rightarrow> string" where
  "block_type_string b =
     (if b = BLOCK_COUNT_IND then ''IND''
      else if b = BLOCK_COUNT_DIND then ''DIND''
      else if b = BLOCK_COUNT_TIND then ''TIND''
      else if b = BLOCK_COUNT_TRANSLATOR then ''TIND''
      else ''Unknown'')"

definition is_metadata_block :: "int \<Rightarrow> bool" where
  "is_metadata_block b = (if b < 0 then True else False)"

section \<open>Lines\<close>

text \<open>\<open>%d\<close> and \<open>%lld\<close>; an unsigned argument of \<open>%d\<close> is printed as the signed word.\<close>

definition show_int :: "int \<Rightarrow> string" where
  "show_int i = (if i < 0 then ''-'' @ show_nat (nat (- i)) else show_nat (nat i))"

definition print_indirect_verbose :: "u32 \<Rightarrow> u32 \<Rightarrow> int \<Rightarrow> u32 \<Rightarrow> int \<Rightarrow> string" where
  "print_indirect_verbose blocknr ino blockcnt ref_blk ref_offset =
     ''diskblock='' @ show_word blocknr @ ''  inode='' @ show_word ino
     @ '' type='' @ block_type_string blockcnt @ ''-indirect_number='' @ show_int (- blockcnt)
     @ '' ref_blk='' @ show_word ref_blk @ '' ref_offset='' @ show_int ref_offset @ NL"

definition print_block_verbose :: "u32 \<Rightarrow> u32 \<Rightarrow> int \<Rightarrow> u32 \<Rightarrow> int \<Rightarrow> string" where
  "print_block_verbose blocknr ino blockcnt ref_blk ref_offset =
     ''inode='' @ show_int (sint ino) @ '' blocknumber='' @ show_word (word_of_int blockcnt :: u64)
     @ '' diskblock='' @ show_word blocknr @ '' ref_blk='' @ show_word ref_blk
     @ '' ref_offset='' @ show_int ref_offset @ NL"

definition print_indirect :: "u32 \<Rightarrow> u32 \<Rightarrow> int \<Rightarrow> u32 \<Rightarrow> int \<Rightarrow> string" where
  "print_indirect blocknr ino blockcnt ref_blk ref_offset =
     show_word blocknr @ '' '' @ show_word ino @ '' '' @ block_type_string blockcnt @ ''-''
     @ show_int (- blockcnt) @ '' '' @ show_word ref_blk @ '' '' @ show_int ref_offset @ NL"

definition print_block :: "u32 \<Rightarrow> u32 \<Rightarrow> int \<Rightarrow> u32 \<Rightarrow> int \<Rightarrow> string" where
  "print_block blocknr ino blockcnt ref_blk ref_offset =
     show_word blocknr @ '' '' @ show_int (sint ino) @ '' '' @ show_int blockcnt @ NL"

section \<open>The call-back\<close>

text \<open>
  The parameters, with the two function pointers (always set together) as \<open>pp_verbose\<close>; what the
  call-back has printed so far is kept beside them.
\<close>

record print_params_t =
  pp_inode_number :: u32
  pp_start_offset :: int
  pp_length :: int
  pp_print_holes :: bool
  pp_print_indirect :: bool
  pp_verbose :: bool
  pp_in_printing_range :: bool

definition print_indirect_fun :: "print_params_t \<Rightarrow> visit \<Rightarrow> string" where
  "print_indirect_fun p v =
     (if pp_verbose p then print_indirect_verbose else print_indirect)
       (vi_blocknr v) (pp_inode_number p) (vi_blockcnt v) (vi_ref_blk v) (vi_ref_offset v)"

definition print_block_fun :: "print_params_t \<Rightarrow> visit \<Rightarrow> string" where
  "print_block_fun p v =
     (if pp_verbose p then print_block_verbose else print_block)
       (vi_blocknr v) (pp_inode_number p) (vi_blockcnt v) (vi_ref_blk v) (vi_ref_offset v)"

definition print_file_blocks ::
  "visit \<Rightarrow> print_params_t \<times> string \<Rightarrow> int \<times> print_params_t \<times> string" where
  "print_file_blocks v st =
     (case st of (params, out) \<Rightarrow>
        if is_metadata_block (vi_blockcnt v) then
          (if pp_print_indirect params \<and> pp_in_printing_range params
           then (0, params, out @ print_indirect_fun params v)
           else (0, params, out))
        else
          (let params = params\<lparr>pp_in_printing_range := False\<rparr> in
           if pp_start_offset params \<ge> 0 \<and> vi_blockcnt v < pp_start_offset params
           then (0, params, out)
           else if pp_length params \<ge> 0
             \<and> vi_blockcnt v \<ge> pp_start_offset params + pp_length params
           then (BLOCK_ABORT, params, out)
           else
             (let params = params\<lparr>pp_in_printing_range := True\<rparr>
              in (0, params, out @ print_block_fun params v))))"

text \<open>Calls until one returns \<open>BLOCK_ABORT\<close>.\<close>

fun run_visits :: "(visit \<Rightarrow> 's \<Rightarrow> int \<times> 's) \<Rightarrow> visit list \<Rightarrow> 's \<Rightarrow> 's" where
  "run_visits f [] st = st"
| "run_visits f (v # vs) st =
     (case f v st of (r, st) \<Rightarrow> if r = BLOCK_ABORT then st else run_visits f vs st)"

section \<open>The tool\<close>

text \<open>
  \<open>iterate ino holes data_only f st\<close>: whether the traversal succeeded, and the state of the
  call-back.
\<close>

type_synonym iterator =
  "u32 \<Rightarrow> bool \<Rightarrow> bool \<Rightarrow> (visit \<Rightarrow> print_params_t \<times> string \<Rightarrow> int \<times> print_params_t \<times> string)
    \<Rightarrow> print_params_t \<times> string \<Rightarrow> bool \<times> print_params_t \<times> string"

text \<open>
  The first byte of an empty name is its terminating zero, which is neither a slash nor a digit.
\<close>

definition first_char :: "byte list \<Rightarrow> byte" where
  "first_char s = (case s of [] \<Rightarrow> 0 | c # _ \<Rightarrow> c)"

definition show_file_blockmap ::
  "'l ext2fs \<Rightarrow> iterator \<Rightarrow> 'l \<Rightarrow> byte list \<Rightarrow> print_params_t \<Rightarrow> bool \<times> string" where
  "show_file_blockmap lib iterate l file_name print_params =
     (case (if first_char file_name = 47 then fst (x_namei_follow lib file_name l)
            else if first_char file_name \<ge> 48 \<and> first_char file_name \<le> 57
            then Some (word_of_int (atol file_name)) else None) of
        None \<Rightarrow> (False, [])
      | Some inode_number \<Rightarrow>
          (let print_params = print_params\<lparr>pp_inode_number := inode_number\<rparr> in
           (case iterate inode_number (pp_print_holes print_params)
                   (\<not> pp_print_indirect print_params) print_file_blocks (print_params, []) of
              (ok, _, out) \<Rightarrow> (ok, out))))"

fun parse_print_params :: "string list \<Rightarrow> print_params_t \<Rightarrow> print_params_t option" where
  "parse_print_params [] p = Some p"
| "parse_print_params (param # ps) p =
     (if param = ''verbose'' then parse_print_params ps (p\<lparr>pp_verbose := True\<rparr>)
      else if param = ''indirect'' then parse_print_params ps (p\<lparr>pp_print_indirect := True\<rparr>)
      else if param = ''holes'' then parse_print_params ps (p\<lparr>pp_print_holes := True\<rparr>)
      else None)"

text \<open>The tokens of a string between commas and blanks.\<close>

fun split_params :: "string \<Rightarrow> string \<Rightarrow> string list" where
  "split_params [] acc = (if acc = [] then [] else [acc])"
| "split_params (c # cs) acc =
     (if c = CHR '','' \<or> c = CHR '' '' then (if acc = [] then split_params cs [] else acc # split_params cs [])
      else split_params cs (acc @ [c]))"

definition bytes_of :: "string \<Rightarrow> byte list" where
  "bytes_of s = map of_char s"

text \<open>
  \<open>open_filesystem\<close> has the same steps as in \<open>e2moveblocks\<close>, but opens read-only (which is
  \<open>x_open\<close> of the library given here) and is never forced.
\<close>

definition blockmap_open_filesystem :: "'l ext2fs \<Rightarrow> string \<Rightarrow> 'l filesystem_info option" where
  "blockmap_open_filesystem lib file_name =
     (case x_check_if_mounted lib file_name of
        None \<Rightarrow> None
      | Some (mounted, busy) \<Rightarrow>
          if mounted then None
          else if busy then None
          else
            (case x_open lib file_name of
               None \<Rightarrow> None
             | Some fs \<Rightarrow>
                 (let sb = fs_super fs; (compat, incompat, ro_compat) = x_supported lib in
                  if s_feature_compat sb AND NOT compat \<noteq> 0 then None
                  else if s_feature_incompat sb AND NOT incompat \<noteq> 0 then None
                  else if s_feature_ro_compat sb AND NOT ro_compat \<noteq> 0 then None
                  else
                    (case x_read_bitmaps lib (fs_lib fs) of
                       (False, l) \<Rightarrow> None
                     | (True, l) \<Rightarrow> Some (fs\<lparr>fs_lib := l\<rparr>)))))"

definition e2blockmap_main :: "'l ext2fs \<Rightarrow> iterator \<Rightarrow> string list \<Rightarrow> int \<times> string" where
  "e2blockmap_main lib iterate args =
     (if length args \<noteq> 6 then (1, [])
      else if args ! 0 \<noteq> ''-p'' then (1, [])
      else
        (case parse_print_params (split_params (args ! 1) [])
            \<lparr>pp_inode_number = 0, pp_start_offset = atol (bytes_of (args ! 4)),
             pp_length = atol (bytes_of (args ! 5)), pp_print_holes = False,
             pp_print_indirect = False, pp_verbose = False, pp_in_printing_range = False\<rparr> of
           None \<Rightarrow> (1, [])
         | Some print_params \<Rightarrow>
             (case blockmap_open_filesystem lib (args ! 2) of
                None \<Rightarrow> (3, [])
              | Some fs \<Rightarrow>
                  (0, snd (show_file_blockmap lib iterate (fs_lib fs) (bytes_of (args ! 3))
                        print_params)))))"

section \<open>What is printed\<close>

definition in_block_range :: "print_params_t \<Rightarrow> visit \<Rightarrow> bool" where
  "in_block_range p v \<longleftrightarrow> pp_start_offset p \<le> vi_blockcnt v
     \<and> (pp_length p < 0 \<or> vi_blockcnt v < pp_start_offset p + pp_length p)"

definition visit_line :: "print_params_t \<Rightarrow> visit \<Rightarrow> string" where
  "visit_line p v = (if vi_blockcnt v < 0 then print_indirect_fun p v else print_block_fun p v)"

definition data_visit :: "visit \<Rightarrow> bool" where
  "data_visit v \<longleftrightarrow> \<not> vi_blockcnt v < 0"

definition increasing :: "visit list \<Rightarrow> bool" where
  "increasing vs \<longleftrightarrow> sorted_wrt (\<lambda>v w. vi_blockcnt v < vi_blockcnt w) (filter data_visit vs)"

lemma visit_line_range [simp]:
  "visit_line (p\<lparr>pp_in_printing_range := b\<rparr>) v = visit_line p v"
  by (simp add: visit_line_def print_indirect_fun_def print_block_fun_def)

lemma in_block_range_range [simp]:
  "in_block_range (p\<lparr>pp_in_printing_range := b\<rparr>) v = in_block_range p v"
  by (simp add: in_block_range_def)

text \<open>
  The printed visits: a part of the visits, all data blocks in the range among them and no other
  data block, and indirect blocks only on demand.
\<close>

lemma run_print:
  assumes "0 \<le> pp_start_offset p" and "increasing vs"
  shows "\<exists>ws. snd (run_visits print_file_blocks vs (p, out)) = out @ concat (map (visit_line p) ws)
    \<and> filter data_visit ws = filter (\<lambda>v. data_visit v \<and> in_block_range p v) vs
    \<and> (\<not> pp_print_indirect p \<longrightarrow> filter data_visit ws = ws) \<and> set ws \<subseteq> set vs"
  using assms
proof (induction vs arbitrary: p out)
  case Nil
  then show ?case by (intro exI [of _ "[]"]) simp
next
  case (Cons v vs)
  have inc: "increasing vs" using Cons.prems(2) by (auto simp: increasing_def split: if_splits)
  show ?case
  proof (cases "data_visit v")
    case False
    then have m: "is_metadata_block (vi_blockcnt v)" "vi_blockcnt v < 0"
      by (simp_all add: data_visit_def is_metadata_block_def)
    let ?b = "pp_print_indirect p \<and> pp_in_printing_range p"
    obtain ws where ws: "snd (run_visits print_file_blocks vs (p, if ?b then out @ visit_line p v else out))
        = (if ?b then out @ visit_line p v else out) @ concat (map (visit_line p) ws)"
      "filter data_visit ws = filter (\<lambda>v. data_visit v \<and> in_block_range p v) vs"
      "\<not> pp_print_indirect p \<longrightarrow> filter data_visit ws = ws" "set ws \<subseteq> set vs"
      using Cons.IH [OF Cons.prems(1) inc] by blast
    have r: "print_file_blocks v (p, out) = (0, p, if ?b then out @ visit_line p v else out)"
      using m by (simp add: print_file_blocks_def visit_line_def)
    show ?thesis
      using ws False
      by (intro exI [of _ "if ?b then v # ws else ws"]) (auto simp: r BLOCK_ABORT_def)
  next
    case True
    then have m: "\<not> is_metadata_block (vi_blockcnt v)" "\<not> vi_blockcnt v < 0"
      by (simp_all add: data_visit_def is_metadata_block_def)
    have later: "\<forall>w\<in>set vs. data_visit w \<longrightarrow> vi_blockcnt v < vi_blockcnt w"
      using Cons.prems(2) True by (auto simp: increasing_def)
    consider (before) "vi_blockcnt v < pp_start_offset p"
      | (behind) "\<not> vi_blockcnt v < pp_start_offset p" "0 \<le> pp_length p"
        "pp_start_offset p + pp_length p \<le> vi_blockcnt v"
      | (inside) "in_block_range p v" unfolding in_block_range_def by linarith
    then show ?thesis
    proof cases
      case before
      let ?p = "p\<lparr>pp_in_printing_range := False\<rparr>"
      obtain ws where ws: "snd (run_visits print_file_blocks vs (?p, out))
          = out @ concat (map (visit_line ?p) ws)"
        "filter data_visit ws = filter (\<lambda>v. data_visit v \<and> in_block_range ?p v) vs"
        "\<not> pp_print_indirect ?p \<longrightarrow> filter data_visit ws = ws" "set ws \<subseteq> set vs"
        using Cons.IH [of ?p] Cons.prems(1) inc by fastforce
      have "visit_line ?p = visit_line p" by (rule ext) simp
      moreover have "print_file_blocks v (p, out) = (0, ?p, out)"
        using before m Cons.prems(1) by (simp add: print_file_blocks_def Let_def)
      moreover have "\<not> in_block_range p v" using before by (simp add: in_block_range_def)
      ultimately show ?thesis using ws by (intro exI [of _ ws]) (auto simp: BLOCK_ABORT_def)
    next
      case behind
      have "filter (\<lambda>v. data_visit v \<and> in_block_range p v) (v # vs) = []"
        using behind later by (auto simp: filter_empty_conv in_block_range_def)
      then show ?thesis
        using behind m
        by (intro exI [of _ "[]"]) (simp add: print_file_blocks_def BLOCK_ABORT_def Let_def)
    next
      case inside
      let ?p = "p\<lparr>pp_in_printing_range := True\<rparr>"
      obtain ws where ws: "snd (run_visits print_file_blocks vs (?p, out @ visit_line p v))
          = (out @ visit_line p v) @ concat (map (visit_line ?p) ws)"
        "filter data_visit ws = filter (\<lambda>v. data_visit v \<and> in_block_range ?p v) vs"
        "\<not> pp_print_indirect ?p \<longrightarrow> filter data_visit ws = ws" "set ws \<subseteq> set vs"
        using Cons.IH [of ?p] Cons.prems(1) inc by fastforce
      have e: "visit_line ?p = visit_line p" by (rule ext) simp
      have l: "print_block_fun ?p v = visit_line p v"
        using m(2) by (simp add: visit_line_def print_block_fun_def)
      have r: "print_file_blocks v (p, out) = (0, ?p, out @ visit_line p v)"
        using inside m l by (auto simp: print_file_blocks_def Let_def in_block_range_def)
      show ?thesis
        using ws e True inside
        by (intro exI [of _ "v # ws"]) (auto simp: r BLOCK_ABORT_def)
    qed
  qed
qed

text \<open>The inode that the user asked for: by a path, or by its number.\<close>

definition requested_inode :: "'l ext2fs \<Rightarrow> 'l \<Rightarrow> byte list \<Rightarrow> u32 option" where
  "requested_inode lib l name =
     (case name of
        [] \<Rightarrow> None
      | c # _ \<Rightarrow> if c = 47 then fst (x_namei_follow lib name l)
          else if c \<in> {48..57} then Some (word_of_int (atol name)) else None)"

lemma show_requested:
  "show_file_blockmap lib iterate l name p =
     (case requested_inode lib l name of
        None \<Rightarrow> (False, [])
      | Some ino \<Rightarrow>
          (let res = iterate ino (pp_print_holes p) (\<not> pp_print_indirect p) print_file_blocks
             (p\<lparr>pp_inode_number := ino\<rparr>, [])
           in (fst res, snd (snd res))))"
  by (cases name)
    (auto simp: show_file_blockmap_def requested_inode_def first_char_def Let_def split_def split: option.split)

section \<open>The iterator\<close>

text \<open>
  What the library promises: a traversal that succeeds has called the function on the blocks of
  the inode, data blocks in the order of the file, until it asked to stop.
\<close>

locale block_iterator =
  fixes iterate :: iterator and visits :: "u32 \<Rightarrow> bool \<Rightarrow> bool \<Rightarrow> visit list"
  assumes iterate_visits: "iterate ino holes data_only f st = (True, st') \<Longrightarrow>
      st' = run_visits f (visits ino holes data_only) st"
  and visits_increasing: "increasing (visits ino holes data_only)"
  and visits_data_only: "data_only \<Longrightarrow> filter data_visit (visits ino holes data_only) = visits ino holes data_only"
begin

lemma blockmap_lines:
  assumes "requested_inode lib l name = Some ino"
    and "show_file_blockmap lib iterate l name p = (True, out)" and "0 \<le> pp_start_offset p"
  shows "\<exists>ws. out = concat (map (visit_line (p\<lparr>pp_inode_number := ino\<rparr>)) ws)
    \<and> set ws \<subseteq> set (visits ino (pp_print_holes p) (\<not> pp_print_indirect p))
    \<and> filter data_visit ws = filter (\<lambda>v. data_visit v \<and> in_block_range p v)
        (visits ino (pp_print_holes p) (\<not> pp_print_indirect p))
    \<and> (\<not> pp_print_indirect p \<longrightarrow> filter data_visit ws = ws)"
proof -
  define res where "res = iterate ino (pp_print_holes p) (\<not> pp_print_indirect p)
      print_file_blocks (p\<lparr>pp_inode_number := ino\<rparr>, [])"
  have "show_file_blockmap lib iterate l name p = (fst res, snd (snd res))"
    using show_requested [of lib iterate l name p] assms(1) by (simp add: res_def Let_def)
  then have it: "fst (iterate ino (pp_print_holes p) (\<not> pp_print_indirect p)
      print_file_blocks (p\<lparr>pp_inode_number := ino\<rparr>, []))"
    and out: "out = snd (snd (iterate ino (pp_print_holes p) (\<not> pp_print_indirect p)
      print_file_blocks (p\<lparr>pp_inode_number := ino\<rparr>, [])))"
    using assms(2) by (simp_all add: res_def)
  let ?p = "p\<lparr>pp_inode_number := ino\<rparr>"
    and ?vs = "visits ino (pp_print_holes p) (\<not> pp_print_indirect p)"
  obtain st where "iterate ino (pp_print_holes p) (\<not> pp_print_indirect p) print_file_blocks (?p, [])
      = (True, st)"
    using it by (cases "iterate ino (pp_print_holes p) (\<not> pp_print_indirect p) print_file_blocks (?p, [])")
      auto
  from this iterate_visits [OF this]
  have "snd (iterate ino (pp_print_holes p) (\<not> pp_print_indirect p) print_file_blocks (?p, []))
      = run_visits print_file_blocks ?vs (?p, [])"
    by (simp only: snd_conv)
  then have o: "out = snd (run_visits print_file_blocks ?vs (?p, []))" using out by simp
  obtain ws where ws: "out = concat (map (visit_line ?p) ws)" "set ws \<subseteq> set ?vs"
    "filter data_visit ws = filter (\<lambda>v. data_visit v \<and> in_block_range ?p v) ?vs"
    "\<not> pp_print_indirect ?p \<longrightarrow> filter data_visit ws = ws"
    using run_print [OF _ visits_increasing, of ?p ino "pp_print_holes p" "\<not> pp_print_indirect p" "[]"]
      assms(3) o by auto
  moreover have "in_block_range ?p = in_block_range p"
    by (rule ext) (simp add: in_block_range_def)
  moreover have "pp_print_indirect ?p = pp_print_indirect p" by simp
  ultimately show ?thesis by (intro exI [of _ ws]) (simp only: simp_thms)
qed

end

text \<open>An iterator over given lists of blocks.\<close>

definition list_iterate :: "(u32 \<Rightarrow> visit list) \<Rightarrow> iterator" where
  "list_iterate blocks ino holes data_only f st =
     (True, run_visits f (if data_only then filter data_visit (blocks ino) else blocks ino) st)"

definition sample_visits :: "u32 \<Rightarrow> visit list" where
  "sample_visits ino =
     (if ino = 12 then
        [\<lparr>vi_blocknr = 100, vi_blockcnt = 0, vi_ref_blk = 0, vi_ref_offset = 0\<rparr>,
         \<lparr>vi_blocknr = 102, vi_blockcnt = 1, vi_ref_blk = 0, vi_ref_offset = 1\<rparr>,
         \<lparr>vi_blocknr = 200, vi_blockcnt = -1, vi_ref_blk = 0, vi_ref_offset = 12\<rparr>,
         \<lparr>vi_blocknr = 300, vi_blockcnt = 12, vi_ref_blk = 200, vi_ref_offset = 0\<rparr>]
      else [])"

interpretation sample_iterator: block_iterator "list_iterate sample_visits"
  "\<lambda>ino holes data_only. if data_only then filter data_visit (sample_visits ino) else sample_visits ino"
  by unfold_locales
    (auto simp: list_iterate_def increasing_def data_visit_def sample_visits_def)

section \<open>Properties\<close>

text \<open>
  C33: for a name that is neither a path that can be looked up nor a number, \<open>show_file_blockmap\<close>
  fails and prints nothing. Otherwise it succeeds exactly when the traversal of the inode of that
  name does, and then the data blocks listed are exactly those of this inode in the requested range,
  in order, each on a line of its own (no line when there is none); without the parameter
  \<open>indirect\<close> nothing else is printed, with it lines for indirect blocks of the inode may be among
  them.
\<close>

theorem show_file_blockmap_range:
  assumes "block_iterator iterate visits" and "0 \<le> pp_start_offset p"
    and "show_file_blockmap lib iterate l name p = (ok, out)"
  shows "case requested_inode lib l name of
      None \<Rightarrow> \<not> ok \<and> out = []
    | Some ino \<Rightarrow>
        (ok \<longleftrightarrow> fst (iterate ino (pp_print_holes p) (\<not> pp_print_indirect p) print_file_blocks
          (p\<lparr>pp_inode_number := ino\<rparr>, [])))
        \<and> (ok \<longrightarrow> (\<exists>ws. out = concat (map (visit_line (p\<lparr>pp_inode_number := ino\<rparr>)) ws)
            \<and> set ws \<subseteq> set (visits ino (pp_print_holes p) (\<not> pp_print_indirect p))
            \<and> filter data_visit ws = filter (\<lambda>v. data_visit v \<and> in_block_range p v)
                (visits ino (pp_print_holes p) (\<not> pp_print_indirect p))
            \<and> (\<not> pp_print_indirect p \<longrightarrow> filter data_visit ws = ws)))"
proof (cases "requested_inode lib l name")
  case None
  then show ?thesis using assms(3) by (simp add: show_requested)
next
  case (Some ino)
  then have "ok \<longleftrightarrow> fst (iterate ino (pp_print_holes p) (\<not> pp_print_indirect p) print_file_blocks
      (p\<lparr>pp_inode_number := ino\<rparr>, []))"
    using assms(3) by (auto simp: show_requested Let_def)
  then show ?thesis
    using Some block_iterator.blockmap_lines [OF assms(1) Some _ assms(2), of out] assms(3) by auto
qed

theorem show_file_blockmap_range_witness:
  "\<exists>ws. ''102 12 1'' @ NL @ ''300 12 12'' @ NL = concat (map (visit_line
      \<lparr>pp_inode_number = 12, pp_start_offset = 1, pp_length = 20, pp_print_holes = False,
       pp_print_indirect = False, pp_verbose = False, pp_in_printing_range = False\<rparr>) ws)
    \<and> filter data_visit ws = ws"
proof -
  define p where "p = \<lparr>pp_inode_number = 0, pp_start_offset = 1, pp_length = 20,
    pp_print_holes = False, pp_print_indirect = False, pp_verbose = False,
    pp_in_printing_range = False\<rparr>"
  define lib :: "unit ext2fs" where "lib = undefined"
  have run: "show_file_blockmap lib (list_iterate sample_visits) () [49, 50] p
      = (True, ''102 12 1'' @ NL @ ''300 12 12'' @ NL)"
    unfolding p_def by code_simp
  have "0 \<le> pp_start_offset p" by (simp add: p_def)
  moreover have "requested_inode lib () [49, 50] = Some 12" by code_simp
  ultimately show ?thesis
    using show_file_blockmap_range [OF sample_iterator.block_iterator_axioms _ run] by (auto simp: p_def)
qed

text \<open>
  An indirect block is listed only if the data block visited before it was in the range. The
  indirect block that leads to the first block of the range is visited before it, so it is missing.
\<close>

theorem blockmap_omits_leading_indirect:
  "snd (run_visits print_file_blocks (sample_visits 12)
      (\<lparr>pp_inode_number = 12, pp_start_offset = 12, pp_length = 1, pp_print_holes = False,
        pp_print_indirect = True, pp_verbose = False, pp_in_printing_range = False\<rparr>, []))
     = ''300 12 12'' @ NL
   \<and> snd (run_visits print_file_blocks (sample_visits 12)
      (\<lparr>pp_inode_number = 12, pp_start_offset = 1, pp_length = -1, pp_print_holes = False,
        pp_print_indirect = True, pp_verbose = False, pp_in_printing_range = False\<rparr>, []))
     = ''102 12 1'' @ NL @ ''200 12 IND-1 0 12'' @ NL @ ''300 12 12'' @ NL"
  by code_simp

end
