(* ===== verification/Kernel_Buffer.thy ===== *)
theory Kernel_Buffer
  imports Trace_Read
begin

text \<open>
  The trace buffer of the kernel module (\<open>prefetch.c\<close>): a flat byte buffer that records are
  appended to, markers into it, the copy of the fragment between two markers, and
  \<open>clear_trace\<close>. Every function runs under the buffer's spin lock (\<open>clear_trace\<close> releases it
  only to allocate), so each is one step on the state. Positions are 32-bit words.
\<close>

section \<open>The buffer\<close>

record prefetch_trace_t =
  pt_buffer_used :: u32
  pt_buffer_size :: u32
  pt_buffer :: "byte list option"
  pt_overflow :: bool
  pt_overflow_reported :: bool
  pt_page_release_traced :: u32

definition PREFETCH_TRACE_SIZE :: u32 where "PREFETCH_TRACE_SIZE = 256 * 1024"

text \<open>The static initialiser.\<close>

definition initial_trace :: prefetch_trace_t where
  "initial_trace = \<lparr>pt_buffer_used = 0, pt_buffer_size = 0, pt_buffer = None, pt_overflow = False,
     pt_overflow_reported = False, pt_page_release_traced = 0\<rparr>"

definition store_bytes :: "nat \<Rightarrow> byte list \<Rightarrow> byte list \<Rightarrow> byte list" where
  "store_bytes pos bs buf = take pos buf @ bs @ drop (pos + length bs) buf"

definition prefetch_trace_add :: "prefetch_trace_record_t \<Rightarrow> prefetch_trace_t \<Rightarrow> prefetch_trace_t" where
  "prefetch_trace_add r t =
     (if pt_buffer_used t + 16 \<ge> pt_buffer_size t then t\<lparr>pt_overflow := True\<rparr>
      else t\<lparr>pt_buffer_used := pt_buffer_used t + 16,
             pt_buffer := map_option (store_bytes (unat (pt_buffer_used t)) (record_bytes r)) (pt_buffer t)\<rparr>)"

text \<open>
  \<open>clear_trace\<close>: \<open>allocated\<close> is what \<open>alloc_trace_buffer\<close> finds when the buffer does not
  exist yet (any contents); without memory nothing is reset. \<open>clear_trace_locked\<close> is the part
  after the allocation, which takes the lock again and looks at the buffer a second time.
\<close>

definition reset_counters :: "prefetch_trace_t \<Rightarrow> prefetch_trace_t" where
  "reset_counters t = t\<lparr>pt_buffer_used := 0, pt_overflow := False, pt_overflow_reported := False,
     pt_page_release_traced := 0\<rparr>"

definition clear_trace_locked :: "byte list \<Rightarrow> prefetch_trace_t \<Rightarrow> prefetch_trace_t" where
  "clear_trace_locked new_buffer t =
     reset_counters
       (case pt_buffer t of
          Some _ \<Rightarrow> t
        | None \<Rightarrow> t\<lparr>pt_buffer := Some new_buffer, pt_buffer_size := PREFETCH_TRACE_SIZE\<rparr>)"

definition clear_trace :: "byte list option \<Rightarrow> prefetch_trace_t \<Rightarrow> prefetch_trace_t" where
  "clear_trace allocated t =
     (case pt_buffer t of
        Some _ \<Rightarrow> reset_counters t
      | None \<Rightarrow>
          (case allocated of
             None \<Rightarrow> t
           | Some new_buffer \<Rightarrow> clear_trace_locked new_buffer t))"

section \<open>Markers and fragments\<close>

record trace_marker_t =
  mk_position :: u32
  mk_generation :: u32

definition get_trace_marker :: "prefetch_trace_t \<Rightarrow> trace_marker_t" where
  "get_trace_marker t = \<lparr>mk_position = pt_buffer_used t, mk_generation = 0\<rparr>"

definition EINVAL :: int where "EINVAL = 22"
definition ERANGE :: int where "ERANGE = 34"
definition ENOSPC :: int where "ENOSPC = 28"
definition ESRCH :: int where "ESRCH = 3"
definition ENOMEM :: int where "ENOMEM = 12"
definition ETXTBSY :: int where "ETXTBSY = 26"

definition prefetch_trace_fragment_size :: "trace_marker_t \<Rightarrow> trace_marker_t \<Rightarrow> int" where
  "prefetch_trace_fragment_size start_marker end_marker =
     (if mk_generation start_marker \<noteq> mk_generation end_marker then - EINVAL
      else if mk_position end_marker < mk_position start_marker then - ERANGE
      else sint (mk_position end_marker - mk_position start_marker))"

definition trace_marker_position_in_buffer :: "prefetch_trace_t \<Rightarrow> trace_marker_t \<Rightarrow> int" where
  "trace_marker_position_in_buffer t marker =
     (if pt_buffer_used t < mk_position marker then - ENOSPC else sint (mk_position marker))"

text \<open>
  \<open>Inl\<close> a negative error number, \<open>Inr\<close> the copied fragment (\<open>NULL\<close> when empty);
  \<open>mem\<close> says whether the fragment's pages could be allocated. The copy reads the buffer without
  asking whether it exists; when it does not, the invariant below gives \<open>buffer_used = 0\<close>, so that
  the position of the end marker is refused before.
\<close>

definition get_prefetch_trace_fragment ::
  "bool \<Rightarrow> prefetch_trace_t \<Rightarrow> trace_marker_t \<Rightarrow> trace_marker_t \<Rightarrow> int + byte list option" where
  "get_prefetch_trace_fragment mem t start_marker end_marker =
     (let fragment_size = prefetch_trace_fragment_size start_marker end_marker in
      if fragment_size < 0 then Inl fragment_size
      else if fragment_size = 0 then Inr None
      else if \<not> mem then Inl (- ENOMEM)
      else
        (let start_position = trace_marker_position_in_buffer t start_marker;
             end_position = trace_marker_position_in_buffer t end_marker;
             len = end_position - start_position
         in if start_position < 0 then Inl (- ESRCH)
            else if end_position < 0 then Inl (- ESRCH)
            else if len \<le> 0 \<or> len \<noteq> fragment_size then Inl (- ETXTBSY)
            else Inr (Some (take (nat len) (drop (nat start_position) (the (pt_buffer t)))))))"

section \<open>The invariant\<close>

text \<open>
  A buffer that exists has its size and holds whole records; a missing buffer has size 0.
\<close>

definition trace_inv :: "prefetch_trace_t \<Rightarrow> bool" where
  "trace_inv t \<longleftrightarrow> 16 dvd unat (pt_buffer_used t) \<and> pt_buffer_used t \<le> pt_buffer_size t
     \<and> pt_buffer_size t \<le> PREFETCH_TRACE_SIZE
     \<and> (case pt_buffer t of None \<Rightarrow> pt_buffer_size t = 0
        | Some buf \<Rightarrow> length buf = unat (pt_buffer_size t))"

text \<open>The bytes recorded so far.\<close>

definition recorded :: "prefetch_trace_t \<Rightarrow> byte list" where
  "recorded t = (case pt_buffer t of None \<Rightarrow> [] | Some buf \<Rightarrow> take (unat (pt_buffer_used t)) buf)"

lemma sint_small: "unat (w::u32) < 2 ^ 31 \<Longrightarrow> sint w = int (unat w)"
proof -
  assume "unat w < 2 ^ 31"
  then have "uint w < 2 ^ 31" by (simp only: unat_eq_nat_uint nat_less_iff uint_ge_0) simp
  then have "sint w = uint w"
    by (simp add: sint_uint signed_take_bit_int_eq_self order_trans [OF _ uint_ge_0])
  then show ?thesis by simp
qed

lemma unat_used_16:
  assumes "trace_inv t"
  shows "unat (pt_buffer_used t + 16) = unat (pt_buffer_used t) + 16"
proof -
  have "pt_buffer_used t \<le> PREFETCH_TRACE_SIZE" using assms by (auto simp: trace_inv_def)
  then have "unat (pt_buffer_used t) \<le> 262144"
    by (simp add: word_le_nat_alt PREFETCH_TRACE_SIZE_def)
  then show ?thesis by (simp add: unat_word_ariths)
qed

lemma trace_inv_initial: "trace_inv initial_trace"
  by (simp add: trace_inv_def initial_trace_def PREFETCH_TRACE_SIZE_def)

lemma trace_inv_clear:
  assumes "trace_inv t" and "\<forall>b. allocated = Some b \<longrightarrow> length b = unat PREFETCH_TRACE_SIZE"
  shows "trace_inv (clear_trace allocated t)"
  using assms
  by (auto simp: trace_inv_def clear_trace_def clear_trace_locked_def reset_counters_def
      PREFETCH_TRACE_SIZE_def split: option.splits)

lemma trace_inv_clear_locked:
  assumes "trace_inv t" and "length new_buffer = unat PREFETCH_TRACE_SIZE"
  shows "trace_inv (clear_trace_locked new_buffer t)"
  using assms
  by (auto simp: trace_inv_def clear_trace_locked_def reset_counters_def
      PREFETCH_TRACE_SIZE_def split: option.splits)

lemma add_fits:
  assumes inv: "trace_inv t" and fit: "unat (pt_buffer_used t) + 16 < unat (pt_buffer_size t)"
  shows "trace_inv (prefetch_trace_add r t)" and "recorded (prefetch_trace_add r t) = recorded t @ record_bytes r"
    and "unat (pt_buffer_used (prefetch_trace_add r t)) = unat (pt_buffer_used t) + 16"
    and "pt_overflow (prefetch_trace_add r t) = pt_overflow t"
    and "pt_buffer_size (prefetch_trace_add r t) = pt_buffer_size t"
proof -
  note u = unat_used_16 [OF inv]
  have le: "\<not> pt_buffer_size t \<le> pt_buffer_used t + 16"
    using fit u by (simp add: word_le_nat_alt)
  have "pt_buffer_size t \<noteq> 0" using fit by auto
  then obtain buf where buf: "pt_buffer t = Some buf" "length buf = unat (pt_buffer_size t)"
    using inv by (auto simp: trace_inv_def split: option.splits)
  have t': "prefetch_trace_add r t = t\<lparr>pt_buffer_used := pt_buffer_used t + 16,
      pt_buffer := Some (store_bytes (unat (pt_buffer_used t)) (record_bytes r) buf)\<rparr>"
    using le buf by (simp add: prefetch_trace_add_def)
  show "trace_inv (prefetch_trace_add r t)"
    using inv fit u buf le
    by (auto simp: t' trace_inv_def store_bytes_def word_le_nat_alt dvd_add record_size_def)
  show "recorded (prefetch_trace_add r t) = recorded t @ record_bytes r"
    using u buf fit by (simp add: t' recorded_def store_bytes_def record_size_def)
  show "unat (pt_buffer_used (prefetch_trace_add r t)) = unat (pt_buffer_used t) + 16"
    using u by (simp add: t')
  show "pt_overflow (prefetch_trace_add r t) = pt_overflow t"
    "pt_buffer_size (prefetch_trace_add r t) = pt_buffer_size t"
    by (simp_all add: t')
qed

lemma add_full:
  assumes inv: "trace_inv t" and full: "\<not> unat (pt_buffer_used t) + 16 < unat (pt_buffer_size t)"
  shows "prefetch_trace_add r t = t\<lparr>pt_overflow := True\<rparr>"
  using full unat_used_16 [OF inv] by (simp add: prefetch_trace_add_def word_le_nat_alt)

text \<open>Adding a list of records.\<close>

definition add_all :: "prefetch_trace_record_t list \<Rightarrow> prefetch_trace_t \<Rightarrow> prefetch_trace_t" where
  "add_all rs t = fold prefetch_trace_add rs t"

lemma add_all_simps [simp]:
  "add_all [] t = t" "add_all (r # rs) t = add_all rs (prefetch_trace_add r t)"
  by (simp_all add: add_all_def)

lemma trace_inv_overflow [simp]: "trace_inv (t\<lparr>pt_overflow := b\<rparr>) = trace_inv t"
  by (cases "pt_buffer t") (simp_all add: trace_inv_def)

lemma recorded_overflow [simp]: "recorded (t\<lparr>pt_overflow := b\<rparr>) = recorded t"
  by (cases "pt_buffer t") (simp_all add: recorded_def)

lemma trace_inv_add: "trace_inv t \<Longrightarrow> trace_inv (prefetch_trace_add r t)"
  by (cases "unat (pt_buffer_used t) + 16 < unat (pt_buffer_size t)")
    (simp_all add: add_fits(1) add_full)

text \<open>The number of records that still fit: the last slot of the buffer is never filled.\<close>

definition room :: "prefetch_trace_t \<Rightarrow> nat" where
  "room t = (unat (pt_buffer_size t) - unat (pt_buffer_used t) - 1) div 16"

lemma room_pos: "0 < room t \<longleftrightarrow> unat (pt_buffer_used t) + 16 < unat (pt_buffer_size t)"
  by (auto simp: room_def div_greater_zero_iff)

lemma room_add:
  assumes "trace_inv t" and "unat (pt_buffer_used t) + 16 < unat (pt_buffer_size t)"
  shows "room t = Suc (room (prefetch_trace_add r t))"
proof -
  have "unat (pt_buffer_size t) - unat (pt_buffer_used t) - 1
      = (unat (pt_buffer_size t) - (unat (pt_buffer_used t) + 16) - 1) + 16"
    using assms(2) by simp
  then have "room t = (unat (pt_buffer_size t) - (unat (pt_buffer_used t) + 16) - 1) div 16 + 1"
    by (simp only: room_def div_add_self2)
  then show ?thesis by (simp only: room_def add_fits(3,5) [OF assms] Suc_eq_plus1)
qed

lemma encode_records_Cons: "encode_records (r # rs) = record_bytes r @ encode_records rs"
  by (simp add: encode_records_def)

lemma add_all_spec:
  assumes "trace_inv t"
  shows "trace_inv (add_all rs t)
    \<and> recorded (add_all rs t) = recorded t @ encode_records (take (room t) rs)
    \<and> unat (pt_buffer_used (add_all rs t)) = unat (pt_buffer_used t) + 16 * min (room t) (length rs)
    \<and> pt_overflow (add_all rs t) = (pt_overflow t \<or> room t < length rs)"
  using assms
proof (induction rs arbitrary: t)
  case Nil
  then show ?case by (simp add: encode_records_def)
next
  case (Cons r rs)
  show ?case
  proof (cases "unat (pt_buffer_used t) + 16 < unat (pt_buffer_size t)")
    case True
    note a = add_fits [OF Cons.prems True] and r = room_add [OF Cons.prems True, of r]
    show ?thesis
      using Cons.IH [OF a(1) [of r]] a(2-4) [of r] r by (simp add: encode_records_Cons)
  next
    case False
    then have r: "room t = 0" using room_pos by auto
    have t: "prefetch_trace_add r t = t\<lparr>pt_overflow := True\<rparr>" by (rule add_full [OF Cons.prems False])
    have r': "room (t\<lparr>pt_overflow := True\<rparr>) = 0" using r by (simp add: room_def)
    show ?thesis
      using Cons.IH [of "t\<lparr>pt_overflow := True\<rparr>"] Cons.prems r r'
      by (simp add: t encode_records_def)
  qed
qed

lemma used_bound: "trace_inv t \<Longrightarrow> unat (pt_buffer_used t) \<le> 262144"
  by (auto simp: trace_inv_def word_le_nat_alt PREFETCH_TRACE_SIZE_def)

lemma inv_buffer:
  assumes "trace_inv t" and "pt_buffer_size t \<noteq> 0"
  obtains buf where "pt_buffer t = Some buf" and "length buf = unat (pt_buffer_size t)"
    and "unat (pt_buffer_used t) \<le> length buf"
  using assms by (auto simp: trace_inv_def word_le_nat_alt split: option.splits)

lemma fragment_empty:
  "get_prefetch_trace_fragment mem t m m = Inr None"
  by (simp add: get_prefetch_trace_fragment_def prefetch_trace_fragment_size_def)

lemma fragment_between:
  assumes pq: "p < q" and qu: "q \<le> pt_buffer_used t" and used: "unat (pt_buffer_used t) \<le> 262144"
    and buf: "pt_buffer t = Some buf"
  shows "get_prefetch_trace_fragment True t \<lparr>mk_position = p, mk_generation = g\<rparr>
      \<lparr>mk_position = q, mk_generation = g\<rparr> = Inr (Some (take (unat q - unat p) (drop (unat p) buf)))"
proof -
  have n: "unat p < unat q" "unat q \<le> 262144"
    using pq qu used by (simp_all add: word_less_nat_alt word_le_nat_alt)
  have d: "unat (q - p) = unat q - unat p" using pq by (simp add: unat_sub_le)
  define k where "k = int (unat q) - int (unat p)"
  have k: "0 < k" "nat k = unat q - unat p" using n unfolding k_def by linarith+
  have s: "sint q = int (unat q)" "sint p = int (unat p)" "sint (q - p) = k"
  proof -
    show "sint q = int (unat q)" "sint p = int (unat p)" using n by (intro sint_small, simp)+
    have "unat (q - p) < 2 ^ 31" using n d by simp
    from sint_small [OF this] show "sint (q - p) = k" unfolding d k_def using n(1) by (simp add: of_nat_diff)
  qed
  have "\<not> q < p" "\<not> pt_buffer_used t < p" "\<not> pt_buffer_used t < q" using pq qu by auto
  then have "prefetch_trace_fragment_size \<lparr>mk_position = p, mk_generation = g\<rparr>
      \<lparr>mk_position = q, mk_generation = g\<rparr> = k"
    and "trace_marker_position_in_buffer t \<lparr>mk_position = p, mk_generation = g\<rparr> = int (unat p)"
    and "trace_marker_position_in_buffer t \<lparr>mk_position = q, mk_generation = g\<rparr> = int (unat q)"
    by (simp_all only: prefetch_trace_fragment_size_def trace_marker_position_in_buffer_def s
        trace_marker_t.simps if_False simp_thms)
  moreover have "\<not> k < 0" "k \<noteq> 0" "\<not> k \<le> 0" using k(1) by auto
  moreover have "\<not> int (unat p) < 0" "\<not> int (unat q) < 0" by auto
  ultimately show ?thesis
    by (simp only: get_prefetch_trace_fragment_def Let_def buf option.sel if_False simp_thms
        k_def [symmetric] k(2) nat_int)
qed

lemma add_all_fragment:
  assumes inv: "trace_inv t" and some: "take (room t) rs \<noteq> []"
  shows "get_prefetch_trace_fragment True (add_all rs t) (get_trace_marker t)
      (get_trace_marker (add_all rs t)) = Inr (Some (encode_records (take (room t) rs)))"
proof -
  define t' where "t' = add_all rs t"
  define n where "n = min (room t) (length rs)"
  have inv': "trace_inv t'"
    and rec: "recorded t' = recorded t @ encode_records (take (room t) rs)"
    and used: "unat (pt_buffer_used t') = unat (pt_buffer_used t) + 16 * n"
    using add_all_spec [OF inv, of rs] unfolding t'_def n_def by blast+
  have n: "0 < n" "0 < room t" using some by (auto simp: n_def)
  have sz: "pt_buffer_size t \<noteq> 0" using n(2) by (auto simp: room_def)
  have lt: "pt_buffer_used t < pt_buffer_used t'"
    unfolding word_less_nat_alt used using n(1) by simp
  have "pt_buffer_used t' \<le> pt_buffer_size t'" using inv' by (simp add: trace_inv_def)
  then have sz': "pt_buffer_size t' \<noteq> 0" using lt by auto
  obtain buf0 where "pt_buffer t = Some buf0" "unat (pt_buffer_used t) \<le> length buf0"
    using inv_buffer [OF inv sz] by blast
  then have len: "length (recorded t) = unat (pt_buffer_used t)" by (simp add: recorded_def)
  obtain buf where buf: "pt_buffer t' = Some buf" using inv_buffer [OF inv' sz'] by blast
  have "take (unat (pt_buffer_used t')) buf = recorded t'" by (simp only: recorded_def buf option.case)
  then have "drop (unat (pt_buffer_used t)) (take (unat (pt_buffer_used t')) buf)
      = encode_records (take (room t) rs)"
    by (simp only: rec append_eq_conv_conj len [symmetric] append_same_eq drop_append drop_all
        order_refl diff_self_eq_0 drop_0 append_Nil)
  then show ?thesis
    using fragment_between [OF lt order_refl used_bound [OF inv'] buf]
    by (simp only: get_trace_marker_def t'_def [symmetric] drop_take)
qed

section \<open>What can happen to the buffer\<close>

text \<open>
  The critical sections on the buffer, in any order: any thread may add a record (the page release
  hook and the page walk do), clear an existing buffer, finish a \<open>clear_trace\<close> that had found no
  buffer, report an overflow or count a released page.
\<close>

inductive trace_step :: "prefetch_trace_t \<Rightarrow> prefetch_trace_t \<Rightarrow> bool" where
  Add: "trace_step t (prefetch_trace_add r t)"
| Clear: "pt_buffer t = Some buf \<Longrightarrow> trace_step t (reset_counters t)"
| Clear_locked: "length new_buffer = unat PREFETCH_TRACE_SIZE \<Longrightarrow>
    trace_step t (clear_trace_locked new_buffer t)"
| Report: "trace_step t (t\<lparr>pt_overflow_reported := True\<rparr>)"
| Count: "trace_step t (t\<lparr>pt_page_release_traced := pt_page_release_traced t + 1\<rparr>)"

inductive_cases trace_stepE: "trace_step t t'"

text \<open>The size of an existing buffer is fixed, its last slot stays free.\<close>

definition slots_inv :: "prefetch_trace_t \<Rightarrow> bool" where
  "slots_inv t \<longleftrightarrow> trace_inv t
     \<and> (pt_buffer t \<noteq> None \<longrightarrow> pt_buffer_size t = PREFETCH_TRACE_SIZE \<and> unat (pt_buffer_used t) \<le> 262128)
     \<and> (pt_overflow t \<longrightarrow> pt_buffer t = None \<or> unat (pt_buffer_used t) = 262128)"

lemma slots_inv_initial: "slots_inv initial_trace"
  using trace_inv_initial by (simp add: slots_inv_def initial_trace_def)

lemma slots_inv_add:
  assumes inv: "slots_inv t"
  shows "slots_inv (prefetch_trace_add r t)"
proof (cases "unat (pt_buffer_used t) + 16 < unat (pt_buffer_size t)")
  case True
  have tr: "trace_inv t" using inv by (simp add: slots_inv_def)
  note a = add_fits [OF tr True, of r]
  have "pt_buffer_size t \<noteq> 0" using True by auto
  then obtain buf where b: "pt_buffer t = Some buf" using inv_buffer [OF tr] by blast
  have sz: "unat (pt_buffer_size t) = 262144"
    using inv b by (simp add: slots_inv_def PREFETCH_TRACE_SIZE_def)
  obtain k where k: "unat (pt_buffer_used t) = 16 * k" using tr by (auto simp: trace_inv_def dvd_def)
  have lim: "unat (pt_buffer_used t) + 16 \<le> 262128" "unat (pt_buffer_used t) \<noteq> 262128"
    using True sz k by presburger+
  have "\<not> pt_overflow t" using inv b lim(2) by (simp add: slots_inv_def)
  moreover have "pt_buffer_size t = PREFETCH_TRACE_SIZE" using inv b by (simp add: slots_inv_def)
  ultimately show ?thesis
    unfolding slots_inv_def a(3-5) using a(1) lim(1) by simp
next
  case False
  have tr: "trace_inv t" using inv by (simp add: slots_inv_def)
  have full: "pt_buffer t = None \<or> unat (pt_buffer_used t) = 262128"
    using inv False by (auto simp: slots_inv_def PREFETCH_TRACE_SIZE_def)
  show ?thesis
    unfolding add_full [OF tr False]
    using inv full by (cases "pt_buffer t") (simp_all add: slots_inv_def)
qed

lemma slots_inv_reset: "slots_inv t \<Longrightarrow> slots_inv (reset_counters t)"
  by (cases "pt_buffer t") (auto simp: slots_inv_def trace_inv_def reset_counters_def)

lemma slots_inv_clear_locked:
  "slots_inv t \<Longrightarrow> length new_buffer = unat PREFETCH_TRACE_SIZE \<Longrightarrow>
   slots_inv (clear_trace_locked new_buffer t)"
  by (cases "pt_buffer t")
    (auto simp: slots_inv_def trace_inv_def clear_trace_locked_def reset_counters_def)

lemma slots_inv_step: "trace_step t t' \<Longrightarrow> slots_inv t \<Longrightarrow> slots_inv t'"
proof (induction rule: trace_step.induct)
  case (Report t)
  then show ?case by (cases "pt_buffer t") (auto simp: slots_inv_def trace_inv_def)
next
  case (Count t)
  then show ?case by (cases "pt_buffer t") (auto simp: slots_inv_def trace_inv_def)
qed (simp_all add: slots_inv_add slots_inv_reset slots_inv_clear_locked)

lemma slots_inv_reachable: "trace_step\<^sup>*\<^sup>* initial_trace t \<Longrightarrow> slots_inv t"
  by (induction rule: rtranclp_induct) (auto intro: slots_inv_initial slots_inv_step)

lemma encode_records_drop:
  "n \<le> length rs \<Longrightarrow> drop (16 * n) (encode_records rs) = encode_records (drop n rs)"
proof (induction n arbitrary: rs)
  case (Suc n)
  then obtain r rs' where "rs = r # rs'" by (cases rs) auto
  then show ?case using Suc by (simp add: encode_records_Cons record_size_def)
qed simp

section \<open>Properties\<close>

text \<open>
  C9: what is recorded between two markers is what the second marker's reader gets: as long as the
  trace is not cleared in between, the fragment from a marker to a later one decodes to exactly the
  records that were added, in order, up to the capacity of the buffer; and the overflow flag says
  whether any were dropped.
\<close>

theorem trace_fragment_roundtrip:
  assumes "trace_inv t" and "t' = add_all rs t"
  shows "(case get_prefetch_trace_fragment True t' (get_trace_marker t) (get_trace_marker t') of
      Inl _ \<Rightarrow> False
    | Inr None \<Rightarrow> take (room t) rs = []
    | Inr (Some fragment) \<Rightarrow> decode_records fragment = take (room t) rs)
    \<and> pt_overflow t' = (pt_overflow t \<or> room t < length rs) \<and> trace_inv t'"
proof -
  note spec = add_all_spec [OF assms(1), of rs, folded assms(2)]
  show ?thesis
  proof (cases "take (room t) rs = []")
    case True
    then have "pt_buffer_used t' = pt_buffer_used t" using spec by (auto simp: word_unat_eq_iff)
    then show ?thesis using spec True by (simp add: get_trace_marker_def fragment_empty)
  next
    case False
    from add_all_fragment [OF assms(1) False, folded assms(2)]
    show ?thesis using spec by (simp add: decode_encode_records)
  qed
qed

definition sample_trace :: prefetch_trace_t where
  "sample_trace = initial_trace\<lparr>pt_buffer := Some (replicate 48 0), pt_buffer_size := 48\<rparr>"

definition sample_record :: prefetch_trace_record_t where
  "sample_record = \<lparr>device = 8, inode_no = 11, range_start = 0, range_length = 4\<rparr>"

lemma sample_trace_inv: "trace_inv sample_trace"
  by (simp add: trace_inv_def sample_trace_def initial_trace_def PREFETCH_TRACE_SIZE_def)

lemma sample_room: "room sample_trace = 2"
  by (simp add: room_def sample_trace_def initial_trace_def)

lemma trace_fragment_roundtrip_witness:
  "let rs = replicate 3 sample_record; t' = add_all rs sample_trace in
   (case get_prefetch_trace_fragment True t' (get_trace_marker sample_trace) (get_trace_marker t') of
      Inl _ \<Rightarrow> False
    | Inr None \<Rightarrow> take 2 rs = []
    | Inr (Some fragment) \<Rightarrow> decode_records fragment = take 2 rs) \<and> pt_overflow t' \<and> trace_inv t'"
  using trace_fragment_roundtrip [OF sample_trace_inv refl, of "replicate 3 sample_record"]
  unfolding Let_def sample_room by (simp only: length_replicate) simp

text \<open>
  C10: whatever the critical sections do and in whatever order they run, the buffer holds whole
  records; when it exists it has its fixed size and at most 16383 of its 16384 slots are filled;
  and the overflow flag of an existing buffer is set only when those 16383 slots are full (no
  record is dropped before).
\<close>

theorem trace_buffer_invariant:
  assumes "trace_step\<^sup>*\<^sup>* initial_trace t"
  shows "16 dvd unat (pt_buffer_used t)
    \<and> (case pt_buffer t of
         None \<Rightarrow> pt_buffer_size t = 0 \<and> pt_buffer_used t = 0
       | Some buf \<Rightarrow> pt_buffer_size t = PREFETCH_TRACE_SIZE \<and> length buf = unat PREFETCH_TRACE_SIZE
           \<and> unat (pt_buffer_used t) \<le> 16383 * 16
           \<and> (pt_overflow t \<longrightarrow> unat (pt_buffer_used t) = 16383 * 16))"
  using slots_inv_reachable [OF assms]
  by (cases "pt_buffer t") (auto simp: slots_inv_def trace_inv_def)

lemma trace_buffer_invariant_witness:
  "16 dvd unat (pt_buffer_used (prefetch_trace_add sample_record
      (clear_trace_locked (replicate (unat PREFETCH_TRACE_SIZE) 0) initial_trace)))"
  by (rule trace_buffer_invariant [THEN conjunct1])
    (meson Add Clear_locked length_replicate rtranclp.rtrancl_into_rtrancl rtranclp.rtrancl_refl)

text \<open>
  C40: a marker taken before \<open>clear_trace\<close> is still accepted afterwards, because the generation
  is always 0: once the new trace has grown beyond the position of the old marker, the reader gets
  a fragment that silently lacks the first records of the new trace.
\<close>

theorem stale_marker_accepted:
  assumes "trace_inv t" and "pt_buffer t = Some buf"
    and "t' = add_all rs (reset_counters t)" and "pt_buffer_used t < pt_buffer_used t'"
  shows "get_prefetch_trace_fragment True t' (get_trace_marker t) (get_trace_marker t')
    = Inr (Some (encode_records
        (drop (unat (pt_buffer_used t) div 16) (take (room (reset_counters t)) rs))))"
proof -
  let ?c = "reset_counters t" and ?rs = "take (room (reset_counters t)) rs"
  define k where "k = unat (pt_buffer_used t) div 16"
  have k: "unat (pt_buffer_used t) = 16 * k" using assms(1) by (auto simp: trace_inv_def k_def)
  have ci: "trace_inv ?c" using trace_inv_clear [OF assms(1), of None] assms(2)
    by (simp add: clear_trace_def)
  have rec: "recorded ?c = []" "pt_buffer_used ?c = 0"
    using assms(2) by (simp_all add: recorded_def reset_counters_def)
  have inv': "trace_inv t'" and r': "recorded t' = encode_records ?rs"
    and u': "unat (pt_buffer_used t') = 16 * length ?rs"
    using add_all_spec [OF ci, of rs] rec unfolding assms(3) by (auto simp: min.commute)
  have lt: "k \<le> length ?rs" using assms(4) k u' by (simp add: word_less_nat_alt)
  have "pt_buffer_size t' \<noteq> 0" using assms(4) inv' by (auto simp: trace_inv_def)
  then obtain b where b: "pt_buffer t' = Some b" using inv_buffer [OF inv'] by blast
  have "take (unat (pt_buffer_used t')) b = encode_records ?rs"
    using r' b by (simp add: recorded_def)
  then have "drop (16 * k) (take (unat (pt_buffer_used t')) b) = encode_records (drop k ?rs)"
    using encode_records_drop [OF lt] by simp
  then show ?thesis
    using fragment_between [OF assms(4) order_refl used_bound [OF inv'] b]
    unfolding k_def [symmetric] get_trace_marker_def by (simp only: drop_take k)
qed

lemma stale_marker_accepted_witness:
  "let rs = replicate 2 sample_record; t = prefetch_trace_add sample_record sample_trace;
       t' = add_all rs (reset_counters t)
   in get_prefetch_trace_fragment True t' (get_trace_marker t) (get_trace_marker t')
      = Inr (Some (encode_records [sample_record]))"
proof -
  let ?t = "prefetch_trace_add sample_record sample_trace"
  let ?t' = "add_all (replicate 2 sample_record) (reset_counters ?t)"
  have u: "unat (pt_buffer_used sample_trace) + 16 < unat (pt_buffer_size sample_trace)"
    by (simp add: sample_trace_def initial_trace_def)
  note a = add_fits [OF sample_trace_inv u, of sample_record]
  obtain buf where buf: "pt_buffer ?t = Some buf"
    by (simp add: prefetch_trace_add_def sample_trace_def initial_trace_def)
  have ci: "trace_inv (reset_counters ?t)"
    using trace_inv_clear [OF a(1), of None] buf by (simp add: clear_trace_def)
  have rm: "room (reset_counters ?t) = 2"
    using a(5) by (simp add: room_def reset_counters_def sample_trace_def initial_trace_def)
  have u1: "unat (pt_buffer_used ?t) = 16" using a(3) by (simp add: sample_trace_def initial_trace_def)
  have "unat (pt_buffer_used ?t') = 32"
    using add_all_spec [OF ci, of "replicate 2 sample_record"] rm by (simp add: reset_counters_def)
  then have "pt_buffer_used ?t < pt_buffer_used ?t'" using u1 by (simp add: word_less_nat_alt)
  from stale_marker_accepted [OF a(1) buf refl this] show ?thesis
    by (simp add: Let_def u1 rm numeral_2_eq_2)
qed

end
