(* ===== verification/Kernel_Walk.thy ===== *)
theory Kernel_Walk
  imports Kernel_Buffer
begin

text \<open>
  The walk over the page cache of a file (\<open>prefetch.c\<close>: \<open>walk_file_cache\<close>,
  \<open>add_referenced_page_range\<close>, the page release hook). The radix tree of the mapping is the
  association list of its pages, by ascending index, with their referenced bits; the gang lookup of
  the radix tree is a parameter with the locale \<open>radix_tree\<close> of its documented behaviour.
  \<open>start + len\<close> is computed at 32 bits, so the loop has fuel: one more than the number of pages
  is enough unless a page has the last index.
\<close>

section \<open>Inodes and mappings\<close>

text \<open>The \<open>i_bdev\<close> of an inode is \<open>i_sb->s_bdev->bd_dev\<close>, when both pointers are there.\<close>

record inode_t =
  i_ino :: u32
  i_bdev :: "u32 option"

type_synonym page_tree = "(u32 \<times> bool) list"

record address_space =
  host :: "inode_t option"
  page_tree :: page_tree

text \<open>
  \<open>radix_tree_gang_lookup\<close> with the size of a page vector: the indexes of some pages from a
  first index on.
\<close>

type_synonym gang_lookup = "page_tree \<Rightarrow> u32 \<Rightarrow> u32 list"

definition PageReferenced :: "page_tree \<Rightarrow> u32 \<Rightarrow> bool" where
  "PageReferenced pages index = (map_of pages index = Some True)"

definition ClearPageReferenced :: "u32 \<Rightarrow> page_tree \<Rightarrow> page_tree" where
  "ClearPageReferenced index pages =
     map (\<lambda>(i, r). (i, if i = index then False else r)) pages"

section \<open>The session counters and the trace\<close>

text \<open>The statistics of \<open>struct session\<close>; its inode cursor belongs to the inode walk.\<close>

record session =
  inodes_walked :: u32
  pages_walked :: u32
  pages_referenced :: u32
  pages_referenced_debug :: u32
  page_blocks :: u32

definition new_session :: session where
  "new_session = \<lparr>inodes_walked = 0, pages_walked = 0, pages_referenced = 0,
     pages_referenced_debug = 0, page_blocks = 0\<rparr>"

definition add_referenced_page_range ::
  "bool \<Rightarrow> inode_t option \<Rightarrow> u32 \<Rightarrow> u32 \<Rightarrow> session \<times> prefetch_trace_t \<Rightarrow> session \<times> prefetch_trace_t" where
  "add_referenced_page_range clearing_in_progress inode start len st =
     (case st of (s, t) \<Rightarrow>
       (s\<lparr>pages_referenced := pages_referenced s + len, page_blocks := page_blocks s + 1\<rparr>,
        if clearing_in_progress then t
        else (case inode of
                None \<Rightarrow> t
              | Some h \<Rightarrow>
                  (case i_bdev h of
                     None \<Rightarrow> t
                   | Some dev \<Rightarrow>
                       prefetch_trace_add
                         \<lparr>device = dev, inode_no = i_ino h, range_start = start, range_length = len\<rparr> t))))"

section \<open>The page walk\<close>

text \<open>The local variables of the loop; \<open>page0_set\<close> is \<open>page0 != NULL\<close>.\<close>

record walk_vars =
  w_start :: u32
  w_len :: u32
  w_previous :: bool
  page0_set :: bool

definition walk_start :: walk_vars where
  "walk_start = \<lparr>w_start = 0, w_len = 0, w_previous = False, page0_set = False\<rparr>"

text \<open>One page of the batch.\<close>

definition walk_page ::
  "bool \<Rightarrow> inode_t option \<Rightarrow> u32 \<Rightarrow> walk_vars \<times> page_tree \<times> session \<times> prefetch_trace_t
     \<Rightarrow> walk_vars \<times> page_tree \<times> session \<times> prefetch_trace_t" where
  "walk_page clearing_in_progress inode index st =
     (case st of (v, pages, s, t) \<Rightarrow>
       let current = PageReferenced pages index;
           pages = ClearPageReferenced index pages;
           s = s\<lparr>pages_walked := pages_walked s + 1\<rparr>;
           s = (if current then s\<lparr>pages_referenced_debug := pages_referenced_debug s + 1\<rparr> else s)
       in if index = w_start v + w_len v \<and> w_previous v = current
          then (v\<lparr>w_len := w_len v + 1, w_previous := current\<rparr>, pages, s, t)
          else
            (let st' = (if w_previous v
                        then add_referenced_page_range clearing_in_progress inode (w_start v) (w_len v) (s, t)
                        else (s, t))
             in (v\<lparr>page0_set := True, w_start := index, w_len := 1, w_previous := current\<rparr>, pages, st')))"

text \<open>The loop; \<open>None\<close> is out of fuel.\<close>

fun walk_file_cache_loop ::
  "gang_lookup \<Rightarrow> bool \<Rightarrow> inode_t option \<Rightarrow> nat \<Rightarrow> walk_vars \<times> page_tree \<times> session \<times> prefetch_trace_t
     \<Rightarrow> (page_tree \<times> session \<times> prefetch_trace_t) option" where
  "walk_file_cache_loop lookup clearing inode 0 st = None"
| "walk_file_cache_loop lookup clearing inode (Suc fuel) (v, pages, s, t) =
     (let pvec = lookup pages (w_start v + w_len v) in
      if pvec = [] then
        Some (pages, if w_previous v
                     then add_referenced_page_range clearing inode (w_start v) (w_len v) (s, t)
                     else (s, t))
      else
        (let v = (if page0_set v then v
                  else v\<lparr>page0_set := True, w_previous := PageReferenced pages (hd pvec)\<rparr>)
         in walk_file_cache_loop lookup clearing inode fuel
              (fold (walk_page clearing inode) pvec (v, pages, s, t))))"

definition walk_file_cache ::
  "gang_lookup \<Rightarrow> bool \<Rightarrow> nat \<Rightarrow> address_space \<Rightarrow> session \<times> prefetch_trace_t
     \<Rightarrow> (address_space \<times> session \<times> prefetch_trace_t) option" where
  "walk_file_cache lookup clearing fuel mapping st =
     map_option (\<lambda>(pages, st'). (mapping\<lparr>page_tree := pages\<rparr>, st'))
       (walk_file_cache_loop lookup clearing (host mapping) fuel (walk_start, page_tree mapping, st))"

section \<open>The page release hook\<close>

text \<open>
  A page that is about to be freed: its mapping's host, index, referenced bit and whether it
  belongs to the swap cache.
\<close>

record page_t =
  pg_host :: "inode_t option"
  pg_index :: u32
  pg_referenced :: bool
  pg_swap :: bool

definition prefetch_add_page_to_trace :: "int \<Rightarrow> page_t \<Rightarrow> prefetch_trace_t \<Rightarrow> prefetch_trace_t" where
  "prefetch_add_page_to_trace tracers_count page t =
     (if tracers_count \<le> 0 then t
      else if \<not> pg_referenced page then t
      else if pg_swap page then t
      else
        (let t = t\<lparr>pt_page_release_traced := pt_page_release_traced t + 1\<rparr> in
         case pg_host page of
           None \<Rightarrow> t
         | Some h \<Rightarrow>
             (case i_bdev h of
                None \<Rightarrow> t
              | Some dev \<Rightarrow>
                  prefetch_trace_add
                    \<lparr>device = dev, inode_no = i_ino h, range_start = pg_index page, range_length = 1\<rparr> t)))"

definition prefetch_page_release_hook :: "int \<Rightarrow> page_t \<Rightarrow> prefetch_trace_t \<Rightarrow> prefetch_trace_t" where
  "prefetch_page_release_hook tracers_count page t = prefetch_add_page_to_trace tracers_count page t"

section \<open>The radix tree\<close>

definition sorted_pages :: "page_tree \<Rightarrow> bool" where
  "sorted_pages pages = sorted_wrt (<) (map fst pages)"

locale radix_tree =
  fixes lookup :: gang_lookup
  assumes lookup_prefix:
    "sorted_pages pages \<Longrightarrow>
     \<exists>n>0. lookup pages first = take n (filter (\<lambda>i. first \<le> i) (map fst pages))"

text \<open>The lookup as its documentation describes it, for a page vector of \<open>n\<close> pages.\<close>

definition list_lookup :: "nat \<Rightarrow> gang_lookup" where
  "list_lookup n pages first = take n (filter (\<lambda>i. first \<le> i) (map fst pages))"

interpretation pagevec: radix_tree "list_lookup 14"
  by unfold_locales (auto simp: list_lookup_def intro: exI [of _ "14::nat"])

section \<open>What one page does\<close>

definition run_page :: "u32 \<times> bool \<Rightarrow> walk_vars \<Rightarrow> (u32 \<times> u32) list \<times> walk_vars" where
  "run_page e v =
     (if fst e = w_start v + w_len v \<and> w_previous v = snd e
      then ([], v\<lparr>w_len := w_len v + 1, w_previous := snd e\<rparr>)
      else (if w_previous v then [(w_start v, w_len v)] else [],
            v\<lparr>page0_set := True, w_start := fst e, w_len := 1, w_previous := snd e\<rparr>))"

fun run_pages :: "(u32 \<times> bool) list \<Rightarrow> walk_vars \<Rightarrow> (u32 \<times> u32) list \<times> walk_vars" where
  "run_pages [] v = ([], v)"
| "run_pages (e # es) v =
     (case run_page e v of (rs, v') \<Rightarrow> (case run_pages es v' of (rs', v'') \<Rightarrow> (rs @ rs', v'')))"

definition session_after :: "nat \<Rightarrow> nat \<Rightarrow> (u32 \<times> u32) list \<Rightarrow> session \<Rightarrow> session" where
  "session_after n k rs s = s\<lparr>pages_walked := pages_walked s + of_nat n,
     pages_referenced_debug := pages_referenced_debug s + of_nat k,
     pages_referenced := pages_referenced s + sum_list (map snd rs),
     page_blocks := page_blocks s + of_nat (length rs)\<rparr>"

definition range_record :: "u32 \<Rightarrow> u32 \<Rightarrow> u32 \<times> u32 \<Rightarrow> prefetch_trace_record_t" where
  "range_record dev ino rg =
     \<lparr>device = dev, inode_no = ino, range_start = fst rg, range_length = snd rg\<rparr>"

definition trace_after ::
  "bool \<Rightarrow> inode_t option \<Rightarrow> (u32 \<times> u32) list \<Rightarrow> prefetch_trace_t \<Rightarrow> prefetch_trace_t" where
  "trace_after clearing inode rs t =
     (if clearing then t
      else (case inode of
              None \<Rightarrow> t
            | Some h \<Rightarrow>
                (case i_bdev h of
                   None \<Rightarrow> t
                 | Some dev \<Rightarrow> add_all (map (range_record dev (i_ino h)) rs) t)))"

lemma session_after_Nil [simp]: "session_after 0 0 [] s = s"
  by (simp add: session_after_def)

lemma session_after_after:
  "session_after n k rs (session_after n' k' rs' s) = session_after (n' + n) (k' + k) (rs' @ rs) s"
  by (simp add: session_after_def algebra_simps)

lemma trace_after_Nil [simp]: "trace_after c h [] t = t"
  by (auto simp: trace_after_def split: option.splits)

lemma trace_after_after: "trace_after c h rs (trace_after c h rs' t) = trace_after c h (rs' @ rs) t"
  by (auto simp: trace_after_def add_all_def split: option.splits)

lemma add_range_after:
  "add_referenced_page_range c h start len (s, t)
    = (session_after 0 0 [(start, len)] s, trace_after c h [(start, len)] t)"
  by (auto simp: add_referenced_page_range_def session_after_def trace_after_def range_record_def
      split: option.splits)

lemma walk_page_run:
  assumes "PageReferenced pages i = r" and "run_page (i, r) v = (rs, v')"
  shows "walk_page c h i (v, pages, s, t)
    = (v', ClearPageReferenced i pages, session_after 1 (if r then 1 else 0) rs s, trace_after c h rs t)"
  using assms
  by (auto simp: walk_page_def run_page_def add_range_after Let_def session_after_def
      split: if_splits)

text \<open>The unprocessed part of a tree is read as it is, the processed part has its bits cleared.\<close>

abbreviation cleared :: "page_tree \<Rightarrow> page_tree" where
  "cleared pages \<equiv> map (\<lambda>(i, r). (i, False)) pages"

lemma Clear_append: "ClearPageReferenced i (xs @ ys) = ClearPageReferenced i xs @ ClearPageReferenced i ys"
  by (simp add: ClearPageReferenced_def)

lemma Clear_other: "i \<notin> fst ` set pages \<Longrightarrow> ClearPageReferenced i pages = pages"
  by (induction pages) (auto simp: ClearPageReferenced_def)

lemma page_at:
  assumes "distinct (map fst (pre @ (i, r) # es))"
  shows "PageReferenced (pre @ (i, r) # es) i = r"
    and "ClearPageReferenced i (pre @ (i, r) # es) = (pre @ [(i, False)]) @ es"
proof -
  have i: "i \<notin> fst ` set pre" "i \<notin> fst ` set es" using assms by auto
  then have "map_of pre i = None" by (simp add: map_of_eq_None_iff)
  then show "PageReferenced (pre @ (i, r) # es) i = r"
    by (simp add: PageReferenced_def map_add_def)
  have "ClearPageReferenced i ((i, r) # es) = (i, False) # ClearPageReferenced i es"
    by (simp add: ClearPageReferenced_def)
  then show "ClearPageReferenced i (pre @ (i, r) # es) = (pre @ [(i, False)]) @ es"
    by (simp only: Clear_append Clear_other [OF i(1)] Clear_other [OF i(2)]) simp
qed

lemma fold_walk_page:
  assumes "distinct (map fst (pre @ es @ post))" and "run_pages es v = (rs, v')"
  shows "fold (walk_page c h) (map fst es) (v, pre @ es @ post, s, t)
    = (v', (pre @ cleared es) @ post, session_after (length es) (length (filter snd es)) rs s,
       trace_after c h rs t)"
  using assms
proof (induction es arbitrary: pre v rs s t)
  case Nil
  then show ?case by simp
next
  case (Cons e es)
  obtain i r where e: "e = (i, r)" by force
  obtain rs1 v1 where r1: "run_page (i, r) v = (rs1, v1)" by force
  obtain rs2 v2 where r2: "run_pages es v1 = (rs2, v2)" by force
  have res: "rs = rs1 @ rs2" "v' = v2" using Cons.prems(2) r1 r2 e by auto
  have d: "distinct (map fst (pre @ (i, r) # (es @ post)))" using Cons.prems(1) e by simp
  have d': "distinct (map fst ((pre @ [(i, False)]) @ es @ post))" using d by simp
  note w = walk_page_run [OF page_at(1) [OF d] r1, of c h s t]
  show ?case
    using Cons.IH [OF d', of v1 rs2] r2 res
    by (simp add: e w page_at(2) [OF d] session_after_after trace_after_after)
qed

section \<open>The loop\<close>

definition walk_ranges :: "(u32 \<times> bool) list \<Rightarrow> walk_vars \<Rightarrow> (u32 \<times> u32) list" where
  "walk_ranges es v =
     (case run_pages es v of (rs, v') \<Rightarrow>
        rs @ (if w_previous v' then [(w_start v', w_len v')] else []))"

lemma run_page_page0: "run_page e v = (rs, v') \<Longrightarrow> page0_set v \<Longrightarrow> page0_set v'"
  by (auto simp: run_page_def split: if_splits)

lemma run_pages_page0: "run_pages es v = (rs, v') \<Longrightarrow> page0_set v \<Longrightarrow> page0_set v'"
  by (induction es arbitrary: v rs) (auto split: prod.splits dest: run_page_page0)

lemma run_page_key: "run_page e v = (rs, v') \<Longrightarrow> w_start v' + w_len v' = fst e + 1"
  by (auto simp: run_page_def split: if_splits)

lemma run_pages_key:
  "run_pages es v = (rs, v') \<Longrightarrow> es \<noteq> [] \<Longrightarrow> w_start v' + w_len v' = fst (List.last es) + 1"
proof (induction es arbitrary: v rs)
  case (Cons e es)
  then show ?case
    by (cases "es = []") (auto split: prod.splits dest: run_page_key)
qed simp

lemma run_pages_append:
  "run_pages (es @ es') v =
     (case run_pages es v of (rs, v') \<Rightarrow> (case run_pages es' v' of (rs', v'') \<Rightarrow> (rs @ rs', v'')))"
  by (induction es arbitrary: v) (auto split: prod.splits)

lemma walk_ranges_append:
  "run_pages es v = (rs, v') \<Longrightarrow> walk_ranges (es @ es') v = rs @ walk_ranges es' v'"
  by (auto simp: walk_ranges_def run_pages_append split: prod.splits)

lemma next_key:
  assumes "i < (- 1 :: u32)"
  shows "j < i + 1 \<longleftrightarrow> j \<le> i"
proof -
  have "unat (i + 1) = unat i + 1" using unat_inc [OF assms] .
  then show ?thesis by (auto simp: word_less_nat_alt word_le_nat_alt)
qed

lemma sorted_pages_distinct: "sorted_pages pages \<Longrightarrow> distinct (map fst pages)"
  by (simp add: sorted_pages_def strict_sorted_iff)

text \<open>The rest of the pages is found from the key \<open>start + len\<close> on.\<close>

definition split_at :: "page_tree \<Rightarrow> page_tree \<Rightarrow> u32 \<Rightarrow> bool" where
  "split_at pre es key \<longleftrightarrow> sorted_pages (pre @ es) \<and> (\<forall>e\<in>set pre. fst e < key)
     \<and> (\<forall>e\<in>set es. key \<le> fst e) \<and> (\<forall>e\<in>set es. fst e < - 1)"

lemma split_at_take:
  assumes "split_at pre es key" and "0 < n" and "es \<noteq> []"
  shows "split_at (pre @ cleared (take n es)) (drop n es) (fst (List.last (take n es)) + 1)"
proof -
  let ?b = "take n es" and ?r = "drop n es"
  have b: "?b \<noteq> []" using assms(2,3) by simp
  let ?i = "fst (List.last ?b)"
  have li: "List.last ?b \<in> set ?b" using b by simp
  have imax: "?i < - 1" using assms(1) li by (meson split_at_def in_set_takeD)
  have so: "sorted_wrt (<) (map fst pre @ map fst ?b @ map fst ?r)"
    using assms(1) unfolding split_at_def sorted_pages_def
    by (metis append_take_drop_id map_append)
  have keys: "map fst (cleared ?b) = map fst ?b" by auto
  have "fst e \<le> ?i" if "e \<in> set ?b" for e
  proof -
    have "map fst ?b = map fst (butlast ?b) @ [?i]"
      using b by (metis append_butlast_last_id list.simps(8,9) map_append)
    then have "sorted_wrt (<) (map fst (butlast ?b) @ [?i])" using so by (simp add: sorted_wrt_append)
    moreover have "e \<in> set (butlast ?b) \<or> e = List.last ?b"
      using that append_butlast_last_id [OF b] by (metis Un_iff empty_iff insert_iff list.set set_append)
    ultimately show ?thesis by (auto simp: sorted_wrt_append)
  qed
  moreover have "fst e < ?i" if "e \<in> set pre" for e
  proof -
    have "List.last ?b \<in> set es" using li by (meson in_set_takeD)
    then show ?thesis using assms(1) that unfolding split_at_def by (meson less_le_trans)
  qed
  moreover have "?i < fst e" if "e \<in> set ?r" for e
    using so that li by (auto simp: sorted_wrt_append)
  moreover have "fst e < - 1" if "e \<in> set ?r" for e
    using assms(1) that by (meson split_at_def in_set_dropD)
  moreover have "sorted_pages (pre @ cleared ?b @ ?r)"
    using so by (simp only: sorted_pages_def map_append keys append_assoc)
  ultimately show ?thesis
    using next_key [OF imax] by (auto simp: split_at_def not_less [symmetric] dest: order.asym)
qed

context radix_tree begin

lemma lookup_rest:
  assumes "split_at pre es key"
  shows "\<exists>n>0. lookup (pre @ es) key = map fst (take n es)"
proof -
  have "filter (\<lambda>i. key \<le> i) (map fst (pre @ es)) = map fst es"
    using assms by (auto simp: split_at_def filter_empty_conv not_le filter_id_conv)
  then show ?thesis
    using lookup_prefix [of "pre @ es" key] assms by (auto simp: split_at_def take_map)
qed

lemma walk_loop_rest:
  assumes "split_at pre es (w_start v + w_len v)" and "page0_set v" and "length es < fuel"
  shows "walk_file_cache_loop lookup c h fuel (v, pre @ es, s, t)
    = Some (pre @ cleared es,
        session_after (length es) (length (filter snd es)) (walk_ranges es v) s,
        trace_after c h (walk_ranges es v) t)"
  using assms
proof (induction fuel arbitrary: pre es v s t)
  case (Suc fuel)
  obtain n where n: "0 < n" "lookup (pre @ es) (w_start v + w_len v) = map fst (take n es)"
    using lookup_rest [OF Suc.prems(1)] by blast
  show ?case
  proof (cases "es = []")
    case True
    then show ?thesis
      using n by (simp add: walk_ranges_def add_range_after)
  next
    case False
    let ?b = "take n es" and ?r = "drop n es"
    have b: "?b \<noteq> []" using n(1) False by simp
    obtain rs v' where run: "run_pages ?b v = (rs, v')" by force
    have d: "distinct (map fst (pre @ ?b @ ?r))"
      using Suc.prems(1) sorted_pages_distinct [of "pre @ es"]
      by (simp only: append_take_drop_id split_at_def)
    have key: "w_start v' + w_len v' = fst (List.last ?b) + 1" by (rule run_pages_key [OF run b])
    have split': "split_at (pre @ cleared ?b) ?r (w_start v' + w_len v')"
      unfolding key by (rule split_at_take [OF Suc.prems(1) n(1) False])
    have fuel: "length ?r < fuel" using Suc.prems(3) n(1) False by (cases es) auto
    have es: "?b @ ?r = es" by simp
    have "walk_file_cache_loop lookup c h (Suc fuel) (v, pre @ es, s, t)
        = walk_file_cache_loop lookup c h fuel
            (fold (walk_page c h) (map fst ?b) (v, pre @ ?b @ ?r, s, t))"
      using n(2) b Suc.prems(2) by (simp add: Let_def)
    also have "\<dots> = Some ((pre @ cleared ?b) @ cleared ?r,
        session_after (length ?r) (length (filter snd ?r)) (walk_ranges ?r v')
          (session_after (length ?b) (length (filter snd ?b)) rs s),
        trace_after c h (walk_ranges ?r v') (trace_after c h rs t))"
      unfolding fold_walk_page [OF d run]
      by (rule Suc.IH [OF split' run_pages_page0 [OF run Suc.prems(2)] fuel])
    also have "\<dots> = Some (pre @ cleared es,
        session_after (length es) (length (filter snd es)) (walk_ranges es v) s,
        trace_after c h (walk_ranges es v) t)"
    proof -
      have len: "min (length es) n + (length es - n) = length es" by arith
      then show ?thesis
        using walk_ranges_append [OF run, of ?r]
        by (simp add: session_after_after trace_after_after es flip: length_append filter_append map_append)
    qed
    finally show ?thesis .
  qed
qed simp

end

section \<open>The ranges as maximal runs\<close>

text \<open>The runs of consecutive referenced pages, built from the end of the tree.\<close>

fun referenced_runs :: "page_tree \<Rightarrow> (u32 \<times> u32) list" where
  "referenced_runs [] = []"
| "referenced_runs ((i, r) # es) =
     (if \<not> r then referenced_runs es
      else (case referenced_runs es of
              [] \<Rightarrow> [(i, 1)]
            | (s, l) # rs \<Rightarrow> if s = i + 1 then (i, l + 1) # rs else (i, 1) # (s, l) # rs))"

text \<open>The ranges that the walk of a whole tree reports.\<close>

definition file_ranges :: "page_tree \<Rightarrow> (u32 \<times> u32) list" where
  "file_ranges pages =
     (case pages of
        [] \<Rightarrow> []
      | (i, r) # _ \<Rightarrow> (if r \<and> i \<noteq> 0 then [(0, 0)] else []) @ referenced_runs pages)"

lemma referenced_runs_keys: "(s, l) \<in> set (referenced_runs es) \<Longrightarrow> s \<in> fst ` set es"
  by (induction es rule: referenced_runs.induct)
    (force split: if_splits list.splits)+

text \<open>A run that is open when the rest of the tree is reached.\<close>

definition open_run :: "u32 \<Rightarrow> u32 \<Rightarrow> (u32 \<times> u32) list \<Rightarrow> (u32 \<times> u32) list" where
  "open_run start len rs =
     (case rs of
        [] \<Rightarrow> [(start, len)]
      | (s, l) # rs' \<Rightarrow> if s = start + len then (start, len + l) # rs' else (start, len) # rs)"

lemma referenced_runs_True: "referenced_runs ((i, True) # es) = open_run i 1 (referenced_runs es)"
  by (auto simp: open_run_def add.commute split: list.splits)

lemma referenced_runs_False: "referenced_runs ((i, False) # es) = referenced_runs es"
  by simp

lemma split_at_Cons:
  assumes "split_at [] ((i, r) # es) key"
  shows "split_at [] es (i + 1)" and "key \<le> i" and "\<forall>e\<in>set es. key < fst e" and "\<forall>e\<in>set es. i < fst e"
proof -
  have "i < - 1" using assms by (simp add: split_at_def)
  note nk = next_key [OF this]
  show g: "\<forall>e\<in>set es. i < fst e" using assms by (auto simp: split_at_def sorted_pages_def)
  show "key \<le> i" using assms by (simp add: split_at_def)
  then show "\<forall>e\<in>set es. key < fst e" using g by (meson le_less_trans)
  show "split_at [] es (i + 1)"
    using assms g nk by (auto simp: split_at_def sorted_pages_def not_less [symmetric] dest: order.asym)
qed

lemma walk_ranges_Cons:
  "run_page e v = (rs, v') \<Longrightarrow> walk_ranges (e # es) v = rs @ walk_ranges es v'"
  by (auto simp: walk_ranges_def split: prod.splits)

lemma open_run_join:
  "open_run start len (open_run (start + len) 1 rs) = open_run start (len + 1) rs"
  by (auto simp: open_run_def algebra_simps split: list.splits)

lemma open_run_apart:
  "i \<noteq> start + len \<Longrightarrow> open_run start len (open_run i 1 rs) = (start, len) # open_run i 1 rs"
  by (auto simp: open_run_def split: list.splits)

lemma open_run_skip:
  "\<forall>(s, l)\<in>set rs. s \<noteq> start + len \<Longrightarrow> open_run start len rs = (start, len) # rs"
  by (auto simp: open_run_def split: list.splits)

lemma walk_ranges_runs:
  assumes "split_at [] es (w_start v + w_len v)"
  shows "walk_ranges es v =
    (if w_previous v then open_run (w_start v) (w_len v) (referenced_runs es) else referenced_runs es)"
  using assms
proof (induction es arbitrary: v)
  case Nil
  then show ?case by (simp add: walk_ranges_def open_run_def)
next
  case (Cons e es)
  obtain i r where e: "e = (i, r)" by force
  note sc = split_at_Cons [OF Cons.prems [unfolded e]]
  obtain rs v' where run: "run_page (i, r) v = (rs, v')" by force
  have key: "w_start v' + w_len v' = i + 1" using run_page_key [OF run] by simp
  note ih = Cons.IH [of v', unfolded key, OF sc(1)]
  have apart: "\<forall>(s, l)\<in>set (referenced_runs es). s \<noteq> w_start v + w_len v"
    using sc(3) referenced_runs_keys by fastforce
  have wr: "walk_ranges (e # es) v = rs @ walk_ranges es v'"
    using walk_ranges_Cons [OF run] e by simp
  have rr: "referenced_runs (e # es) = (if r then open_run i 1 (referenced_runs es) else referenced_runs es)"
    using referenced_runs_True [of i es] by (simp add: e)
  show ?case
  proof (cases "i = w_start v + w_len v \<and> w_previous v = r")
    case True
    then have "rs = []" "v' = v\<lparr>w_len := w_len v + 1, w_previous := r\<rparr>"
      using run by (auto simp: run_page_def)
    then show ?thesis
      unfolding wr rr using ih True by (cases r) (simp_all add: open_run_join)
  next
    case False
    then have v': "rs = (if w_previous v then [(w_start v, w_len v)] else [])"
      "v' = v\<lparr>page0_set := True, w_start := i, w_len := 1, w_previous := r\<rparr>"
      using run by (auto simp: run_page_def)
    show ?thesis
      unfolding wr rr
      using ih v' False open_run_apart [of i "w_start v" "w_len v"] open_run_skip [OF apart]
      by (cases r; cases "w_previous v") simp_all
  qed
qed

text \<open>Ranges that lie apart: none is empty and there is a gap between two of them.\<close>

definition apart :: "(u32 \<times> u32) list \<Rightarrow> bool" where
  "apart rs \<longleftrightarrow> (\<forall>(s, l)\<in>set rs. l \<noteq> 0 \<and> no_wrap s l)
     \<and> sorted_wrt (\<lambda>(s, l) (s', l'). unat s + unat l < unat s') rs"

definition pages_of :: "(u32 \<times> u32) list \<Rightarrow> nat set" where
  "pages_of rs = (\<Union>(s, l)\<in>set rs. span s l)"

definition referenced :: "page_tree \<Rightarrow> nat set" where
  "referenced pages = {unat i | i. (i, True) \<in> set pages}"

lemma pages_of_simps [simp]: "pages_of [] = {}" "pages_of ((s, l) # rs) = span s l \<union> pages_of rs"
  by (auto simp: pages_of_def)

lemma referenced_simps [simp]:
  "referenced [] = {}" "referenced ((i, r) # es) = (if r then {unat i} else {}) \<union> referenced es"
  by (auto simp: referenced_def)

lemma span_join:
  assumes "unat (s::u32) = unat i + 1" and "unat (l + 1) = unat l + 1"
  shows "span i (l + 1) = insert (unat i) (span s l)"
  using assms by (auto simp: span_def)

lemma referenced_runs_correct:
  "split_at [] es key \<Longrightarrow> apart (referenced_runs es) \<and> pages_of (referenced_runs es) = referenced es"
proof (induction es arbitrary: key)
  case Nil
  then show ?case by (simp add: apart_def)
next
  case (Cons e es)
  obtain i r where e: "e = (i, r)" by force
  note sc = split_at_Cons [OF Cons.prems [unfolded e]]
  note ih = Cons.IH [OF sc(1)]
  have "i < - 1" using Cons.prems by (simp add: split_at_def e)
  note ui = unat_inc [OF this]
  show ?case
  proof (cases "r \<and> referenced_runs es \<noteq> []")
    case False
    have "unat i + 1 < 2 ^ LENGTH(32)" using unsigned_less [of "i + 1", where ?'a = nat] ui by simp
    then show ?thesis
      using ih False by (auto simp: e apart_def no_wrap_def span_def)
  next
    case True
    then obtain s l rs where runs: "referenced_runs es = (s, l) # rs" by (cases "referenced_runs es") auto
    have "s \<in> fst ` set es" using referenced_runs_keys [of s l es] runs by simp
    then have less: "unat i < unat s" using sc(4) by (auto simp: word_less_nat_alt)
    have a: "l \<noteq> 0" "no_wrap s l" using ih runs by (auto simp: apart_def)
    have bound: "unat s + unat l < 2 ^ 32" using a(2) by (simp add: no_wrap_def)
    then have l1: "unat (l + 1) = unat l + 1" using less by (simp add: unat_word_ariths)
    have un: "unat (i + 1) \<le> unat s" using ui less by simp
    show ?thesis
    proof (cases "s = i + 1")
      case s: True
      have su: "unat s = unat i + 1" using ui s by simp
      have "l + 1 \<noteq> 0" using l1 by auto
      moreover have "no_wrap i (l + 1)" using bound su l1 by (simp add: no_wrap_def)
      ultimately have "apart ((i, l + 1) # rs)"
        using ih runs su l1 by (auto simp: apart_def)
      then show ?thesis
        using ih runs True s span_join [OF su l1] by (simp add: e)
    next
      case s: False
      have "unat i + 1 < unat s" using s un ui by (metis le_neq_implies_less word_unat_eq_iff)
      moreover have "no_wrap i 1" using bound less by (simp add: no_wrap_def)
      ultimately have "apart ((i, 1) # (s, l) # rs)"
        using ih runs by (fastforce simp: apart_def)
      then show ?thesis
        using ih runs True s by (auto simp: e span_def)
    qed
  qed
qed

section \<open>The whole walk\<close>

lemma sum_open_run: "sum_list (map snd (open_run s l rs)) = l + sum_list (map snd rs)"
  by (auto simp: open_run_def add.assoc split: list.splits)

lemma sum_referenced_runs:
  "sum_list (map snd (referenced_runs es)) = of_nat (length (filter snd es))"
proof (induction es)
  case (Cons e es)
  obtain i r where e: "e = (i, r)" by force
  show ?case
    by (cases r)
      (simp_all add: e referenced_runs_True sum_open_run Cons.IH del: referenced_runs.simps(2),
       simp add: Cons.IH)
qed simp

lemma sum_file_ranges: "sum_list (map snd (file_ranges es)) = of_nat (length (filter snd es))"
  by (cases es) (auto simp: file_ranges_def sum_referenced_runs simp del: referenced_runs.simps)

lemma file_ranges_open:
  "open_run 0 0 (open_run i 1 rs) = (if i \<noteq> 0 then [(0, 0)] else []) @ open_run i 1 rs"
  by (auto simp: open_run_def split: list.splits)

lemma walk_keys:
  "map fst (fst (snd (fold (walk_page c h) is st))) = map fst (fst (snd st))"
proof (induction "is" arbitrary: st)
  case (Cons i "is")
  have "map fst (fst (snd (walk_page c h i st))) = map fst (fst (snd st))"
    by (cases st) (auto simp: walk_page_def ClearPageReferenced_def Let_def)
  then show ?case using Cons.IH by simp
qed simp

context radix_tree begin

lemma walk_file_cache_result:
  assumes "split_at [] (page_tree m) 0" and "length (page_tree m) < fuel"
  shows "walk_file_cache lookup c fuel m (s, t)
    = Some (m\<lparr>page_tree := cleared (page_tree m)\<rparr>,
        session_after (length (page_tree m)) (length (filter snd (page_tree m))) (file_ranges (page_tree m)) s,
        trace_after c (host m) (file_ranges (page_tree m)) t)"
proof -
  let ?es = "page_tree m"
  obtain f where f: "fuel = Suc f" using assms(2) by (cases fuel) auto
  have key: "w_start walk_start + w_len walk_start = 0" "\<not> page0_set walk_start" "\<not> w_previous walk_start"
    by (simp_all add: walk_start_def)
  obtain n where n: "0 < n" "lookup ?es 0 = map fst (take n ?es)"
    using lookup_rest [OF assms(1)] by auto
  show ?thesis
  proof (cases ?es)
    case Nil
    then show ?thesis
      using n by (simp add: walk_file_cache_def f key file_ranges_def)
  next
    case (Cons e es)
    obtain i r where e: "e = (i, r)" by force
    define v0 where "v0 = walk_start\<lparr>page0_set := True, w_previous := r\<rparr>"
    have v0: "page0_set v0" "w_start v0 + w_len v0 = 0" "w_previous v0 = r" "w_start v0 = 0" "w_len v0 = 0"
      by (simp_all add: v0_def walk_start_def)
    have d: "distinct (map fst ?es)" using assms(1) by (auto simp: split_at_def dest: sorted_pages_distinct)
    have r: "PageReferenced ?es i = r"
      using page_at(1) [of "[]" i r es] d Cons e by simp
    obtain k where k: "n = Suc k" using n(1) by (cases n) auto
    have pv: "lookup ?es 0 \<noteq> []" "hd (lookup ?es 0) = i" using n(2) Cons e k by simp_all
    have "walk_file_cache_loop lookup c (host m) fuel (walk_start, ?es, s, t)
        = walk_file_cache_loop lookup c (host m) fuel (v0, ?es, s, t)"
      using pv r key v0 by (simp add: f Let_def v0_def)
    also have "\<dots> = Some (cleared ?es,
        session_after (length ?es) (length (filter snd ?es)) (walk_ranges ?es v0) s,
        trace_after c (host m) (walk_ranges ?es v0) t)"
      using walk_loop_rest [of "[]" ?es v0] assms v0 by simp
    also have "walk_ranges ?es v0 = file_ranges ?es"
    proof -
      have "walk_ranges ?es v0 = (if r then open_run 0 0 (referenced_runs ?es) else referenced_runs ?es)"
        using walk_ranges_runs [of ?es v0] assms(1) v0 by simp
      then show ?thesis
        by (cases r) (simp_all add: file_ranges_def Cons e file_ranges_open referenced_runs_True
            referenced_runs_False del: referenced_runs.simps(2))
    qed
    finally show ?thesis by (simp add: walk_file_cache_def)
  qed
qed

lemma walk_last_index:
  assumes "sorted_pages pages" and "- 1 \<in> fst ` set pages"
  shows "walk_file_cache_loop lookup c h fuel (v, pages, s, t) = None"
  using assms
proof (induction fuel arbitrary: v pages s t)
  case (Suc fuel)
  let ?key = "w_start v + w_len v"
  obtain n where n: "n > 0" "lookup pages ?key = take n (filter (\<lambda>i. ?key \<le> i) (map fst pages))"
    using lookup_prefix [OF Suc.prems(1)] by blast
  have "- 1 \<in> set (filter (\<lambda>i. ?key \<le> i) (map fst pages))"
    using Suc.prems(2) by simp
  then have "filter (\<lambda>i. ?key \<le> i) (map fst pages) \<noteq> []" by fastforce
  then have pv: "lookup pages ?key \<noteq> []" using n by simp
  define v0 where "v0 = (if page0_set v then v
    else v\<lparr>page0_set := True, w_previous := PageReferenced pages (hd (lookup pages ?key))\<rparr>)"
  obtain v' pages' s' t' where fd:
    "fold (walk_page c h) (lookup pages ?key) (v0, pages, s, t) = (v', pages', s', t')"
    by (metis prod_cases4)
  have keys: "map fst pages' = map fst pages"
    using walk_keys [of c h "lookup pages ?key" "(v0, pages, s, t)"] fd by simp
  have "sorted_pages pages'" "- 1 \<in> fst ` set pages'"
    using Suc.prems keys by (simp_all add: sorted_pages_def flip: set_map)
  from Suc.IH [OF this] show ?case
    using pv fd by (simp add: Let_def v0_def)
qed simp

end

lemma file_ranges_runs:
  "file_ranges pages = (if pages \<noteq> [] \<and> snd (hd pages) \<and> fst (hd pages) \<noteq> 0 then [(0, 0)] else [])
     @ referenced_runs pages"
  by (cases pages) (auto simp: file_ranges_def simp del: referenced_runs.simps(2))

section \<open>Properties\<close>

lemma split_at_start:
  "split_at [] pages 0 \<longleftrightarrow> sorted_pages pages \<and> - 1 \<notin> fst ` set pages"
proof -
  have "i \<noteq> - 1 \<longleftrightarrow> i < - 1" for i :: u32
    using word_order.extremum [of i] by (auto simp: le_less)
  then show ?thesis by (force simp: split_at_def)
qed

text \<open>
  C8: the walk of a mapping with the pages below the last index ends with all referenced bits
  cleared; outside a clearing run it appends one record per maximal run of referenced pages, in
  order: the runs lie apart and cover exactly the pages that were referenced. The one deviation is a
  record of length 0 at page 0 in front, when the first cached page is referenced and is not page 0.
\<close>

theorem walk_file_cache_records:
  assumes "radix_tree lookup" and "sorted_pages (page_tree m)" and "- 1 \<notin> fst ` set (page_tree m)"
    and "length (page_tree m) < fuel"
    and "host m = Some \<lparr>i_ino = ino, i_bdev = Some dev\<rparr>"
  shows "\<exists>s' zero ranges.
      walk_file_cache lookup False fuel m (s, t)
        = Some (m\<lparr>page_tree := map (\<lambda>(i, r). (i, False)) (page_tree m)\<rparr>, s',
            add_all (map (range_record dev ino) (zero @ ranges)) t)
      \<and> apart ranges \<and> pages_of ranges = referenced (page_tree m)
      \<and> zero = (if page_tree m \<noteq> [] \<and> snd (hd (page_tree m)) \<and> fst (hd (page_tree m)) \<noteq> 0
                then [(0, 0)] else [])"
proof -
  have sp: "split_at [] (page_tree m) 0" using assms(2,3) by (simp add: split_at_start)
  show ?thesis
    using radix_tree.walk_file_cache_result [OF assms(1) sp assms(4)] assms(5)
      referenced_runs_correct [OF sp] file_ranges_runs [of "page_tree m"]
    by (auto simp: trace_after_def)
qed

definition sample_mapping :: address_space where
  "sample_mapping = \<lparr>host = Some \<lparr>i_ino = 11, i_bdev = Some 8\<rparr>,
     page_tree = [(3, True), (4, True), (6, False), (7, True)]\<rparr>"

lemma walk_file_cache_records_witness:
  "\<exists>s' zero ranges.
      walk_file_cache (list_lookup 14) False 5 sample_mapping (new_session, sample_trace)
        = Some (sample_mapping\<lparr>page_tree := [(3, False), (4, False), (6, False), (7, False)]\<rparr>, s',
            add_all (map (range_record 8 11) (zero @ ranges)) sample_trace)
      \<and> apart ranges \<and> pages_of ranges = {3, 4, 7} \<and> zero = [(0, 0)]"
  using walk_file_cache_records [of "list_lookup 14" sample_mapping 5 11 8 new_session sample_trace]
    pagevec.radix_tree_axioms
  by (simp add: sample_mapping_def sorted_pages_def insert_commute)

text \<open>
  C16: the walk ends exactly when no page has the last index: such a page makes \<open>start + len\<close> wrap
  to 0 and the lookup start again from the first page, for ever.
\<close>

theorem walk_file_cache_terminates_iff:
  assumes "radix_tree lookup" and "sorted_pages (page_tree m)"
  shows "(\<exists>fuel. walk_file_cache lookup clearing fuel m st \<noteq> None)
    \<longleftrightarrow> - 1 \<notin> fst ` set (page_tree m)"
proof
  assume "- 1 \<notin> fst ` set (page_tree m)"
  then have "split_at [] (page_tree m) 0" using assms(2) by (simp add: split_at_start)
  from radix_tree.walk_file_cache_result [OF assms(1) this lessI, of clearing "fst st" "snd st"]
  show "\<exists>fuel. walk_file_cache lookup clearing fuel m st \<noteq> None"
    by (intro exI [of _ "Suc (length (page_tree m))"]) simp
next
  assume some: "\<exists>fuel. walk_file_cache lookup clearing fuel m st \<noteq> None"
  show "- 1 \<notin> fst ` set (page_tree m)"
  proof
    assume "- 1 \<in> fst ` set (page_tree m)"
    from radix_tree.walk_last_index [OF assms this] some show False
      by (cases st) (simp add: walk_file_cache_def)
  qed
qed

lemma walk_file_cache_terminates_iff_witness:
  "\<exists>fuel. walk_file_cache (list_lookup 14) False fuel sample_mapping (new_session, sample_trace) \<noteq> None"
  using walk_file_cache_terminates_iff [of "list_lookup 14" sample_mapping False]
    pagevec.radix_tree_axioms
  by (simp add: sample_mapping_def sorted_pages_def)

text \<open>
  A clearing run (the first tracer starts) leaves the trace alone; in every run the count of
  referenced pages that the ranges add up to is the one that is counted page by page for
  debugging, and each page is walked once.
\<close>

theorem walk_file_cache_counters:
  assumes "radix_tree lookup" and "sorted_pages (page_tree m)" and "- 1 \<notin> fst ` set (page_tree m)"
    and "length (page_tree m) < fuel"
    and "walk_file_cache lookup clearing fuel m (s, t) = Some (m', s', t')"
  shows "(clearing \<longrightarrow> t' = t)
    \<and> pages_referenced s' - pages_referenced s = pages_referenced_debug s' - pages_referenced_debug s
    \<and> pages_walked s' = pages_walked s + of_nat (length (page_tree m))
    \<and> referenced (page_tree m') = {} \<and> map fst (page_tree m') = map fst (page_tree m)"
proof -
  have sp: "split_at [] (page_tree m) 0" using assms(2,3) by (simp add: split_at_start)
  note res = radix_tree.walk_file_cache_result [OF assms(1) sp assms(4), of clearing s t]
  have "s' = session_after (length (page_tree m)) (length (filter snd (page_tree m)))
      (file_ranges (page_tree m)) s"
    and "t' = trace_after clearing (host m) (file_ranges (page_tree m)) t"
    and m': "m' = m\<lparr>page_tree := cleared (page_tree m)\<rparr>"
    using res assms(5) by simp_all
  moreover have "referenced (page_tree m') = {}" "map fst (page_tree m') = map fst (page_tree m)"
    by (auto simp: m' referenced_def)
  ultimately show ?thesis
    by (simp add: trace_after_def session_after_def sum_file_ranges)
qed

lemma walk_file_cache_counters_witness:
  "\<exists>m' s' t'. walk_file_cache (list_lookup 14) True 5 sample_mapping (new_session, sample_trace)
      = Some (m', s', t') \<and> t' = sample_trace \<and> pages_referenced s' = pages_referenced_debug s'
      \<and> pages_walked s' = 4 \<and> referenced (page_tree m') = {}"
proof -
  have sp: "sorted_pages (page_tree sample_mapping)" "- 1 \<notin> fst ` set (page_tree sample_mapping)"
    "length (page_tree sample_mapping) < 5"
    by (simp_all add: sample_mapping_def sorted_pages_def)
  have "split_at [] (page_tree sample_mapping) 0" using sp by (simp add: split_at_start)
  from pagevec.walk_file_cache_result [OF this sp(3), of True new_session sample_trace]
  obtain m' s' t' where res: "walk_file_cache (list_lookup 14) True 5 sample_mapping
      (new_session, sample_trace) = Some (m', s', t')" by blast
  moreover have "t' = sample_trace \<and> pages_referenced s' = pages_referenced_debug s'
      \<and> pages_walked s' = 4 \<and> referenced (page_tree m') = {}"
    using walk_file_cache_counters [OF pagevec.radix_tree_axioms sp res]
    by (simp add: new_session_def sample_mapping_def)
  ultimately show ?thesis by blast
qed

end
