(* ===== verification/Kernel_Inodes.thy ===== *)
theory Kernel_Inodes
  imports Kernel_Walk
begin

text \<open>
  The walk over all inodes (\<open>prefetch.c\<close>: \<open>ivec_full\<close> to \<open>ivec_inode\<close> and
  \<open>inode_walk_start\<close> to \<open>inode_walk_next\<close>). Positions number the inodes that are in use; a
  window of \<open>IVEC_SIZE\<close> inode pointers is filled by traversing the kernel's inode lists, either
  from their heads or, when the last inode handed out is clean, from that inode on. Inodes and
  mappings are addresses (natural numbers), lists of inodes are lists of addresses. The size of a
  page and the flag \<open>I_DIRTY\<close> of the kernel are parameters.
\<close>

section \<open>Inode lists\<close>

record kinode =
  i_count :: int
  i_state :: u32
  i_mapping :: "nat option"

text \<open>
  \<open>i_mapping\<close> is the address of the inode's \<open>address_space\<close>; several inodes may share one.
  A super block is its lists \<open>s_dirty\<close> and \<open>s_io\<close>.
\<close>

record kernel =
  super_blocks :: "(nat list \<times> nat list) list"
  inode_in_use :: "nat list"
  inode_unused :: "nat list"
  inode_at :: "nat \<Rightarrow> kinode"

record kernel_config =
  PAGE_SIZE :: nat
  I_DIRTY :: u32

definition IVEC_SIZE :: "kernel_config \<Rightarrow> nat" where
  "IVEC_SIZE cfg = PAGE_SIZE cfg div 4"

text \<open>
  The cursors of \<open>struct session\<close>: \<open>ivec.cursor\<close>, \<open>ivec.origin\<close>, the filled part of
  \<open>ivec.inodes\<close> (its length is \<open>ivec.size\<close>), and \<open>icur\<close>.
\<close>

record inode_cursor =
  ivec_cursor :: nat
  ivec_origin :: nat
  ivec_inodes :: "nat list"
  icur_pos :: nat
  icur_state :: u32
  icur_inode :: "nat option"
  icur_pinned :: "nat option"

definition new_cursor :: inode_cursor where
  "new_cursor = \<lparr>ivec_cursor = 0, ivec_origin = 0, ivec_inodes = [], icur_pos = 0, icur_state = 0,
     icur_inode = None, icur_pinned = None\<rparr>"

section \<open>Filling the window\<close>

definition ivec_full :: "inode_cursor \<Rightarrow> bool" where
  "ivec_full s \<longleftrightarrow> ivec_cursor s = 0 \<or> ivec_cursor s > ivec_origin s + length (ivec_inodes s)"

text \<open>The result says whether the window is full (the C function returns 1).\<close>

definition ivec_push ::
  "kernel_config \<Rightarrow> (nat \<Rightarrow> kinode) \<Rightarrow> nat \<Rightarrow> inode_cursor \<Rightarrow> bool \<times> inode_cursor" where
  "ivec_push cfg store inode s =
     (if i_count (store inode) = 0 then (False, s)
      else if i_mapping (store inode) = None then (False, s)
      else
        (let s = s\<lparr>ivec_cursor := ivec_cursor s + 1\<rparr> in
         if length (ivec_inodes s) \<ge> IVEC_SIZE cfg then (True, s)
         else if ivec_cursor s > ivec_origin s then (False, s\<lparr>ivec_inodes := ivec_inodes s @ [inode]\<rparr>)
         else (False, s)))"

fun push_list ::
  "kernel_config \<Rightarrow> (nat \<Rightarrow> kinode) \<Rightarrow> nat list \<Rightarrow> inode_cursor \<Rightarrow> bool \<times> inode_cursor" where
  "push_list cfg store [] s = (False, s)"
| "push_list cfg store (inode # inodes) s =
     (case ivec_push cfg store inode s of
        (True, s') \<Rightarrow> (True, s')
      | (False, s') \<Rightarrow> push_list cfg store inodes s')"

text \<open>
  The lists from their heads; and the part of \<open>inode_in_use\<close> behind a saved inode, then
  \<open>inode_unused\<close>: the jump into the loop continues with the list pointer of the saved inode.
\<close>

definition all_inodes :: "kernel \<Rightarrow> nat list" where
  "all_inodes k = concat (map (\<lambda>(s_dirty, s_io). s_dirty @ s_io) (super_blocks k))
     @ inode_in_use k @ inode_unused k"

definition behind :: "nat \<Rightarrow> nat list \<Rightarrow> nat list" where
  "behind inode inodes = tl (dropWhile (\<lambda>i. i \<noteq> inode) inodes)"

definition ivec_fill :: "kernel_config \<Rightarrow> kernel \<Rightarrow> nat \<Rightarrow> inode_cursor \<Rightarrow> inode_cursor" where
  "ivec_fill cfg k pos s =
     (let s = s\<lparr>ivec_origin := pos, ivec_cursor := 0, ivec_inodes := []\<rparr>;
          from_start = snd (push_list cfg (inode_at k) (all_inodes k) s)
      in case icur_inode s of
           None \<Rightarrow> from_start
         | Some saved \<Rightarrow>
             if pos \<ge> icur_pos s \<and> icur_state s AND I_DIRTY cfg = 0
                \<and> icur_state s = i_state (inode_at k saved)
             then snd (push_list cfg (inode_at k) (behind saved (inode_in_use k) @ inode_unused k)
                         (s\<lparr>ivec_cursor := icur_pos s\<rparr>))
             else from_start)"

definition ivec_inode ::
  "kernel_config \<Rightarrow> kernel \<Rightarrow> nat \<Rightarrow> inode_cursor \<Rightarrow> nat option \<times> inode_cursor" where
  "ivec_inode cfg k pos s =
     (let s = (if (ivec_full s \<and> pos \<ge> ivec_origin s + length (ivec_inodes s)) \<or> pos < ivec_origin s
               then ivec_fill cfg k pos s else s)
      in if pos \<ge> ivec_cursor s then (None, s)
         else
           (let inode = ivec_inodes s ! (pos - ivec_origin s)
            in (Some inode, s\<lparr>icur_pos := pos, icur_inode := Some inode\<rparr>)))"

section \<open>The steps of the walk\<close>

text \<open>
  \<open>inode_walk_start\<close> with the page for the window allocated; the lock and the reference counts
  of the pinned inodes are left out. The counter of the \<open>BUG_ON\<close> is always met by a new session.
\<close>

definition inode_walk_start ::
  "kernel_config \<Rightarrow> kernel \<Rightarrow> nat \<Rightarrow> inode_cursor \<Rightarrow> bool \<times> inode_cursor" where
  "inode_walk_start cfg k pos s =
     (let s = s\<lparr>ivec_inodes := [], icur_pinned := icur_inode s\<rparr>;
          (inode, s) = ivec_inode cfg k pos s
      in (inode \<noteq> None, s))"

definition inode_walk_next ::
  "kernel_config \<Rightarrow> kernel \<Rightarrow> nat \<Rightarrow> inode_cursor \<Rightarrow> nat \<times> bool \<times> inode_cursor" where
  "inode_walk_next cfg k pos s =
     (case ivec_inode cfg k (pos + 1) s of (inode, s) \<Rightarrow> (pos + 1, inode \<noteq> None, s))"

definition inode_walk_stop :: "kernel \<Rightarrow> inode_cursor \<Rightarrow> inode_cursor" where
  "inode_walk_stop k s =
     (case icur_inode s of
        None \<Rightarrow> s\<lparr>icur_pinned := None\<rparr>
      | Some inode \<Rightarrow> s\<lparr>icur_state := i_state (inode_at k inode), icur_pinned := None\<rparr>)"

text \<open>The mappings in memory, the session counters and the trace.\<close>

type_synonym walk_state = "(nat \<Rightarrow> address_space) \<times> session \<times> prefetch_trace_t"

definition show_inode ::
  "gang_lookup \<Rightarrow> bool \<Rightarrow> nat \<Rightarrow> kinode \<Rightarrow> walk_state \<Rightarrow> walk_state option" where
  "show_inode lookup clearing fuel inode st =
     (case st of (mem, s, t) \<Rightarrow>
       let s = s\<lparr>inodes_walked := inodes_walked s + 1\<rparr> in
       case i_mapping inode of
         None \<Rightarrow> Some (mem, s, t)
       | Some a \<Rightarrow>
           (case walk_file_cache lookup clearing fuel (mem a) (s, t) of
              None \<Rightarrow> None
            | Some (m', st') \<Rightarrow> Some (mem(a := m'), st')))"

text \<open>\<open>None\<close> is the \<open>BUG_ON\<close> for a position without inode, or a page walk out of fuel.\<close>

definition inode_walk_show ::
  "kernel_config \<Rightarrow> kernel \<Rightarrow> gang_lookup \<Rightarrow> bool \<Rightarrow> nat \<Rightarrow> nat \<Rightarrow> inode_cursor \<times> walk_state
     \<Rightarrow> (inode_cursor \<times> walk_state) option" where
  "inode_walk_show cfg k lookup clearing fuel pos st =
     (case st of (c, w) \<Rightarrow>
       case ivec_inode cfg k pos c of
         (None, c) \<Rightarrow> None
       | (Some inode, c) \<Rightarrow> map_option (Pair c) (show_inode lookup clearing fuel (inode_at k inode) w))"

text \<open>The \<open>while\<close> loop of \<open>walk_pages\<close>; \<open>again\<close> is \<open>retptr != NULL\<close>.\<close>

fun inode_walk_loop ::
  "kernel_config \<Rightarrow> kernel \<Rightarrow> gang_lookup \<Rightarrow> bool \<Rightarrow> nat \<Rightarrow> nat \<Rightarrow> nat \<Rightarrow> bool
     \<Rightarrow> inode_cursor \<times> walk_state \<Rightarrow> (inode_cursor \<times> walk_state) option" where
  "inode_walk_loop cfg k lookup clearing fuel 0 pos again st = None"
| "inode_walk_loop cfg k lookup clearing fuel (Suc n) pos again st =
     (if \<not> again then Some st
      else (case inode_walk_show cfg k lookup clearing fuel pos st of
              None \<Rightarrow> None
            | Some (c, w) \<Rightarrow>
                (case inode_walk_next cfg k pos c of
                   (pos, again, c) \<Rightarrow> inode_walk_loop cfg k lookup clearing fuel n pos again (c, w))))"

section \<open>The inodes that are visited\<close>

text \<open>The cursor alone: which inodes the loop shows.\<close>

fun visits ::
  "kernel_config \<Rightarrow> kernel \<Rightarrow> nat \<Rightarrow> nat \<Rightarrow> bool \<Rightarrow> inode_cursor \<Rightarrow> (nat list \<times> inode_cursor) option" where
  "visits cfg k 0 pos again c = None"
| "visits cfg k (Suc n) pos again c =
     (if \<not> again then Some ([], c)
      else (case ivec_inode cfg k pos c of
              (None, c) \<Rightarrow> None
            | (Some inode, c) \<Rightarrow>
                (case inode_walk_next cfg k pos c of
                   (pos, again, c) \<Rightarrow>
                     map_option (\<lambda>(is, c). (inode # is, c)) (visits cfg k n pos again c))))"

fun show_all ::
  "kernel \<Rightarrow> gang_lookup \<Rightarrow> bool \<Rightarrow> nat \<Rightarrow> nat list \<Rightarrow> walk_state \<Rightarrow> walk_state option" where
  "show_all k lookup clearing fuel [] w = Some w"
| "show_all k lookup clearing fuel (inode # inodes) w =
     Option.bind (show_inode lookup clearing fuel (inode_at k inode) w)
       (show_all k lookup clearing fuel inodes)"

lemma inode_walk_loop_visits:
  "visits cfg k n pos again c = Some (is, c') \<Longrightarrow>
   inode_walk_loop cfg k lookup clearing fuel n pos again (c, w)
     = map_option (Pair c') (show_all k lookup clearing fuel is w)"
proof (induction n arbitrary: pos again c "is" w)
  case (Suc n)
  show ?case
  proof (cases again)
    case False
    then show ?thesis using Suc.prems by simp
  next
    case True
    obtain inode c1 where i: "ivec_inode cfg k pos c = (Some inode, c1)"
      using Suc.prems True by (auto split: prod.splits option.splits)
    obtain pos2 more2 c2 where nx: "inode_walk_next cfg k pos c1 = (pos2, more2, c2)"
      by (metis prod_cases3)
    obtain is2 where v: "visits cfg k n pos2 more2 c2 = Some (is2, c')" "is = inode # is2"
      using Suc.prems True i nx by auto
    show ?thesis
      using True i v nx Suc.IH [OF v(1)]
      by (cases "show_inode lookup clearing fuel (inode_at k inode) w")
        (simp_all add: inode_walk_show_def)
  qed
qed simp

section \<open>What a window holds\<close>

definition eligible :: "kernel \<Rightarrow> nat \<Rightarrow> bool" where
  "eligible k i \<longleftrightarrow> i_count (inode_at k i) \<noteq> 0 \<and> i_mapping (inode_at k i) \<noteq> None"

definition walkable :: "kernel \<Rightarrow> nat list" where
  "walkable k = filter (eligible k) (all_inodes k)"

lemma push_list_spec:
  assumes "length (ivec_inodes s) = ivec_cursor s - ivec_origin s"
    and "length (ivec_inodes s) \<le> IVEC_SIZE cfg" and "0 < IVEC_SIZE cfg"
  shows "snd (push_list cfg (inode_at k) xs s) = s\<lparr>
      ivec_inodes := take (IVEC_SIZE cfg)
        (ivec_inodes s @ drop (ivec_origin s - ivec_cursor s) (filter (eligible k) xs)),
      ivec_cursor := min (ivec_cursor s + length (filter (eligible k) xs))
        (ivec_origin s + IVEC_SIZE cfg + 1)\<rparr>"
  using assms
proof (induction xs arbitrary: s)
  case Nil
  then show ?case by simp
next
  case (Cons i xs)
  show ?case
  proof (cases "eligible k i")
    case False
    then have "ivec_push cfg (inode_at k) i s = (False, s)"
      by (auto simp: ivec_push_def eligible_def)
    then show ?thesis using Cons False by simp
  next
    case True
    then have p: "ivec_push cfg (inode_at k) i s =
       (let s = s\<lparr>ivec_cursor := ivec_cursor s + 1\<rparr> in
         if length (ivec_inodes s) \<ge> IVEC_SIZE cfg then (True, s)
         else if ivec_cursor s > ivec_origin s then (False, s\<lparr>ivec_inodes := ivec_inodes s @ [i]\<rparr>)
         else (False, s))"
      by (auto simp: ivec_push_def eligible_def)
    consider (full) "length (ivec_inodes s) \<ge> IVEC_SIZE cfg"
      | (stored) "length (ivec_inodes s) < IVEC_SIZE cfg" "ivec_cursor s \<ge> ivec_origin s"
      | (before) "length (ivec_inodes s) < IVEC_SIZE cfg" "ivec_cursor s < ivec_origin s"
      by linarith
    then show ?thesis
    proof cases
      case full
      then have "ivec_cursor s = ivec_origin s + IVEC_SIZE cfg" "length (ivec_inodes s) = IVEC_SIZE cfg"
        using Cons.prems by linarith+
      then show ?thesis using True p by (simp add: Let_def)
    next
      case stored
      then show ?thesis
        using Cons.IH [of "s\<lparr>ivec_cursor := ivec_cursor s + 1, ivec_inodes := ivec_inodes s @ [i]\<rparr>"]
          Cons.prems True p by (simp add: Let_def)
    next
      case before
      then have "ivec_origin s - ivec_cursor s = Suc (ivec_origin s - Suc (ivec_cursor s))" by simp
      then show ?thesis
        using Cons.IH [of "s\<lparr>ivec_cursor := ivec_cursor s + 1\<rparr>"] Cons.prems True p before
        by (simp add: Let_def)
    qed
  qed
qed

abbreviation restartable :: "kernel_config \<Rightarrow> kernel \<Rightarrow> inode_cursor \<Rightarrow> nat \<Rightarrow> bool" where
  "restartable cfg k s saved \<equiv>
     icur_state s AND I_DIRTY cfg = 0 \<and> icur_state s = i_state (inode_at k saved)"

lemma fill_from_start:
  assumes "\<forall>saved. icur_inode s = Some saved \<longrightarrow> \<not> restartable cfg k s saved"
    and "0 < IVEC_SIZE cfg"
  shows "ivec_fill cfg k pos s = s\<lparr>ivec_origin := pos,
      ivec_inodes := take (IVEC_SIZE cfg) (drop pos (walkable k)),
      ivec_cursor := min (length (walkable k)) (pos + IVEC_SIZE cfg + 1)\<rparr>"
proof -
  let ?s = "s\<lparr>ivec_origin := pos, ivec_cursor := 0, ivec_inodes := []\<rparr>"
  have "ivec_fill cfg k pos s = snd (push_list cfg (inode_at k) (all_inodes k) ?s)"
    using assms by (auto simp: ivec_fill_def Let_def split: option.splits)
  then show ?thesis using assms(2) by (simp add: push_list_spec walkable_def)
qed

lemma fill_from_saved:
  assumes "icur_inode s = Some saved" and "restartable cfg k s saved" and "icur_pos s \<le> pos"
    and "filter (eligible k) (behind saved (inode_in_use k) @ inode_unused k) = rest"
    and "0 < IVEC_SIZE cfg"
  shows "ivec_fill cfg k pos s = s\<lparr>ivec_origin := pos,
      ivec_inodes := take (IVEC_SIZE cfg) (drop (pos - icur_pos s) rest),
      ivec_cursor := min (icur_pos s + length rest) (pos + IVEC_SIZE cfg + 1)\<rparr>"
proof -
  let ?s = "s\<lparr>ivec_origin := pos, ivec_inodes := [], ivec_cursor := icur_pos s\<rparr>"
  have "ivec_fill cfg k pos s
      = snd (push_list cfg (inode_at k) (behind saved (inode_in_use k) @ inode_unused k) ?s)"
    using assms(1-3) by (auto simp: ivec_fill_def Let_def)
  then show ?thesis using assms(3-5) by (simp add: push_list_spec del: filter_append)
qed

section \<open>Walks without a saved inode\<close>

text \<open>
  As long as no clean inode can be continued from, every window is filled from the start of the
  lists, and the position of an inode is its index among the walkable inodes.
\<close>

definition dense_window :: "kernel_config \<Rightarrow> kernel \<Rightarrow> inode_cursor \<Rightarrow> bool" where
  "dense_window cfg k s \<longleftrightarrow>
     ivec_inodes s = take (IVEC_SIZE cfg) (drop (ivec_origin s) (walkable k))
     \<and> ivec_cursor s = min (length (walkable k)) (ivec_origin s + IVEC_SIZE cfg + 1)"

definition no_restart :: "kernel_config \<Rightarrow> kernel \<Rightarrow> bool" where
  "no_restart cfg k \<longleftrightarrow> length (walkable k) \<le> IVEC_SIZE cfg
     \<or> (\<forall>i\<in>set (walkable k). i_state (inode_at k i) \<noteq> 0)"

lemma ivec_inode_dense:
  assumes w: "dense_window cfg k s \<or> ivec_cursor s = 0 \<and> ivec_inodes s = [] \<and> ivec_origin s = 0 \<and> pos = 0"
    and o: "ivec_origin s \<le> pos" and st: "icur_state s = 0"
    and ic: "\<forall>i. icur_inode s = Some i \<longrightarrow> i \<in> set (walkable k) \<and> dense_window cfg k s"
    and nr: "no_restart cfg k" and n: "0 < IVEC_SIZE cfg" and pos: "pos \<le> length (walkable k)"
  obtains s' where "dense_window cfg k s'" and "ivec_origin s' \<le> pos" and "icur_state s' = 0"
    and "ivec_inode cfg k pos s =
      (if pos < length (walkable k) then (Some (walkable k ! pos),
         s'\<lparr>icur_pos := pos, icur_inode := Some (walkable k ! pos)\<rparr>) else (None, s'))"
    and "pos < length (walkable k) \<or> icur_inode s' = icur_inode s"
proof -
  let ?W = "walkable k" and ?N = "IVEC_SIZE cfg"
  let ?fill = "(ivec_full s \<and> pos \<ge> ivec_origin s + length (ivec_inodes s)) \<or> pos < ivec_origin s"
  define s' where "s' = (if ?fill then ivec_fill cfg k pos s else s)"
  have fill: "ivec_fill cfg k pos s = s\<lparr>ivec_origin := pos, ivec_inodes := take ?N (drop pos ?W),
      ivec_cursor := min (length ?W) (pos + ?N + 1)\<rparr>" if "?fill"
  proof (rule fill_from_start [OF _ n], intro allI impI)
    fix saved assume sv: "icur_inode s = Some saved"
    then have d: "dense_window cfg k s" "saved \<in> set ?W" using ic by auto
    show "\<not> restartable cfg k s saved"
    proof (cases "length ?W \<le> ?N")
      case True
      then have "ivec_full s \<longrightarrow> ivec_cursor s = 0" using d(1) by (auto simp: dense_window_def ivec_full_def)
      moreover have "ivec_cursor s \<noteq> 0" using d by (auto simp: dense_window_def)
      ultimately show ?thesis using that o by auto
    next
      case False
      then show ?thesis using nr d(2) st by (auto simp: no_restart_def)
    qed
  qed
  have dw: "dense_window cfg k s'"
  proof (cases ?fill)
    case True
    then show ?thesis using fill by (simp add: s'_def dense_window_def)
  next
    case False
    then show ?thesis using w by (auto simp: s'_def ivec_full_def)
  qed
  moreover have or: "ivec_origin s' \<le> pos" "icur_state s' = 0" "icur_inode s' = icur_inode s"
    using fill o st by (auto simp: s'_def)
  moreover have within: "pos < ivec_origin s' + ?N" if "pos < length ?W"
  proof (rule ccontr)
    assume far: "\<not> pos < ivec_origin s' + ?N"
    then have "\<not> ?fill" using fill n by (auto simp: s'_def)
    then have "s' = s" by (simp only: s'_def if_False)
    then have s: "s' = s" "dense_window cfg k s" using dw by simp_all
    then have "length (ivec_inodes s) = ?N" "ivec_cursor s > ivec_origin s + ?N"
      using far that by (auto simp: dense_window_def)
    then show False using \<open>\<not> ?fill\<close> far s(1) by (auto simp: ivec_full_def)
  qed
  have "ivec_inode cfg k pos s = (if pos \<ge> ivec_cursor s' then (None, s')
      else (Some (ivec_inodes s' ! (pos - ivec_origin s')),
        s'\<lparr>icur_pos := pos, icur_inode := Some (ivec_inodes s' ! (pos - ivec_origin s'))\<rparr>))"
    by (simp add: ivec_inode_def Let_def s'_def)
  moreover have "pos \<ge> ivec_cursor s' \<longleftrightarrow> \<not> pos < length ?W"
    using dw within or(1) by (auto simp: dense_window_def)
  moreover have "ivec_inodes s' ! (pos - ivec_origin s') = ?W ! pos" if "pos < length ?W"
    using dw within [OF that] or(1) that by (simp add: dense_window_def less_diff_conv2)
  ultimately show ?thesis by (intro that [of s']) auto
qed

lemma visits_dense:
  assumes d: "dense_window cfg k c \<or> ivec_cursor c = 0 \<and> ivec_inodes c = [] \<and> ivec_origin c = 0 \<and> pos = 0"
    and o: "ivec_origin c \<le> pos" and st: "icur_state c = 0"
    and ic: "\<forall>i. icur_inode c = Some i \<longrightarrow> i \<in> set (walkable k) \<and> dense_window cfg k c"
    and nr: "no_restart cfg k" and n: "0 < IVEC_SIZE cfg"
    and again: "again \<longleftrightarrow> pos < length (walkable k)" and fuel: "length (walkable k) - pos < fuel"
  shows "\<exists>c'. visits cfg k fuel pos again c = Some (drop pos (walkable k), c')"
  using d o st ic again fuel
proof (induction fuel arbitrary: pos again c)
  case (Suc fuel)
  let ?W = "walkable k"
  show ?case
  proof (cases "pos < length ?W")
    case False
    then show ?thesis using Suc.prems(5) by simp
  next
    case True
    then have le: "pos \<le> length ?W" "pos + 1 \<le> length ?W" by simp_all
    obtain c1 where c1: "dense_window cfg k c1" "ivec_origin c1 \<le> pos" "icur_state c1 = 0"
      "ivec_inode cfg k pos c = (Some (?W ! pos), c1\<lparr>icur_pos := pos, icur_inode := Some (?W ! pos)\<rparr>)"
      using ivec_inode_dense [OF Suc.prems(1-4) nr n le(1)] True by auto
    let ?c = "c1\<lparr>icur_pos := pos, icur_inode := Some (?W ! pos)\<rparr>"
    have dc: "dense_window cfg k ?c" "ivec_origin ?c \<le> pos + 1" "icur_state ?c = 0"
      "\<forall>i. icur_inode ?c = Some i \<longrightarrow> i \<in> set ?W \<and> dense_window cfg k ?c"
      using c1 True by (auto simp: dense_window_def)
    obtain c2 where c2: "dense_window cfg k c2" "ivec_origin c2 \<le> pos + 1" "icur_state c2 = 0"
      "ivec_inode cfg k (pos + 1) ?c = (if pos + 1 < length ?W then (Some (?W ! (pos + 1)),
         c2\<lparr>icur_pos := pos + 1, icur_inode := Some (?W ! (pos + 1))\<rparr>) else (None, c2))"
      "pos + 1 < length ?W \<or> icur_inode c2 = icur_inode ?c"
      using ivec_inode_dense [OF disjI1 [OF dc(1)] dc(2-4) nr n le(2)] by metis
    define c3 where "c3 = snd (ivec_inode cfg k (pos + 1) ?c)"
    have nx: "inode_walk_next cfg k pos ?c = (pos + 1, pos + 1 < length ?W, c3)"
      using c2(4) by (simp add: inode_walk_next_def c3_def)
    have c3: "dense_window cfg k c3" "ivec_origin c3 \<le> pos + 1" "icur_state c3 = 0"
      "\<forall>i. icur_inode c3 = Some i \<longrightarrow> i \<in> set ?W \<and> dense_window cfg k c3"
      using c2 True by (auto simp: c3_def dense_window_def)
    have "length ?W - (pos + 1) < fuel" using Suc.prems(6) True by arith
    then obtain c' where "visits cfg k fuel (pos + 1) (pos + 1 < length ?W) c3 = Some (drop (pos + 1) ?W, c')"
      using Suc.IH [OF disjI1 [OF c3(1)] c3(2-4) refl] by blast
    then show ?thesis
      using c1(4) nx True Suc.prems(5) by (simp add: Cons_nth_drop_Suc)
  qed
qed simp

section \<open>Walks that continue from a saved inode\<close>

text \<open>
  When the last inode of a full window is clean, the next window is filled from the inode behind
  it; but the cursor starts with the position of that inode, not with the one after it, so the
  first inode behind it is counted for a position that the window does not hold.
\<close>

fun windows :: "nat \<Rightarrow> nat list \<Rightarrow> nat list" where
  "windows n [] = []"
| "windows n (x # xs) = take n (x # xs) @ windows n (drop n xs)"

lemma windows_step: "0 < n \<Longrightarrow> windows n xs = take n xs @ windows n (drop (Suc n) xs)"
  by (cases xs) auto

text \<open>
  All inodes that are walked are clean, on the list \<open>inode_in_use\<close> and only once there; the
  window that is being walked starts with the inodes of \<open>rest\<close>.
\<close>

definition clean_in_use :: "kernel \<Rightarrow> bool" where
  "clean_in_use k \<longleftrightarrow> distinct (inode_in_use k) \<and> walkable k = filter (eligible k) (inode_in_use k)
     \<and> filter (eligible k) (inode_unused k) = [] \<and> (\<forall>i\<in>set (walkable k). i_state (inode_at k i) = 0)"

definition clean_window :: "kernel_config \<Rightarrow> inode_cursor \<Rightarrow> nat list \<Rightarrow> bool" where
  "clean_window cfg s rest \<longleftrightarrow> ivec_inodes s = take (IVEC_SIZE cfg) rest
     \<and> ivec_cursor s = min (ivec_origin s + length rest) (ivec_origin s + IVEC_SIZE cfg + 1)
     \<and> icur_state s = 0"

lemma behind_filter:
  "distinct xs \<Longrightarrow> filter P xs = pre @ i # rest \<Longrightarrow> filter P (behind i xs) = rest"
proof (induction xs arbitrary: pre)
  case (Cons x xs)
  show ?case
  proof (cases "P x \<and> pre = []")
    case True
    then show ?thesis using Cons.prems by (simp add: behind_def)
  next
    case False
    then obtain pre' where rest: "filter P xs = pre' @ i # rest"
      using Cons.prems(2) by (cases pre) (auto split: if_splits)
    then have "i \<in> set xs" using rest by (metis filter_is_subset in_set_conv_decomp subsetD)
    then have "x \<noteq> i" using Cons.prems(1) by auto
    then have "behind i (x # xs) = behind i xs" by (simp add: behind_def)
    then show ?thesis using Cons.IH [OF _ rest] Cons.prems(1) by simp
  qed
qed simp

lemma clean_window_icur [simp]:
  "clean_window cfg (s\<lparr>icur_pos := p, icur_inode := i\<rparr>) rest = clean_window cfg s rest"
  by (simp add: clean_window_def)

lemma ivec_inode_inside:
  assumes "clean_window cfg s rest" and "q < length rest" and "q < IVEC_SIZE cfg"
  shows "ivec_inode cfg k (ivec_origin s + q) s
    = (Some (rest ! q), s\<lparr>icur_pos := ivec_origin s + q, icur_inode := Some (rest ! q)\<rparr>)"
  using assms by (simp add: ivec_inode_def clean_window_def Let_def min_le_iff_disj not_le)

lemma ivec_inode_after:
  assumes "clean_window cfg s rest" and "rest \<noteq> []" and "length rest \<le> IVEC_SIZE cfg"
  shows "ivec_inode cfg k (ivec_origin s + length rest) s = (None, s)"
  using assms by (simp add: ivec_inode_def clean_window_def Let_def ivec_full_def)

text \<open>The next window, from the last inode of a full one.\<close>

lemma ivec_inode_refill:
  assumes k: "clean_in_use k" "walkable k = pre @ rest" and w: "clean_window cfg s rest"
    and n: "0 < IVEC_SIZE cfg" "IVEC_SIZE cfg < length rest"
    and ic: "icur_pos s = ivec_origin s + IVEC_SIZE cfg - 1"
      "icur_inode s = Some (rest ! (IVEC_SIZE cfg - 1))"
  obtains s' where "clean_window cfg s' (drop (Suc (IVEC_SIZE cfg)) rest)"
    and "ivec_origin s' = ivec_origin s + IVEC_SIZE cfg"
    and "ivec_inode cfg k (ivec_origin s + IVEC_SIZE cfg) s
      = (if drop (Suc (IVEC_SIZE cfg)) rest = [] then (None, s')
         else (Some (hd (drop (Suc (IVEC_SIZE cfg)) rest)),
           s'\<lparr>icur_pos := ivec_origin s + IVEC_SIZE cfg,
              icur_inode := Some (hd (drop (Suc (IVEC_SIZE cfg)) rest))\<rparr>))"
proof -
  let ?N = "IVEC_SIZE cfg"
  let ?saved = "rest ! (?N - 1)" and ?rest' = "drop (Suc ?N) rest" and ?pos = "ivec_origin s + ?N"
  have "take (?N - 1) rest @ ?saved # drop ?N rest = rest"
    using id_take_nth_drop [of "?N - 1" rest] n by simp
  then have "filter (eligible k) (inode_in_use k) = (pre @ take (?N - 1) rest) @ ?saved # drop ?N rest"
    using k by (simp add: clean_in_use_def)
  then have "filter (eligible k) (behind ?saved (inode_in_use k)) = drop ?N rest"
    by (rule behind_filter [rotated]) (use k(1) in \<open>simp add: clean_in_use_def\<close>)
  then have beh: "filter (eligible k) (behind ?saved (inode_in_use k) @ inode_unused k) = drop ?N rest"
    using k(1) by (simp add: clean_in_use_def)
  have "?saved \<in> set (walkable k)" using k(2) n by simp
  then have "restartable cfg k s ?saved"
    using k(1) w by (simp add: clean_in_use_def clean_window_def)
  note fill = fill_from_saved [OF ic(2) this _ beh n(1), of ?pos]
  define s' where "s' = s\<lparr>ivec_origin := ?pos, ivec_inodes := take ?N (drop 1 (drop ?N rest)),
      ivec_cursor := min (icur_pos s + length (drop ?N rest)) (?pos + ?N + 1)\<rparr>"
  have "?pos - icur_pos s = 1" "icur_pos s \<le> ?pos" using ic(1) n by linarith+
  then have s': "ivec_fill cfg k ?pos s = s'" using fill by (simp add: s'_def)
  have cw: "clean_window cfg s' ?rest'"
    using w n ic(1) by (auto simp: s'_def clean_window_def)
  have full: "ivec_full s" "ivec_origin s + length (ivec_inodes s) = ?pos"
    using w n by (auto simp: clean_window_def ivec_full_def)
  have "ivec_inode cfg k ?pos s = (if ?pos \<ge> ivec_cursor s' then (None, s')
      else (Some (ivec_inodes s' ! 0), s'\<lparr>icur_pos := ?pos, icur_inode := Some (ivec_inodes s' ! 0)\<rparr>))"
    using full by (simp add: ivec_inode_def Let_def s') (simp add: s'_def)
  moreover have "?pos \<ge> ivec_cursor s' \<longleftrightarrow> ?rest' = []"
    using cw n by (auto simp: clean_window_def s'_def)
  moreover have "?rest' \<noteq> [] \<Longrightarrow> ivec_inodes s' ! 0 = hd ?rest'"
    using n(1) by (simp add: s'_def hd_drop_conv_nth nth_drop)
  ultimately show ?thesis
    using that [OF cw] by (simp add: s'_def)
qed

lemma visits_clean:
  assumes k: "clean_in_use k" and n: "0 < IVEC_SIZE cfg"
    and w: "clean_window cfg c rest" "walkable k = pre @ rest"
    and q: "q < length rest" "q < IVEC_SIZE cfg" and fuel: "length rest - q < fuel"
  shows "\<exists>c'. visits cfg k fuel (ivec_origin c + q) True c
    = Some (drop q (take (IVEC_SIZE cfg) rest) @ windows (IVEC_SIZE cfg) (drop (Suc (IVEC_SIZE cfg)) rest), c')"
  using w q fuel
proof (induction fuel arbitrary: c rest pre q)
  case (Suc fuel)
  let ?N = "IVEC_SIZE cfg" and ?pos = "ivec_origin c + q"
  define c1 where "c1 = c\<lparr>icur_pos := ?pos, icur_inode := Some (rest ! q)\<rparr>"
  have show1: "ivec_inode cfg k ?pos c = (Some (rest ! q), c1)"
    unfolding c1_def by (rule ivec_inode_inside [OF Suc.prems(1,3,4)])
  have w1: "clean_window cfg c1 rest" "ivec_origin c1 = ivec_origin c"
    using Suc.prems(1) by (simp_all add: c1_def)
  have hd: "drop q (take ?N rest) = rest ! q # drop (Suc q) (take ?N rest)"
    using Cons_nth_drop_Suc [of q "take ?N rest"] Suc.prems(3,4) by simp
  have step: "visits cfg k (Suc fuel) ?pos True c =
      (case ivec_inode cfg k (?pos + 1) c1 of (inode, c2) \<Rightarrow>
         map_option (\<lambda>(is, c). (rest ! q # is, c)) (visits cfg k fuel (?pos + 1) (inode \<noteq> None) c2))"
    by (simp add: show1 inode_walk_next_def split: prod.splits)
  obtain f where f: "fuel = Suc f" using Suc.prems(3,5) by (cases fuel) auto
  consider (inside) "q + 1 < length rest" "q + 1 < ?N" | (last_one) "length rest \<le> ?N" "q + 1 = length rest"
    | (refill) "?N < length rest" "q + 1 = ?N"
    using Suc.prems(3,4) by linarith
  then show ?case
  proof cases
    case inside
    define c2 where "c2 = c1\<lparr>icur_pos := ?pos + 1, icur_inode := Some (rest ! (q + 1))\<rparr>"
    have nx: "ivec_inode cfg k (?pos + 1) c1 = (Some (rest ! (q + 1)), c2)"
      using ivec_inode_inside [OF w1(1) inside] w1(2) by (simp add: c2_def)
    have w2: "clean_window cfg c2 rest" "ivec_origin c2 = ivec_origin c"
      using w1 by (simp_all add: c2_def)
    have "length rest - (q + 1) < fuel" using Suc.prems(3,5) by arith
    from Suc.IH [OF w2(1) Suc.prems(2) inside this] show ?thesis
      using w2(2) nx step hd by auto
  next
    case last_one
    have "ivec_origin c1 + length rest = ?pos + 1" "rest \<noteq> []"
      using w1(2) last_one(2) Suc.prems(3) by auto
    then have "ivec_inode cfg k (?pos + 1) c1 = (None, c1)"
      using ivec_inode_after [OF w1(1) _ last_one(1), of k] by simp
    then show ?thesis using step hd last_one by (simp add: f)
  next
    case refill
    have ic: "icur_pos c1 = ivec_origin c1 + ?N - 1" "icur_inode c1 = Some (rest ! (?N - 1))"
    proof -
      have "q = ?N - 1" using refill by simp
      then show "icur_pos c1 = ivec_origin c1 + ?N - 1" "icur_inode c1 = Some (rest ! (?N - 1))"
        using n by (simp_all add: c1_def)
    qed
    let ?rest' = "drop (Suc ?N) rest"
    obtain c2 where c2: "clean_window cfg c2 ?rest'" "ivec_origin c2 = ivec_origin c1 + ?N"
      "ivec_inode cfg k (ivec_origin c1 + ?N) c1 = (if ?rest' = [] then (None, c2)
         else (Some (hd ?rest'), c2\<lparr>icur_pos := ivec_origin c1 + ?N, icur_inode := Some (hd ?rest')\<rparr>))"
      using ivec_inode_refill [OF k Suc.prems(2) w1(1) n refill(1) ic] by blast
    have pos: "?pos + 1 = ivec_origin c1 + ?N" using refill w1(2) by simp
    have dr: "drop (Suc q) (take ?N rest) = []" using refill by simp
    show ?thesis
    proof (cases "?rest' = []")
      case True
      then show ?thesis using step hd c2(3) pos dr by (simp add: f)
    next
      case False
      define c3 where "c3 = c2\<lparr>icur_pos := ivec_origin c1 + ?N, icur_inode := Some (hd ?rest')\<rparr>"
      have w3: "clean_window cfg c3 ?rest'" "ivec_origin c3 + 0 = ?pos + 1"
        using c2 pos by (simp_all add: c3_def)
      have wk: "walkable k = (pre @ take (Suc ?N) rest) @ ?rest'" using Suc.prems(2) by simp
      have len: "0 < length ?rest'" "length ?rest' - 0 < fuel"
        using False Suc.prems(5) refill by auto
      obtain c' where "visits cfg k fuel (?pos + 1) True c3 =
          Some (take ?N ?rest' @ windows ?N (drop (Suc ?N) ?rest'), c')"
        using Suc.IH [OF w3(1) wk len(1) n len(2)] w3(2) by auto
      then have "visits cfg k fuel (?pos + 1) True c3 = Some (windows ?N ?rest', c')"
        by (simp only: windows_step [OF n, symmetric])
      then show ?thesis
        using step hd c2(3) pos dr False by (auto simp: c3_def)
    qed
  qed
qed simp

section \<open>The walk from a new session\<close>

lemma start_fill:
  assumes "0 < IVEC_SIZE cfg"
  shows "ivec_inode cfg k 0 (new_cursor\<lparr>ivec_inodes := [], icur_pinned := icur_inode new_cursor\<rparr>)
    = (let s = new_cursor\<lparr>ivec_inodes := take (IVEC_SIZE cfg) (walkable k),
               ivec_cursor := min (length (walkable k)) (IVEC_SIZE cfg + 1)\<rparr>
       in if walkable k = [] then (None, s)
          else (Some (hd (walkable k)), s\<lparr>icur_pos := 0, icur_inode := Some (hd (walkable k))\<rparr>))"
proof -
  let ?s = "new_cursor\<lparr>ivec_inodes := [], icur_pinned := icur_inode new_cursor\<rparr>"
  have "ivec_fill cfg k 0 ?s = ?s\<lparr>ivec_origin := 0,
      ivec_inodes := take (IVEC_SIZE cfg) (drop 0 (walkable k)),
      ivec_cursor := min (length (walkable k)) (0 + IVEC_SIZE cfg + 1)\<rparr>"
    by (rule fill_from_start) (use assms in \<open>simp_all add: new_cursor_def\<close>)
  then have "ivec_fill cfg k 0 ?s = new_cursor\<lparr>ivec_inodes := take (IVEC_SIZE cfg) (walkable k),
      ivec_cursor := min (length (walkable k)) (IVEC_SIZE cfg + 1)\<rparr>"
    by (simp add: new_cursor_def)
  moreover have "ivec_full ?s" "ivec_origin ?s = 0" by (simp_all add: ivec_full_def new_cursor_def)
  ultimately show ?thesis
    using assms by (cases "walkable k") (simp_all add: ivec_inode_def Let_def new_cursor_def)
qed

lemma walk_start_cases:
  assumes n: "0 < IVEC_SIZE cfg"
  obtains (Empty) c where "walkable k = []" and "inode_walk_start cfg k 0 new_cursor = (False, c)"
  | (Window) c where "walkable k \<noteq> []" and "inode_walk_start cfg k 0 new_cursor = (True, c)"
    and "clean_window cfg c (walkable k)" and "dense_window cfg k c" and "ivec_origin c = 0"
    and "icur_state c = 0" and "icur_inode c = Some (hd (walkable k))"
proof (cases "walkable k = []")
  case True
  then show ?thesis
    using start_fill [OF n, of k] by (intro that(1)) (auto simp: inode_walk_start_def Let_def)
next
  case False
  let ?c = "new_cursor\<lparr>ivec_inodes := take (IVEC_SIZE cfg) (walkable k),
     ivec_cursor := min (length (walkable k)) (IVEC_SIZE cfg + 1), icur_pos := 0,
     icur_inode := Some (hd (walkable k))\<rparr>"
  show ?thesis
  proof (rule that(2) [of ?c])
    show "inode_walk_start cfg k 0 new_cursor = (True, ?c)"
      using start_fill [OF n, of k] False by (simp add: inode_walk_start_def Let_def)
  qed (use False in \<open>simp_all add: clean_window_def dense_window_def new_cursor_def\<close>)
qed

lemma walk_dense:
  assumes "0 < IVEC_SIZE cfg" and "no_restart cfg k" and "length (walkable k) < n"
    and "inode_walk_start cfg k 0 new_cursor = (again, c)"
  obtains c' where "visits cfg k n 0 again c = Some (walkable k, c')"
  using assms(1)
proof (cases rule: walk_start_cases [where k = k])
  case (Empty c1)
  then show ?thesis using that assms(3,4) by (cases n) auto
next
  case (Window c1)
  then have c1: "c1 = c" "again" using assms(4) by auto
  have "hd (walkable k) \<in> set (walkable k)" using Window(1) by simp
  then have ic: "\<forall>i. icur_inode c = Some i \<longrightarrow> i \<in> set (walkable k) \<and> dense_window cfg k c"
    using Window c1 by auto
  have o: "ivec_origin c \<le> 0" "icur_state c = 0" "dense_window cfg k c" using Window c1 by auto
  show ?thesis
    using visits_dense [OF disjI1 [OF o(3)] o(1,2) ic assms(2,1), of again n] Window(1) c1 assms(3) that
    by auto
qed

lemma walk_clean:
  assumes "0 < IVEC_SIZE cfg" and "clean_in_use k" and "length (walkable k) < n"
    and "inode_walk_start cfg k 0 new_cursor = (again, c)"
  obtains c' where "visits cfg k n 0 again c = Some (windows (IVEC_SIZE cfg) (walkable k), c')"
  using assms(1)
proof (cases rule: walk_start_cases [where k = k])
  case (Empty c1)
  then show ?thesis using that assms(3,4) by (cases n) auto
next
  case (Window c1)
  then have c1: "c1 = c" "again" using assms(4) by auto
  have len: "0 < length (walkable k)" "length (walkable k) - 0 < n" using Window(1) assms(3) by auto
  show ?thesis
    using visits_clean [OF assms(2,1) Window(3) _ len(1) assms(1) len(2), of "[]"] c1 Window(5)
      windows_step [OF assms(1), of "walkable k"] that
    by auto
qed

lemma set_windows: "set (windows n xs) \<subseteq> set xs"
proof (induction n xs rule: windows.induct)
  case (2 n x xs)
  then show ?case using set_take_subset [of n "x # xs"] set_drop_subset [of n xs] by auto
qed simp

lemma windows_skip:
  assumes "distinct xs" and "0 < n" and "n < length xs"
  shows "xs ! n \<notin> set (windows n xs)"
proof -
  have split: "xs = take n xs @ xs ! n # drop (Suc n) xs" using assms(3) by (rule id_take_nth_drop)
  then have "xs ! n \<notin> set (take n xs)" "xs ! n \<notin> set (drop (Suc n) xs)"
    using assms(1) by (metis distinct_append distinct.simps(2) disjoint_insert(2) list.simps(15))+
  then show ?thesis
    using set_windows [of n "drop (Suc n) xs"] by (auto simp: windows_step [OF assms(2), of xs])
qed

section \<open>Every walk ends\<close>

text \<open>
  With every inode on one list, and the clean ones in use on \<open>inode_in_use\<close>, a walk from a new
  session ends and never meets the \<open>BUG_ON\<close>, whichever windows are filled from a saved inode: an
  inode is shown at a position that is not behind its place among the walkable inodes.
\<close>

definition clean_on_in_use :: "kernel \<Rightarrow> bool" where
  "clean_on_in_use k \<longleftrightarrow> distinct (all_inodes k) \<and> filter (eligible k) (inode_unused k) = []
     \<and> (\<forall>i\<in>set (walkable k). i_state (inode_at k i) = 0 \<longrightarrow> i \<in> set (inode_in_use k))"

definition at_inode :: "kernel_config \<Rightarrow> kernel \<Rightarrow> inode_cursor \<Rightarrow> nat \<Rightarrow> bool" where
  "at_inode cfg k c pos \<longleftrightarrow> (\<exists>pre rest q. walkable k = pre @ rest \<and> clean_window cfg c rest
     \<and> ivec_origin c \<le> length pre \<and> q < length rest \<and> q < IVEC_SIZE cfg \<and> pos = ivec_origin c + q
     \<and> icur_pos c = pos \<and> icur_inode c = Some (rest ! q))"

lemma at_inode_show:
  assumes "at_inode cfg k c pos"
  shows "\<exists>i\<in>set (walkable k). ivec_inode cfg k pos c = (Some i, c)" and "pos < length (walkable k)"
proof -
  obtain pre rest q where a: "walkable k = pre @ rest" "clean_window cfg c rest" "ivec_origin c \<le> length pre"
    "q < length rest" "q < IVEC_SIZE cfg" "pos = ivec_origin c + q" "icur_pos c = pos" "icur_inode c = Some (rest ! q)"
    using assms unfolding at_inode_def by blast
  have "c\<lparr>icur_pos := ivec_origin c + q, icur_inode := Some (rest ! q)\<rparr> = c" using a(6-8) by simp
  then show "\<exists>i\<in>set (walkable k). ivec_inode cfg k pos c = (Some i, c)"
    using ivec_inode_inside [OF a(2,4,5), of k] a(1,4,6) by (intro bexI [of _ "rest ! q"]) simp_all
  show "pos < length (walkable k)" using a(1,3,4,6) by simp
qed

lemma saved_rest:
  assumes k: "clean_on_in_use k" and w: "walkable k = pre @ saved # post" and z: "i_state (inode_at k saved) = 0"
  shows "filter (eligible k) (behind saved (inode_in_use k) @ inode_unused k) = post"
proof -
  let ?F = "filter (eligible k) (inode_in_use k)"
  let ?A = "filter (eligible k) (concat (map (\<lambda>(s_dirty, s_io). s_dirty @ s_io) (super_blocks k)))"
  have un: "filter (eligible k) (inode_unused k) = []" and d: "distinct (all_inodes k)"
    using k by (simp_all add: clean_on_in_use_def)
  have wk: "walkable k = ?A @ ?F" using un by (simp add: walkable_def all_inodes_def)
  have dw: "distinct (walkable k)" "distinct (inode_in_use k)"
    using distinct_filter [OF d, of "eligible k"] d by (simp_all only: walkable_def) (simp add: all_inodes_def)
  have "saved \<in> set (walkable k)" using w by simp
  then have "saved \<in> set ?F" using k z by (auto simp: clean_on_in_use_def walkable_def)
  then obtain p2 r2 where f: "?F = p2 @ saved # r2" by (meson split_list)
  then have e: "(?A @ p2) @ saved # r2 = pre @ saved # post" using wk w by simp
  have "distinct ((?A @ p2) @ saved # r2)" "distinct (pre @ saved # post)" using dw(1) e w by simp_all
  then have "saved \<notin> set (?A @ p2)" "saved \<notin> set r2"
    unfolding distinct_append by auto
  then have "r2 = post" using e append_Cons_eq_iff [of saved "?A @ p2" r2 pre post] by blast
  then show ?thesis using behind_filter [OF dw(2) f] un by simp
qed

lemma clean_window_fill:
  assumes "icur_state c = 0" and "c' = c\<lparr>ivec_origin := pos, ivec_inodes := take (IVEC_SIZE cfg) rest,
      ivec_cursor := min (pos + length rest) (pos + IVEC_SIZE cfg + 1)\<rparr>"
  shows "clean_window cfg c' rest"
  using assms by (simp add: clean_window_def)

lemma next_inode:
  assumes k: "clean_on_in_use k" and n: "0 < IVEC_SIZE cfg" and a: "at_inode cfg k c pos"
  shows "\<exists>again c'. inode_walk_next cfg k pos c = (pos + 1, again, c') \<and> (again \<longrightarrow> at_inode cfg k c' (pos + 1))"
proof -
  let ?N = "IVEC_SIZE cfg"
  obtain pre rest q where a: "walkable k = pre @ rest" "clean_window cfg c rest" "ivec_origin c \<le> length pre"
    "q < length rest" "q < ?N" "pos = ivec_origin c + q" "icur_pos c = pos" "icur_inode c = Some (rest ! q)"
    using a unfolding at_inode_def by blast
  obtain x c1 where x: "ivec_inode cfg k (pos + 1) c = (x, c1)" by force
  have nx: "inode_walk_next cfg k pos c = (pos + 1, x \<noteq> None, c1)" using x by (simp add: inode_walk_next_def)
  consider (inside) "q + 1 < length rest" "q + 1 < ?N" | (last_one) "length rest \<le> ?N" "q + 1 = length rest"
    | (refill) "?N < length rest" "q + 1 = ?N"
    using a(4,5) by linarith
  then have "x \<noteq> None \<longrightarrow> at_inode cfg k c1 (pos + 1)"
  proof cases
    case inside
    have "c1 = c\<lparr>icur_pos := pos + 1, icur_inode := Some (rest ! (q + 1))\<rparr>"
      using ivec_inode_inside [OF a(2) inside, of k] x a(6) by (metis add.assoc prod.inject)
    then have "walkable k = pre @ rest \<and> clean_window cfg c1 rest \<and> ivec_origin c1 \<le> length pre
        \<and> q + 1 < length rest \<and> q + 1 < ?N \<and> pos + 1 = ivec_origin c1 + (q + 1) \<and> icur_pos c1 = pos + 1
        \<and> icur_inode c1 = Some (rest ! (q + 1))"
      using a inside by simp
    then show ?thesis unfolding at_inode_def by blast
  next
    case last_one
    have "rest \<noteq> []" using a(4) by auto
    moreover have "ivec_origin c + length rest = pos + 1" using a(6) last_one(2) by simp
    ultimately have "(None, c) = (x, c1)" using ivec_inode_after [OF a(2) _ last_one(1), of k] x by metis
    then show ?thesis by blast
  next
    case refill
    let ?saved = "rest ! q" and ?f = "ivec_fill cfg k (pos + 1) c"
    have st: "icur_state c = 0" using a(2) by (simp add: clean_window_def)
    have full: "ivec_full c" "pos + 1 = ivec_origin c + length (ivec_inodes c)"
      using a(2,6) n refill by (auto simp: clean_window_def ivec_full_def)
    have split: "walkable k = (pre @ take q rest) @ ?saved # drop (Suc q) rest"
      using id_take_nth_drop [OF a(4)] a(1) by simp
    obtain pre' rest' where f: "walkable k = pre' @ rest'" "pos + 1 \<le> length pre' \<or> rest' = []"
      "?f = c\<lparr>ivec_origin := pos + 1, ivec_inodes := take ?N rest', ivec_cursor := ivec_cursor ?f\<rparr>"
      "rest' \<noteq> [] \<longrightarrow> ivec_cursor ?f = min (pos + 1 + length rest') (pos + 1 + ?N + 1)"
      "rest' = [] \<longrightarrow> ivec_cursor ?f \<le> pos + 1"
    proof (cases "restartable cfg k c ?saved")
      case True
      then have z: "i_state (inode_at k ?saved) = 0" using st by simp
      have "?f = c\<lparr>ivec_origin := pos + 1,
          ivec_inodes := take ?N (drop (pos + 1 - icur_pos c) (drop (Suc q) rest)),
          ivec_cursor := min (icur_pos c + length (drop (Suc q) rest)) (pos + 1 + ?N + 1)\<rparr>"
        by (rule fill_from_saved [OF a(8) True _ saved_rest [OF k split z] n]) (simp add: a(7))
      moreover have "drop (pos + 1 - icur_pos c) (drop (Suc q) rest) = drop (Suc (Suc q)) rest"
        using a(7) by simp
      moreover have "walkable k = (pre @ take (Suc (Suc q)) rest) @ drop (Suc (Suc q)) rest" using a(1) by simp
      ultimately show ?thesis
        using a(3,6,7) refill by (intro that [of "pre @ take (Suc (Suc q)) rest" "drop (Suc (Suc q)) rest"]) auto
    next
      case False
      then have "?f = c\<lparr>ivec_origin := pos + 1, ivec_inodes := take ?N (drop (pos + 1) (walkable k)),
          ivec_cursor := min (length (walkable k)) (pos + 1 + ?N + 1)\<rparr>"
        using fill_from_start [OF _ n, of c k "pos + 1"] a(8) by auto
      then show ?thesis
        by (intro that [of "take (pos + 1) (walkable k)" "drop (pos + 1) (walkable k)"]) auto
    qed
    have o: "ivec_origin ?f = pos + 1" "ivec_inodes ?f = take ?N rest'" "icur_state ?f = 0"
      using f(3) st by (metis inode_cursor.select_convs inode_cursor.surjective inode_cursor.update_convs(1-3))+
    have c: "(x, c1) = (if ivec_cursor ?f \<le> pos + 1 then (None, ?f)
        else (Some (ivec_inodes ?f ! 0), ?f\<lparr>icur_pos := pos + 1, icur_inode := Some (ivec_inodes ?f ! 0)\<rparr>))"
    proof -
      have "(ivec_full c \<and> pos + 1 \<ge> ivec_origin c + length (ivec_inodes c)) \<or> pos + 1 < ivec_origin c"
        using full by simp
      then have "ivec_inode cfg k (pos + 1) c = (if ivec_cursor ?f \<le> pos + 1 then (None, ?f)
        else (Some (ivec_inodes ?f ! (pos + 1 - ivec_origin ?f)),
          ?f\<lparr>icur_pos := pos + 1, icur_inode := Some (ivec_inodes ?f ! (pos + 1 - ivec_origin ?f))\<rparr>))"
        unfolding ivec_inode_def Let_def by (simp only: if_True)
      then show ?thesis unfolding x o(1) diff_self_eq_0 .
    qed
    show ?thesis
    proof
      assume "x \<noteq> None"
      then have x1: "\<not> ivec_cursor ?f \<le> pos + 1" using c by (auto split: if_splits)
      then have ne: "rest' \<noteq> []" using f(5) by blast
      have c1: "c1 = ?f\<lparr>icur_pos := pos + 1, icur_inode := Some (ivec_inodes ?f ! 0)\<rparr>"
        using c x1 by simp
      have "clean_window cfg c1 rest'" using o f(4) ne by (simp add: c1 clean_window_def)
      moreover have "ivec_inodes ?f ! 0 = rest' ! 0" using o n by simp
      ultimately have "walkable k = pre' @ rest' \<and> clean_window cfg c1 rest' \<and> ivec_origin c1 \<le> length pre'
        \<and> 0 < length rest' \<and> 0 < ?N \<and> pos + 1 = ivec_origin c1 + 0 \<and> icur_pos c1 = pos + 1
        \<and> icur_inode c1 = Some (rest' ! 0)"
        using f(1,2) o ne n by (simp add: c1)
      then show "at_inode cfg k c1 (pos + 1)" unfolding at_inode_def by blast
    qed
  qed
  then show ?thesis using nx by blast
qed

lemma visits_end:
  assumes k: "clean_on_in_use k" and n: "0 < IVEC_SIZE cfg"
  shows "(again \<longrightarrow> at_inode cfg k c pos) \<Longrightarrow> length (walkable k) - pos < fuel \<Longrightarrow>
    \<exists>is c'. visits cfg k fuel pos again c = Some (is, c') \<and> set is \<subseteq> set (walkable k)"
proof (induction fuel arbitrary: pos again c)
  case (Suc fuel)
  show ?case
  proof (cases again)
    case False
    then show ?thesis by simp
  next
    case True
    then have a: "at_inode cfg k c pos" using Suc.prems(1) by simp
    obtain i where i: "i \<in> set (walkable k)" "ivec_inode cfg k pos c = (Some i, c)"
      using at_inode_show(1) [OF a] by blast
    obtain more c' where nx: "inode_walk_next cfg k pos c = (pos + 1, more, c')" "more \<longrightarrow> at_inode cfg k c' (pos + 1)"
      using next_inode [OF k n a] by blast
    have "length (walkable k) - (pos + 1) < fuel" using Suc.prems(2) at_inode_show(2) [OF a] by linarith
    from Suc.IH [OF nx(2) this] show ?thesis using True i nx(1) by auto
  qed
qed simp

lemma walk_end:
  assumes "clean_on_in_use k" and "0 < IVEC_SIZE cfg" and "length (walkable k) < n"
    and "inode_walk_start cfg k 0 new_cursor = (again, c)"
  obtains "is" c' where "visits cfg k n 0 again c = Some (is, c')" and "set is \<subseteq> set (walkable k)"
proof -
  have "at_inode cfg k c 0" if again
  proof -
    have c: "walkable k \<noteq> []"
      "c = new_cursor\<lparr>ivec_inodes := take (IVEC_SIZE cfg) (walkable k),
        ivec_cursor := min (length (walkable k)) (IVEC_SIZE cfg + 1), icur_pos := 0,
        icur_inode := Some (hd (walkable k))\<rparr>"
      using start_fill [OF assms(2), of k] assms(4) that
      by (auto simp: inode_walk_start_def Let_def split: if_splits prod.splits)
    then have "walkable k = [] @ walkable k \<and> clean_window cfg c (walkable k) \<and> ivec_origin c \<le> length ([] :: nat list)
        \<and> 0 < length (walkable k) \<and> 0 < IVEC_SIZE cfg \<and> 0 = ivec_origin c + 0 \<and> icur_pos c = 0
        \<and> icur_inode c = Some (walkable k ! 0)"
      using assms(2) by (simp add: clean_window_def new_cursor_def hd_conv_nth)
    then show ?thesis unfolding at_inode_def by blast
  qed
  moreover have "length (walkable k) - 0 < n" using assms(3) by simp
  ultimately show ?thesis using visits_end [OF assms(1,2)] that by blast
qed

section \<open>Properties\<close>

text \<open>
  C11: when the inodes in use fit into one window (or none of them is clean), the loop of
  \<open>walk_pages\<close> shows every inode that is in use and has a mapping, in the order of the kernel's
  lists, each once per occurrence, and ends.
\<close>

theorem inode_walk_shows_all:
  assumes "0 < IVEC_SIZE cfg" and "no_restart cfg k" and "length (walkable k) < n"
    and "inode_walk_start cfg k 0 new_cursor = (again, c)"
  shows "\<exists>c'. \<forall>w. inode_walk_loop cfg k lookup clearing fuel n 0 again (c, w)
    = map_option (Pair c') (show_all k lookup clearing fuel (walkable k) w)"
  using walk_dense [OF assms] inode_walk_loop_visits by metis

text \<open>
  C12: when all inodes in use are clean and more than a window, every window but the first is filled
  one inode too late: the loop leaves out the first inode behind each full window, so the pages
  of that inode are neither recorded nor are their bits cleared.
\<close>

theorem inode_walk_skips:
  assumes "0 < IVEC_SIZE cfg" and "clean_in_use k" and "length (walkable k) < n"
    and "inode_walk_start cfg k 0 new_cursor = (again, c)"
  shows "(\<exists>c'. \<forall>w. inode_walk_loop cfg k lookup clearing fuel n 0 again (c, w)
      = map_option (Pair c') (show_all k lookup clearing fuel (windows (IVEC_SIZE cfg) (walkable k)) w))
    \<and> (IVEC_SIZE cfg < length (walkable k) \<longrightarrow>
      walkable k ! IVEC_SIZE cfg \<notin> set (windows (IVEC_SIZE cfg) (walkable k)))"
proof -
  obtain c' where "visits cfg k n 0 again c = Some (windows (IVEC_SIZE cfg) (walkable k), c')"
    using walk_clean [OF assms] by blast
  then have "\<forall>w. inode_walk_loop cfg k lookup clearing fuel n 0 again (c, w)
      = map_option (Pair c') (show_all k lookup clearing fuel (windows (IVEC_SIZE cfg) (walkable k)) w)"
    by (simp add: inode_walk_loop_visits)
  moreover have "distinct (walkable k)" using assms(2) by (simp add: clean_in_use_def)
  ultimately show ?thesis using windows_skip assms(1) by blast
qed

definition sample_config :: kernel_config where
  "sample_config = \<lparr>PAGE_SIZE = 8, I_DIRTY = 7\<rparr>"

definition sample_kernel :: "nat list \<Rightarrow> kernel" where
  "sample_kernel inodes = \<lparr>super_blocks = [([], [])], inode_in_use = inodes, inode_unused = [],
     inode_at = (\<lambda>i. \<lparr>i_count = 1, i_state = 0, i_mapping = Some i\<rparr>)\<rparr>"

lemma sample_walkable: "walkable (sample_kernel inodes) = inodes"
  by (simp add: walkable_def all_inodes_def sample_kernel_def eligible_def)

lemma sample_ivec_size: "IVEC_SIZE sample_config = 2"
  by (simp add: IVEC_SIZE_def sample_config_def)

lemma sample_clean: "distinct inodes \<Longrightarrow> clean_in_use (sample_kernel inodes)"
  using sample_walkable [of inodes]
  by (simp add: clean_in_use_def) (simp add: sample_kernel_def eligible_def)

lemma inode_walk_shows_all_witness:
  "\<exists>c'. \<forall>w. inode_walk_loop sample_config (sample_kernel [5, 6]) (list_lookup 14) True 9 3 0
      (fst (inode_walk_start sample_config (sample_kernel [5, 6]) 0 new_cursor))
      (snd (inode_walk_start sample_config (sample_kernel [5, 6]) 0 new_cursor), w)
    = map_option (Pair c') (show_all (sample_kernel [5, 6]) (list_lookup 14) True 9 [5, 6] w)"
  using inode_walk_shows_all [of sample_config "sample_kernel [5, 6]" 3] 
  by (simp add: sample_ivec_size sample_walkable no_restart_def)

lemma inode_walk_skips_witness:
  "\<exists>c'. \<forall>w. inode_walk_loop sample_config (sample_kernel [5, 6, 7, 8]) (list_lookup 14) True 9 5 0
      (fst (inode_walk_start sample_config (sample_kernel [5, 6, 7, 8]) 0 new_cursor))
      (snd (inode_walk_start sample_config (sample_kernel [5, 6, 7, 8]) 0 new_cursor), w)
    = map_option (Pair c') (show_all (sample_kernel [5, 6, 7, 8]) (list_lookup 14) True 9 [5, 6, 8] w)"
  using inode_walk_skips [of sample_config "sample_kernel [5, 6, 7, 8]" 5]
  by (simp add: sample_ivec_size sample_walkable sample_clean)

end
