(* ===== verification/Kernel_Tracing.thy ===== *)
theory Kernel_Tracing
  imports Kernel_Inodes Merge_Correct
begin

text \<open>
  Tracing (\<open>prefetch.c\<close>: \<open>walk_pages\<close> and \<open>prefetch_start_trace\<close>,
  \<open>prefetch_continue_trace\<close>, \<open>prefetch_stop_trace\<close>): the first tracer clears all referenced
  bits, a continuing or stopping tracer appends the pages referenced since to the trace.
\<close>

section \<open>The state of the module\<close>

text \<open>
  \<open>inode_lock\<close> counts how often the spin lock was taken minus how often it was released.
\<close>

record tracing_state =
  prefetch_trace :: prefetch_trace_t
  tracers_count :: int
  clearing_in_progress :: bool
  inode_lock :: int
  mappings :: "nat \<Rightarrow> address_space"

datatype tracing_command_t = START_TRACING | STOP_TRACING | CONTINUE_TRACING

text \<open>
  What the kernel allocator grants to one call: the session structure, the page of the window.
\<close>

record walk_memory =
  session_granted :: bool
  window_granted :: bool

text \<open>The environment of a walk: constants, inode lists, the radix tree, and fuel for the loops.\<close>

record walk_env =
  we_config :: kernel_config
  we_kernel :: kernel
  we_lookup :: gang_lookup
  we_page_fuel :: nat
  we_inode_fuel :: nat

section \<open>walk_pages\<close>

definition report_overflow :: "prefetch_trace_t \<Rightarrow> prefetch_trace_t" where
  "report_overflow t =
     (if pt_overflow t \<and> \<not> pt_overflow_reported t then t\<lparr>pt_overflow_reported := True\<rparr> else t)"

text \<open>
  The result of \<open>walk_pages\<close>: the error number, the value written to \<open>*marker\<close> (if any) and the
  new state; \<open>None\<close> when a loop does not end within its fuel or meets the \<open>BUG_ON\<close> of
  \<open>inode_walk_show\<close>. \<open>walk_pages_accounting\<close> tells these apart: with enough fuel the \<open>BUG_ON\<close> is
  not met, and \<open>None\<close> is the endless walk over a page with the last index.
\<close>

definition walk_pages ::
  "walk_env \<Rightarrow> walk_memory \<Rightarrow> tracing_command_t \<Rightarrow> tracing_state
     \<Rightarrow> (int \<times> trace_marker_t option \<times> tracing_state) option" where
  "walk_pages e mem command st =
     (let st = st\<lparr>prefetch_trace := report_overflow (prefetch_trace st)\<rparr> in
      if \<not> session_granted mem then Some (- ENOMEM, None, st)
      else
        (let (again, c, st) =
               (if window_granted mem
                then (case inode_walk_start (we_config e) (we_kernel e) 0 new_cursor of
                        (again, c) \<Rightarrow> (again, c, st\<lparr>inode_lock := inode_lock st + 1\<rparr>))
                else (False, new_cursor, st));
             (clearing, marker, st) =
               (if command = START_TRACING
                then (let st = st\<lparr>tracers_count := tracers_count st + 1\<rparr> in
                      if tracers_count st = 1
                      then (True, Some (get_trace_marker (prefetch_trace st)),
                            st\<lparr>clearing_in_progress := True\<rparr>)
                      else (False, None, st))
                else (False, None, st))
         in case inode_walk_loop (we_config e) (we_kernel e) (we_lookup e) (clearing_in_progress st)
                   (we_page_fuel e) (we_inode_fuel e) 0 again
                   (c, mappings st, new_session, prefetch_trace st) of
              None \<Rightarrow> None
            | Some (c, mem', s, t) \<Rightarrow>
                (let c = inode_walk_stop (we_kernel e) c;
                     st = st\<lparr>mappings := mem', prefetch_trace := t\<rparr>;
                     (marker, st) =
                       (case command of
                          STOP_TRACING \<Rightarrow>
                            (Some (get_trace_marker (prefetch_trace st)),
                             st\<lparr>tracers_count := tracers_count st - 1\<rparr>)
                        | CONTINUE_TRACING \<Rightarrow> (Some (get_trace_marker (prefetch_trace st)), st)
                        | START_TRACING \<Rightarrow> (marker, st));
                     st = (if clearing then st\<lparr>clearing_in_progress := False\<rparr> else st)
                 in Some (0, marker, st\<lparr>inode_lock := inode_lock st - 1\<rparr>))))"

definition prefetch_start_trace where
  "prefetch_start_trace e mem st = walk_pages e mem START_TRACING st"

definition prefetch_continue_trace where
  "prefetch_continue_trace e mem st = walk_pages e mem CONTINUE_TRACING st"

definition prefetch_stop_trace where
  "prefetch_stop_trace e mem st = walk_pages e mem STOP_TRACING st"

section \<open>What showing all inodes does\<close>

text \<open>The records that a run which is not clearing adds, inode by inode.\<close>

definition clear_mapping :: "address_space \<Rightarrow> address_space" where
  "clear_mapping m = m\<lparr>page_tree := cleared (page_tree m)\<rparr>"

definition mapping_records :: "address_space \<Rightarrow> prefetch_trace_record_t list" where
  "mapping_records m =
     (case host m of
        None \<Rightarrow> []
      | Some h \<Rightarrow>
          (case i_bdev h of
             None \<Rightarrow> []
           | Some dev \<Rightarrow> map (range_record dev (i_ino h)) (file_ranges (page_tree m))))"

fun walk_records ::
  "kernel \<Rightarrow> nat list \<Rightarrow> (nat \<Rightarrow> address_space) \<Rightarrow> prefetch_trace_record_t list" where
  "walk_records k [] mem = []"
| "walk_records k (i # is) mem =
     (case i_mapping (inode_at k i) of
        None \<Rightarrow> walk_records k is mem
      | Some a \<Rightarrow> mapping_records (mem a) @ walk_records k is (mem(a := clear_mapping (mem a))))"

definition walked_mappings :: "kernel \<Rightarrow> nat list \<Rightarrow> nat set" where
  "walked_mappings k is = {a. \<exists>i\<in>set is. i_mapping (inode_at k i) = Some a}"

definition walkable_mapping :: "nat \<Rightarrow> address_space \<Rightarrow> bool" where
  "walkable_mapping fuel m \<longleftrightarrow> sorted_pages (page_tree m) \<and> - 1 \<notin> fst ` set (page_tree m)
     \<and> length (page_tree m) < fuel"

lemma trace_after_records:
  "trace_after c (host m) (file_ranges (page_tree m)) t = (if c then t else add_all (mapping_records m) t)"
  by (auto simp: trace_after_def mapping_records_def split: option.splits)

lemma add_all_append: "add_all (rs @ rs') t = add_all rs' (add_all rs t)"
  by (simp add: add_all_def)

lemma clear_mapping_simps [simp]:
  "walkable_mapping fuel (clear_mapping m) = walkable_mapping fuel m"
  "clear_mapping (clear_mapping m) = clear_mapping m" "referenced (page_tree (clear_mapping m)) = {}"
  "host (clear_mapping m) = host m"
proof -
  have keys: "map fst (page_tree (clear_mapping m)) = map fst (page_tree m)"
    by (auto simp: clear_mapping_def)
  have "length (page_tree (clear_mapping m)) = length (page_tree m)" by (simp add: clear_mapping_def)
  then show "walkable_mapping fuel (clear_mapping m) = walkable_mapping fuel m"
    unfolding walkable_mapping_def sorted_pages_def set_map [symmetric] keys by simp
  have "(\<lambda>(i, r). (i, False)) \<circ> (\<lambda>(i, r). (i, False)) = (\<lambda>(i::u32, r::bool). (i, False))" by auto
  then show "clear_mapping (clear_mapping m) = clear_mapping m" by (simp add: clear_mapping_def)
qed (auto simp: clear_mapping_def referenced_def)

lemma show_all_result:
  assumes lk: "radix_tree lookup"
    and "\<forall>a\<in>walked_mappings k is. walkable_mapping fuel (mem a)"
  shows "\<exists>s'. show_all k lookup c fuel is (mem, s, t)
    = Some ((\<lambda>a. if a \<in> walked_mappings k is then clear_mapping (mem a) else mem a), s',
        if c then t else add_all (walk_records k is mem) t)"
  using assms(2)
proof (induction "is" arbitrary: mem s t)
  case Nil
  then show ?case by (simp add: walked_mappings_def)
next
  case (Cons i "is")
  show ?case
  proof (cases "i_mapping (inode_at k i)")
    case None
    then have "walked_mappings k (i # is) = walked_mappings k is" by (auto simp: walked_mappings_def)
    then show ?thesis
      using Cons.IH [of mem "s\<lparr>inodes_walked := inodes_walked s + 1\<rparr>" t] Cons.prems None
      by (simp only: show_inode_def show_all.simps walk_records.simps prod.case Let_def option.case
          Option.bind.bind_lunit)
  next
    case (Some a)
    then have wm: "walked_mappings k (i # is) = insert a (walked_mappings k is)"
      by (auto simp: walked_mappings_def)
    have "walkable_mapping fuel (mem a)" using Cons.prems wm by simp
    then have sp: "split_at [] (page_tree (mem a)) 0" and fl: "length (page_tree (mem a)) < fuel"
      by (simp_all add: walkable_mapping_def split_at_start)
    obtain s1 where wf: "walk_file_cache lookup c fuel (mem a) (s\<lparr>inodes_walked := inodes_walked s + 1\<rparr>, t)
        = Some (clear_mapping (mem a), s1, if c then t else add_all (mapping_records (mem a)) t)"
      using radix_tree.walk_file_cache_result [OF lk sp fl] by (simp add: clear_mapping_def trace_after_records)
    let ?mem = "mem(a := clear_mapping (mem a))"
    have "\<forall>b\<in>walked_mappings k is. walkable_mapping fuel (?mem b)" using Cons.prems wm by auto
    let ?t = "if c then t else add_all (mapping_records (mem a)) t"
    have tr: "(if c then ?t else add_all (walk_records k is ?mem) ?t)
        = (if c then t else add_all (walk_records k (i # is) mem) t)"
      by (simp add: Some add_all_append)
    from Cons.IH [OF \<open>\<forall>b\<in>walked_mappings k is. walkable_mapping fuel (?mem b)\<close>, of s1 ?t, unfolded tr]
    obtain s' where "show_all k lookup c fuel is (?mem, s1, ?t)
      = Some ((\<lambda>b. if b \<in> walked_mappings k is then clear_mapping (?mem b) else ?mem b), s',
        if c then t else add_all (walk_records k (i # is) mem) t)"
      by blast
    moreover have "(\<lambda>b. if b \<in> walked_mappings k is then clear_mapping (?mem b) else ?mem b)
        = (\<lambda>b. if b \<in> walked_mappings k (i # is) then clear_mapping (mem b) else mem b)"
      by (auto simp: wm)
    ultimately show ?thesis using wf by (simp add: show_inode_def Some)
  qed
qed

section \<open>What the records cover\<close>

text \<open>
  The pages of the walked inodes whose referenced bit is set, as triples of device, inode number
  and page number; an inode counts with the device and number of the host of its mapping.
\<close>

definition touched_in :: "address_space \<Rightarrow> (u32 \<times> u32 \<times> nat) set" where
  "touched_in m = {(dev, ino, p). \<exists>h. host m = Some h \<and> i_bdev h = Some dev \<and> i_ino h = ino
     \<and> p \<in> referenced (page_tree m)}"

definition touched :: "nat set \<Rightarrow> (nat \<Rightarrow> address_space) \<Rightarrow> (u32 \<times> u32 \<times> nat) set" where
  "touched as mem = (\<Union>a\<in>as. touched_in (mem a))"

definition record_pages :: "prefetch_trace_record_t list \<Rightarrow> (u32 \<times> u32 \<times> nat) set" where
  "record_pages rs = (\<Union>r\<in>set rs. pages r)"

lemma record_pages_simps [simp]:
  "record_pages [] = {}" "record_pages (r # rs) = pages r \<union> record_pages rs"
  "record_pages (rs @ rs') = record_pages rs \<union> record_pages rs'"
  by (auto simp: record_pages_def)

lemma pages_range_record:
  "pages (range_record dev ino (s, l)) = {(dev, ino, p) | p. p \<in> span s l}"
  by (auto simp: pages_def range_record_def)

lemma record_pages_ranges:
  "record_pages (map (range_record dev ino) rs) = {(dev, ino, p) | p. p \<in> pages_of rs}"
  by (induction rs) (auto simp: pages_range_record)

lemma mapping_records_cover:
  assumes "walkable_mapping fuel m"
  shows "record_pages (mapping_records m) = touched_in m"
proof -
  have "split_at [] (page_tree m) 0" using assms by (simp add: walkable_mapping_def split_at_start)
  then have "pages_of (referenced_runs (page_tree m)) = referenced (page_tree m)"
    by (rule referenced_runs_correct [THEN conjunct2])
  then have "pages_of (file_ranges (page_tree m)) = referenced (page_tree m)"
    by (simp add: file_ranges_runs)
  then have cover: "record_pages (map (range_record dev ino) (file_ranges (page_tree m)))
      = {(dev, ino, p) | p. p \<in> referenced (page_tree m)}" for dev ino
    by (simp only: record_pages_ranges)
  show ?thesis
  proof (cases "\<exists>h dev. host m = Some h \<and> i_bdev h = Some dev")
    case True
    then obtain h dev where "host m = Some h" "i_bdev h = Some dev" by blast
    then show ?thesis using cover by (auto simp: mapping_records_def touched_in_def)
  next
    case False
    then show ?thesis by (auto simp: mapping_records_def touched_in_def split: option.splits)
  qed
qed

lemma touched_clear [simp]: "touched_in (clear_mapping m) = {}"
  by (auto simp: touched_in_def)

lemma walk_records_cover:
  "\<forall>a\<in>walked_mappings k is. walkable_mapping fuel (mem a) \<Longrightarrow>
   record_pages (walk_records k is mem) = touched (walked_mappings k is) mem"
proof (induction "is" arbitrary: mem)
  case Nil
  then show ?case by (simp add: touched_def walked_mappings_def)
next
  case (Cons i "is")
  show ?case
  proof (cases "i_mapping (inode_at k i)")
    case None
    then have "walked_mappings k (i # is) = walked_mappings k is" by (auto simp: walked_mappings_def)
    then show ?thesis using Cons None by simp
  next
    case (Some a)
    then have wm: "walked_mappings k (i # is) = insert a (walked_mappings k is)"
      by (auto simp: walked_mappings_def)
    let ?mem = "mem(a := clear_mapping (mem a))"
    have m: "record_pages (mapping_records (mem a)) = touched_in (mem a)"
      using Cons.prems wm by (intro mapping_records_cover) auto
    have "record_pages (walk_records k is ?mem) = touched (walked_mappings k is) ?mem"
      using Cons.prems wm by (intro Cons.IH) auto
    also have "touched_in (mem a) \<union> \<dots> = touched (walked_mappings k (i # is)) mem"
      by (auto simp: touched_def wm split: if_splits)
    finally show ?thesis using m Some by simp
  qed
qed

section \<open>What one call does\<close>

text \<open>Everything a walk needs to visit all inodes in use and to end.\<close>

definition env_ok :: "walk_env \<Rightarrow> (nat \<Rightarrow> address_space) \<Rightarrow> bool" where
  "env_ok e mem \<longleftrightarrow> radix_tree (we_lookup e) \<and> 0 < IVEC_SIZE (we_config e)
     \<and> no_restart (we_config e) (we_kernel e)
     \<and> length (walkable (we_kernel e)) < we_inode_fuel e
     \<and> (\<forall>a\<in>walked_mappings (we_kernel e) (walkable (we_kernel e)). walkable_mapping (we_page_fuel e) (mem a))"

abbreviation env_mappings :: "walk_env \<Rightarrow> nat set" where
  "env_mappings e \<equiv> walked_mappings (we_kernel e) (walkable (we_kernel e))"

abbreviation env_records :: "walk_env \<Rightarrow> (nat \<Rightarrow> address_space) \<Rightarrow> prefetch_trace_record_t list" where
  "env_records e \<equiv> walk_records (we_kernel e) (walkable (we_kernel e))"

abbreviation cleared_mappings :: "walk_env \<Rightarrow> (nat \<Rightarrow> address_space) \<Rightarrow> nat \<Rightarrow> address_space" where
  "cleared_mappings e mem \<equiv> (\<lambda>a. if a \<in> env_mappings e then clear_mapping (mem a) else mem a)"

definition granted :: walk_memory where
  "granted = \<lparr>session_granted = True, window_granted = True\<rparr>"

lemma walk_loop_ok:
  assumes "env_ok e mem" and "inode_walk_start (we_config e) (we_kernel e) 0 new_cursor = (again, c)"
  shows "\<exists>c' s'. inode_walk_loop (we_config e) (we_kernel e) (we_lookup e) clearing (we_page_fuel e)
      (we_inode_fuel e) 0 again (c, mem, s, t)
    = Some (c', cleared_mappings e mem, s', if clearing then t else add_all (env_records e mem) t)"
proof -
  have e: "radix_tree (we_lookup e)" "0 < IVEC_SIZE (we_config e)" "no_restart (we_config e) (we_kernel e)"
    "length (walkable (we_kernel e)) < we_inode_fuel e"
    "\<forall>a\<in>env_mappings e. walkable_mapping (we_page_fuel e) (mem a)"
    using assms(1) by (simp_all add: env_ok_def)
  obtain c' where v: "visits (we_config e) (we_kernel e) (we_inode_fuel e) 0 again c
      = Some (walkable (we_kernel e), c')"
    using walk_dense [OF e(2-4) assms(2)] by blast
  obtain s' where "show_all (we_kernel e) (we_lookup e) clearing (we_page_fuel e) (walkable (we_kernel e))
      (mem, s, t) = Some (cleared_mappings e mem, s',
        if clearing then t else add_all (env_records e mem) t)"
    using show_all_result [OF e(1,5)] by blast
  then show ?thesis by (simp add: inode_walk_loop_visits [OF v])
qed

lemma walk_first_start:
  assumes "env_ok e (mappings st)" and "tracers_count st = 0" and "clearing_in_progress st = False"
  shows "walk_pages e granted START_TRACING st = Some (0, Some (get_trace_marker (prefetch_trace st)),
    st\<lparr>prefetch_trace := report_overflow (prefetch_trace st), tracers_count := 1,
       mappings := cleared_mappings e (mappings st)\<rparr>)"
proof -
  obtain again c where w: "inode_walk_start (we_config e) (we_kernel e) 0 new_cursor = (again, c)"
    by force
  have "get_trace_marker (report_overflow t) = get_trace_marker t" for t
    by (simp add: report_overflow_def get_trace_marker_def)
  then show ?thesis
    using walk_loop_ok [OF assms(1) w, of True new_session "report_overflow (prefetch_trace st)"]
      assms(2,3) by (auto simp: walk_pages_def granted_def Let_def w)
qed

lemma walk_recording:
  assumes "env_ok e (mappings st)" and "clearing_in_progress st = False"
    and "command = STOP_TRACING \<or> command = CONTINUE_TRACING"
  shows "walk_pages e granted command st =
    (let t = add_all (env_records e (mappings st)) (report_overflow (prefetch_trace st)) in
     Some (0, Some (get_trace_marker t),
       st\<lparr>prefetch_trace := t,
          tracers_count := tracers_count st - (if command = STOP_TRACING then 1 else 0),
          mappings := cleared_mappings e (mappings st)\<rparr>))"
proof -
  obtain again c where w: "inode_walk_start (we_config e) (we_kernel e) 0 new_cursor = (again, c)"
    by force
  show ?thesis
    using walk_loop_ok [OF assms(1) w, of False new_session "report_overflow (prefetch_trace st)"]
      assms(2,3) by (auto simp: walk_pages_def granted_def Let_def w)
qed

lemma walk_no_session:
  "\<not> session_granted mem \<Longrightarrow> walk_pages e mem command st
    = Some (- ENOMEM, None, st\<lparr>prefetch_trace := report_overflow (prefetch_trace st)\<rparr>)"
  by (simp add: walk_pages_def)

lemma walk_later_start:
  assumes "env_ok e (mappings st)" and "tracers_count st \<noteq> 0" and "clearing_in_progress st = False"
  shows "walk_pages e granted START_TRACING st = Some (0, None,
    st\<lparr>prefetch_trace := add_all (env_records e (mappings st)) (report_overflow (prefetch_trace st)),
       tracers_count := tracers_count st + 1, mappings := cleared_mappings e (mappings st)\<rparr>)"
proof -
  obtain again c where w: "inode_walk_start (we_config e) (we_kernel e) 0 new_cursor = (again, c)"
    by force
  show ?thesis
    using walk_loop_ok [OF assms(1) w, of False new_session "report_overflow (prefetch_trace st)"]
      assms(2,3) by (auto simp: walk_pages_def granted_def Let_def w)
qed

lemma trace_inv_report [simp]: "trace_inv (report_overflow t) = trace_inv t"
  by (cases "pt_buffer t") (auto simp: report_overflow_def trace_inv_def)

lemma report_overflow_same [simp]:
  "pt_buffer_used (report_overflow t) = pt_buffer_used t"
  "pt_buffer_size (report_overflow t) = pt_buffer_size t"
  "pt_buffer (report_overflow t) = pt_buffer t"
  "pt_overflow (report_overflow t) = pt_overflow t"
  by (simp_all add: report_overflow_def)

lemma room_report [simp]: "room (report_overflow t) = room t"
  by (simp add: room_def)

lemma recorded_report [simp]: "recorded (report_overflow t) = recorded t"
  by (cases "pt_buffer t") (simp_all add: recorded_def)

lemma fragment_cong:
  assumes "pt_buffer t1 = pt_buffer t2" and "pt_buffer_used t1 = pt_buffer_used t2"
  shows "get_prefetch_trace_fragment granted_mem t1 = get_prefetch_trace_fragment granted_mem t2"
proof -
  have "trace_marker_position_in_buffer t1 = trace_marker_position_in_buffer t2"
    by (intro ext) (simp add: trace_marker_position_in_buffer_def assms)
  then show ?thesis by (intro ext) (simp only: get_prefetch_trace_fragment_def assms)
qed

text \<open>The overflow flag that is only reported does not change what is added and read.\<close>

lemma add_report:
  assumes "trace_inv t"
  shows "get_prefetch_trace_fragment True (add_all rs' (report_overflow (add_all rs t)))
      (get_trace_marker t) (get_trace_marker (add_all rs' (report_overflow (add_all rs t))))
    = get_prefetch_trace_fragment True (add_all (rs @ rs') t)
      (get_trace_marker t) (get_trace_marker (add_all (rs @ rs') t))"
proof -
  have same: "pt_buffer (add_all rs (t\<lparr>pt_overflow_reported := b\<rparr>)) = pt_buffer (add_all rs t)
    \<and> pt_buffer_used (add_all rs (t\<lparr>pt_overflow_reported := b\<rparr>)) = pt_buffer_used (add_all rs t)"
    for rs t b
  proof (induction rs arbitrary: t)
    case (Cons r rs)
    have "prefetch_trace_add r (t\<lparr>pt_overflow_reported := b\<rparr>)
        = (prefetch_trace_add r t)\<lparr>pt_overflow_reported := b\<rparr>"
      by (simp add: prefetch_trace_add_def)
    then show ?case using Cons.IH by simp
  qed simp
  let ?t1 = "add_all rs' (report_overflow (add_all rs t))" and ?t2 = "add_all (rs @ rs') t"
  have "pt_buffer ?t1 = pt_buffer ?t2 \<and> pt_buffer_used ?t1 = pt_buffer_used ?t2"
    using same [of rs' True "add_all rs t"] by (simp add: report_overflow_def add_all_append)
  then have "get_prefetch_trace_fragment True ?t1 = get_prefetch_trace_fragment True ?t2"
    and "get_trace_marker ?t1 = get_trace_marker ?t2"
    by (auto intro: fragment_cong simp: get_trace_marker_def)
  then show ?thesis by simp
qed

section \<open>When a call returns\<close>

lemma show_all_walkable:
  assumes "radix_tree lookup" and "\<forall>a\<in>walked_mappings k is. walkable_mapping fuel (mem a)"
  shows "show_all k lookup clearing fuel is (mem, s, t) \<noteq> None"
  using show_all_result [OF assms, of clearing s t] by auto

lemma show_all_last_index:
  assumes "radix_tree lookup" and "sorted_pages (page_tree (mem a))" and "- 1 \<in> fst ` set (page_tree (mem a))"
    and "a \<in> walked_mappings k is"
  shows "show_all k lookup clearing fuel is (mem, s, t) = None"
  using assms(2-4)
proof (induction "is" arbitrary: mem s t)
  case Nil
  then show ?case by (simp add: walked_mappings_def)
next
  case (Cons i "is")
  show ?case
  proof (cases "i_mapping (inode_at k i) = Some a")
    case True
    have "walk_file_cache lookup clearing fuel (mem a) st = None" for st
      using radix_tree.walk_last_index [OF assms(1) Cons.prems(1,2)] by (cases st) (simp add: walk_file_cache_def)
    then show ?thesis using True by (simp add: show_inode_def Let_def)
  next
    case False
    then have a: "a \<in> walked_mappings k is" using Cons.prems(3) by (auto simp: walked_mappings_def)
    show ?thesis
    proof (cases "show_inode lookup clearing fuel (inode_at k i) (mem, s, t)")
      case (Some w)
      obtain mem' s' t' where w: "w = (mem', s', t')" by (metis prod_cases3)
      have "mem' a = mem a"
        using Some w False by (auto simp: show_inode_def Let_def split: option.splits)
      then show ?thesis using Cons.IH [of mem' s' t'] Cons.prems(1,2) a Some w by simp
    qed simp
  qed
qed

text \<open>
  What a walk needs to end: a radix tree, room in the window, kernel lists in which every inode is
  on one list and the clean ones in use are on \<open>inode_in_use\<close>, and fuel for all inodes in use and for
  the pages of each.
\<close>

definition walk_ready :: "walk_env \<Rightarrow> (nat \<Rightarrow> address_space) \<Rightarrow> bool" where
  "walk_ready e mem \<longleftrightarrow> radix_tree (we_lookup e) \<and> 0 < IVEC_SIZE (we_config e)
     \<and> clean_on_in_use (we_kernel e) \<and> length (walkable (we_kernel e)) < we_inode_fuel e
     \<and> (\<forall>a\<in>env_mappings e. sorted_pages (page_tree (mem a)) \<and> length (page_tree (mem a)) < we_page_fuel e)"

definition last_index_cached :: "walk_env \<Rightarrow> (nat \<Rightarrow> address_space) \<Rightarrow> bool" where
  "last_index_cached e mem \<longleftrightarrow> (\<exists>a\<in>env_mappings e. - 1 \<in> fst ` set (page_tree (mem a)))"

lemma walk_loop_ends:
  assumes r: "walk_ready e mem" and l: "\<not> last_index_cached e mem"
    and w: "inode_walk_start (we_config e) (we_kernel e) 0 new_cursor = (again, c)"
  shows "inode_walk_loop (we_config e) (we_kernel e) (we_lookup e) clearing (we_page_fuel e)
      (we_inode_fuel e) 0 again (c, mem, s, t) \<noteq> None"
proof -
  have e: "clean_on_in_use (we_kernel e)" "0 < IVEC_SIZE (we_config e)"
    "length (walkable (we_kernel e)) < we_inode_fuel e"
    using r by (simp_all add: walk_ready_def)
  obtain "is" c' where v: "visits (we_config e) (we_kernel e) (we_inode_fuel e) 0 again c = Some (is, c')"
    "set is \<subseteq> set (walkable (we_kernel e))"
    using walk_end [OF e w] by blast
  have sub: "walked_mappings (we_kernel e) is \<subseteq> env_mappings e"
    using v(2) unfolding walked_mappings_def by blast
  have "walkable_mapping (we_page_fuel e) (mem a)" if "a \<in> env_mappings e" for a
    using r l that unfolding walk_ready_def last_index_cached_def walkable_mapping_def by blast
  then have "show_all (we_kernel e) (we_lookup e) clearing (we_page_fuel e) is (mem, s, t) \<noteq> None"
    using r sub by (intro show_all_walkable) (auto simp: walk_ready_def)
  then show ?thesis by (simp add: inode_walk_loop_visits [OF v(1)])
qed

lemma walk_loop_endless:
  assumes r: "walk_ready e mem" and l: "last_index_cached e mem"
    and n: "no_restart (we_config e) (we_kernel e)"
    and w: "inode_walk_start (we_config e) (we_kernel e) 0 new_cursor = (again, c)"
  shows "inode_walk_loop (we_config e) (we_kernel e) (we_lookup e) clearing (we_page_fuel e)
      (we_inode_fuel e) 0 again (c, mem, s, t) = None"
proof -
  have e: "0 < IVEC_SIZE (we_config e)" "length (walkable (we_kernel e)) < we_inode_fuel e"
    "radix_tree (we_lookup e)"
    using r by (simp_all add: walk_ready_def)
  obtain c' where v: "visits (we_config e) (we_kernel e) (we_inode_fuel e) 0 again c
      = Some (walkable (we_kernel e), c')"
    using walk_dense [OF e(1) n e(2) w] by blast
  obtain a where a: "a \<in> env_mappings e" "- 1 \<in> fst ` set (page_tree (mem a))"
    using l by (auto simp: last_index_cached_def)
  have "sorted_pages (page_tree (mem a))" using r a(1) by (simp add: walk_ready_def)
  from show_all_last_index [where mem = mem and a = a, OF e(3) this a(2,1)] show ?thesis
    by (simp add: inode_walk_loop_visits [OF v])
qed

lemma walk_returned:
  assumes "walk_pages e mem command st = Some (r, m, st')"
  shows "inode_lock st' = inode_lock st - (if session_granted mem \<and> \<not> window_granted mem then 1 else 0)
    \<and> tracers_count st' = tracers_count st + (if \<not> session_granted mem then 0
        else if command = START_TRACING then 1 else if command = STOP_TRACING then - 1 else 0)
    \<and> r = (if session_granted mem then 0 else - ENOMEM)"
  using assms
  by (cases command; cases "window_granted mem")
    (auto simp: walk_pages_def Let_def split: if_splits prod.splits option.splits)

section \<open>Properties\<close>

text \<open>
  C7: from the first start to the stop, the trace is exactly what was touched: the first tracer
  clears the referenced bits of all pages of the inodes in use and gets a marker; whatever pages
  get referenced afterwards (the mappings \<open>mem\<close> at the time of the stop) and whatever records the
  page release hook adds meanwhile, the fragment between the two markers decodes to records that
  cover exactly the released pages and the pages referenced at the stop, provided the buffer has
  room for them.
\<close>

theorem trace_session_records_touched_pages:
  assumes "env_ok e (mappings st)" and "tracers_count st = 0" and "clearing_in_progress st = False"
    and "trace_inv (prefetch_trace st)"
    and start: "prefetch_start_trace e granted st = Some (r0, m0, st0)"
    and "env_ok e mem"
    and stop: "prefetch_stop_trace e granted
      (st0\<lparr>mappings := mem, prefetch_trace := add_all released (prefetch_trace st0)\<rparr>) = Some (r1, m1, st1)"
    and "length released + length (env_records e mem) \<le> room (prefetch_trace st)"
  shows "r0 = 0 \<and> r1 = 0 \<and> touched (env_mappings e) (mappings st0) = {}
    \<and> (\<exists>start_marker end_marker. m0 = Some start_marker \<and> m1 = Some end_marker
       \<and> (case get_prefetch_trace_fragment True (prefetch_trace st1) start_marker end_marker of
            Inl _ \<Rightarrow> False
          | Inr None \<Rightarrow> record_pages released \<union> touched (env_mappings e) mem = {}
          | Inr (Some fragment) \<Rightarrow>
              record_pages (decode_records fragment) = record_pages released \<union> touched (env_mappings e) mem))
    \<and> tracers_count st1 = 0"
proof -
  let ?t = "report_overflow (prefetch_trace st)" and ?rs = "released @ env_records e mem"
  have st0: "r0 = 0" "m0 = Some (get_trace_marker ?t)" "prefetch_trace st0 = ?t" "tracers_count st0 = 1"
    "mappings st0 = cleared_mappings e (mappings st)" "clearing_in_progress st0 = False"
    using start walk_first_start [OF assms(1-3)] assms(3)
    by (auto simp: prefetch_start_trace_def get_trace_marker_def)
  let ?st = "st0\<lparr>mappings := mem, prefetch_trace := add_all released (prefetch_trace st0)\<rparr>"
  let ?t1 = "add_all (env_records e mem) (report_overflow (add_all released ?t))"
  have st1: "r1 = 0" "m1 = Some (get_trace_marker ?t1)" "prefetch_trace st1 = ?t1" "tracers_count st1 = 0"
    using stop walk_recording [of e ?st STOP_TRACING] assms(6) st0
    by (auto simp: prefetch_stop_trace_def Let_def)
  have inv: "trace_inv ?t" using assms(4) by simp
  have all: "take (room ?t) ?rs = ?rs" using assms(8) by simp
  have wm: "\<forall>a\<in>env_mappings e. walkable_mapping (we_page_fuel e) (mem a)" using assms(6) by (simp add: env_ok_def)
  have cover: "record_pages ?rs = record_pages released \<union> touched (env_mappings e) mem"
    using walk_records_cover [OF wm] by simp
  have "touched (env_mappings e) (mappings st0) = {}" by (auto simp: st0 touched_def)
  moreover have "case get_prefetch_trace_fragment True ?t1 (get_trace_marker ?t) (get_trace_marker ?t1) of
      Inl _ \<Rightarrow> False | Inr None \<Rightarrow> record_pages ?rs = {}
    | Inr (Some fragment) \<Rightarrow> record_pages (decode_records fragment) = record_pages ?rs"
  proof (cases "?rs = []")
    case True
    then have "get_trace_marker ?t1 = get_trace_marker ?t" by (simp add: get_trace_marker_def)
    then show ?thesis using True by (simp add: fragment_empty)
  next
    case False
    then have ne: "take (room ?t) ?rs \<noteq> []" using all by simp
    then show ?thesis
      using add_all_fragment [OF inv ne] unfolding all add_report [OF inv]
      by (simp add: decode_encode_records del: record_pages_simps(3))
  qed
  ultimately show ?thesis unfolding cover using st0 st1 by auto
qed

definition sample_env :: walk_env where
  "sample_env = \<lparr>we_config = sample_config, we_kernel = sample_kernel [5, 6],
     we_lookup = list_lookup 14, we_page_fuel = 5, we_inode_fuel = 3\<rparr>"

definition sample_mappings :: "page_tree \<Rightarrow> nat \<Rightarrow> address_space" where
  "sample_mappings tree a = \<lparr>host = Some \<lparr>i_ino = of_nat a, i_bdev = Some 8\<rparr>,
     page_tree = (if a = 5 then tree else [])\<rparr>"

definition sample_state :: "page_tree \<Rightarrow> tracing_state" where
  "sample_state tree = \<lparr>prefetch_trace = sample_trace, tracers_count = 0, clearing_in_progress = False,
     inode_lock = 0, mappings = sample_mappings tree\<rparr>"

lemma sample_env_mappings: "env_mappings sample_env = {5, 6}"
  by (auto simp: sample_env_def sample_walkable walked_mappings_def) (auto simp: sample_kernel_def)

lemma sample_env_ok:
  assumes "sorted_pages tree" and "- 1 \<notin> fst ` set tree" and "length tree < 5"
  shows "env_ok sample_env (sample_mappings tree)"
  using assms pagevec.radix_tree_axioms sample_env_mappings
  by (simp add: env_ok_def sample_env_def sample_walkable sample_ivec_size no_restart_def
      sample_mappings_def walkable_mapping_def sorted_pages_def)

lemma sample_records:
  "env_records sample_env (sample_mappings [(0, True)]) = [range_record 8 5 (0, 1)]"
  by (simp add: sample_env_def sample_walkable, simp add: sample_kernel_def mapping_records_def
      sample_mappings_def clear_mapping_def file_ranges_def)

lemma trace_session_records_touched_pages_witness:
  "\<exists>st0 m0 st1 m1. prefetch_start_trace sample_env granted (sample_state [(3, True)]) = Some (0, m0, st0)
    \<and> prefetch_stop_trace sample_env granted (st0\<lparr>mappings := sample_mappings [(0, True)],
        prefetch_trace := add_all [] (prefetch_trace st0)\<rparr>) = Some (0, m1, st1)
    \<and> touched {5, 6} (mappings st0) = {}
    \<and> (case get_prefetch_trace_fragment True (prefetch_trace st1) (the m0) (the m1) of
         Inr (Some fragment) \<Rightarrow> record_pages (decode_records fragment) = {(8, 5, 0)}
       | _ \<Rightarrow> False)"
proof -
  let ?st = "sample_state [(3, True)]" and ?mem = "sample_mappings [(0, True)]"
  have ok: "env_ok sample_env (mappings ?st)" "env_ok sample_env ?mem"
    using sample_env_ok [of "[(3, True)]"] sample_env_ok [of "[(0, True)]"]
    by (simp_all add: sample_state_def sorted_pages_def)
  have st: "tracers_count ?st = 0" "clearing_in_progress ?st = False" "trace_inv (prefetch_trace ?st)"
    "room (prefetch_trace ?st) = 2"
    by (simp_all add: sample_state_def sample_trace_inv sample_room)
  obtain m0 st0 where start: "prefetch_start_trace sample_env granted ?st = Some (0, m0, st0)"
    and c0: "clearing_in_progress st0 = False"
    using walk_first_start [OF ok(1) st(1,2)] st(2) by (simp add: prefetch_start_trace_def)
  let ?late = "st0\<lparr>mappings := ?mem, prefetch_trace := add_all [] (prefetch_trace st0)\<rparr>"
  obtain m1 st1 where stop: "prefetch_stop_trace sample_env granted ?late = Some (0, m1, st1)"
    using walk_recording [of sample_env ?late STOP_TRACING] ok(2) c0
    by (simp add: prefetch_stop_trace_def Let_def)
  have rm: "length [] + length (env_records sample_env ?mem) \<le> room (prefetch_trace ?st)"
    by (simp add: sample_records st)
  have tc: "touched {5, 6} ?mem = {(8, 5, 0)}"
    by (auto simp: touched_def touched_in_def sample_mappings_def)
  note main = trace_session_records_touched_pages [OF ok(1) st(1-3) start ok(2) stop rm,
      unfolded sample_env_mappings tc]
  then obtain a b where ab: "m0 = Some a" "m1 = Some b"
    and frag: "case get_prefetch_trace_fragment True (prefetch_trace st1) a b of
        Inl _ \<Rightarrow> False
      | Inr None \<Rightarrow> record_pages [] \<union> {(8, 5, 0)} = {}
      | Inr (Some fragment) \<Rightarrow> record_pages (decode_records fragment) = record_pages [] \<union> {(8, 5, 0)}"
    by blast
  have "case get_prefetch_trace_fragment True (prefetch_trace st1) a b of
      Inr (Some fragment) \<Rightarrow> record_pages (decode_records fragment) = {(8, 5, 0)} | _ \<Rightarrow> False"
    using frag by (cases "get_prefetch_trace_fragment True (prefetch_trace st1) a b")
      (auto split: option.splits)
  then show ?thesis
    using main start stop ab
    by (intro exI [of _ st0] exI [of _ m0] exI [of _ st1] exI [of _ m1]) simp
qed


lemma sample_walk_ready:
  assumes "sorted_pages tree" and "length tree < 5"
  shows "walk_ready sample_env (sample_mappings tree)"
  using assms pagevec.radix_tree_axioms sample_env_mappings
  by (simp add: walk_ready_def sample_env_def sample_walkable sample_ivec_size sample_mappings_def
      sorted_pages_def clean_on_in_use_def) (simp add: sample_kernel_def all_inodes_def)


text \<open>
  a tracer that starts while the count is not 0 gets no marker at all (the caller's variable
  keeps what it held), although the call reports success; nothing is cleared without being
  recorded. This is also what the first start after a surplus stop finds: the count has become -1,
  the start makes it 0, and the page release hook records nothing.
\<close>

theorem later_start_gets_no_marker:
  assumes "env_ok e (mappings st)" and "tracers_count st \<noteq> 0" and "clearing_in_progress st = False"
  shows "\<exists>st'. prefetch_start_trace e granted st = Some (0, None, st')
    \<and> prefetch_trace st' = add_all (env_records e (mappings st)) (report_overflow (prefetch_trace st))
    \<and> (tracers_count st = - 1 \<longrightarrow>
        (\<forall>page t. prefetch_page_release_hook (tracers_count st') page t = t))"
  using walk_later_start [OF assms]
  by (auto simp: prefetch_start_trace_def prefetch_page_release_hook_def prefetch_add_page_to_trace_def)

lemma later_start_gets_no_marker_witness:
  "\<exists>st'. prefetch_start_trace sample_env granted (sample_state []\<lparr>tracers_count := - 1\<rparr>) = Some (0, None, st')
    \<and> prefetch_page_release_hook (tracers_count st')
        \<lparr>pg_host = None, pg_index = 0, pg_referenced = True, pg_swap = False\<rparr> sample_trace = sample_trace"
proof -
  have "env_ok sample_env (mappings (sample_state []\<lparr>tracers_count := - 1\<rparr>))"
    using sample_env_ok [of "[]"] by (simp add: sample_state_def sorted_pages_def)
  from later_start_gets_no_marker [OF this] show ?thesis by (auto simp: sample_state_def)
qed

end
