(* ===== verification/Kernel_Prefetch.thy ===== *)
theory Kernel_Prefetch
  imports Kernel_Tracing Print_Trace
begin

text \<open>
  What is done with a trace fragment (\<open>prefetch.c\<close>): sorting, printing, the (unused) in-place
  merge, and the prefetching itself, \<open>prefetch_do_prefetch\<close>, which walks over the records and
  asks the kernel to read their pages ahead. A fragment is a list of bytes; the objects of the
  kernel that the loop opens are parameters, their reference counts are part of the state.
\<close>

section \<open>Sorting and printing\<close>

definition kernel_trace_cmp :: "prefetch_trace_record_t \<Rightarrow> prefetch_trace_record_t \<Rightarrow> int" where
  "kernel_trace_cmp r1 r2 =
     (if device r1 < device r2 then - 1
      else if device r1 > device r2 then 1
      else if inode_no r1 < inode_no r2 then - 1
      else if inode_no r1 > inode_no r2 then 1
      else if range_start r1 < range_start r2 then - 1
      else if range_start r1 > range_start r2 then 1
      else if range_length r1 < range_length r2 then 1
      else if range_length r1 > range_length r2 then - 1
      else 0)"

definition kernel_cmp_less :: "prefetch_trace_record_t \<Rightarrow> prefetch_trace_record_t \<Rightarrow> bool" where
  "kernel_cmp_less r1 r2 \<longleftrightarrow> kernel_trace_cmp r1 r2 < 0"

text \<open>
  \<open>sort\<close> of \<open>linux/sort.h\<close> is the parameter \<open>srt\<close>; bytes behind the last whole record stay.
\<close>

definition sort_trace_fragment ::
  "(prefetch_trace_record_t list \<Rightarrow> prefetch_trace_record_t list) \<Rightarrow> byte list \<Rightarrow> byte list" where
  "sort_trace_fragment srt trace =
     encode_records (srt (decode_records trace)) @ drop (16 * (length trace div 16)) trace"

text \<open>
  The loop condition compares the start of the record with the end of the fragment, so the bytes
  behind the last whole record would be read as a record; the bytes behind the fragment are
  \<open>beyond\<close>.
\<close>

function prefetch_print_trace_fragment :: "byte list \<Rightarrow> byte list \<Rightarrow> string" where
  "prefetch_print_trace_fragment beyond trace_fragment =
     (if trace_fragment = [] then []
      else record_line (record_of_bytes (take 16 (trace_fragment @ beyond)))
        @ prefetch_print_trace_fragment beyond (drop 16 trace_fragment))"
  by pat_completeness auto
termination
  by (relation "measure (\<lambda>(_, trace). length trace)") auto

declare prefetch_print_trace_fragment.simps [simp del]

text \<open>
  \<open>print_prefetch_trace\<close>: a copy of the used part of the buffer is printed; nothing without
  memory for the copy.
\<close>

definition print_prefetch_trace :: "byte list option \<Rightarrow> prefetch_trace_t \<Rightarrow> string" where
  "print_prefetch_trace trace_copy t =
     (case trace_copy of
        None \<Rightarrow> []
      | Some junk \<Rightarrow>
          if pt_buffer_used t > PREFETCH_TRACE_SIZE then []
          else
            (let n = unat (pt_buffer_used t);
                 used = (if n = 0 then [] else take n (the (pt_buffer t)))
             in prefetch_print_trace_fragment (drop n junk) used))"

section \<open>The in-place merge\<close>

text \<open>
  \<open>merge_trace_fragment\<close> (its only call is commented out) on the array of the records of the
  fragment, with the index \<open>r\<close> of \<open>record\<close> and \<open>i\<close> of \<open>next_record\<close>. The result is the
  number of records that it says are left; \<open>None\<close> is the \<open>BUG_ON\<close>.
\<close>

function merge_fragment_loop ::
  "nat \<Rightarrow> nat \<Rightarrow> prefetch_trace_record_t list \<Rightarrow> (nat \<times> prefetch_trace_record_t list) option" where
  "merge_fragment_loop r i rs =
     (if \<not> i < length rs then Some (r, rs)
      else
        (let record = rs ! r; next_record = rs ! i in
         if device record = device next_record \<and> inode_no record = inode_no next_record
            \<and> range_start record + range_length record \<ge> range_start next_record
         then if range_start next_record < range_start record then None
           else merge_fragment_loop r (i + 1)
             (rs[r := record\<lparr>range_length := max (range_length record)
                (range_start next_record + range_length next_record - range_start record)\<rparr>])
         else merge_fragment_loop (r + 1) (i + 1) rs))"
  by pat_completeness auto
termination
  by (relation "measure (\<lambda>(r, i, rs). length rs - i)") auto

declare merge_fragment_loop.simps [simp del]

definition merge_trace_fragment ::
  "prefetch_trace_record_t list \<Rightarrow> (nat \<times> prefetch_trace_record_t list) option" where
  "merge_trace_fragment rs = merge_fragment_loop 0 1 rs"

section \<open>Prefetching\<close>

text \<open>
  The calls of the kernel: the super block of a device, what \<open>iget\<close> returns for a super block and a
  number, whether the \<open>n\<close>-th call finds a free file structure, and the result of reading ahead.
\<close>

datatype iget_result = Iget_null | Iget_error | Iget_inode nat

fun inode_pointer :: "iget_result \<Rightarrow> nat option" where
  "inode_pointer (Iget_inode a) = Some a"
| "inode_pointer _ = None"

text \<open>An access through a null or an error pointer ends in a kernel oops.\<close>

datatype 'a kernel_result = Returned 'a | Oops

record prefetch_env =
  user_get_super :: "u32 \<Rightarrow> nat option"
  iget :: "nat \<Rightarrow> u32 \<Rightarrow> iget_result"
  get_empty_filp :: "nat \<Rightarrow> bool"
  force_page_cache_readahead :: "nat \<Rightarrow> u32 \<Rightarrow> u32 \<Rightarrow> int"

text \<open>
  The local variables, the references held on super blocks, inodes and files, and the readaheads
  that were asked for: inode, start, length.
\<close>

record prefetch_state =
  pf_prev :: "prefetch_trace_record_t option"
  pf_sb :: "nat option"
  pf_inode :: "nat option"
  pf_file :: bool
  pf_failed :: nat
  sb_refs :: "nat \<Rightarrow> int"
  inode_refs :: "nat \<Rightarrow> int"
  file_refs :: int
  filp_calls :: nat
  readaheads :: "(nat \<times> u32 \<times> u32) list"

definition get_ref :: "nat option \<Rightarrow> (nat \<Rightarrow> int) \<Rightarrow> nat \<Rightarrow> int" where
  "get_ref x refs = (case x of None \<Rightarrow> refs | Some a \<Rightarrow> refs(a := refs a + 1))"

definition put_ref :: "nat option \<Rightarrow> (nat \<Rightarrow> int) \<Rightarrow> nat \<Rightarrow> int" where
  "put_ref x refs = (case x of None \<Rightarrow> refs | Some a \<Rightarrow> refs(a := refs a - 1))"

definition ENFILE :: int where "ENFILE = 23"

text \<open>The steps of the loop body: the next device, the next file, the readahead.\<close>

definition open_device :: "prefetch_env \<Rightarrow> prefetch_trace_record_t \<Rightarrow> prefetch_state \<Rightarrow> prefetch_state" where
  "open_device e r s =
     (if pf_prev s = None \<or> device (the (pf_prev s)) \<noteq> device r
      then (let sb = user_get_super e (device r)
            in s\<lparr>pf_sb := sb, sb_refs := get_ref sb (put_ref (pf_sb s) (sb_refs s))\<rparr>)
      else s)"

text \<open>
  \<open>Inl\<close>: the function ends with the error; \<open>Inr\<close>: go on with this record or not. A null pointer
  passes the test with \<open>IS_ERR\<close> and is followed when the fields of the file are filled.
\<close>

definition open_file_of ::
  "prefetch_env \<Rightarrow> nat \<Rightarrow> prefetch_trace_record_t \<Rightarrow> prefetch_state \<Rightarrow> (int + bool) kernel_result \<times> prefetch_state" where
  "open_file_of e sb r s =
     (if pf_prev s = None \<or> device (the (pf_prev s)) \<noteq> device r \<or> inode_no (the (pf_prev s)) \<noteq> inode_no r
      then
        (let inode = inode_pointer (iget e sb (inode_no r));
             s = s\<lparr>pf_inode := inode, inode_refs := get_ref inode (put_ref (pf_inode s) (inode_refs s))\<rparr>
         in if iget e sb (inode_no r) = Iget_error then (Returned (Inr False), s)
            else
              (let s = s\<lparr>file_refs := file_refs s - (if pf_file s then 1 else 0)\<rparr>;
                   ok = get_empty_filp e (filp_calls s);
                   s = s\<lparr>filp_calls := filp_calls s + 1, pf_file := ok,
                          file_refs := file_refs s + (if ok then 1 else 0)\<rparr>
               in if \<not> ok then (Returned (Inl (- ENFILE)), s)
                  else if inode = None then (Oops, s)
                  else (Returned (Inr True), s)))
      else (Returned (Inr (pf_inode s \<noteq> None)), s))"

definition read_ahead :: "prefetch_env \<Rightarrow> prefetch_trace_record_t \<Rightarrow> prefetch_state \<Rightarrow> prefetch_state" where
  "read_ahead e r s =
     (let inode = the (pf_inode s);
          ret = force_page_cache_readahead e inode (range_start r) (range_length r)
      in s\<lparr>readaheads := readaheads s @ [(inode, range_start r, range_length r)],
           pf_failed := pf_failed s + (if ret < 0 then 1 else 0)\<rparr>)"

text \<open>One record; \<open>continue\<close> and the end of the body both go on to the next record.\<close>

definition prefetch_record ::
  "prefetch_env \<Rightarrow> prefetch_trace_record_t \<Rightarrow> prefetch_state \<Rightarrow> int option kernel_result \<times> prefetch_state" where
  "prefetch_record e r s =
     (let s = open_device e r s in
      case pf_sb s of
        None \<Rightarrow> (Returned None, s)
      | Some sb \<Rightarrow>
          (case open_file_of e sb r s of
             (Oops, s) \<Rightarrow> (Oops, s)
           | (Returned (Inl err), s) \<Rightarrow> (Returned (Some err), s)
           | (Returned (Inr False), s) \<Rightarrow> (Returned None, s)
           | (Returned (Inr True), s) \<Rightarrow> (Returned None, read_ahead e r s)))"

text \<open>
  The loop: \<open>record + sizeof(prefetch_trace_record_t)\<close> is pointer arithmetic, 16 records (256
  bytes) behind \<open>record\<close>.
\<close>

function prefetch_loop ::
  "prefetch_env \<Rightarrow> byte list \<Rightarrow> prefetch_state \<Rightarrow> int kernel_result \<times> prefetch_state" where
  "prefetch_loop e trace s =
     (if length trace < 16 * 16 then (Returned 0, s)
      else
        (let r = record_of_bytes (take 16 trace) in
         case prefetch_record e r s of
           (Oops, s) \<Rightarrow> (Oops, s)
         | (Returned (Some err), s) \<Rightarrow> (Returned err, s)
         | (Returned None, s) \<Rightarrow> prefetch_loop e (drop 16 trace) (s\<lparr>pf_prev := Some r\<rparr>)))"
  by pat_completeness auto
termination
  by (relation "measure (\<lambda>(e, trace, s). length trace)") auto

declare prefetch_loop.simps [simp del]

text \<open>The whole function, from and to the reference counts of the kernel.\<close>

definition prefetch_start :: "prefetch_state \<Rightarrow> prefetch_state" where
  "prefetch_start s = s\<lparr>pf_prev := None, pf_sb := None, pf_inode := None, pf_file := False, pf_failed := 0\<rparr>"

definition prefetch_do_prefetch ::
  "prefetch_env \<Rightarrow> byte list \<Rightarrow> prefetch_state \<Rightarrow> int kernel_result \<times> prefetch_state" where
  "prefetch_do_prefetch e trace s =
     (case prefetch_loop e trace (prefetch_start s) of
        (Oops, s) \<Rightarrow> (Oops, s)
      | (Returned ret, s) \<Rightarrow>
          (Returned ret, s\<lparr>sb_refs := put_ref (pf_sb s) (sb_refs s), inode_refs := put_ref (pf_inode s) (inode_refs s),
                           file_refs := file_refs s - (if pf_file s then 1 else 0)\<rparr>))"

section \<open>Lemmas\<close>

text \<open>The references held are those of the objects in the local variables.\<close>

definition holds :: "prefetch_state \<Rightarrow> prefetch_state \<Rightarrow> bool" where
  "holds s0 s \<longleftrightarrow> sb_refs s = get_ref (pf_sb s) (sb_refs s0) \<and> inode_refs s = get_ref (pf_inode s) (inode_refs s0)
     \<and> file_refs s = file_refs s0 + (if pf_file s then 1 else 0)"

lemma put_get_ref [simp]: "put_ref x (get_ref x refs) = refs"
  by (auto simp: put_ref_def get_ref_def split: option.splits)

lemma holds_prev [simp]: "holds s0 (s\<lparr>pf_prev := p\<rparr>) = holds s0 s"
  by (simp add: holds_def)

lemma holds_device: "holds s0 s \<Longrightarrow> holds s0 (open_device e r s)"
  by (simp add: open_device_def holds_def Let_def)

lemma holds_read_ahead: "holds s0 s \<Longrightarrow> holds s0 (read_ahead e r s)"
  by (simp add: read_ahead_def holds_def Let_def)

lemma holds_file:
  assumes "holds s0 s"
  shows "holds s0 (snd (open_file_of e sb r s))"
proof (cases "pf_prev s = None \<or> device (the (pf_prev s)) \<noteq> device r \<or> inode_no (the (pf_prev s)) \<noteq> inode_no r")
  case True
  then show ?thesis
    using assms
    by (cases "iget e sb (inode_no r)"; cases "get_empty_filp e (filp_calls s)")
      (simp_all add: open_file_of_def holds_def Let_def)
next
  case False
  then have "open_file_of e sb r s = (Returned (Inr (pf_inode s \<noteq> None)), s)"
    by (simp only: open_file_of_def if_False)
  then show ?thesis using assms by simp
qed

lemma holds_record:
  assumes "holds s0 s" and "prefetch_record e r s = (ret, s')"
  shows "holds s0 s'"
proof (cases "pf_sb (open_device e r s)")
  case None
  then show ?thesis using assms holds_device [OF assms(1), of e r] by (auto simp: prefetch_record_def Let_def)
next
  case (Some sb)
  obtain x s2 where x: "open_file_of e sb r (open_device e r s) = (x, s2)" by force
  have h: "holds s0 s2" using holds_file [OF holds_device [OF assms(1)], of e sb r e r] x by simp
  show ?thesis
  proof (cases x)
    case (Returned y)
    then show ?thesis
      using assms(2) Some x h holds_read_ahead [OF h, of e r]
      by (auto simp: prefetch_record_def Let_def split: sum.splits bool.splits)
  next
    case Oops
    then show ?thesis using assms(2) Some x h by (simp add: prefetch_record_def Let_def)
  qed
qed

lemma holds_loop:
  "prefetch_loop e trace s = (ret, s') \<Longrightarrow> holds s0 s \<Longrightarrow> holds s0 s'"
proof (induction e trace s rule: prefetch_loop.induct)
  case (1 e trace s)
  show ?case
  proof (cases "length trace < 16 * 16")
    case True
    then show ?thesis using 1(2,3) by (simp add: prefetch_loop.simps)
  next
    case False
    let ?r = "record_of_bytes (take 16 trace)"
    obtain x s1 where x: "prefetch_record e ?r s = (x, s1)" by force
    have h: "holds s0 s1" by (rule holds_record [OF 1(3) x])
    consider "x = Oops" | err where "x = Returned (Some err)" | "x = Returned None"
      by (metis kernel_result.exhaust option.exhaust)
    then show ?thesis
    proof cases
      case 1
      then have "prefetch_loop e trace s = (Oops, s1)" using False by (subst prefetch_loop.simps) (simp add: x Let_def)
      then show ?thesis using \<open>prefetch_loop e trace s = (ret, s')\<close> h by simp
    next
      case 2
      then have "prefetch_loop e trace s = (Returned err, s1)" using False by (subst prefetch_loop.simps) (simp add: x Let_def)
      then show ?thesis using \<open>prefetch_loop e trace s = (ret, s')\<close> h by simp
    next
      case 3
      then have "prefetch_loop e trace s = prefetch_loop e (drop 16 trace) (s1\<lparr>pf_prev := Some ?r\<rparr>)"
        using False by (subst prefetch_loop.simps) (simp add: x Let_def)
      then show ?thesis using 1(1) [OF False refl x [symmetric] 3 refl] \<open>prefetch_loop e trace s = (ret, s')\<close> h by simp
    qed
  qed
qed

text \<open>No lookup of an inode fails with a null pointer.\<close>

definition no_null_inode :: "prefetch_env \<Rightarrow> bool" where
  "no_null_inode e \<longleftrightarrow> (\<forall>sb ino. iget e sb ino \<noteq> Iget_null)"

text \<open>An oops comes from a null pointer returned by \<open>iget\<close>, after the file structure was taken.\<close>

lemma oops_record:
  assumes "prefetch_record e r s = (Oops, s')"
  shows "\<exists>sb ino. iget e sb ino = Iget_null \<and> pf_sb s' = Some sb \<and> pf_inode s' = None \<and> pf_file s'"
proof -
  obtain sb where sb: "pf_sb (open_device e r s) = Some sb"
    "open_file_of e sb r (open_device e r s) = (Oops, s')"
    using assms
    by (auto simp: prefetch_record_def Let_def split: option.splits prod.splits kernel_result.splits sum.splits bool.splits)
  have "iget e sb (inode_no r) = Iget_null"
    using sb(2) by (cases "iget e sb (inode_no r)") (auto simp: open_file_of_def Let_def split: if_splits)
  then show ?thesis
    using sb by (auto simp: open_file_of_def Let_def split: if_splits)
qed

lemma oops_loop:
  "prefetch_loop e trace s = (Oops, s') \<Longrightarrow>
    \<exists>sb ino. iget e sb ino = Iget_null \<and> pf_sb s' = Some sb \<and> pf_inode s' = None \<and> pf_file s'"
proof (induction e trace s rule: prefetch_loop.induct)
  case (1 e trace s)
  show ?case
  proof (cases "length trace < 16 * 16")
    case True
    then show ?thesis using 1(2) by (simp add: prefetch_loop.simps)
  next
    case False
    let ?r = "record_of_bytes (take 16 trace)"
    obtain x s1 where x: "prefetch_record e ?r s = (x, s1)" by force
    consider (crash) "x = Oops" | (err) err where "x = Returned (Some err)" | (next_record) "x = Returned None"
      by (metis kernel_result.exhaust option.exhaust)
    then show ?thesis
    proof cases
      case crash
      then have "s1 = s'" using 1(2) False x by (simp add: prefetch_loop.simps [of e trace] Let_def)
      then show ?thesis using oops_record x crash by blast
    next
      case err
      then show ?thesis using 1(2) False x by (simp add: prefetch_loop.simps [of e trace] Let_def)
    next
      case next_record
      then have "prefetch_loop e (drop 16 trace) (s1\<lparr>pf_prev := Some ?r\<rparr>) = (Oops, s')"
        using 1(2) False x by (simp add: prefetch_loop.simps [of e trace] Let_def)
      then show ?thesis by (rule 1(1) [OF False refl x [symmetric] next_record refl])
    qed
  qed
qed

lemma do_prefetch_returns:
  assumes "no_null_inode e"
  shows "\<exists>ret s'. prefetch_do_prefetch e trace s = (Returned ret, s')"
proof -
  obtain x s1 where x: "prefetch_loop e trace (prefetch_start s) = (x, s1)" by force
  have "x \<noteq> Oops" using x oops_loop [of e trace "prefetch_start s" s1] assms unfolding no_null_inode_def by blast
  then show ?thesis using x by (cases x) (simp_all add: prefetch_do_prefetch_def)
qed

text \<open>The readahead that one record leads to when every file structure is granted.\<close>

definition readahead_of :: "prefetch_env \<Rightarrow> prefetch_trace_record_t \<Rightarrow> (nat \<times> u32 \<times> u32) list" where
  "readahead_of e r =
     (case user_get_super e (device r) of
        None \<Rightarrow> []
      | Some sb \<Rightarrow>
          (case inode_pointer (iget e sb (inode_no r)) of
             None \<Rightarrow> []
           | Some inode \<Rightarrow> [(inode, range_start r, range_length r)]))"

lemma inode_pointer_None: "no_null_inode e \<Longrightarrow> inode_pointer (iget e sb ino) = None \<longleftrightarrow> iget e sb ino = Iget_error"
  unfolding no_null_inode_def by (metis inode_pointer.simps iget_result.exhaust option.distinct(1))

text \<open>The local variables belong to the previous record.\<close>

definition follows :: "prefetch_env \<Rightarrow> prefetch_state \<Rightarrow> bool" where
  "follows e s \<longleftrightarrow> (\<forall>p. pf_prev s = Some p \<longrightarrow> pf_sb s = user_get_super e (device p)
     \<and> (\<forall>sb. pf_sb s = Some sb \<longrightarrow> pf_inode s = inode_pointer (iget e sb (inode_no p))))"

lemma record_readahead:
  assumes fl: "\<forall>n. get_empty_filp e n" and nn: "no_null_inode e" and f: "follows e s"
  shows "\<exists>s'. prefetch_record e r s = (Returned None, s') \<and> follows e (s'\<lparr>pf_prev := Some r\<rparr>)
    \<and> readaheads s' = readaheads s @ readahead_of e r"
proof -
  define s1 where "s1 = open_device e r s"
  have sb: "pf_sb s1 = user_get_super e (device r)"
    using f by (auto simp: s1_def open_device_def follows_def Let_def)
  have keep: "pf_prev s1 = pf_prev s" "pf_inode s1 = pf_inode s" "readaheads s1 = readaheads s"
    by (simp_all add: s1_def open_device_def Let_def)
  show ?thesis
  proof (cases "user_get_super e (device r)")
    case None
    then show ?thesis using sb keep
      by (auto simp: prefetch_record_def Let_def s1_def [symmetric] follows_def readahead_of_def)
  next
    case (Some a)
    define s2 where "s2 = snd (open_file_of e a r s1)"
    have ip: "(\<exists>y. inode_pointer (iget e a (inode_no r)) = Some y) \<longleftrightarrow> iget e a (inode_no r) \<noteq> Iget_error"
      using inode_pointer_None [OF nn, of a "inode_no r"] by auto
    have f2: "open_file_of e a r s1 = (Returned (Inr (inode_pointer (iget e a (inode_no r)) \<noteq> None)), s2)"
      "pf_inode s2 = inode_pointer (iget e a (inode_no r))" "pf_sb s2 = Some a" "readaheads s2 = readaheads s"
      using f sb keep Some fl
      by (auto simp: s2_def open_file_of_def follows_def Let_def ip inode_pointer_None [OF nn])
    show ?thesis
      using f2 sb Some
      by (cases "inode_pointer (iget e a (inode_no r))")
        (auto simp: prefetch_record_def Let_def s1_def [symmetric] follows_def readahead_of_def read_ahead_def)
  qed
qed

lemma loop_readaheads:
  assumes "\<forall>n. get_empty_filp e n" and "no_null_inode e"
  shows "follows e s \<Longrightarrow> \<exists>s'. prefetch_loop e (encode_records rs) s = (Returned 0, s')
    \<and> readaheads s' = readaheads s @ concat (map (readahead_of e) (take (length rs - 15) rs))"
proof (induction rs arbitrary: s)
  case Nil
  then show ?case by (simp add: prefetch_loop.simps encode_records_def)
next
  case (Cons r rs)
  have len: "length (encode_records (r # rs)) = 16 * Suc (length rs)"
    by (simp add: length_encode_records record_size_def)
  show ?case
  proof (cases "length rs < 15")
    case True
    then show ?thesis using len by (simp add: prefetch_loop.simps [of e "encode_records (r # rs)"])
  next
    case False
    obtain s1 where s1: "prefetch_record e r s = (Returned None, s1)" "follows e (s1\<lparr>pf_prev := Some r\<rparr>)"
      "readaheads s1 = readaheads s @ readahead_of e r"
      using record_readahead [OF assms Cons.prems] by blast
    have t: "take 16 (encode_records (r # rs)) = record_bytes r" "drop 16 (encode_records (r # rs)) = encode_records rs"
      by (simp_all add: encode_records_Cons record_size_def)
    have "prefetch_loop e (encode_records (r # rs)) s = prefetch_loop e (encode_records rs) (s1\<lparr>pf_prev := Some r\<rparr>)"
      using False len s1(1) by (simp add: prefetch_loop.simps [of e "encode_records (r # rs)"] t Let_def)
    moreover have "length (r # rs) - 15 = Suc (length rs - 15)" using False by simp
    ultimately show ?thesis using Cons.IH [OF s1(2)] s1(3) by auto
  qed
qed

lemma do_prefetch_readaheads:
  assumes "\<forall>n. get_empty_filp e n" and "no_null_inode e"
  shows "\<exists>s'. prefetch_do_prefetch e (encode_records rs) s = (Returned 0, s')
    \<and> readaheads s' = readaheads s @ concat (map (readahead_of e) (take (length rs - 15) rs))"
proof -
  have "follows e (prefetch_start s)" by (simp add: follows_def prefetch_start_def)
  from loop_readaheads [OF assms this, of rs] show ?thesis
    by (auto simp: prefetch_do_prefetch_def prefetch_start_def)
qed

lemma print_fragment:
  "prefetch_print_trace_fragment beyond (encode_records rs) = concat (map record_line rs)"
proof (induction rs)
  case Nil
  then show ?case by (simp add: prefetch_print_trace_fragment.simps encode_records_def)
next
  case (Cons r rs)
  have "take 16 (encode_records (r # rs) @ beyond) = record_bytes r" "drop 16 (encode_records (r # rs)) = encode_records rs"
    "encode_records (r # rs) \<noteq> []"
    by (simp_all add: encode_records_Cons record_size_def)
  then show ?case using Cons by (subst prefetch_print_trace_fragment.simps) simp
qed

lemma sort_encoded: "sort_trace_fragment srt (encode_records rs) = encode_records (srt rs)"
  by (simp add: sort_trace_fragment_def decode_encode_records length_encode_records record_size_def)

lemma kernel_cmp_less_key: "kernel_cmp_less r1 r2 \<longleftrightarrow> trace_key r1 < trace_key r2"
  using trace_cmp_neg [of r1 r2] by (simp add: kernel_cmp_less_def kernel_trace_cmp_def trace_cmp_def)

lemma sorted_kernel_insert:
  "sorted_wrt (\<lambda>x y. \<not> kernel_cmp_less y x) ys \<Longrightarrow>
   sorted_wrt (\<lambda>x y. \<not> kernel_cmp_less y x) (cmp_insert kernel_cmp_less x ys)"
  by (induction ys) (auto simp: set_cmp_insert kernel_cmp_less_key not_less)

lemma sorted_kernel_sort: "sorted_wrt (\<lambda>x y. \<not> kernel_cmp_less y x) (cmp_sort kernel_cmp_less xs)"
  by (induction xs) (auto simp: sorted_kernel_insert)

interpretation fragment_sort: std_sort kernel_cmp_less "cmp_sort kernel_cmp_less"
proof
  show "sorted_wrt (\<lambda>x y. \<not> kernel_cmp_less y x) (cmp_sort kernel_cmp_less xs)" for xs
    by (rule sorted_kernel_sort)
qed (auto simp: kernel_cmp_less_key mset_cmp_sort)

text \<open>A trace without mergeable neighbours.\<close>

definition no_merge :: "prefetch_trace_record_t list \<Rightarrow> bool" where
  "no_merge rs \<longleftrightarrow> (\<forall>i. Suc i < length rs \<longrightarrow>
     \<not> (device (rs ! i) = device (rs ! Suc i) \<and> inode_no (rs ! i) = inode_no (rs ! Suc i)
        \<and> range_start (rs ! i) + range_length (rs ! i) \<ge> range_start (rs ! Suc i)))"

lemma merge_loop_no_merge:
  assumes "no_merge rs"
  shows "i < length rs \<Longrightarrow> merge_fragment_loop i (Suc i) rs = Some (length rs - 1, rs)"
proof (induction "length rs - i" arbitrary: i)
  case (Suc n)
  show ?case
  proof (cases "Suc i < length rs")
    case True
    have "merge_fragment_loop i (Suc i) rs = merge_fragment_loop (Suc i) (Suc (Suc i)) rs"
      using assms True unfolding no_merge_def by (subst merge_fragment_loop.simps) (auto simp: Let_def)
    then show ?thesis using Suc(1) [of "Suc i"] Suc(2) True by simp
  next
    case False
    then have "i = length rs - 1" using Suc.prems by simp
    then show ?thesis using False by (simp add: merge_fragment_loop.simps)
  qed
qed simp

section \<open>Properties\<close>

text \<open>
  C13: for every trace and every environment, \<open>prefetch_do_prefetch\<close> either returns, having given
  back every reference it took on a super block, an inode or a file structure, no more and no less -
  whichever lookups, allocations and readaheads failed -, or it is a kernel oops; the oops comes
  only from an inode lookup that failed with a null pointer, which the test of the code lets
  through, and then every reference that the loop holds stays taken: those of the device, of the
  file structure, and none of an inode.
\<close>

theorem prefetch_references_balanced:
  "(\<exists>ret s'. prefetch_do_prefetch e trace s = (Returned ret, s')
      \<and> sb_refs s' = sb_refs s \<and> inode_refs s' = inode_refs s \<and> file_refs s' = file_refs s)
   \<or> (\<exists>s' sb ino. prefetch_do_prefetch e trace s = (Oops, s') \<and> iget e sb ino = Iget_null
      \<and> sb_refs s' = (sb_refs s)(sb := sb_refs s sb + 1) \<and> inode_refs s' = inode_refs s
      \<and> file_refs s' = file_refs s + 1)"
proof -
  obtain x s1 where s1: "prefetch_loop e trace (prefetch_start s) = (x, s1)" by force
  have "holds s (prefetch_start s)" by (simp add: holds_def prefetch_start_def get_ref_def)
  note h = holds_loop [OF s1 this]
  show ?thesis
  proof (cases x)
    case (Returned ret)
    then show ?thesis using s1 h by (simp add: prefetch_do_prefetch_def holds_def)
  next
    case Oops
    then show ?thesis
      using s1 h oops_loop [of e trace "prefetch_start s" s1]
      by (auto simp: prefetch_do_prefetch_def holds_def get_ref_def)
  qed
qed

definition sample_prefetch_env :: prefetch_env where
  "sample_prefetch_env = \<lparr>user_get_super = (\<lambda>dev. if dev = 8 then Some 1 else None),
     iget = (\<lambda>sb ino. if ino = 11 then Iget_inode 3 else Iget_error), get_empty_filp = (\<lambda>n. True),
     force_page_cache_readahead = (\<lambda>i start len. 0)\<rparr>"

definition sample_prefetch_state :: prefetch_state where
  "sample_prefetch_state = \<lparr>pf_prev = None, pf_sb = None, pf_inode = None, pf_file = False, pf_failed = 0,
     sb_refs = (\<lambda>_. 0), inode_refs = (\<lambda>_. 0), file_refs = 0, filp_calls = 0, readaheads = []\<rparr>"

lemma prefetch_references_balanced_witness:
  "file_refs (snd (prefetch_do_prefetch (sample_prefetch_env\<lparr>get_empty_filp := (\<lambda>n. False)\<rparr>)
      (encode_records (replicate 16 sample_record)) sample_prefetch_state)) = 0"
proof -
  let ?e = "sample_prefetch_env\<lparr>get_empty_filp := (\<lambda>n. False)\<rparr>"
  have "iget ?e sb ino \<noteq> Iget_null" for sb ino by (simp add: sample_prefetch_env_def)
  then show ?thesis
    using prefetch_references_balanced [of ?e "encode_records (replicate 16 sample_record)" sample_prefetch_state]
    by (auto simp: sample_prefetch_state_def)
qed

text \<open>
  C14: when every file structure is granted and no lookup of an inode gives a null pointer,
  prefetching reads ahead the ranges of the records in order, those of missing devices and
  inodes left out - but never those of the last 15 records of the fragment: the loop condition adds
  the size of a record to a pointer to records. A fragment of 15 records or fewer prefetches
  nothing.
\<close>

theorem prefetch_readaheads_without_last_15:
  assumes "\<forall>n. get_empty_filp e n" and "no_null_inode e"
  shows "\<exists>s'. prefetch_do_prefetch e (encode_records rs) s = (Returned 0, s')
    \<and> readaheads s' = readaheads s @ concat (map (readahead_of e) (take (length rs - 15) rs))"
  by (rule do_prefetch_readaheads [OF assms])

lemma prefetch_readaheads_without_last_15_witness:
  "\<exists>s'. prefetch_do_prefetch sample_prefetch_env (encode_records (replicate 17 sample_record)) sample_prefetch_state
      = (Returned 0, s') \<and> readaheads s' = [(3, 0, 4), (3, 0, 4)]"
  using prefetch_readaheads_without_last_15 [of sample_prefetch_env "replicate 17 sample_record" sample_prefetch_state]
  by (simp add: sample_prefetch_env_def sample_prefetch_state_def sample_record_def readahead_of_def
      no_null_inode_def numeral_2_eq_2)

text \<open>
  the module prints its trace as the tool \<open>prefetch-print-trace\<close> prints a trace file: one line
  per record that is in the buffer, in order, nothing behind them.
\<close>

theorem print_prefetch_trace_lines:
  assumes "trace_inv t" and "pt_buffer_used t = 0" and "t' = add_all rs t" and "length rs \<le> room t"
  shows "print_prefetch_trace (Some junk) t' = concat (map record_line rs)"
proof -
  note spec = add_all_spec [OF assms(1), of rs, folded assms(3)]
  have u: "unat (pt_buffer_used t') = 16 * length rs" using spec assms(2,4) by simp
  have "recorded t = []" using assms(2) by (cases "pt_buffer t") (simp_all add: recorded_def)
  then have rec: "recorded t' = encode_records rs" using spec assms(4) by simp
  have le: "\<not> pt_buffer_used t' > PREFETCH_TRACE_SIZE"
    using spec by (auto simp: trace_inv_def not_less)
  have "(if unat (pt_buffer_used t') = 0 then [] else take (unat (pt_buffer_used t')) (the (pt_buffer t')))
      = encode_records rs"
  proof (cases "rs = []")
    case True
    then show ?thesis using u by (simp add: encode_records_def)
  next
    case False
    then have "pt_buffer_used t' \<noteq> 0" using u by auto
    moreover have "pt_buffer_used t' \<le> pt_buffer_size t'" using spec by (simp add: trace_inv_def)
    ultimately have "pt_buffer_size t' \<noteq> 0" by auto
    then obtain buf where "pt_buffer t' = Some buf" using inv_buffer [of t'] spec by blast
    then show ?thesis using rec u False by (simp add: recorded_def)
  qed
  then show ?thesis using le by (simp add: print_prefetch_trace_def Let_def print_fragment)
qed

lemma print_prefetch_trace_lines_witness:
  "print_prefetch_trace (Some []) (add_all [sample_record] sample_trace)
    = [CHR ''0'', CHR '':'', CHR ''8'', CHR 0x09, CHR ''1'', CHR ''1'', CHR 0x09, CHR ''0'', CHR 0x09, CHR ''4'', CHR 0x0A]"
proof -
  have "record_line sample_record
    = [CHR ''0'', CHR '':'', CHR ''8'', CHR 0x09, CHR ''1'', CHR ''1'', CHR 0x09, CHR ''0'', CHR 0x09, CHR ''4'', CHR 0x0A]"
    by code_simp
  then show ?thesis
    using print_prefetch_trace_lines [OF sample_trace_inv _ refl, of "[sample_record]" "[]"] sample_room
    by (simp add: sample_trace_def initial_trace_def)
qed

text \<open>
  The in-place merge of the module (its call is commented out) loses records: even when no two
  neighbours can be merged it says that one record fewer is left, and after one merge the records
  behind it are compared with a stale copy and lost as well.
\<close>

theorem merge_trace_fragment_loses_records:
  "(\<forall>rs. rs \<noteq> [] \<longrightarrow> no_merge rs \<longrightarrow> merge_trace_fragment rs = Some (length rs - 1, rs))
   \<and> (let r = (\<lambda>ino start len. \<lparr>device = 8, inode_no = ino, range_start = start, range_length = len\<rparr>)
      in map_option (\<lambda>(n, rs). take n rs) (merge_trace_fragment [r 1 0 4, r 1 2 4, r 2 0 1, r 3 0 1])
         = Some [r 1 0 6, r 1 2 4])"
proof
  show "\<forall>rs. rs \<noteq> [] \<longrightarrow> no_merge rs \<longrightarrow> merge_trace_fragment rs = Some (length rs - 1, rs)"
    using merge_loop_no_merge [of _ 0] by (auto simp: merge_trace_fragment_def)
qed code_simp

lemma merge_trace_fragment_loses_records_witness:
  "merge_trace_fragment [sample_record] = Some (0, [sample_record])"
  using merge_trace_fragment_loses_records by (simp add: no_merge_def)

end
