(* ===== verification/Kernel_Files.thy ===== *)
theory Kernel_Files
  imports Kernel_Prefetch
begin

text \<open>
  Trace files in the kernel module (\<open>prefetch.c\<close>): \<open>prefetch_save_trace_fragment\<close> writes a
  sorted fragment to a file, \<open>do_prefetch_from_file\<close> reads one and prefetches it. The virtual
  file system is a store of contents by name with an environment that decides which calls fail
  and how much a read or write transfers.
\<close>

section \<open>The file system\<close>

record file_env =
  fe_open_error :: "nat \<Rightarrow> int option"
  fe_truncates :: bool
  fe_write :: "nat \<Rightarrow> nat \<Rightarrow> int"
  fe_read :: "nat \<Rightarrow> nat \<Rightarrow> int"

record kfs =
  files :: "string \<Rightarrow> byte list option"
  calls :: nat
  open_files :: int

definition ENOENT :: int where "ENOENT = 2"

text \<open>
  \<open>open_file\<close> with the flags of its two callers: to read, or to create and truncate. Whether the
  file is truncated is left to the environment (a comment in the source doubts it).
\<close>

definition open_file :: "file_env \<Rightarrow> bool \<Rightarrow> string \<Rightarrow> kfs \<Rightarrow> (int + unit) \<times> kfs" where
  "open_file e create file_name fs =
     (let error = fe_open_error e (calls fs); fs = fs\<lparr>calls := calls fs + 1\<rparr> in
      case error of
        Some err \<Rightarrow> (Inl err, fs)
      | None \<Rightarrow>
          if create
          then (Inr (), fs\<lparr>files := (files fs)(file_name \<mapsto>
                  (if fe_truncates e then [] else (case files fs file_name of None \<Rightarrow> [] | Some c \<Rightarrow> c))),
                open_files := open_files fs + 1\<rparr>)
          else (case files fs file_name of
                  None \<Rightarrow> (Inl (- ENOENT), fs)
                | Some _ \<Rightarrow> (Inr (), fs\<lparr>open_files := open_files fs + 1\<rparr>)))"

definition close_file :: "kfs \<Rightarrow> kfs" where
  "close_file fs = fs\<lparr>open_files := open_files fs - 1\<rparr>"

definition contents :: "kfs \<Rightarrow> string \<Rightarrow> byte list" where
  "contents fs file_name = (case files fs file_name of None \<Rightarrow> [] | Some c \<Rightarrow> c)"

definition write_at :: "nat \<Rightarrow> byte list \<Rightarrow> byte list \<Rightarrow> byte list" where
  "write_at offset bs c =
     take offset c @ replicate (offset - length c) 0 @ bs @ drop (offset + length bs) c"

text \<open>The number of bytes transferred is at most the number asked for.\<close>

definition kernel_write ::
  "file_env \<Rightarrow> string \<Rightarrow> nat \<Rightarrow> byte list \<Rightarrow> kfs \<Rightarrow> int \<times> kfs" where
  "kernel_write e file_name offset bs fs =
     (let ret = fe_write e (calls fs) (length bs);
          n = min (nat ret) (length bs);
          fs = fs\<lparr>calls := calls fs + 1\<rparr>
      in if ret < 0 then (ret, fs)
         else (int n, fs\<lparr>files := (files fs)(file_name \<mapsto> write_at offset (take n bs) (contents fs file_name))\<rparr>))"

definition kernel_read ::
  "file_env \<Rightarrow> string \<Rightarrow> nat \<Rightarrow> nat \<Rightarrow> kfs \<Rightarrow> (int + byte list) \<times> kfs" where
  "kernel_read e file_name offset cnt fs =
     (let ret = fe_read e (calls fs) cnt;
          fs = fs\<lparr>calls := calls fs + 1\<rparr>
      in if ret < 0 then (Inl ret, fs)
         else (Inr (take (min (nat ret) cnt) (drop offset (contents fs file_name))), fs))"

section \<open>Saving a fragment\<close>

text \<open>The loop has fuel: a \<open>write\<close> that accepts nothing is repeated for ever.\<close>

fun write_loop ::
  "nat \<Rightarrow> file_env \<Rightarrow> string \<Rightarrow> byte list \<Rightarrow> nat \<Rightarrow> int \<Rightarrow> kfs \<Rightarrow> (int \<times> kfs) option" where
  "write_loop 0 e file_name fragment written ret fs = None"
| "write_loop (Suc fuel) e file_name fragment written ret fs =
     (if \<not> written < length fragment then Some (ret, fs)
      else (case kernel_write e file_name written (drop written fragment) fs of
              (ret, fs) \<Rightarrow>
                if ret < 0 then Some (ret, fs)
                else write_loop fuel e file_name fragment (written + nat ret) ret fs))"

text \<open>
  \<open>mem\<close>: whether the copy of the fragment can be allocated. When the file cannot be opened,
  \<open>close_file\<close> is still called, with the error pointer.
\<close>

definition prefetch_save_trace_fragment ::
  "nat \<Rightarrow> file_env \<Rightarrow> (prefetch_trace_record_t list \<Rightarrow> prefetch_trace_record_t list) \<Rightarrow> bool
     \<Rightarrow> prefetch_trace_t \<Rightarrow> trace_marker_t \<Rightarrow> trace_marker_t \<Rightarrow> string \<Rightarrow> kfs
     \<Rightarrow> (int kernel_result \<times> kfs) option" where
  "prefetch_save_trace_fragment fuel e srt mem t start_marker end_marker filename fs =
     (case get_prefetch_trace_fragment mem t start_marker end_marker of
        Inl err \<Rightarrow> Some (Returned err, fs)
      | Inr fragment \<Rightarrow>
          (let fragment = sort_trace_fragment srt (case fragment of None \<Rightarrow> [] | Some bs \<Rightarrow> bs) in
           case open_file e True filename fs of
             (Inl _, fs) \<Rightarrow> Some (Oops, fs)
           | (Inr _, fs) \<Rightarrow>
               map_option (\<lambda>(ret, fs). (Returned ret, close_file fs))
                 (write_loop fuel e filename fragment 0 0 fs)))"

section \<open>Prefetching from a file\<close>

record prefetch_threads =
  ps_state :: prefetch_state
  ps_pending :: "byte list list"

text \<open>
  Asynchronous prefetching only starts a thread: the fragment joins those that are still to be
  prefetched. \<open>params\<close> and \<open>thread\<close> say whether the parameters and the thread can be created.
\<close>

definition prefetch_start_prefetch_async ::
  "bool \<Rightarrow> bool \<Rightarrow> byte list \<Rightarrow> prefetch_threads \<Rightarrow> int kernel_result \<times> prefetch_threads" where
  "prefetch_start_prefetch_async params thread trace s =
     (if \<not> params then (Returned (- ENOMEM), s)
      else if \<not> thread then (Returned (- EINVAL), s)
      else (Returned 0, s\<lparr>ps_pending := ps_pending s @ [trace]\<rparr>))"

definition prefetch_start_prefetch_sync ::
  "prefetch_env \<Rightarrow> byte list \<Rightarrow> prefetch_threads \<Rightarrow> int kernel_result \<times> prefetch_threads" where
  "prefetch_start_prefetch_sync e trace s =
     (case prefetch_do_prefetch e trace (ps_state s) of (ret, st) \<Rightarrow> (ret, s\<lparr>ps_state := st\<rparr>))"

definition prefetch_start_prefetch ::
  "prefetch_env \<Rightarrow> bool \<Rightarrow> bool \<Rightarrow> byte list \<Rightarrow> bool \<Rightarrow> prefetch_threads
     \<Rightarrow> int kernel_result \<times> prefetch_threads" where
  "prefetch_start_prefetch e params thread trace async s =
     (if async then prefetch_start_prefetch_async params thread trace s
      else prefetch_start_prefetch_sync e trace s)"

text \<open>The reading loop: \<open>Inl\<close> a read error, \<open>Inr\<close> the bytes read until the size or a short file.\<close>

function read_loop ::
  "file_env \<Rightarrow> string \<Rightarrow> nat \<Rightarrow> byte list \<Rightarrow> kfs \<Rightarrow> (int + byte list) \<times> kfs" where
  "read_loop e filename file_size buffer fs =
     (if \<not> length buffer < file_size then (Inr buffer, fs)
      else (case kernel_read e filename (length buffer) (file_size - length buffer) fs of
              (Inl err, fs) \<Rightarrow> (Inl err, fs)
            | (Inr bs, fs) \<Rightarrow>
                if bs = [] then (Inr buffer, fs)
                else read_loop e filename file_size (buffer @ bs) fs))"
  by pat_completeness auto
termination
  by (relation "measure (\<lambda>(e, f, n, buffer, fs). n - length buffer)")
    (auto intro!: diff_less_mono2)

declare read_loop.simps [simp del]

text \<open>
  The size of the file is assigned to an \<open>int\<close>; \<open>mem\<close>: whether the buffer can be allocated. After an
  oops of the prefetching the file stays open.
\<close>

definition do_prefetch_from_file ::
  "file_env \<Rightarrow> prefetch_env \<Rightarrow> bool \<Rightarrow> string \<Rightarrow> kfs \<Rightarrow> prefetch_threads
     \<Rightarrow> int kernel_result \<times> kfs \<times> prefetch_threads" where
  "do_prefetch_from_file e pe mem filename fs s =
     (case open_file e False filename fs of
        (Inl err, fs) \<Rightarrow> (Returned err, fs, s)
      | (Inr _, fs) \<Rightarrow>
          (let file_size = sint (of_nat (length (contents fs filename)) :: u32) in
           if file_size \<le> 0 then (Returned 0, close_file fs, s)
           else if \<not> mem then (Returned 0, close_file fs, s)
           else (case read_loop e filename (nat file_size) [] fs of
                   (Inl err, fs) \<Rightarrow> (Returned err, close_file fs, s)
                 | (Inr buffer, fs) \<Rightarrow>
                     (case prefetch_start_prefetch pe True True buffer False s of
                        (Oops, s) \<Rightarrow> (Oops, fs, s)
                      | (Returned ret, s) \<Rightarrow> (Returned ret, close_file fs, s)))))"

section \<open>Lemmas\<close>

text \<open>An environment in which every call makes progress.\<close>

definition calm_files :: "file_env \<Rightarrow> bool" where
  "calm_files e \<longleftrightarrow> (\<forall>n. fe_open_error e n = None) \<and> fe_truncates e
     \<and> (\<forall>n cnt. 0 < fe_write e n (Suc cnt)) \<and> (\<forall>n cnt. 0 < fe_read e n (Suc cnt))"

lemma write_at_end: "write_at (length c) bs c = c @ bs"
  by (simp add: write_at_def)

lemma write_loop_all:
  assumes "calm_files e"
  shows "written \<le> length fragment \<Longrightarrow> length fragment - written < fuel \<Longrightarrow>
    files fs file_name = Some (take written fragment) \<Longrightarrow> 0 \<le> ret \<Longrightarrow>
    \<exists>ret' fs'. write_loop fuel e file_name fragment written ret fs = Some (ret', fs') \<and> 0 \<le> ret'
      \<and> files fs' = (files fs)(file_name \<mapsto> fragment) \<and> open_files fs' = open_files fs"
proof (induction fuel arbitrary: written ret fs)
  case (Suc fuel)
  show ?case
  proof (cases "written < length fragment")
    case False
    then have "files fs file_name = Some fragment" using Suc.prems by simp
    then have "files fs = (files fs)(file_name \<mapsto> fragment)" by (simp add: fun_upd_idem)
    then show ?thesis using False Suc.prems(4) by simp
  next
    case True
    define n where "n = min (nat (fe_write e (calls fs) (length fragment - written))) (length fragment - written)"
    have pos: "0 < fe_write e (calls fs) (length fragment - written)"
      using assms Suc_diff_Suc [OF True] unfolding calm_files_def by metis
    then have n: "0 < n" "n \<le> length fragment - written" using True by (auto simp: n_def)
    define fs1 where "fs1 = fs\<lparr>calls := calls fs + 1,
        files := (files fs)(file_name \<mapsto> take (written + n) fragment)\<rparr>"
    have "write_at written (take n (drop written fragment)) (take written fragment) = take (written + n) fragment"
      using write_at_end [of "take written fragment" "take n (drop written fragment)"] True
      by (simp add: take_add min_def)
    then have kw: "kernel_write e file_name written (drop written fragment) fs = (int n, fs1)"
      using pos Suc.prems(3)
      by (simp add: kernel_write_def Let_def contents_def fs1_def flip: n_def)
    have "\<exists>ret' fs'. write_loop fuel e file_name fragment (written + n) (int n) fs1 = Some (ret', fs') \<and> 0 \<le> ret'
      \<and> files fs' = (files fs1)(file_name \<mapsto> fragment) \<and> open_files fs' = open_files fs1"
      using n Suc.prems(1,2) by (intro Suc.IH) (auto simp: fs1_def)
    moreover have "(files fs1)(file_name \<mapsto> fragment) = (files fs)(file_name \<mapsto> fragment)"
      "open_files fs1 = open_files fs"
      by (simp_all add: fs1_def)
    moreover have "write_loop (Suc fuel) e file_name fragment written ret fs
        = write_loop fuel e file_name fragment (written + n) (int n) fs1"
      using True kw by simp
    ultimately show ?thesis by metis
  qed
qed simp

lemma read_loop_all:
  assumes "calm_files e"
  shows "files fs filename = Some c \<Longrightarrow> buffer = take (length buffer) c \<Longrightarrow>
    \<exists>fs'. read_loop e filename (length c) buffer fs = (Inr c, fs') \<and> files fs' = files fs
      \<and> open_files fs' = open_files fs"
proof (induction "length c - length buffer" arbitrary: buffer fs rule: less_induct)
  case less
  have le: "length buffer \<le> length c" using less.prems(2) by (metis length_take min.cobounded1 nat_le_linear take_all)
  show ?case
  proof (cases "length buffer < length c")
    case False
    then have "buffer = c" using less.prems(2) le by simp
    then show ?thesis by (simp add: read_loop.simps)
  next
    case True
    define cnt where "cnt = length c - length buffer"
    obtain k where k: "cnt = Suc k" using True by (cases cnt) (auto simp: cnt_def)
    define n where "n = min (nat (fe_read e (calls fs) cnt)) cnt"
    have pos: "0 < fe_read e (calls fs) cnt" using assms k by (simp add: calm_files_def)
    then have n: "0 < n" "n \<le> cnt" using k by (auto simp: n_def)
    define fs1 where "fs1 = fs\<lparr>calls := calls fs + 1\<rparr>"
    define bs where "bs = take n (drop (length buffer) c)"
    have kr: "kernel_read e filename (length buffer) cnt fs = (Inr bs, fs1)"
      using pos less.prems(1) by (simp add: kernel_read_def Let_def n_def bs_def contents_def fs1_def)
    have len: "length bs = n" using n by (simp add: bs_def cnt_def)
    have pre: "buffer @ bs = take (length (buffer @ bs)) c"
      using less.prems(2) len by (simp add: bs_def take_add)
    have "\<exists>fs'. read_loop e filename (length c) (buffer @ bs) fs1 = (Inr c, fs') \<and> files fs' = files fs1
      \<and> open_files fs' = open_files fs1"
      using n(1) len True less.prems(1) by (intro less.hyps pre) (auto simp: fs1_def)
    moreover have "bs \<noteq> []" using n(1) len by auto
    then have "read_loop e filename (length c) buffer fs = read_loop e filename (length c) (buffer @ bs) fs1"
      using True kr by (subst read_loop.simps) (simp add: cnt_def [symmetric])
    ultimately show ?thesis by (simp add: fs1_def)
  qed
qed

text \<open>Saving and reading back when nothing fails.\<close>

lemma save_fragment:
  assumes "calm_files e" and "get_prefetch_trace_fragment mem t start_marker end_marker = Inr fragment"
    and "(case fragment of None \<Rightarrow> [] | Some bs \<Rightarrow> bs) = encode_records rs" and "16 * length rs < fuel"
    and "length (srt rs) = length rs"
  shows "\<exists>ret fs'. prefetch_save_trace_fragment fuel e srt mem t start_marker end_marker filename fs
      = Some (Returned ret, fs') \<and> 0 \<le> ret \<and> open_files fs' = open_files fs
      \<and> files fs' = (files fs)(filename \<mapsto> encode_records (srt rs))"
proof -
  let ?fs = "fs\<lparr>calls := calls fs + 1, files := (files fs)(filename \<mapsto> []), open_files := open_files fs + 1\<rparr>"
  have o: "open_file e True filename fs = (Inr (), ?fs)"
    using assms(1) by (simp add: open_file_def calm_files_def Let_def)
  have len: "length (encode_records (srt rs)) < fuel"
    using assms(4,5) by (simp add: length_encode_records record_size_def)
  obtain ret fs' where "write_loop fuel e filename (encode_records (srt rs)) 0 0 ?fs = Some (ret, fs')"
    "0 \<le> ret" "files fs' = (files ?fs)(filename \<mapsto> encode_records (srt rs))" "open_files fs' = open_files ?fs"
    using write_loop_all [OF assms(1), of 0 "encode_records (srt rs)" fuel ?fs filename 0] len by auto
  then show ?thesis
    using assms(2,3) o
    by (simp add: prefetch_save_trace_fragment_def sort_encoded Let_def close_file_def)
qed

lemma prefetch_file:
  assumes "calm_files e" and "files fs filename = Some (encode_records rs)"
    and "rs \<noteq> []" and "16 * length rs < 2 ^ 31"
    and "prefetch_do_prefetch pe (encode_records rs) (ps_state s) = (Returned ret, st)"
  shows "\<exists>fs'. do_prefetch_from_file e pe True filename fs s = (Returned ret, fs', s\<lparr>ps_state := st\<rparr>)
      \<and> files fs' = files fs \<and> open_files fs' = open_files fs"
proof -
  let ?fs = "fs\<lparr>calls := calls fs + 1, open_files := open_files fs + 1\<rparr>" and ?c = "encode_records rs"
  have o: "open_file e False filename fs = (Inr (), ?fs)"
    using assms(1,2) by (simp add: open_file_def calm_files_def Let_def)
  have l: "length ?c = 16 * length rs" by (simp add: length_encode_records record_size_def)
  have "unat (of_nat (16 * length rs) :: u32) = 16 * length rs"
  proof -
    have "unat (of_nat m :: u32) = m" if "m < 2 ^ 31" for m
      using that by (simp add: unat_of_nat take_bit_nat_eq_self)
    then show ?thesis using assms(4) by blast
  qed
  then have sz: "sint (of_nat (length ?c) :: u32) = int (length ?c)"
    using sint_small [of "of_nat (16 * length rs)"] assms(4) l by simp
  obtain fs' where rl: "read_loop e filename (length ?c) [] ?fs = (Inr ?c, fs')"
    "files fs' = files ?fs" "open_files fs' = open_files ?fs"
    using read_loop_all [OF assms(1), of ?fs filename ?c "[]"] assms(2) by auto
  have "0 < length rs" using assms(3) by simp
  then have "\<not> int (length ?c) \<le> 0" using l by simp
  then have "do_prefetch_from_file e pe True filename fs s = (Returned ret, close_file fs', s\<lparr>ps_state := st\<rparr>)"
    using o rl(1) assms(2,5) sz
    by (simp add: do_prefetch_from_file_def contents_def Let_def prefetch_start_prefetch_def
        prefetch_start_prefetch_sync_def split: prod.splits)
  then show ?thesis using rl(2,3) by (auto simp: close_file_def)
qed

end
