(* ===== verification/Kernel_Boot.thy ===== *)
theory Kernel_Boot
  imports Kernel_Files
begin

text \<open>
  Boot phases and commands (\<open>prefetch.c\<close>): a phase of the boot has a name; its start takes a
  marker and prefetches the trace file of that name, its end saves the trace since the marker to
  that file. Commands arrive as writes to the file \<open>/proc/prefetch\<close>. Every operation runs under
  \<open>boot_prefetch_mutex\<close>.
\<close>

section \<open>The state of the module\<close>

record module_state =
  ms_tracing :: tracing_state
  ms_fs :: kfs
  ms_threads :: prefetch_threads
  boot_start_marker :: trace_marker_t
  boot_phase_name :: string
  boot_tracing_running :: bool
  prefetching_module_enabled :: bool
  prefetch_enabled :: bool
  async_prefetching :: bool

text \<open>
  The environment of one command: what is allocated, what the uninitialised local variable
  \<open>marker\<close> holds, and the parameters of the parts below; \<open>me_fuel\<close> bounds the write loop.
\<close>

record module_env =
  me_walk :: walk_env
  me_walk_memory :: walk_memory
  me_trace_buffer :: "byte list option"
  me_new_name :: bool
  me_save_name :: bool
  me_fragment :: bool
  me_read_buffer :: bool
  me_phase_name :: bool
  me_command_buffer :: bool
  me_copied :: bool
  me_path_max :: nat
  me_marker :: trace_marker_t
  me_files :: file_env
  me_prefetch :: prefetch_env
  me_sort :: "prefetch_trace_record_t list \<Rightarrow> prefetch_trace_record_t list"
  me_fuel :: nat

definition BOOT_TRACE_FILENAME :: "string \<Rightarrow> string" where
  "BOOT_TRACE_FILENAME phase_name = ''/.prefetch-boot-trace.'' @ phase_name"

definition PHASE_NAME_MAX :: nat where "PHASE_NAME_MAX = 10"

section \<open>Boot phases\<close>

definition prefetch_save_boot_trace ::
  "module_env \<Rightarrow> string \<Rightarrow> trace_marker_t \<Rightarrow> module_state \<Rightarrow> (int kernel_result \<times> module_state) option" where
  "prefetch_save_boot_trace e phase_name end_phase_marker st =
     (if \<not> me_save_name e then Some (Returned (- ENOMEM), st)
      else map_option (\<lambda>(ret, fs). (ret, st\<lparr>ms_fs := fs\<rparr>))
        (prefetch_save_trace_fragment (me_fuel e) (me_files e) (me_sort e) (me_fragment e)
           (prefetch_trace (ms_tracing st)) (boot_start_marker st) end_phase_marker
           (BOOT_TRACE_FILENAME phase_name) (ms_fs st)))"

text \<open>The markers of the walks; a marker that is not written keeps its old value.\<close>

definition written_marker :: "trace_marker_t \<Rightarrow> trace_marker_t option \<Rightarrow> trace_marker_t" where
  "written_marker old marker = (case marker of None \<Rightarrow> old | Some m \<Rightarrow> m)"

text \<open>The part of \<open>prefetch_start_boot_phase\<close> that ends the running phase or starts tracing.\<close>

definition switch_phase :: "module_env \<Rightarrow> module_state \<Rightarrow> (unit kernel_result \<times> module_state) option" where
  "switch_phase e st =
     (if boot_tracing_running st
      then (case prefetch_continue_trace (me_walk e) (me_walk_memory e) (ms_tracing st) of
              None \<Rightarrow> None
            | Some (_, m, tr) \<Rightarrow>
                (let marker = written_marker (me_marker e) m; st = st\<lparr>ms_tracing := tr\<rparr> in
                 case prefetch_save_boot_trace e (boot_phase_name st) marker st of
                   None \<Rightarrow> None
                 | Some (Oops, st) \<Rightarrow> Some (Oops, st)
                 | Some (Returned r, st) \<Rightarrow> Some (Returned (), st\<lparr>boot_start_marker := marker\<rparr>)))
      else (case prefetch_start_trace (me_walk e) (me_walk_memory e) (ms_tracing st) of
              None \<Rightarrow> None
            | Some (_, m, tr) \<Rightarrow>
                Some (Returned (), st\<lparr>ms_tracing := tr,
                  boot_start_marker := written_marker (boot_start_marker st) m\<rparr>)))"

definition prefetch_start_boot_phase ::
  "module_env \<Rightarrow> string \<Rightarrow> module_state \<Rightarrow> (int kernel_result \<times> module_state) option" where
  "prefetch_start_boot_phase e phase_name st =
     (if \<not> me_new_name e then Some (Returned (- ENOMEM), st)
      else
        (case switch_phase e st of
           None \<Rightarrow> None
         | Some (Oops, st) \<Rightarrow> Some (Oops, st)
         | Some (Returned _, st) \<Rightarrow>
             (let st = st\<lparr>boot_phase_name := take PHASE_NAME_MAX phase_name, boot_tracing_running := True\<rparr> in
              case do_prefetch_from_file (me_files e) (me_prefetch e) (me_read_buffer e)
                     (BOOT_TRACE_FILENAME phase_name) (ms_fs st) (ms_threads st) of
                (Oops, fs, threads) \<Rightarrow> Some (Oops, st\<lparr>ms_fs := fs, ms_threads := threads\<rparr>)
              | (Returned _, fs, threads) \<Rightarrow> Some (Returned 0, st\<lparr>ms_fs := fs, ms_threads := threads\<rparr>))))"

definition prefetch_stop_boot_tracing ::
  "module_env \<Rightarrow> module_state \<Rightarrow> (int kernel_result \<times> module_state) option" where
  "prefetch_stop_boot_tracing e st =
     (if \<not> boot_tracing_running st then Some (Returned (- EINVAL), st)
      else
        (case prefetch_stop_trace (me_walk e) (me_walk_memory e) (ms_tracing st) of
           None \<Rightarrow> None
         | Some (_, m, tr) \<Rightarrow>
             (let st = st\<lparr>ms_tracing := tr, boot_tracing_running := False\<rparr> in
              prefetch_save_boot_trace e (boot_phase_name st) (written_marker (me_marker e) m) st)))"

section \<open>Commands\<close>

definition param_match :: "string \<Rightarrow> string \<Rightarrow> bool" where
  "param_match line param_name \<longleftrightarrow> take (length param_name) line = param_name"

definition is_space :: "char \<Rightarrow> bool" where
  "is_space c \<longleftrightarrow> c \<in> {CHR '' '', CHR 0x09, CHR 0x0A, CHR 0x0B, CHR 0x0C, CHR 0x0D}"

definition BOOT_COMMAND_PREFIX :: string where
  "BOOT_COMMAND_PREFIX = ''boot tracing start phase''"

text \<open>\<open>sscanf(name, BOOT_COMMAND_PREFIX " %10s", phase_name)\<close>, on a line with that prefix.\<close>

definition scan_phase_name :: "string \<Rightarrow> string option" where
  "scan_phase_name line =
     (let word = takeWhile (\<lambda>c. \<not> is_space c)
                   (dropWhile is_space (drop (length BOOT_COMMAND_PREFIX) line))
      in if word = [] then None else Some (take 10 word))"

text \<open>The line: without one newline at its end, up to the first zero byte.\<close>

definition command_line :: "string \<Rightarrow> string" where
  "command_line buffer =
     takeWhile (\<lambda>c. c \<noteq> CHR 0x00)
       (if buffer \<noteq> [] \<and> List.last buffer = CHR 0x0A then butlast buffer else buffer)"

definition ENAMETOOLONG :: int where "ENAMETOOLONG = 36"
definition EFAULT :: int where "EFAULT = 14"

text \<open>A command: its result is the error code \<open>e\<close> of the function, 0 also when a call fails.\<close>

definition run_command ::
  "module_env \<Rightarrow> string \<Rightarrow> module_state \<Rightarrow> (int kernel_result \<times> module_state) option" where
  "run_command e name st =
     (if param_match name ''clear trace''
      then Some (Returned 0, st\<lparr>ms_tracing := (ms_tracing st)\<lparr>prefetch_trace :=
             clear_trace (me_trace_buffer e) (prefetch_trace (ms_tracing st))\<rparr>\<rparr>)
      else if param_match name ''mode async'' then Some (Returned 0, st\<lparr>async_prefetching := True\<rparr>)
      else if param_match name ''mode sync'' then Some (Returned 0, st\<lparr>async_prefetching := False\<rparr>)
      else if param_match name ''enable'' then Some (Returned 0, st\<lparr>prefetching_module_enabled := True\<rparr>)
      else if param_match name ''disable'' then Some (Returned 0, st\<lparr>prefetching_module_enabled := False\<rparr>)
      else if param_match name ''prefetch enable'' then Some (Returned 0, st\<lparr>prefetch_enabled := True\<rparr>)
      else if param_match name ''prefetch disable'' then Some (Returned 0, st\<lparr>prefetch_enabled := False\<rparr>)
      else if param_match name ''start''
      then map_option (\<lambda>(_, _, tr). (Returned 0, st\<lparr>ms_tracing := tr\<rparr>))
             (prefetch_start_trace (me_walk e) (me_walk_memory e) (ms_tracing st))
      else if param_match name ''stop''
      then map_option (\<lambda>(_, _, tr). (Returned 0, st\<lparr>ms_tracing := tr\<rparr>))
             (prefetch_stop_trace (me_walk e) (me_walk_memory e) (ms_tracing st))
      else if param_match name BOOT_COMMAND_PREFIX
      then (if \<not> me_phase_name e then Some (Returned 0, st)
            else (case scan_phase_name name of
                    None \<Rightarrow> Some (Returned (- EINVAL), st)
                  | Some phase_name \<Rightarrow>
                      (case prefetch_start_boot_phase e phase_name st of
                         Some (Returned _, st) \<Rightarrow> Some (Returned 0, st)
                       | other \<Rightarrow> other)))
      else if param_match name ''boot tracing stop''
      then (case prefetch_stop_boot_tracing e st of
              Some (Returned _, st) \<Rightarrow> Some (Returned 0, st)
            | other \<Rightarrow> other)
      else Some (Returned 0, st))"

definition prefetch_proc_write ::
  "module_env \<Rightarrow> string \<Rightarrow> module_state \<Rightarrow> (int kernel_result \<times> module_state) option" where
  "prefetch_proc_write e buffer st =
     (if length buffer \<ge> me_path_max e then Some (Returned (- ENAMETOOLONG), st)
      else if \<not> me_command_buffer e then Some (Returned (- ENOMEM), st)
      else if \<not> me_copied e then Some (Returned (- EFAULT), st)
      else (case run_command e (command_line buffer) st of
              Some (Returned err, st) \<Rightarrow> Some (Returned (if err \<noteq> 0 then err else int (length buffer)), st)
            | other \<Rightarrow> other))"

text \<open>\<open>prefetch_init\<close>: the state after the module is loaded.\<close>

definition prefetch_init :: "byte list option \<Rightarrow> kfs \<Rightarrow> prefetch_threads \<Rightarrow> (nat \<Rightarrow> address_space) \<Rightarrow> module_state" where
  "prefetch_init trace_buffer fs threads mem =
     \<lparr>ms_tracing = \<lparr>prefetch_trace = clear_trace trace_buffer initial_trace, tracers_count = 0,
        clearing_in_progress = False, inode_lock = 0, mappings = mem\<rparr>,
      ms_fs = fs, ms_threads = threads, boot_start_marker = \<lparr>mk_position = 0, mk_generation = 0\<rparr>,
      boot_phase_name = ''init'', boot_tracing_running = False, prefetching_module_enabled = True,
      prefetch_enabled = True, async_prefetching = False\<rparr>"

section \<open>Lemmas\<close>

lemma fragment_after_walk:
  assumes "trace_inv t0" and "length rs + length rs' \<le> room t0"
  shows "\<exists>fragment. get_prefetch_trace_fragment True (add_all rs' (report_overflow (add_all rs t0)))
      (get_trace_marker t0) (get_trace_marker (add_all rs' (report_overflow (add_all rs t0)))) = Inr fragment
    \<and> (case fragment of None \<Rightarrow> [] | Some bs \<Rightarrow> bs) = encode_records (rs @ rs')"
proof (cases "rs @ rs' = []")
  case True
  then have "get_trace_marker (add_all rs' (report_overflow (add_all rs t0))) = get_trace_marker t0"
    by (simp add: get_trace_marker_def)
  then show ?thesis using True by (simp add: fragment_empty encode_records_def)
next
  case False
  have "take (room t0) (rs @ rs') = rs @ rs'" using assms(2) by simp
  then show ?thesis
    using add_all_fragment [OF assms(1), of "rs @ rs'"] False by (simp add: add_report [OF assms(1)])
qed

lemma read_loop_files: "files (snd (read_loop e filename n buffer fs)) = files fs"
proof (induction e filename n buffer fs rule: read_loop.induct)
  case (1 e filename n buffer fs)
  show ?case
  proof (cases "length buffer < n")
    case True
    obtain x fs1 where k: "kernel_read e filename (length buffer) (n - length buffer) fs = (x, fs1)" by force
    then have f: "files fs1 = files fs" by (auto simp: kernel_read_def Let_def split: if_splits)
    show ?thesis
      using 1 [OF _ k [symmetric]] True k f
      by (subst read_loop.simps) (auto split: sum.splits)
  qed (simp add: read_loop.simps)
qed

lemma prefetch_from_file_files:
  assumes "do_prefetch_from_file e pe mem filename fs s = (ret, fs', s')"
  shows "files fs' = files fs"
proof (cases "fe_open_error e (calls fs) = None \<and> files fs filename \<noteq> None")
  case False
  then show ?thesis
    using assms by (auto simp: do_prefetch_from_file_def open_file_def Let_def split: option.splits)
next
  case True
  let ?fs = "fs\<lparr>calls := calls fs + 1, open_files := open_files fs + 1\<rparr>"
  have o: "open_file e False filename fs = (Inr (), ?fs)"
    using True by (auto simp: open_file_def Let_def)
  obtain x fs1 where "read_loop e filename (nat (sint (of_nat (length (contents fs filename)) :: u32))) [] ?fs = (x, fs1)"
    by force
  moreover have "files fs1 = files fs" using calculation read_loop_files by (metis kfs.select_convs(1) kfs.surjective kfs.update_convs(2,3) snd_conv)
  ultimately show ?thesis
    using assms o
    by (auto simp: do_prefetch_from_file_def Let_def contents_def close_file_def
        split: if_splits sum.splits prod.splits kernel_result.splits)
qed

lemma prefetch_from_file_returns:
  assumes "no_null_inode pe"
  shows "\<exists>ret fs' s'. do_prefetch_from_file e pe mem filename fs s = (Returned ret, fs', s')"
proof -
  have "\<exists>ret st. prefetch_do_prefetch pe bs (ps_state s) = (Returned ret, st)" for bs
    by (rule do_prefetch_returns [OF assms])
  then show ?thesis
    by (auto simp: do_prefetch_from_file_def prefetch_start_prefetch_def prefetch_start_prefetch_sync_def Let_def
        split: sum.splits prod.splits kernel_result.splits if_splits)
      (metis Pair_inject kernel_result.distinct(1))+
qed

text \<open>A phase that runs: the marker is that of the trace \<open>t0\<close>, to which \<open>released\<close> was added.\<close>

definition in_phase :: "module_state \<Rightarrow> prefetch_trace_t \<Rightarrow> prefetch_trace_record_t list \<Rightarrow> bool" where
  "in_phase st t0 released \<longleftrightarrow> boot_tracing_running st \<and> tracers_count (ms_tracing st) = 1
     \<and> \<not> clearing_in_progress (ms_tracing st) \<and> trace_inv t0 \<and> boot_start_marker st = get_trace_marker t0
     \<and> prefetch_trace (ms_tracing st) = add_all released t0"

text \<open>An environment in which nothing fails and the walk of the inodes is complete.\<close>

definition calm_module :: "module_env \<Rightarrow> (nat \<Rightarrow> address_space) \<Rightarrow> bool" where
  "calm_module e mem \<longleftrightarrow> env_ok (me_walk e) mem \<and> me_walk_memory e = granted \<and> me_new_name e
     \<and> me_save_name e \<and> me_fragment e \<and> me_read_buffer e \<and> calm_files (me_files e)
     \<and> std_sort kernel_cmp_less (me_sort e) \<and> 262144 < me_fuel e"

text \<open>What was recorded and what is found at the end of the phase, sorted.\<close>

definition phase_records :: "module_env \<Rightarrow> (nat \<Rightarrow> address_space) \<Rightarrow> prefetch_trace_record_t list
    \<Rightarrow> prefetch_trace_record_t list" where
  "phase_records e mem released = me_sort e (released @ env_records (me_walk e) mem)"

lemma room_bound: "trace_inv t \<Longrightarrow> 16 * room t \<le> 262144"
  by (auto simp: trace_inv_def room_def word_le_nat_alt PREFETCH_TRACE_SIZE_def)

lemma save_phase:
  assumes ph: "in_phase st t0 released" and calm: "calm_module e (mappings (ms_tracing st))"
    and rm: "length released + length (env_records (me_walk e) (mappings (ms_tracing st))) \<le> room t0"
    and t1: "t1 = add_all (env_records (me_walk e) (mappings (ms_tracing st)))
      (report_overflow (prefetch_trace (ms_tracing st)))"
    and st1: "prefetch_trace (ms_tracing st1) = t1" "boot_start_marker st1 = boot_start_marker st" "ms_fs st1 = ms_fs st"
  shows "\<exists>ret fs'. prefetch_save_boot_trace e name (get_trace_marker t1) st1
      = Some (Returned ret, st1\<lparr>ms_fs := fs'\<rparr>) \<and> 0 \<le> ret \<and> open_files fs' = open_files (ms_fs st)
      \<and> files fs' = (files (ms_fs st))(BOOT_TRACE_FILENAME name \<mapsto>
          encode_records (phase_records e (mappings (ms_tracing st)) released))"
proof -
  let ?rs = "released @ env_records (me_walk e) (mappings (ms_tracing st))"
  have t0: "trace_inv t0" "prefetch_trace (ms_tracing st) = add_all released t0"
    "boot_start_marker st = get_trace_marker t0"
    using ph by (simp_all add: in_phase_def)
  obtain fragment where f: "get_prefetch_trace_fragment True t1 (get_trace_marker t0) (get_trace_marker t1) = Inr fragment"
    "(case fragment of None \<Rightarrow> [] | Some bs \<Rightarrow> bs) = encode_records ?rs"
    using fragment_after_walk [OF t0(1) rm] unfolding t1 t0(2) by blast
  have "16 * length ?rs \<le> 16 * room t0" using rm by simp
  also have "\<dots> < me_fuel e" using room_bound [OF t0(1)] calm by (simp add: calm_module_def)
  finally have fuel: "16 * length ?rs < me_fuel e" .
  have srt: "length (me_sort e ?rs) = length ?rs"
    by (rule std_sort.length_srt [of kernel_cmp_less]) (use calm in \<open>simp add: calm_module_def\<close>)
  have cf: "calm_files (me_files e)" "me_save_name e" "me_fragment e = True" using calm by (simp_all add: calm_module_def)
  show ?thesis
    using save_fragment [where srt = "me_sort e" and rs = ?rs and filename = "BOOT_TRACE_FILENAME name"
        and fs = "ms_fs st", OF cf(1) f fuel srt] cf st1 t0(3)
    by (auto simp: prefetch_save_boot_trace_def phase_records_def)
qed

lemma phase_records_pages:
  assumes "calm_module e mem"
  shows "record_pages (phase_records e mem released)
    = record_pages released \<union> touched (env_mappings (me_walk e)) mem"
proof -
  have "\<forall>a\<in>env_mappings (me_walk e). walkable_mapping (we_page_fuel (me_walk e)) (mem a)"
    using assms by (simp add: calm_module_def env_ok_def)
  from walk_records_cover [OF this]
  have "record_pages (released @ env_records (me_walk e) mem)
      = record_pages released \<union> touched (env_mappings (me_walk e)) mem" by simp
  moreover have "set (phase_records e mem released) = set (released @ env_records (me_walk e) mem)"
    unfolding phase_records_def
    by (rule std_sort.set_srt [of kernel_cmp_less]) (use assms in \<open>simp add: calm_module_def\<close>)
  ultimately show ?thesis by (simp add: record_pages_def)
qed

lemma continue_calm:
  assumes "calm_module e (mappings (ms_tracing st))" and "in_phase st t0 released"
    and "command = STOP_TRACING \<or> command = CONTINUE_TRACING"
  shows "walk_pages (me_walk e) (me_walk_memory e) command (ms_tracing st) =
    (let t = add_all (env_records (me_walk e) (mappings (ms_tracing st)))
               (report_overflow (prefetch_trace (ms_tracing st))) in
     Some (0, Some (get_trace_marker t),
       (ms_tracing st)\<lparr>prefetch_trace := t, tracers_count := (if command = STOP_TRACING then 0 else 1),
          mappings := cleared_mappings (me_walk e) (mappings (ms_tracing st))\<rparr>))"
proof -
  have "env_ok (me_walk e) (mappings (ms_tracing st))" "me_walk_memory e = granted"
    using assms(1) by (simp_all add: calm_module_def)
  moreover have "clearing_in_progress (ms_tracing st) = False" "tracers_count (ms_tracing st) = 1"
    using assms(2) by (simp_all add: in_phase_def)
  ultimately show ?thesis
    using walk_recording [of "me_walk e" "ms_tracing st" command] assms(3) by (auto simp: Let_def)
qed

section \<open>Properties\<close>

text \<open>
  C5: the start of the first phase begins a trace of the phase with all referenced bits cleared;
  the start of the next phase saves to the file of the running phase, sorted, records that cover
  exactly what was released and referenced during it, and begins the trace of the next phase:
  the state \<open>in_phase\<close> goes from one start to the next. This holds in a calm environment (no call
  fails, the walk of the inodes is complete), with room for the phase in the buffer and no lookup of
  an inode that fails with a null pointer.
\<close>

theorem boot_phase_change:
  assumes "calm_module e (mappings (ms_tracing st))" and "no_null_inode (me_prefetch e)"
  shows "(\<not> boot_tracing_running st \<and> tracers_count (ms_tracing st) = 0
        \<and> \<not> clearing_in_progress (ms_tracing st) \<and> trace_inv (prefetch_trace (ms_tracing st)) \<longrightarrow>
      (\<exists>st' t0. prefetch_start_boot_phase e name st = Some (Returned 0, st') \<and> in_phase st' t0 []
        \<and> boot_phase_name st' = take 10 name \<and> files (ms_fs st') = files (ms_fs st)
        \<and> touched (env_mappings (me_walk e)) (mappings (ms_tracing st')) = {}))
    \<and> (\<forall>t0 released. in_phase st t0 released
        \<and> length released + length (env_records (me_walk e) (mappings (ms_tracing st))) \<le> room t0 \<longrightarrow>
      (\<exists>st' t1 rs. prefetch_start_boot_phase e name st = Some (Returned 0, st') \<and> in_phase st' t1 []
        \<and> boot_phase_name st' = take 10 name
        \<and> files (ms_fs st') = (files (ms_fs st))(BOOT_TRACE_FILENAME (boot_phase_name st) \<mapsto> encode_records rs)
        \<and> sorted_wrt (\<lambda>r r'. \<not> kernel_cmp_less r' r) rs
        \<and> record_pages rs = record_pages released
            \<union> touched (env_mappings (me_walk e)) (mappings (ms_tracing st))))"
proof (intro conjI impI allI; elim conjE)
  have names: "me_new_name e" using assms(1) by (simp add: calm_module_def)
  let ?mem = "mappings (ms_tracing st)"
  assume a: "\<not> boot_tracing_running st" "tracers_count (ms_tracing st) = 0"
    "\<not> clearing_in_progress (ms_tracing st)" "trace_inv (prefetch_trace (ms_tracing st))"
  define tr where "tr = (ms_tracing st)\<lparr>prefetch_trace := report_overflow (prefetch_trace (ms_tracing st)),
      tracers_count := 1, mappings := cleared_mappings (me_walk e) ?mem\<rparr>"
  have w: "prefetch_start_trace (me_walk e) (me_walk_memory e) (ms_tracing st)
      = Some (0, Some (get_trace_marker (prefetch_trace (ms_tracing st))), tr)"
    using walk_first_start [of "me_walk e" "ms_tracing st"] assms(1) a
    by (simp add: calm_module_def prefetch_start_trace_def tr_def)
  obtain ret fs threads where d: "do_prefetch_from_file (me_files e) (me_prefetch e) (me_read_buffer e)
      (BOOT_TRACE_FILENAME name) (ms_fs st) (ms_threads st) = (Returned ret, fs, threads)"
    using prefetch_from_file_returns [OF assms(2)] by blast
  let ?st' = "st\<lparr>ms_tracing := tr, boot_start_marker := get_trace_marker (prefetch_trace (ms_tracing st)),
    boot_phase_name := take 10 name, boot_tracing_running := True, ms_fs := fs, ms_threads := threads\<rparr>"
  have "prefetch_start_boot_phase e name st = Some (Returned 0, ?st')"
    using names a w d
    by (simp add: prefetch_start_boot_phase_def switch_phase_def written_marker_def PHASE_NAME_MAX_def)
  moreover have "in_phase ?st' (report_overflow (prefetch_trace (ms_tracing st))) []"
    using a by (simp add: in_phase_def tr_def get_trace_marker_def)
  moreover have "touched (env_mappings (me_walk e)) (mappings (ms_tracing ?st')) = {}"
    by (auto simp: tr_def touched_def)
  ultimately show "\<exists>st' t0. prefetch_start_boot_phase e name st = Some (Returned 0, st') \<and> in_phase st' t0 []
        \<and> boot_phase_name st' = take 10 name \<and> files (ms_fs st') = files (ms_fs st)
        \<and> touched (env_mappings (me_walk e)) (mappings (ms_tracing st')) = {}"
    using prefetch_from_file_files [OF d]
    by (intro exI [of _ ?st'] exI [of _ "report_overflow (prefetch_trace (ms_tracing st))"]) simp
next
  have names: "me_new_name e" using assms(1) by (simp add: calm_module_def)
  let ?mem = "mappings (ms_tracing st)"
  fix t0 released
  assume ph: "in_phase st t0 released" and rm: "length released + length (env_records (me_walk e) ?mem) \<le> room t0"
  define t1 where "t1 = add_all (env_records (me_walk e) ?mem) (report_overflow (prefetch_trace (ms_tracing st)))"
  define tr where "tr = (ms_tracing st)\<lparr>prefetch_trace := t1, tracers_count := 1,
      mappings := cleared_mappings (me_walk e) ?mem\<rparr>"
  have w: "prefetch_continue_trace (me_walk e) (me_walk_memory e) (ms_tracing st)
      = Some (0, Some (get_trace_marker t1), tr)"
    using continue_calm [OF assms(1) ph, of CONTINUE_TRACING]
    by (simp add: prefetch_continue_trace_def tr_def t1_def Let_def)
  let ?st1 = "st\<lparr>ms_tracing := tr\<rparr>" and ?rs = "phase_records e ?mem released"
  obtain r fs1 where s: "prefetch_save_boot_trace e (boot_phase_name st) (get_trace_marker t1) ?st1
      = Some (Returned r, ?st1\<lparr>ms_fs := fs1\<rparr>)"
    "files fs1 = (files (ms_fs st))(BOOT_TRACE_FILENAME (boot_phase_name st) \<mapsto> encode_records ?rs)"
    using save_phase [OF ph assms(1) rm t1_def, of ?st1 "boot_phase_name st"] by (auto simp: tr_def)
  obtain ret fs threads where d: "do_prefetch_from_file (me_files e) (me_prefetch e) (me_read_buffer e)
      (BOOT_TRACE_FILENAME name) fs1 (ms_threads st) = (Returned ret, fs, threads)"
    using prefetch_from_file_returns [OF assms(2)] by blast
  let ?st' = "st\<lparr>ms_tracing := tr, boot_start_marker := get_trace_marker t1,
    boot_phase_name := take 10 name, boot_tracing_running := True, ms_fs := fs, ms_threads := threads\<rparr>"
  have run: "boot_tracing_running st" using ph by (simp add: in_phase_def)
  have start: "prefetch_start_boot_phase e name st = Some (Returned 0, ?st')"
    using names run w s(1) d
    by (simp add: prefetch_start_boot_phase_def switch_phase_def written_marker_def PHASE_NAME_MAX_def Let_def)
  have "trace_inv t1"
    using ph add_all_spec [of t0 released] add_all_spec [of "report_overflow (add_all released t0)"]
    by (simp add: in_phase_def t1_def)
  then have inp: "in_phase ?st' t1 []" using ph by (simp add: in_phase_def tr_def)
  have srt: "sorted_wrt (\<lambda>r r'. \<not> kernel_cmp_less r' r) ?rs"
    using assms(1) std_sort.srt_sorted unfolding calm_module_def phase_records_def by metis
  show "\<exists>st' t1 rs. prefetch_start_boot_phase e name st = Some (Returned 0, st') \<and> in_phase st' t1 []
        \<and> boot_phase_name st' = take 10 name
        \<and> files (ms_fs st') = (files (ms_fs st))(BOOT_TRACE_FILENAME (boot_phase_name st) \<mapsto> encode_records rs)
        \<and> sorted_wrt (\<lambda>r r'. \<not> kernel_cmp_less r' r) rs
        \<and> record_pages rs = record_pages released \<union> touched (env_mappings (me_walk e)) ?mem"
    using start inp srt phase_records_pages [OF assms(1), of released] prefetch_from_file_files [OF d] s(2)
    by (intro exI [of _ ?st'] exI [of _ t1] exI [of _ ?rs]) simp
qed

text \<open>
  C6: the end of boot tracing saves the last phase as a change of phase does and ends the tracer;
  when the next boot starts the phase of that name, the saved file is read and its records are
  read ahead in order - all but the last 15. The next boot grants every file structure and looks up
  no inode with a null pointer as the result.
\<close>

theorem boot_stop_saves_for_next_boot:
  assumes "calm_module e (mappings (ms_tracing st))" and "in_phase st t0 released"
    and "length released + length (env_records (me_walk e) (mappings (ms_tracing st))) \<le> room t0"
    and "\<forall>n. get_empty_filp pe n" and "no_null_inode pe"
  shows "\<exists>r st' rs. prefetch_stop_boot_tracing e st = Some (Returned r, st') \<and> 0 \<le> r
    \<and> \<not> boot_tracing_running st' \<and> tracers_count (ms_tracing st') = 0
    \<and> files (ms_fs st') (BOOT_TRACE_FILENAME (boot_phase_name st)) = Some (encode_records rs)
    \<and> record_pages rs = record_pages released \<union> touched (env_mappings (me_walk e)) (mappings (ms_tracing st))
    \<and> (\<exists>fs' threads'. do_prefetch_from_file (me_files e) pe True (BOOT_TRACE_FILENAME (boot_phase_name st))
          (ms_fs st') threads = (Returned 0, fs', threads')
        \<and> readaheads (ps_state threads') = readaheads (ps_state threads)
            @ concat (map (readahead_of pe) (take (length rs - 15) rs)))"
proof -
  let ?mem = "mappings (ms_tracing st)" and ?name = "BOOT_TRACE_FILENAME (boot_phase_name st)"
  define t1 where "t1 = add_all (env_records (me_walk e) ?mem) (report_overflow (prefetch_trace (ms_tracing st)))"
  define tr where "tr = (ms_tracing st)\<lparr>prefetch_trace := t1, tracers_count := 0,
      mappings := cleared_mappings (me_walk e) ?mem\<rparr>"
  have w: "prefetch_stop_trace (me_walk e) (me_walk_memory e) (ms_tracing st)
      = Some (0, Some (get_trace_marker t1), tr)"
    using continue_calm [OF assms(1,2), of STOP_TRACING]
    by (simp add: prefetch_stop_trace_def tr_def t1_def Let_def)
  let ?st1 = "st\<lparr>ms_tracing := tr, boot_tracing_running := False\<rparr>" and ?rs = "phase_records e ?mem released"
  obtain r fs1 where s: "prefetch_save_boot_trace e (boot_phase_name st) (get_trace_marker t1) ?st1
      = Some (Returned r, ?st1\<lparr>ms_fs := fs1\<rparr>)" "0 \<le> r"
    "files fs1 = (files (ms_fs st))(?name \<mapsto> encode_records ?rs)"
    using save_phase [OF assms(2,1,3) t1_def, of ?st1 "boot_phase_name st"] by (auto simp: tr_def)
  have stop: "prefetch_stop_boot_tracing e st = Some (Returned r, ?st1\<lparr>ms_fs := fs1\<rparr>)"
    using assms(2) w s(1) by (simp add: prefetch_stop_boot_tracing_def in_phase_def written_marker_def Let_def)
  have calm: "calm_files (me_files e)" using assms(1) by (simp add: calm_module_def)
  have saved: "files fs1 ?name = Some (encode_records ?rs)" using s(3) by simp
  have len: "16 * length ?rs < 2 ^ 31"
  proof -
    have "length ?rs = length released + length (env_records (me_walk e) ?mem)"
      using assms(1) std_sort.length_srt [of kernel_cmp_less "me_sort e"]
      by (simp add: calm_module_def phase_records_def)
    then have "16 * length ?rs \<le> 262144"
      using assms(3) room_bound [of t0] assms(2) by (simp add: in_phase_def)
    then show ?thesis by simp
  qed
  have "\<exists>fs' threads'. do_prefetch_from_file (me_files e) pe True ?name fs1 threads = (Returned 0, fs', threads')
      \<and> readaheads (ps_state threads') = readaheads (ps_state threads)
          @ concat (map (readahead_of pe) (take (length ?rs - 15) ?rs))"
  proof (cases "?rs = []")
    case True
    then show ?thesis
      using saved calm
      by (simp add: do_prefetch_from_file_def open_file_def calm_files_def contents_def encode_records_def Let_def)
  next
    case False
    obtain s' where s': "prefetch_do_prefetch pe (encode_records ?rs) (ps_state threads) = (Returned 0, s')"
      "readaheads s' = readaheads (ps_state threads) @ concat (map (readahead_of pe) (take (length ?rs - 15) ?rs))"
      using do_prefetch_readaheads [OF assms(4,5)] by blast
    then show ?thesis using prefetch_file [OF calm saved False len s'(1)] by auto
  qed
  then show ?thesis
    using stop s(2) saved phase_records_pages [OF assms(1), of released]
    by (intro exI [of _ r] exI [of _ "?st1\<lparr>ms_fs := fs1\<rparr>"] exI [of _ ?rs]) (simp add: tr_def)
qed

text \<open>The switches of the module, set to any values.\<close>

definition with_switches :: "bool \<times> bool \<times> bool \<Rightarrow> module_state \<Rightarrow> module_state" where
  "with_switches sw st = st\<lparr>prefetching_module_enabled := fst sw, prefetch_enabled := fst (snd sw),
     async_prefetching := snd (snd sw)\<rparr>"

lemma with_switches_same [simp]:
  "ms_tracing (with_switches sw st) = ms_tracing st" "ms_fs (with_switches sw st) = ms_fs st"
  "ms_threads (with_switches sw st) = ms_threads st"
  "boot_start_marker (with_switches sw st) = boot_start_marker st"
  "boot_phase_name (with_switches sw st) = boot_phase_name st"
  "boot_tracing_running (with_switches sw st) = boot_tracing_running st"
  by (simp_all add: with_switches_def)

lemma with_switches_update [simp]:
  "(with_switches sw st)\<lparr>ms_tracing := tr\<rparr> = with_switches sw (st\<lparr>ms_tracing := tr\<rparr>)"
  "(with_switches sw st)\<lparr>ms_fs := fs\<rparr> = with_switches sw (st\<lparr>ms_fs := fs\<rparr>)"
  "(with_switches sw st)\<lparr>ms_threads := th\<rparr> = with_switches sw (st\<lparr>ms_threads := th\<rparr>)"
  "(with_switches sw st)\<lparr>boot_start_marker := m\<rparr> = with_switches sw (st\<lparr>boot_start_marker := m\<rparr>)"
  "(with_switches sw st)\<lparr>boot_phase_name := n\<rparr> = with_switches sw (st\<lparr>boot_phase_name := n\<rparr>)"
  "(with_switches sw st)\<lparr>boot_tracing_running := b\<rparr> = with_switches sw (st\<lparr>boot_tracing_running := b\<rparr>)"
  by (simp_all add: with_switches_def)

lemma save_switches:
  "prefetch_save_boot_trace e name m (with_switches sw st)
    = map_option (apsnd (with_switches sw)) (prefetch_save_boot_trace e name m st)"
  by (simp add: prefetch_save_boot_trace_def option.map_comp comp_def split_def)

lemma switch_switches:
  "switch_phase e (with_switches sw st) = map_option (apsnd (with_switches sw)) (switch_phase e st)"
  by (auto simp: switch_phase_def save_switches Let_def split: option.splits prod.splits kernel_result.splits)

text \<open>
  the switches \<open>enable\<close>/\<open>disable\<close>, \<open>prefetch enable\<close>/\<open>prefetch disable\<close> and the modes
  change nothing of what a boot phase does: tracing, saving and prefetching go on as before, and
  prefetching stays synchronous.
\<close>

theorem switches_do_not_affect_boot_phases:
  "prefetch_start_boot_phase e name (with_switches sw st)
      = map_option (apsnd (with_switches sw)) (prefetch_start_boot_phase e name st)
   \<and> prefetch_stop_boot_tracing e (with_switches sw st)
      = map_option (apsnd (with_switches sw)) (prefetch_stop_boot_tracing e st)"
  by (auto simp: prefetch_start_boot_phase_def prefetch_stop_boot_tracing_def switch_switches save_switches
      Let_def split: option.splits prod.splits kernel_result.splits)

text \<open>
  C39: when the trace file cannot be opened, the error path closes the error pointer: the end of a
  phase, and with it the start of the next one, is a kernel oops with the boot mutex held.
\<close>

theorem save_oops_when_open_fails:
  assumes "in_phase st t0 released" and "calm_module e (mappings (ms_tracing st))"
    and "length released + length (env_records (me_walk e) (mappings (ms_tracing st))) \<le> room t0"
  shows "\<exists>st'. prefetch_start_boot_phase
      (e\<lparr>me_files := (me_files e)\<lparr>fe_open_error := (\<lambda>n. Some (- ENFILE))\<rparr>\<rparr>) name st = Some (Oops, st')"
proof -
  let ?e = "e\<lparr>me_files := (me_files e)\<lparr>fe_open_error := (\<lambda>n. Some (- ENFILE))\<rparr>\<rparr>"
  let ?mem = "mappings (ms_tracing st)"
  define t1 where "t1 = add_all (env_records (me_walk e) ?mem) (report_overflow (prefetch_trace (ms_tracing st)))"
  obtain tr where w: "prefetch_continue_trace (me_walk e) (me_walk_memory e) (ms_tracing st)
      = Some (0, Some (get_trace_marker t1), tr)" "prefetch_trace tr = t1"
    using continue_calm [OF assms(2,1), of CONTINUE_TRACING]
    by (simp add: prefetch_continue_trace_def t1_def Let_def)
  obtain fragment where f: "get_prefetch_trace_fragment True t1 (get_trace_marker t0) (get_trace_marker t1) = Inr fragment"
    using fragment_after_walk [OF _ assms(3)] assms(1) unfolding t1_def in_phase_def by metis
  have c: "me_save_name e" "me_fragment e = True" "me_new_name e" "boot_start_marker st = get_trace_marker t0"
    "boot_tracing_running st"
    using assms(1,2) by (simp_all add: calm_module_def in_phase_def)
  have "\<exists>st1. prefetch_save_boot_trace ?e n (get_trace_marker t1) (st\<lparr>ms_tracing := tr\<rparr>) = Some (Oops, st1)" for n
    using c f w(2)
    by (simp add: prefetch_save_boot_trace_def prefetch_save_trace_fragment_def open_file_def Let_def)
  then obtain st1 where "prefetch_save_boot_trace ?e (boot_phase_name st) (get_trace_marker t1)
      (st\<lparr>ms_tracing := tr\<rparr>) = Some (Oops, st1)" by blast
  then show ?thesis
    using c w(1) by (simp add: prefetch_start_boot_phase_def switch_phase_def written_marker_def Let_def)
qed

section \<open>A sample module\<close>

definition sample_files :: file_env where
  "sample_files = \<lparr>fe_open_error = (\<lambda>n. None), fe_truncates = True, fe_write = (\<lambda>n c. int c),
     fe_read = (\<lambda>n c. int c)\<rparr>"

definition sample_module :: module_env where
  "sample_module = \<lparr>me_walk = sample_env, me_walk_memory = granted, me_trace_buffer = None,
     me_new_name = True, me_save_name = True, me_fragment = True, me_read_buffer = True,
     me_phase_name = True, me_command_buffer = True, me_copied = True, me_path_max = 4096,
     me_marker = \<lparr>mk_position = 7, mk_generation = 3\<rparr>, me_files = sample_files,
     me_prefetch = sample_prefetch_env, me_sort = cmp_sort kernel_cmp_less, me_fuel = 262145\<rparr>"

definition sample_module_state :: "bool \<Rightarrow> module_state" where
  "sample_module_state running =
     \<lparr>ms_tracing = (sample_state [(0, True)])\<lparr>tracers_count := (if running then 1 else 0)\<rparr>,
      ms_fs = \<lparr>files = Map.empty, calls = 0, open_files = 0\<rparr>,
      ms_threads = \<lparr>ps_state = sample_prefetch_state, ps_pending = []\<rparr>,
      boot_start_marker = get_trace_marker sample_trace, boot_phase_name = ''init'',
      boot_tracing_running = running, prefetching_module_enabled = True, prefetch_enabled = True,
      async_prefetching = False\<rparr>"

lemma sample_calm: "calm_module sample_module (mappings (ms_tracing (sample_module_state running)))"
  using sample_env_ok [of "[(0, True)]"] fragment_sort.std_sort_axioms
  by (simp add: calm_module_def sample_module_def sample_module_state_def sample_state_def
      calm_files_def sample_files_def sorted_pages_def)

lemma sample_no_null_prefetch: "no_null_inode sample_prefetch_env"
  by (simp add: no_null_inode_def sample_prefetch_env_def)

lemma sample_no_null: "no_null_inode (me_prefetch sample_module)"
  by (simp add: sample_module_def sample_no_null_prefetch)

lemma sample_in_phase: "in_phase (sample_module_state True) sample_trace []"
  by (simp add: in_phase_def sample_module_state_def sample_state_def sample_trace_inv)

lemma sample_phase_room:
  "length ([] :: prefetch_trace_record_t list)
     + length (env_records (me_walk sample_module) (mappings (ms_tracing (sample_module_state True))))
   \<le> room sample_trace"
  using sample_records by (simp add: sample_room sample_module_def sample_module_state_def sample_state_def)

lemma sample_touched:
  "touched (env_mappings (me_walk sample_module)) (mappings (ms_tracing (sample_module_state True))) = {(8, 5, 0)}"
  using sample_env_mappings
  by (auto simp: sample_module_def sample_module_state_def sample_state_def touched_def touched_in_def
      sample_mappings_def)

lemma boot_phase_change_witness:
  "\<exists>st' t1 rs. prefetch_start_boot_phase sample_module ''login'' (sample_module_state True)
      = Some (Returned 0, st') \<and> in_phase st' t1 [] \<and> boot_phase_name st' = ''login''
    \<and> files (ms_fs st') ''/.prefetch-boot-trace.init'' = Some (encode_records rs)
    \<and> record_pages rs = {(8, 5, 0)}"
proof -
  have n: "boot_phase_name (sample_module_state True) = ''init''" by (simp add: sample_module_state_def)
  show ?thesis
    using boot_phase_change [OF sample_calm sample_no_null, THEN conjunct2, rule_format,
        OF conjI [OF sample_in_phase sample_phase_room], of "''login''"]
    by (auto simp: sample_touched n BOOT_TRACE_FILENAME_def)
qed

lemma boot_stop_saves_for_next_boot_witness:
  "\<exists>r st' rs. prefetch_stop_boot_tracing sample_module (sample_module_state True) = Some (Returned r, st')
    \<and> files (ms_fs st') ''/.prefetch-boot-trace.init'' = Some (encode_records rs)
    \<and> record_pages rs = {(8, 5, 0)} \<and> tracers_count (ms_tracing st') = 0"
proof -
  have n: "boot_phase_name (sample_module_state True) = ''init''" by (simp add: sample_module_state_def)
  have g: "\<forall>n. get_empty_filp sample_prefetch_env n" by (simp add: sample_prefetch_env_def)
  show ?thesis
    using boot_stop_saves_for_next_boot [OF sample_calm sample_in_phase sample_phase_room g
        sample_no_null_prefetch,
        of "\<lparr>ps_state = sample_prefetch_state, ps_pending = []\<rparr>"]
    by (auto simp: sample_touched n BOOT_TRACE_FILENAME_def)
qed

lemma save_oops_when_open_fails_witness:
  "\<exists>st'. prefetch_start_boot_phase (sample_module\<lparr>me_files := sample_files\<lparr>fe_open_error := (\<lambda>n. Some (- ENFILE))\<rparr>\<rparr>)
      ''login'' (sample_module_state True) = Some (Oops, st')"
  using save_oops_when_open_fails [OF sample_in_phase sample_calm sample_phase_room, of "''login''"]
  by (simp add: sample_module_def)

lemma command_line_newline:
  assumes "newline = [] \<or> newline = [CHR 0x0A]" and "\<forall>c\<in>set line. c \<noteq> CHR 0x00"
    and "line \<noteq> []" and "List.last line \<noteq> CHR 0x0A"
  shows "command_line (line @ newline) = line"
proof -
  have "takeWhile (\<lambda>c. c \<noteq> CHR 0x00) line = line" using assms(2) by (simp add: takeWhile_eq_all_conv)
  moreover have "(if line @ newline \<noteq> [] \<and> List.last (line @ newline) = CHR 0x0A
      then butlast (line @ newline) else line @ newline) = line"
    using assms(1)
  proof
    assume "newline = []"
    then show ?thesis using assms(4) by (simp only: append_Nil2 if_False simp_thms)
  next
    assume "newline = [CHR 0x0A]"
    then show ?thesis by (simp only: last_snoc butlast_snoc append_is_Nil_conv list.simps if_True simp_thms)
  qed
  ultimately show ?thesis by (simp only: command_line_def)
qed

definition boot_command :: "string \<Rightarrow> string" where
  "boot_command word = ''boot tracing start phase '' @ word"

lemma scan_boot_command:
  assumes "\<forall>c\<in>set word. \<not> is_space c"
  shows "scan_phase_name (boot_command word) = (if word = [] then None else Some (take 10 word))"
proof -
  have "drop (length BOOT_COMMAND_PREFIX) (boot_command word) = CHR '' '' # word"
    by (simp add: BOOT_COMMAND_PREFIX_def boot_command_def)
  moreover have "takeWhile (\<lambda>c. \<not> is_space c) word = word"
    using assms by (simp add: takeWhile_eq_all_conv)
  moreover have "dropWhile is_space word = word" using assms by (cases word) auto
  moreover have "is_space CHR '' ''" by (simp add: is_space_def)
  ultimately show ?thesis by (simp only: scan_phase_name_def Let_def dropWhile.simps if_True)
qed

lemma run_boot_command:
  "run_command e (boot_command word) st =
     (if \<not> me_phase_name e then Some (Returned 0, st)
      else (case scan_phase_name (boot_command word) of
              None \<Rightarrow> Some (Returned (- EINVAL), st)
            | Some phase_name \<Rightarrow>
                (case prefetch_start_boot_phase e phase_name st of
                   Some (Returned _, st) \<Rightarrow> Some (Returned 0, st)
                 | other \<Rightarrow> other)))"
proof -
  have "\<not> param_match (boot_command word) p"
    if "p \<in> {''clear trace'', ''mode async'', ''mode sync'', ''enable'', ''disable'', ''prefetch enable'',
      ''prefetch disable'', ''start'', ''stop''}" for p
    using that by (auto simp: param_match_def boot_command_def)
  moreover have "param_match (boot_command word) BOOT_COMMAND_PREFIX"
    by (simp add: param_match_def BOOT_COMMAND_PREFIX_def boot_command_def)
  ultimately show ?thesis unfolding run_command_def by (simp only: insert_iff simp_thms if_True if_False)
qed

text \<open>
  C15: what a written command does: a newline at the end is stripped, a phase name is the first word
  behind the prefix, cut to 10 characters, and the length is returned when the command was
  understood, -22 when the phase has no name. When the memory for the name is missing the command
  does nothing and still reports success.
\<close>

theorem proc_write_starts_boot_phase:
  assumes "length command < me_path_max e" and "me_command_buffer e" and "me_copied e"
    and "command = boot_command word @ newline" and "newline = [] \<or> newline = [CHR 0x0A]"
    and "\<forall>c\<in>set word. \<not> is_space c \<and> c \<noteq> CHR 0x00"
  shows "prefetch_proc_write e command st =
    (if \<not> me_phase_name e then Some (Returned (int (length command)), st)
     else if word = [] then Some (Returned (- EINVAL), st)
     else (case prefetch_start_boot_phase e (take 10 word) st of
             Some (Returned _, st') \<Rightarrow> Some (Returned (int (length command)), st')
           | other \<Rightarrow> other))"
proof -
  have "List.last (boot_command word) \<noteq> CHR 0x0A"
  proof (cases "word = []")
    case False
    then have "List.last word \<noteq> CHR 0x0A" using assms(6) last_in_set [of word] by (auto simp: is_space_def)
    then show ?thesis using False by (simp add: boot_command_def)
  qed (simp add: boot_command_def)
  moreover have "\<forall>c\<in>set (boot_command word). c \<noteq> CHR 0x00" "boot_command word \<noteq> []"
    using assms(6) by (auto simp: boot_command_def)
  ultimately have "command_line command = boot_command word"
    unfolding assms(4) by (intro command_line_newline assms(5))
  then have w: "prefetch_proc_write e command st = (case run_command e (boot_command word) st of
      Some (Returned err, st) \<Rightarrow> Some (Returned (if err \<noteq> 0 then err else int (length command)), st)
    | other \<Rightarrow> other)"
    using assms(1-3) by (simp add: prefetch_proc_write_def)
  have "scan_phase_name (boot_command word) = (if word = [] then None else Some (take 10 word))"
    using assms(6) by (intro scan_boot_command) blast
  then show ?thesis
    unfolding w run_boot_command
    by (simp add: EINVAL_def split: option.split prod.split kernel_result.split)
qed

lemma proc_write_starts_boot_phase_witness:
  "prefetch_proc_write sample_module (boot_command [] @ [CHR 0x0A]) (sample_module_state True)
    = Some (Returned (- 22), sample_module_state True)"
  using proc_write_starts_boot_phase [of "boot_command [] @ [CHR 0x0A]" sample_module "[]" "[CHR 0x0A]"]
  by (simp add: sample_module_def EINVAL_def boot_command_def)

end
