(* ===== verification/Kernel_Application.thy ===== *)
theory Kernel_Application
  imports Kernel_Files
begin

text \<open>
  Tracing of one application, OpenOffice (\<open>prefetch.c\<close>: \<open>prefetch_exec_hook\<close>,
  \<open>ooffice_interim_tracing\<close>, \<open>ooffice_finish_tracing\<close>, \<open>prefetch_exit_hook\<close>): the start of
  the program begins a trace, a delayed work item continues it twice, the exit or the last interval
  ends it and keeps the sorted fragment for the next start. The first statement of the exec hook
  is a \<open>return\<close>.
\<close>

section \<open>State\<close>

record ooffice_trace_work_t =
  work_pending :: bool
  traces_left :: int
  num_trace_offsets :: nat
  trace_offsets :: "int list option"

record app_state =
  as_tracing :: tracing_state
  ooffice_trace_in_progress :: bool
  ooffice_trace :: "byte list option"
  ooffice_start_marker :: trace_marker_t
  ooffice_pid :: int
  ooffice_trace_work :: ooffice_trace_work_t

record app_env =
  ae_walk :: walk_env
  ae_walk_memory :: walk_memory
  ae_fragment :: bool
  ae_buffer :: "byte list option"
  ae_sort :: "prefetch_trace_record_t list \<Rightarrow> prefetch_trace_record_t list"
  ae_marker :: trace_marker_t

definition init_ooffice_trace_work :: ooffice_trace_work_t where
  "init_ooffice_trace_work =
     \<lparr>work_pending = False, traces_left = 0, num_trace_offsets = 0, trace_offsets = None\<rparr>"

definition set_pending :: "bool \<Rightarrow> app_state \<Rightarrow> app_state" where
  "set_pending b st = st\<lparr>ooffice_trace_work := (ooffice_trace_work st)\<lparr>work_pending := b\<rparr>\<rparr>"

section \<open>Operations\<close>

text \<open>\<open>None\<close> when the walk does not end. The end marker is a local variable, not initialised.\<close>

definition ooffice_finish_tracing :: "app_env \<Rightarrow> app_state \<Rightarrow> app_state option" where
  "ooffice_finish_tracing e st =
     (let st = set_pending False st; start_marker = ooffice_start_marker st in
      case prefetch_stop_trace (ae_walk e) (ae_walk_memory e) (as_tracing st) of
        None \<Rightarrow> None
      | Some (ret, m, tr) \<Rightarrow>
          (let st = st\<lparr>as_tracing := tr, ooffice_trace_in_progress := False\<rparr>;
               end_marker = (case m of None \<Rightarrow> ae_marker e | Some m \<Rightarrow> m)
           in if ret < 0 then Some st
              else (case get_prefetch_trace_fragment (ae_fragment e) (prefetch_trace tr) start_marker end_marker of
                      Inl _ \<Rightarrow> Some st
                    | Inr fragment \<Rightarrow>
                        (let st = st\<lparr>as_tracing := tr\<lparr>prefetch_trace :=
                               clear_trace (ae_buffer e) (prefetch_trace tr)\<rparr>\<rparr>
                         in case fragment of
                              None \<Rightarrow> Some st
                            | Some bs \<Rightarrow>
                                Some (st\<lparr>ooffice_trace := Some (sort_trace_fragment (ae_sort e) bs)\<rparr>)))))"

text \<open>The work item, when its delay is over: it is not pending while it runs.\<close>

definition ooffice_interim_tracing :: "app_env \<Rightarrow> app_state \<Rightarrow> app_state option" where
  "ooffice_interim_tracing e st =
     (let st = set_pending False st;
          w = ooffice_trace_work st;
          w = w\<lparr>traces_left := traces_left w - 1\<rparr>;
          st = st\<lparr>ooffice_trace_work := w\<rparr>
      in if traces_left w \<le> 0 then ooffice_finish_tracing e st
         else (case trace_offsets w of
                 None \<Rightarrow> Some st
               | Some offsets \<Rightarrow>
                   (case prefetch_continue_trace (ae_walk e) (ae_walk_memory e) (as_tracing st) of
                      None \<Rightarrow> None
                    | Some (ret, m, tr) \<Rightarrow>
                        (let st = st\<lparr>as_tracing := tr\<rparr>;
                             interim_marker = (case m of None \<Rightarrow> ae_marker e | Some m \<Rightarrow> m);
                             offset = prefetch_trace_fragment_size (ooffice_start_marker st) interim_marker
                         in if ret \<noteq> 0 then Some st
                            else Some (set_pending True (st\<lparr>ooffice_trace_work :=
                                   w\<lparr>trace_offsets := Some (offsets[num_trace_offsets w := offset]),
                                     num_trace_offsets := num_trace_offsets w + 1\<rparr>\<rparr>))))))"

definition prefetch_exec_hook :: "string \<Rightarrow> app_state \<Rightarrow> app_state" where
  "prefetch_exec_hook filename st = st"

definition prefetch_exit_hook :: "app_env \<Rightarrow> int \<Rightarrow> app_state \<Rightarrow> app_state option" where
  "prefetch_exit_hook e pid st =
     (if ooffice_trace_in_progress st \<and> ooffice_pid st = pid then ooffice_finish_tracing e st else Some st)"

section \<open>Runs\<close>

text \<open>
  Programs start and exit, the work item runs when it is pending, and the rest of the module
  changes the state of tracing.
\<close>

inductive app_step :: "app_state \<Rightarrow> app_state \<Rightarrow> bool" where
  Exec: "app_step st (prefetch_exec_hook filename st)"
| Exit: "prefetch_exit_hook e pid st = Some st' \<Longrightarrow> app_step st st'"
| Work: "work_pending (ooffice_trace_work st) \<Longrightarrow> ooffice_interim_tracing e st = Some st' \<Longrightarrow> app_step st st'"
| Tracing: "app_step st (st\<lparr>as_tracing := tr\<rparr>)"

inductive_cases app_stepE: "app_step st st'"

definition idle :: "app_state \<Rightarrow> bool" where
  "idle st \<longleftrightarrow> \<not> ooffice_trace_in_progress st \<and> ooffice_trace st = None
     \<and> ooffice_trace_work st = init_ooffice_trace_work"

lemma idle_step: "app_step st st' \<Longrightarrow> idle st \<Longrightarrow> idle st'"
  by (induction rule: app_step.induct)
    (auto simp: idle_def prefetch_exec_hook_def prefetch_exit_hook_def init_ooffice_trace_work_def)

section \<open>Properties\<close>

text \<open>
  because the exec hook returns at once, the tracing of applications never starts: whatever
  programs start and exit, no trace is in progress, no interval is scheduled and no fragment is
  kept.
\<close>

theorem application_tracing_never_starts:
  assumes "app_step\<^sup>*\<^sup>* st st'" and "\<not> ooffice_trace_in_progress st" and "ooffice_trace st = None"
    and "ooffice_trace_work st = init_ooffice_trace_work"
  shows "\<not> ooffice_trace_in_progress st' \<and> ooffice_trace st' = None
    \<and> ooffice_trace_work st' = init_ooffice_trace_work"
proof -
  have "idle st" using assms(2-4) by (simp add: idle_def)
  with assms(1) have "idle st'" by (induction rule: rtranclp_induct) (auto intro: idle_step)
  then show ?thesis by (simp add: idle_def)
qed

definition sample_app :: app_state where
  "sample_app = \<lparr>as_tracing = sample_state [], ooffice_trace_in_progress = False, ooffice_trace = None,
     ooffice_start_marker = get_trace_marker sample_trace, ooffice_pid = 0,
     ooffice_trace_work = init_ooffice_trace_work\<rparr>"

lemma application_tracing_never_starts_witness:
  "\<not> ooffice_trace_in_progress (prefetch_exec_hook ''/usr/lib/openoffice/program/soffice.bin'' sample_app)"
  using application_tracing_never_starts
    [OF r_into_rtranclp [of app_step], OF Exec [of sample_app "''/usr/lib/openoffice/program/soffice.bin''"]]
  by (simp add: sample_app_def)

end
