(* ===== verification/C_Qsort.thy ===== *)
theory C_Qsort
  imports Trace_Merge
begin

text \<open>
  The contract of \<open>qsort\<close> of the C library, for the tools of \<open>src/ext3remapper\<close>: the locale
  \<open>c_qsort\<close>, and insertion sort as an instance for every comparison.
\<close>

section \<open>The contract of qsort\<close>

text \<open>
  \<open>qsort\<close> permutes the array, and sorts it when the comparison is consistent on its elements.
\<close>

definition consistent_on :: "('a \<Rightarrow> 'a \<Rightarrow> bool) \<Rightarrow> 'a set \<Rightarrow> bool" where
  "consistent_on lt A \<longleftrightarrow>
     (\<forall>x\<in>A. \<not> lt x x) \<and> (\<forall>x\<in>A. \<forall>y\<in>A. \<forall>z\<in>A. (lt x y \<longrightarrow> lt y z \<longrightarrow> lt x z) \<and> (lt x z \<longrightarrow> lt x y \<or> lt y z))"

locale c_qsort =
  fixes lt :: "'a \<Rightarrow> 'a \<Rightarrow> bool"
    and srt :: "'a list \<Rightarrow> 'a list"
  assumes qsort_mset: "mset (srt xs) = mset xs"
    and qsort_sorted: "consistent_on lt (set xs) \<Longrightarrow> sorted_wrt (\<lambda>x y. \<not> lt y x) (srt xs)"
begin

lemma set_qsort: "set (srt xs) = set xs"
  using qsort_mset [of xs] by (metis set_mset_mset)

lemma length_qsort: "length (srt xs) = length xs"
  using qsort_mset [of xs] by (metis size_mset)

end

lemma consistent_on_key:
  assumes "\<And>x y. x \<in> A \<Longrightarrow> y \<in> A \<Longrightarrow> lt x y \<longleftrightarrow> key x < (key y :: nat)"
  shows "consistent_on lt A"
  unfolding consistent_on_def using assms by fastforce

lemma consistent_on_subset: "consistent_on lt B \<Longrightarrow> A \<subseteq> B \<Longrightarrow> consistent_on lt A"
  unfolding consistent_on_def by blast

lemma sorted_cmp_insert:
  assumes "consistent_on lt (insert x (set ys))" and "sorted_wrt (\<lambda>x y. \<not> lt y x) ys"
  shows "sorted_wrt (\<lambda>x y. \<not> lt y x) (cmp_insert lt x ys)"
  using assms
proof (induction ys)
  case (Cons y ys)
  have "consistent_on lt (insert x (set ys))"
    by (rule consistent_on_subset [OF Cons.prems(1)]) auto
  then have ih: "sorted_wrt (\<lambda>x y. \<not> lt y x) (cmp_insert lt x ys)" using Cons by simp
  show ?case
  proof (cases "lt y x")
    case True
    then have "\<not> lt x y" using Cons.prems(1) unfolding consistent_on_def by (metis insertCI list.set_intros(1))
    then show ?thesis using ih True Cons.prems(2) by (auto simp: set_cmp_insert)
  next
    case False
    have "\<not> lt z x" if "z \<in> set ys" for z
    proof
      assume "lt z x"
      moreover have "z \<in> insert x (set (y # ys))" "y \<in> insert x (set (y # ys))" "x \<in> insert x (set (y # ys))"
        using that by auto
      ultimately have "lt z y \<or> lt y x" using Cons.prems(1) unfolding consistent_on_def by blast
      then show False using False Cons.prems(2) that by auto
    qed
    then show ?thesis using False Cons.prems(2) by auto
  qed
qed simp

lemma sorted_cmp_sort:
  "consistent_on lt (set xs) \<Longrightarrow> sorted_wrt (\<lambda>x y. \<not> lt y x) (cmp_sort lt xs)"
proof (induction xs)
  case (Cons x xs)
  have "set (cmp_sort lt xs) = set xs" by (metis mset_cmp_sort set_mset_mset)
  moreover have "consistent_on lt (set xs)" by (rule consistent_on_subset [OF Cons.prems]) auto
  ultimately show ?case using Cons by (simp add: sorted_cmp_insert)
qed simp

end
