(* ===== verification/Run_Result.thy ===== *)
theory Run_Result
  imports Prelude
begin

text \<open>
  The outcome of a piece of C code that may call \<open>exit\<close> or do something undefined, for the tools of
  \<open>src/ext3remapper\<close>.
\<close>

text \<open>A value, an exit with a code, or undefined behaviour.\<close>

datatype 'a run_result = Value 'a | Exit int | Undefined

fun and_then :: "'a run_result \<Rightarrow> ('a \<Rightarrow> 'b run_result) \<Rightarrow> 'b run_result" where
  "and_then (Value x) f = f x"
| "and_then (Exit c) f = Exit c"
| "and_then Undefined f = Undefined"

lemma and_then_Value: "and_then r f = Value y \<longleftrightarrow> (\<exists>x. r = Value x \<and> f x = Value y)"
  by (cases r) auto

lemma and_then_weak: "r = r' \<Longrightarrow> and_then r f = and_then r' f"
  by simp

end
