(* ===== verification/E2block2file_Load.thy ===== *)
theory E2block2file_Load
  imports C_Qsort Run_Result C_Text
begin

text \<open>
  The first half of the tool \<open>e2block2file\<close> (\<open>e2block2file.c\<close>): reading the extents of device
  blocks, sorting and merging them (\<open>load_blocks\<close>), and the search for the extent of a block
  (\<open>find_block\<close>). The input is a list of bytes, \<open>qsort\<close> is a parameter with the
  contract \<open>c_qsort\<close>. A read outside an array gives an arbitrary value.
\<close>

section \<open>Data\<close>

record input_extent_map =
  ie_block :: u32
  ie_len :: u32

section \<open>The input\<close>

text \<open>
  \<open>fscanf\<close> with the format \<open>%Ld+%u\<close>: both numbers and the rest of the input (\<open>Inl\<close>), or whether the
  end of the input was met when it stopped (\<open>Inr\<close>).
\<close>

definition scan_pair :: "byte list \<Rightarrow> (int \<times> u32) \<times> byte list + bool" where
  "scan_pair s =
     (case scan_Ld s of
        None \<Rightarrow> Inr (number_at_end s)
      | Some (blocknum, r) \<Rightarrow>
          if r = [] then Inr True
          else (case scan_literal [43] r of
              None \<Rightarrow> Inr False
            | Some r \<Rightarrow>
                (case scan_u r of
                   None \<Rightarrow> Inr (number_at_end r)
                 | Some (len, r) \<Rightarrow> Inl ((blocknum, len), r))))"

lemma scan_pair_less: "scan_pair s = Inl (p, r) \<Longrightarrow> List.length r < List.length s"
  by (fastforce simp: scan_pair_def scan_Ld_def scan_u_def scan_literal_def dest: scan_int_less
      split: option.splits if_splits)

text \<open>The extents that the calls of \<open>fscanf\<close> return one after the other, and \<open>feof\<close> afterwards.\<close>

function input_extents :: "byte list \<Rightarrow> (int \<times> u32) list \<times> bool" where
  "input_extents s =
     (case scan_pair s of
        Inr e \<Rightarrow> ([], e)
      | Inl (p, r) \<Rightarrow> (p # fst (input_extents r), snd (input_extents r)))"
  by pat_completeness auto
termination by (relation "measure List.length") (auto dest: scan_pair_less)

declare input_extents.simps [simp del]

section \<open>Loading the extents\<close>

text \<open>\<open>1 << 31\<close> is negative as an \<open>int\<close>, and 2^31 when it is compared with an unsigned number.\<close>

fun log2i_loop :: "nat \<Rightarrow> u32 \<Rightarrow> nat \<Rightarrow> int" where
  "log2i_loop 0 num i = 31"
| "log2i_loop (Suc n) num i = (if push_bit i 1 > num then int i - 1 else log2i_loop n num (i + 1))"

definition log2i :: "u32 \<Rightarrow> int" where
  "log2i num = log2i_loop 32 num 0"

definition IEXTENTS_ALLOC_ENTRIES :: nat where "IEXTENTS_ALLOC_ENTRIES = 8192"
definition BMAP_ALLOC_ENTRIES :: nat where "BMAP_ALLOC_ENTRIES = 8192"

definition input_extent_cmp :: "input_extent_map \<Rightarrow> input_extent_map \<Rightarrow> int" where
  "input_extent_cmp a b = sint (ie_block a - ie_block b)"

definition extent_less :: "input_extent_map \<Rightarrow> input_extent_map \<Rightarrow> bool" where
  "extent_less a b \<longleftrightarrow> input_extent_cmp a b < 0"

text \<open>
  The reading loop. \<open>memory\<close> is the number of allocations that still succeed; when \<open>realloc\<close> fails the
  program exits. Undefined when an entry is written behind the end of the array, and when a kept number
  is shifted by a negative one (a device block larger than a block of the file system). The block
  numbers of the input are \<open>long long\<close>, cut to 32 bits when they are stored.
\<close>

fun load_loop ::
  "int \<Rightarrow> int \<Rightarrow> (int \<times> u32) list \<Rightarrow> nat \<Rightarrow> nat \<Rightarrow> input_extent_map list \<Rightarrow> (input_extent_map list \<times> nat) run_result" where
  "load_loop partition_start shift [] allocated memory ies = Value (ies, memory)"
| "load_loop partition_start shift ((blocknum, len) # input) allocated memory ies =
     (if length ies > allocated \<and> memory = 0 then Exit 1
      else
       (let (allocated, memory) =
          (if length ies > allocated then (allocated + BMAP_ALLOC_ENTRIES, memory - 1) else (allocated, memory)) in
        if blocknum < partition_start then load_loop partition_start shift input allocated memory ies
        else if length ies \<ge> allocated \<or> shift < 0 then Undefined
        else load_loop partition_start shift input allocated memory
               (ies @ [\<lparr>ie_block = word_of_int (drop_bit (nat shift) (blocknum - partition_start)),
                        ie_len = drop_bit (nat shift) len\<rparr>])))"

text \<open>Merging in place: the inner loop swallows extents, the outer one moves on.\<close>

definition extent_end :: "input_extent_map \<Rightarrow> u32" where
  "extent_end e = ie_block e + ie_len e"

definition swallow :: "input_extent_map \<Rightarrow> input_extent_map \<Rightarrow> input_extent_map" where
  "swallow e f = (if extent_end e < extent_end f then e\<lparr>ie_len := extent_end f - ie_block e\<rparr> else e)"

function merge_inner ::
  "nat \<Rightarrow> nat \<Rightarrow> input_extent_map list \<Rightarrow> nat \<Rightarrow> nat \<times> input_extent_map list" where
  "merge_inner n i ies shift =
     (if i + shift + 1 < n \<and> extent_end (ies ! i) \<ge> ie_block (ies ! (i + shift + 1))
      then merge_inner n i (ies[i := swallow (ies ! i) (ies ! (i + shift + 1))]) (shift + 1)
      else (shift, ies))"
  by pat_completeness auto
termination
  by (relation "measure (\<lambda>(n, i, ies, shift). n - (i + shift))") auto

declare merge_inner.simps [simp del]

lemma merge_inner_shift: "merge_inner n i ies shift = (shift', ies') \<Longrightarrow> shift \<le> shift'"
proof (induction n i ies shift rule: merge_inner.induct)
  case (1 n i ies shift)
  show ?case
  proof (cases "i + shift + 1 < n \<and> extent_end (ies ! i) \<ge> ie_block (ies ! (i + shift + 1))")
    case True
    then show ?thesis using 1 by (subst (asm) (2) merge_inner.simps) simp
  next
    case False
    then show ?thesis using 1(2) by (subst (asm) merge_inner.simps) auto
  qed
qed

function merge_outer :: "nat \<Rightarrow> nat \<Rightarrow> input_extent_map list \<Rightarrow> nat \<Rightarrow> input_extent_map list" where
  "merge_outer n i ies shift =
     (if i < n - shift
      then (case merge_inner n i (ies[i := ies ! (i + shift)]) shift of
              (shift, ies) \<Rightarrow> merge_outer n (i + 1) ies shift)
      else take (n - shift) ies)"
  by pat_completeness auto
termination
  by (relation "measure (\<lambda>(n, i, ies, shift). n - (i + shift))")
    (auto dest!: merge_inner_shift [OF sym])

declare merge_outer.simps [simp del]

text \<open>
  \<open>load_blocks\<close>: \<open>input\<close> is the contents of the input file; when a call of \<open>fscanf\<close> stops before its end,
  the program exits. The result carries the allocations that are left.
\<close>

definition load_blocks ::
  "(input_extent_map list \<Rightarrow> input_extent_map list) \<Rightarrow> u32 \<Rightarrow> u32 \<Rightarrow> int \<Rightarrow> byte list
     \<Rightarrow> nat \<Rightarrow> (input_extent_map list \<times> nat) run_result" where
  "load_blocks srt blocksize blktrace_block_size partition_start input memory =
     (let shift = log2i (blocksize div blktrace_block_size) in
      if memory = 0 then Exit 1
      else and_then (load_loop partition_start shift (fst (input_extents input)) BMAP_ALLOC_ENTRIES (memory - 1) []) (\<lambda>(ies, memory).
        if \<not> snd (input_extents input) then Exit 1
        else Value (merge_outer (length ies) 0 (srt ies) 0, memory)))"

section \<open>Finding a block\<close>

text \<open>An element of an array, \<open>junk\<close> outside.\<close>

definition array_at :: "(int \<Rightarrow> 'a) \<Rightarrow> 'a list \<Rightarrow> int \<Rightarrow> 'a" where
  "array_at junk xs i = (if 0 \<le> i \<and> i < int (length xs) then xs ! nat i else junk i)"

lemma array_at_inside: "0 \<le> i \<Longrightarrow> i < int (length xs) \<Longrightarrow> array_at junk xs i = xs ! nat i"
  by (simp add: array_at_def)

function find_block_loop ::
  "(int \<Rightarrow> input_extent_map) \<Rightarrow> input_extent_map list \<Rightarrow> u32 \<Rightarrow> int \<Rightarrow> int \<Rightarrow> nat option" where
  "find_block_loop junk ies blocknr start stop =
     (if \<not> start \<le> stop then None
      else
        (let mid = (start + stop) div 2; e = array_at junk ies mid in
         if ie_block e \<le> blocknr \<and> extent_end e > blocknr then Some (nat mid)
         else
           (let (start, stop) = (if ie_block e < blocknr then (mid + 1, stop) else (start, mid - 1)) in
            if blocknr < ie_block (array_at junk ies start) \<or> blocknr \<ge> extent_end (array_at junk ies stop) then None
            else find_block_loop junk ies blocknr start stop)))"
  by pat_completeness auto
termination
  by (relation "measure (\<lambda>(junk, ies, b, s, e). nat (e - s + 1))") (auto split: if_splits)

declare find_block_loop.simps [simp del]

definition find_block ::
  "(int \<Rightarrow> input_extent_map) \<Rightarrow> input_extent_map list \<Rightarrow> u32 \<Rightarrow> nat option" where
  "find_block junk ies blocknr = find_block_loop junk ies blocknr 0 (int (length ies) - 1)"

section \<open>Merging\<close>

fun merge_extents :: "input_extent_map list \<Rightarrow> input_extent_map list" where
  "merge_extents [] = []"
| "merge_extents [e] = [e]"
| "merge_extents (e # f # es) =
     (if extent_end e \<ge> ie_block f then merge_extents (swallow e f # es) else e # merge_extents (f # es))"

lemma merge_inner_spec:
  assumes "length ies = n" and "i + shift < n"
  shows "\<exists>k e'. merge_inner n i ies shift = (shift + k, ies[i := e']) \<and> i + shift + k < n
    \<and> merge_extents (ies ! i # drop (i + shift + 1) ies) = e' # merge_extents (drop (i + shift + 1 + k) ies)"
  using assms
proof (induction "n - (i + shift)" arbitrary: ies shift rule: less_induct)
  case less
  show ?case
  proof (cases "i + shift + 1 < n \<and> extent_end (ies ! i) \<ge> ie_block (ies ! (i + shift + 1))")
    case True
    let ?ies = "ies[i := swallow (ies ! i) (ies ! (i + shift + 1))]"
    have d: "drop (i + shift + 1) ies = ies ! (i + shift + 1) # drop (i + (shift + 1) + 1) ies"
      using Cons_nth_drop_Suc [of "i + shift + 1" ies] True less.prems(1) by simp
    have "\<exists>k e'. merge_inner n i ?ies (shift + 1) = (shift + 1 + k, ?ies[i := e']) \<and> i + (shift + 1) + k < n
      \<and> merge_extents (?ies ! i # drop (i + (shift + 1) + 1) ?ies) = e' # merge_extents (drop (i + (shift + 1) + 1 + k) ?ies)"
      using True less.prems by (intro less.hyps) auto
    then obtain k e' where k: "merge_inner n i ?ies (shift + 1) = (shift + 1 + k, ies[i := e'])"
      "i + (shift + 1) + k < n"
      "merge_extents (swallow (ies ! i) (ies ! (i + shift + 1)) # drop (i + (shift + 1) + 1) ies)
        = e' # merge_extents (drop (i + (shift + 1) + 1 + k) ies)"
      using less.prems by auto
    have "merge_inner n i ies shift = (shift + Suc k, ies[i := e'])"
      using True k(1) by (subst merge_inner.simps) simp
    moreover have "merge_extents (ies ! i # drop (i + shift + 1) ies)
        = e' # merge_extents (drop (i + shift + 1 + Suc k) ies)"
      unfolding d using True k(3) by simp
    ultimately show ?thesis using k(2) by (intro exI [of _ "Suc k"] exI [of _ e']) simp
  next
    case False
    then have "merge_inner n i ies shift = (shift, ies)" by (subst merge_inner.simps) auto
    moreover have "merge_extents (ies ! i # drop (i + shift + 1) ies)
        = ies ! i # merge_extents (drop (i + shift + 1) ies)"
    proof (cases "i + shift + 1 < n")
      case True
      then have "drop (i + shift + 1) ies = ies ! (i + shift + 1) # drop (i + shift + 2) ies"
        using Cons_nth_drop_Suc [of "i + shift + 1" ies] less.prems(1) by simp
      then show ?thesis using False True by simp
    next
      case F: False
      then show ?thesis using less.prems(1) by simp
    qed
    ultimately show ?thesis using less.prems by (intro exI [of _ 0] exI [of _ "ies ! i"]) simp
  qed
qed

lemma merge_outer_spec:
  assumes "length ies = n" and "i + shift \<le> n"
  shows "merge_outer n i ies shift = take i ies @ merge_extents (drop (i + shift) ies)"
  using assms
proof (induction "n - (i + shift)" arbitrary: ies i shift rule: less_induct)
  case less
  show ?case
  proof (cases "i < n - shift")
    case False
    then have "n - shift = i" using less.prems by simp
    with False less.prems show ?thesis by (subst merge_outer.simps) simp
  next
    case True
    let ?ies = "ies[i := ies ! (i + shift)]"
    obtain k e' where k: "merge_inner n i ?ies shift = (shift + k, ?ies[i := e'])" "i + shift + k < n"
      "merge_extents (?ies ! i # drop (i + shift + 1) ?ies) = e' # merge_extents (drop (i + shift + 1 + k) ?ies)"
    proof -
      have "i + shift < n" "length ?ies = n" using True less.prems by simp_all
      from merge_inner_spec [OF this(2,1)] that show ?thesis by blast
    qed
    have d: "drop (i + shift) ies = ies ! (i + shift) # drop (i + shift + 1) ies"
      using Cons_nth_drop_Suc [of "i + shift" ies] True less.prems(1) by simp
    have "merge_outer n i ies shift = merge_outer n (i + 1) (ies[i := e']) (shift + k)"
      using True k(1) by (subst merge_outer.simps) simp
    also have "\<dots> = take (i + 1) (ies[i := e']) @ merge_extents (drop (i + 1 + (shift + k)) (ies[i := e']))"
      using less.prems k(2) by (intro less.hyps) auto
    also have "\<dots> = take i ies @ e' # merge_extents (drop (i + shift + 1 + k) ies)"
      using True less.prems by (simp add: take_Suc_conv_app_nth add.commute add.left_commute)
    also have "e' # merge_extents (drop (i + shift + 1 + k) ies) = merge_extents (drop (i + shift) ies)"
      unfolding d using k(3) True less.prems by simp
    finally show ?thesis .
  qed
qed

definition extent_blocks :: "input_extent_map list \<Rightarrow> nat set" where
  "extent_blocks ies = (\<Union>e\<in>set ies. span (ie_block e) (ie_len e))"

definition extents_fit :: "input_extent_map list \<Rightarrow> bool" where
  "extents_fit ies \<longleftrightarrow> (\<forall>e\<in>set ies. no_wrap (ie_block e) (ie_len e))"

definition separated_extents :: "input_extent_map list \<Rightarrow> bool" where
  "separated_extents ies \<longleftrightarrow> sorted_wrt (\<lambda>e f. unat (ie_block e) + unat (ie_len e) < unat (ie_block f)) ies"

lemma extent_blocks_simps [simp]:
  "extent_blocks [] = {}" "extent_blocks (e # es) = span (ie_block e) (ie_len e) \<union> extent_blocks es"
  by (auto simp: extent_blocks_def)

lemma unat_extent_end: "no_wrap (ie_block e) (ie_len e) \<Longrightarrow> unat (extent_end e) = unat (ie_block e) + unat (ie_len e)"
  by (simp add: extent_end_def no_wrap_unat)

lemma swallow_spec:
  assumes e: "no_wrap (ie_block e) (ie_len e)" and f: "no_wrap (ie_block f) (ie_len f)"
    and le: "ie_block e \<le> ie_block f" "ie_block f \<le> extent_end e"
  shows "ie_block (swallow e f) = ie_block e" and "no_wrap (ie_block (swallow e f)) (ie_len (swallow e f))"
    and "span (ie_block (swallow e f)) (ie_len (swallow e f)) = span (ie_block e) (ie_len e) \<union> span (ie_block f) (ie_len f)"
proof -
  note u = unat_extent_end [OF e] unat_extent_end [OF f]
  have n: "unat (ie_block e) \<le> unat (ie_block f)" "unat (ie_block f) \<le> unat (ie_block e) + unat (ie_len e)"
    using le u by (simp_all add: word_le_nat_alt)
  show b: "ie_block (swallow e f) = ie_block e" by (simp add: swallow_def)
  have len: "unat (ie_block (swallow e f)) + unat (ie_len (swallow e f))
      = max (unat (ie_block e) + unat (ie_len e)) (unat (ie_block f) + unat (ie_len f))"
  proof (cases "extent_end e < extent_end f")
    case True
    then have lt: "unat (ie_block e) + unat (ie_len e) < unat (ie_block f) + unat (ie_len f)"
      using u by (simp add: word_less_nat_alt)
    have "ie_block e \<le> extent_end f" using n u lt by (simp add: word_le_nat_alt)
    then have "unat (extent_end f - ie_block e) = unat (ie_block f) + unat (ie_len f) - unat (ie_block e)"
      using u by (simp add: unat_sub_le)
    then show ?thesis using True lt n by (simp add: swallow_def)
  next
    case False
    then show ?thesis using u by (simp add: swallow_def word_less_nat_alt)
  qed
  show "no_wrap (ie_block (swallow e f)) (ie_len (swallow e f))"
    using len e f by (simp add: no_wrap_def)
  show "span (ie_block (swallow e f)) (ie_len (swallow e f)) = span (ie_block e) (ie_len e) \<union> span (ie_block f) (ie_len f)"
    using n len unfolding span_def b by auto
qed

lemma extents_fit_simps [simp]:
  "extents_fit []" "extents_fit (e # es) \<longleftrightarrow> no_wrap (ie_block e) (ie_len e) \<and> extents_fit es"
  by (auto simp: extents_fit_def)

lemma separated_Cons2:
  assumes "unat (ie_block e) + unat (ie_len e) < unat (ie_block f)" and "separated_extents (f # es)"
  shows "separated_extents (e # f # es)"
  using assms by (auto simp: separated_extents_def)

abbreviation block_le :: "input_extent_map \<Rightarrow> input_extent_map \<Rightarrow> bool" where
  "block_le e f \<equiv> ie_block e \<le> ie_block f"

lemma merge_extents_spec:
  "sorted_wrt block_le ies \<Longrightarrow> extents_fit ies \<Longrightarrow>
   extent_blocks (merge_extents ies) = extent_blocks ies \<and> extents_fit (merge_extents ies)
   \<and> separated_extents (merge_extents ies)
   \<and> (\<forall>e es. ies = e # es \<longrightarrow> (\<exists>g gs. merge_extents ies = g # gs \<and> ie_block g = ie_block e))"
proof (induction ies rule: merge_extents.induct)
  case 1
  show ?case by (simp add: separated_extents_def)
next
  case (2 e)
  then show ?case by (simp add: separated_extents_def)
next
  case (3 e f es)
  have fit: "no_wrap (ie_block e) (ie_len e)" "no_wrap (ie_block f) (ie_len f)" "extents_fit es"
    using 3(4) by simp_all
  have le: "ie_block e \<le> ie_block f" "\<forall>g\<in>set es. ie_block e \<le> ie_block g" "sorted_wrt block_le es"
    "sorted_wrt block_le (f # es)"
    using 3(3) by simp_all
  show ?case
  proof (cases "extent_end e \<ge> ie_block f")
    case True
    note sw = swallow_spec [OF fit(1,2) le(1) True]
    have "sorted_wrt block_le (swallow e f # es)" using sw(1) le(2,3) by simp
    moreover have "extents_fit (swallow e f # es)" using fit(3) sw(2) by simp
    ultimately have ih: "extent_blocks (merge_extents (swallow e f # es)) = extent_blocks (swallow e f # es)"
      "extents_fit (merge_extents (swallow e f # es))" "separated_extents (merge_extents (swallow e f # es))"
      "\<exists>g gs. merge_extents (swallow e f # es) = g # gs \<and> ie_block g = ie_block e"
      using 3(1) [OF True] sw(1) by simp_all
    show ?thesis using ih True sw(3) by (simp add: Un_assoc)
  next
    case False
    then have lt: "unat (ie_block e) + unat (ie_len e) < unat (ie_block f)"
      using unat_extent_end [OF fit(1)] by (simp add: word_le_nat_alt not_le)
    have ih: "extent_blocks (merge_extents (f # es)) = extent_blocks (f # es)"
      "extents_fit (merge_extents (f # es))" "separated_extents (merge_extents (f # es))"
      "\<exists>g gs. merge_extents (f # es) = g # gs \<and> ie_block g = ie_block f"
      using 3(2) [OF False] le(4) fit by simp_all
    then obtain g gs where g: "merge_extents (f # es) = g # gs" "ie_block g = ie_block f" by blast
    have "separated_extents (e # g # gs)" using ih(3) lt unfolding g(1) by (intro separated_Cons2) (simp_all add: g)
    then show ?thesis using False ih(1,2) fit(1) g by simp
  qed
qed

section \<open>The search\<close>

text \<open>No extent outside the indices \<open>s .. t\<close> holds the block.\<close>

definition extent_holds :: "input_extent_map list \<Rightarrow> u32 \<Rightarrow> nat \<Rightarrow> bool" where
  "extent_holds ies b k \<longleftrightarrow> k < length ies \<and> unat b \<in> span (ie_block (ies ! k)) (ie_len (ies ! k))"

definition narrowed :: "input_extent_map list \<Rightarrow> u32 \<Rightarrow> int \<Rightarrow> int \<Rightarrow> bool" where
  "narrowed ies b s t \<longleftrightarrow> 0 \<le> s \<and> t < int (length ies) \<and> (\<forall>k. extent_holds ies b k \<longrightarrow> s \<le> int k \<and> int k \<le> t)"

lemma extent_blocks_holds: "unat b \<in> extent_blocks ies \<longleftrightarrow> (\<exists>k. extent_holds ies b k)"
  by (fastforce simp: extent_blocks_def extent_holds_def in_set_conv_nth)

lemma separated_nth:
  assumes "separated_extents ies" and "j < k" and "k < length ies"
  shows "unat (ie_block (ies ! j)) + unat (ie_len (ies ! j)) < unat (ie_block (ies ! k))"
  using assms sorted_wrt_iff_nth_less unfolding separated_extents_def by fast

lemma holds_after:
  assumes "separated_extents ies" and "k < length ies" and "extent_holds ies b j" and "ie_block (ies ! k) < b"
    and "\<not> extent_holds ies b k"
  shows "k < j"
proof (rule ccontr)
  assume "\<not> k < j"
  then consider "j = k" | "j < k" by linarith
  then show False
  proof cases
    case 2
    then show False using separated_nth [OF assms(1) 2 assms(2)] assms(3,4)
      by (simp add: extent_holds_def span_def word_less_nat_alt)
  qed (use assms in simp)
qed

lemma holds_before:
  assumes "separated_extents ies" and "k < length ies" and "extent_holds ies b j" and "\<not> ie_block (ies ! k) < b"
    and "\<not> extent_holds ies b k"
  shows "j < k"
proof (rule ccontr)
  assume "\<not> j < k"
  then consider "j = k" | "k < j" by linarith
  then show False
  proof cases
    case 2
    then show False using separated_nth [OF assms(1) 2] assms(3,4)
      by (simp add: extent_holds_def span_def word_less_nat_alt)
  qed (use assms in simp)
qed

lemma holds_test:
  assumes "extents_fit ies" and "k < length ies"
  shows "(ie_block (ies ! k) \<le> b \<and> extent_end (ies ! k) > b) \<longleftrightarrow> extent_holds ies b k"
proof -
  have "no_wrap (ie_block (ies ! k)) (ie_len (ies ! k))" using assms by (auto simp: extents_fit_def)
  from unat_extent_end [OF this] show ?thesis
    using assms(2) by (auto simp: extent_holds_def span_def word_le_nat_alt word_less_nat_alt)
qed

lemma narrowed_step:
  assumes sep: "separated_extents ies" and nar: "narrowed ies b s t" and st: "s \<le> t"
    and miss: "\<not> extent_holds ies b (nat ((s + t) div 2))"
  shows "narrowed ies b (if ie_block (ies ! nat ((s + t) div 2)) < b then (s + t) div 2 + 1 else s)
                        (if ie_block (ies ! nat ((s + t) div 2)) < b then t else (s + t) div 2 - 1)"
proof -
  let ?m = "nat ((s + t) div 2)"
  have m: "s \<le> (s + t) div 2" "(s + t) div 2 \<le> t" "0 \<le> s" "t < int (length ies)"
    using nar st by (auto simp: narrowed_def)
  then have len: "?m < length ies" by linarith
  show ?thesis
  proof (cases "ie_block (ies ! ?m) < b")
    case True
    have "(s + t) div 2 + 1 \<le> int k \<and> int k \<le> t" if "extent_holds ies b k" for k
    proof
      show "int k \<le> t" using that nar by (simp add: narrowed_def)
      show "(s + t) div 2 + 1 \<le> int k"
        using holds_after [OF sep len that True miss] by linarith
    qed
    then show ?thesis using True m by (simp add: narrowed_def)
  next
    case False
    have "s \<le> int k \<and> int k \<le> (s + t) div 2 - 1" if "extent_holds ies b k" for k
    proof
      show "s \<le> int k" using that nar by (simp add: narrowed_def)
      show "int k \<le> (s + t) div 2 - 1"
        using holds_before [OF sep len that False miss] m by linarith
    qed
    then show ?thesis using False m by (simp add: narrowed_def)
  qed
qed

lemma early_exit:
  assumes sep: "separated_extents ies" and fit: "extents_fit ies" and nar: "narrowed ies b s t" and st: "s \<le> t"
    and out: "b < ie_block (ies ! nat s) \<or> b \<ge> extent_end (ies ! nat t)"
  shows "\<not> extent_holds ies b k"
proof
  assume h: "extent_holds ies b k"
  have k: "s \<le> int k" "int k \<le> t" "0 \<le> s" "t < int (length ies)" "k < length ies"
    "nat t < length ies"
    using nar h by (auto simp: narrowed_def extent_holds_def)
  have fk: "no_wrap (ie_block (ies ! nat t)) (ie_len (ies ! nat t))"
    using fit k by (auto simp: extents_fit_def)
  from out show False
  proof
    assume b: "b < ie_block (ies ! nat s)"
    have "nat s = k \<or> nat s < k" using k by linarith
    then show False using b h separated_nth [OF sep, of "nat s" k] k
      by (auto simp: extent_holds_def span_def word_less_nat_alt)
  next
    assume b: "b \<ge> extent_end (ies ! nat t)"
    have "nat t = k \<or> k < nat t" using k by linarith
    then show False using b h separated_nth [OF sep, of k "nat t"] k unat_extent_end [OF fk]
      by (auto simp: extent_holds_def span_def word_le_nat_alt)
  qed
qed

lemma narrowed_empty: "narrowed ies b s t \<Longrightarrow> \<not> s \<le> t \<Longrightarrow> \<not> extent_holds ies b k"
  by (force simp: narrowed_def)

lemma find_block_loop_hit:
  assumes "s \<le> t" and "array_at junk ies ((s + t) div 2) = e" and "ie_block e \<le> b \<and> extent_end e > b"
  shows "find_block_loop junk ies b s t = Some (nat ((s + t) div 2))"
  by (subst find_block_loop.simps) (simp only: assms Let_def if_True not_True_eq_False if_False simp_thms)

lemma find_block_loop_miss:
  assumes "s \<le> t" and "array_at junk ies ((s + t) div 2) = e" and "\<not> (ie_block e \<le> b \<and> extent_end e > b)"
    and "s' = (if ie_block e < b then (s + t) div 2 + 1 else s)"
    and "t' = (if ie_block e < b then t else (s + t) div 2 - 1)"
  shows "find_block_loop junk ies b s t =
    (if b < ie_block (array_at junk ies s') \<or> b \<ge> extent_end (array_at junk ies t') then None
     else find_block_loop junk ies b s' t')"
proof -
  have "(if ie_block e < b then ((s + t) div 2 + 1, t) else (s, (s + t) div 2 - 1)) = (s', t')"
    using assms(4,5) by simp
  then show ?thesis
    by (subst find_block_loop.simps)
      (simp only: assms(1-3) Let_def if_True not_True_eq_False if_False simp_thms prod.case)
qed

lemma find_block_loop_spec:
  assumes sep: "separated_extents ies" and fit: "extents_fit ies"
  shows "narrowed ies b s t \<Longrightarrow>
    (case find_block_loop junk ies b s t of Some k \<Rightarrow> extent_holds ies b k | None \<Rightarrow> \<forall>k. \<not> extent_holds ies b k)"
proof (induction "nat (t - s + 1)" arbitrary: s t rule: less_induct)
  case less
  show ?case
  proof (cases "s \<le> t")
    case False
    then show ?thesis using narrowed_empty [OF less.prems] by (subst find_block_loop.simps) simp
  next
    case True
    let ?mid = "(s + t) div 2"
    have m: "s \<le> ?mid" "?mid \<le> t" "0 \<le> s" "t < int (length ies)"
      using less.prems True by (auto simp: narrowed_def)
    then have at: "array_at junk ies ?mid = ies ! nat ?mid" "nat ?mid < length ies"
      by (auto simp: array_at_def)
    let ?s = "if ie_block (ies ! nat ?mid) < b then ?mid + 1 else s"
    let ?t = "if ie_block (ies ! nat ?mid) < b then t else ?mid - 1"
    show ?thesis
    proof (cases "extent_holds ies b (nat ?mid)")
      case hit: True
      then have "find_block_loop junk ies b s t = Some (nat ?mid)"
        using find_block_loop_hit [OF True at(1)] holds_test [OF fit at(2), of b] by blast
      with hit show ?thesis by simp
    next
      case miss: False
      note nar = narrowed_step [OF sep less.prems True miss]
      have fin: "nat (?t - ?s + 1) < nat (t - s + 1)" using m(1,2) True by (simp split: if_splits)
      note ih = less.hyps [OF fin nar]
      let ?out = "b < ie_block (array_at junk ies ?s) \<or> b \<ge> extent_end (array_at junk ies ?t)"
      have step: "find_block_loop junk ies b s t = (if ?out then None else find_block_loop junk ies b ?s ?t)"
        by (rule find_block_loop_miss [OF True at(1) _ refl refl]) (use miss holds_test [OF fit at(2), of b] in blast)
      show ?thesis
      proof (cases ?out)
        case out: True
        have "\<not> extent_holds ies b k" for k
        proof (cases "?s \<le> ?t")
          case st: True
          have r: "0 \<le> ?s" "?t < int (length ies)" using nar by (auto simp: narrowed_def)
          then have "array_at junk ies ?s = ies ! nat ?s" "array_at junk ies ?t = ies ! nat ?t"
            using array_at_inside [OF r(1) le_less_trans [OF st r(2)]] array_at_inside [OF order_trans [OF r(1) st] r(2)]
            by simp_all
          then show ?thesis using early_exit [OF sep fit nar st] out by simp
        qed (rule narrowed_empty [OF nar])
        then show ?thesis using step out by simp
      qed (use step ih in simp)
    qed
  qed
qed

lemma find_block_spec:
  assumes "separated_extents ies" and "extents_fit ies"
  shows "case find_block junk ies b of Some k \<Rightarrow> extent_holds ies b k | None \<Rightarrow> unat b \<notin> extent_blocks ies"
proof -
  have "narrowed ies b 0 (int (length ies) - 1)" by (auto simp: narrowed_def extent_holds_def)
  from find_block_loop_spec [OF assms this, of junk] show ?thesis
    by (auto simp: find_block_def extent_blocks_holds split: option.splits)
qed

section \<open>The contract of qsort\<close>

text \<open>The differences of \<open>input_extent_cmp\<close> are not consistent when block numbers are 2^31 or more apart.\<close>

interpretation extent_qsort: c_qsort extent_less "cmp_sort extent_less"
  by unfold_locales (rule mset_cmp_sort, rule sorted_cmp_sort)

section \<open>Correctness of loading\<close>

definition kept_extents :: "int \<Rightarrow> nat \<Rightarrow> (int \<times> u32) list \<Rightarrow> input_extent_map list" where
  "kept_extents partition_start shift input =
     map (\<lambda>(n, len). \<lparr>ie_block = word_of_int (drop_bit shift (n - partition_start)), ie_len = drop_bit shift len\<rparr>)
       (filter (\<lambda>(n, len). partition_start \<le> n) input)"

text \<open>The blocks of the file system that the input names, and inputs whose numbers stay small.\<close>

definition input_blocks :: "int \<Rightarrow> nat \<Rightarrow> (int \<times> u32) list \<Rightarrow> nat set" where
  "input_blocks partition_start shift input =
     (\<Union>(n, len)\<in>set input. if partition_start \<le> n
        then {nat ((n - partition_start) div 2 ^ shift) ..< nat ((n - partition_start) div 2 ^ shift) + unat len div 2 ^ shift}
        else {})"

definition input_fits :: "int \<Rightarrow> nat \<Rightarrow> (int \<times> u32) list \<Rightarrow> bool" where
  "input_fits partition_start shift input \<longleftrightarrow>
     (\<forall>(n, len)\<in>set input. (n - partition_start) div 2 ^ shift < 2 ^ 31 \<and>
        (n - partition_start) div 2 ^ shift + int (unat len div 2 ^ shift) < 2 ^ 32)"

lemma load_loop_spec:
  assumes "length ies \<le> BMAP_ALLOC_ENTRIES"
  shows "load_loop partition_start (int shift) input BMAP_ALLOC_ENTRIES memory ies =
    (if length ies + length (kept_extents partition_start shift input) \<le> BMAP_ALLOC_ENTRIES
     then Value (ies @ kept_extents partition_start shift input, memory) else Undefined)"
  using assms
proof (induction input arbitrary: ies)
  case Nil
  then show ?case by (simp add: kept_extents_def)
next
  case (Cons p input)
  obtain n len where p: "p = (n, len)" by force
  show ?case
  proof (cases "n < partition_start \<or> length ies \<ge> BMAP_ALLOC_ENTRIES")
    case True
    then show ?thesis using Cons by (auto simp: p kept_extents_def Let_def)
  next
    case False
    then have "\<not> length ies > BMAP_ALLOC_ENTRIES" by simp
    with False show ?thesis using Cons.IH by (simp add: p kept_extents_def Let_def)
  qed
qed

lemma unat_pow2: "i < 32 \<Longrightarrow> unat ((2::u32) ^ i) = 2 ^ i"
proof -
  assume "i < 32"
  then have "(2::nat) ^ i < 2 ^ 32" by (intro power_strict_increasing) simp_all
  moreover have "(2::u32) ^ i = word_of_nat (2 ^ i)" by simp
  ultimately show "unat ((2::u32) ^ i) = 2 ^ i"
    by (simp only: unsigned_of_nat of_nat_id) (simp add: take_bit_nat_eq_self \<open>i < 32\<close>)
qed

lemma log2i_loop_spec:
  "n + i = 32 \<Longrightarrow> 1 \<le> i \<Longrightarrow> 2 ^ (i - 1) \<le> unat num \<Longrightarrow>
   (\<exists>k. log2i_loop n num i = int k \<and> k < 32 \<and> 2 ^ k \<le> unat num \<and> unat num < 2 ^ (k + 1))"
proof (induction n arbitrary: i)
  case 0
  have "unat num < 2 ^ 32" using unsigned_less [of num] by simp
  then show ?case using 0 by (intro exI [of _ 31]) simp
next
  case (Suc n)
  have i: "unat (push_bit i (1::u32)) = 2 ^ i" using Suc.prems unat_pow2 [of i] by (simp add: push_bit_of_1)
  show ?case
  proof (cases "push_bit i 1 > num")
    case True
    then show ?thesis using Suc.prems i by (intro exI [of _ "i - 1"]) (simp add: word_less_nat_alt of_nat_diff)
  next
    case False
    then show ?thesis using Suc.prems i Suc.IH [of "i + 1"] by (simp add: word_less_nat_alt)
  qed
qed

lemma log2i_spec:
  assumes "num \<noteq> 0"
  shows "\<exists>k. log2i num = int k \<and> k < 32 \<and> 2 ^ k \<le> unat num \<and> unat num < 2 ^ (k + 1)"
proof -
  have "unat num \<ge> 1" using assms by (simp add: Suc_leI unat_gt_0)
  then have "\<not> num < 1" by (simp add: word_less_nat_alt)
  then have "log2i num = log2i_loop 31 num 1"
    using log2i_loop.simps(2) [of 31 num 0] by (simp add: log2i_def)
  then show ?thesis using log2i_loop_spec [of 31 1 num] \<open>unat num \<ge> 1\<close> by simp
qed

text \<open>
  With few extents and small numbers, what \<open>load_blocks\<close> returns is sorted, its extents do not
  touch, and they hold the blocks of the input.
\<close>

lemma kept_extents_fit:
  assumes "input_fits partition_start shift input"
  shows "extents_fit (kept_extents partition_start shift input)"
    and "extent_blocks (kept_extents partition_start shift input) = input_blocks partition_start shift input"
    and "\<forall>e\<in>set (kept_extents partition_start shift input). unat (ie_block e) < 2 ^ 31"
proof -
  have e: "unat (word_of_int (drop_bit shift (n - partition_start)) :: u32) = nat ((n - partition_start) div 2 ^ shift)
      \<and> unat (drop_bit shift len) = unat len div 2 ^ shift
      \<and> nat ((n - partition_start) div 2 ^ shift) < 2 ^ 31
      \<and> nat ((n - partition_start) div 2 ^ shift) + unat len div 2 ^ shift < 2 ^ 32"
    if "(n, len) \<in> set input" "partition_start \<le> n" for n and len :: u32
  proof -
    have b: "(n - partition_start) div 2 ^ shift < 2 ^ 31"
      "(n - partition_start) div 2 ^ shift + int (unat len div 2 ^ shift) < 2 ^ 32"
      using assms that(1) by (auto simp: input_fits_def)
    have nn: "0 \<le> (n - partition_start) div 2 ^ shift" using that(2) by (simp add: pos_imp_zdiv_nonneg_iff)
    have "uint (word_of_int ((n - partition_start) div 2 ^ shift) :: u32) = (n - partition_start) div 2 ^ shift"
      using b(1) nn by (simp add: uint_word_of_int)
    then have "unat (word_of_int ((n - partition_start) div 2 ^ shift) :: u32) = nat ((n - partition_start) div 2 ^ shift)"
      by (simp add: unat_eq_nat_uint)
    moreover have len32: "take_bit 32 (unat len) = unat len"
      using unsigned_less [of len] by (intro take_bit_nat_eq_self) simp
    have "unat (drop_bit shift len) = unat len div 2 ^ shift"
      using len32 by (intro trans [OF unsigned_drop_bit_eq]) (simp add: drop_bit_eq_div take_bit_nat_eq_self)
    ultimately show ?thesis using b nn by (auto simp: drop_bit_eq_div nat_less_iff simp del: of_nat_div)
  qed
  show "extents_fit (kept_extents partition_start shift input)"
    using e by (auto simp: extents_fit_def kept_extents_def no_wrap_def)
  show "\<forall>e\<in>set (kept_extents partition_start shift input). unat (ie_block e) < 2 ^ 31"
    using e by (auto simp: kept_extents_def)
  show "extent_blocks (kept_extents partition_start shift input) = input_blocks partition_start shift input"
    unfolding extent_blocks_def input_blocks_def kept_extents_def
    by (rule set_eqI) (use e in \<open>force simp: span_def split: if_splits\<close>)
qed

lemma small_difference:
  "(a::nat) < 2 ^ 31 \<Longrightarrow> b < 2 ^ 31 \<Longrightarrow> - (2 ^ 31) \<le> int a - int b \<and> int a - int b < 2 ^ 31"
  by simp

lemma sint_difference:
  fixes v w :: u32
  assumes "unat v < 2 ^ 31" and "unat w < 2 ^ 31"
  shows "sint (v - w) = int (unat v) - int (unat w)"
proof -
  have "v - w = word_of_int (int (unat v) - int (unat w))" by simp
  then have "sint (v - w) = signed_take_bit 31 (int (unat v) - int (unat w))"
    by (simp only: signed_of_int) simp
  also have "\<dots> = int (unat v) - int (unat w)"
    using small_difference [OF assms] by (intro signed_take_bit_int_eq_self) blast+
  finally show ?thesis .
qed

lemma extent_less_small:
  assumes "unat (ie_block e) < 2 ^ 31" and "unat (ie_block f) < 2 ^ 31"
  shows "extent_less e f \<longleftrightarrow> ie_block e < ie_block f"
  unfolding extent_less_def input_extent_cmp_def sint_difference [OF assms] word_less_nat_alt
  by linarith

lemma small_extents_consistent:
  assumes "\<forall>e\<in>A. unat (ie_block e) < 2 ^ 31"
  shows "consistent_on extent_less A"
proof (rule consistent_on_key)
  show "extent_less e f \<longleftrightarrow> unat (ie_block e) < unat (ie_block f)" if "e \<in> A" "f \<in> A" for e f
    using extent_less_small [of e f] assms that by (simp only: word_less_nat_alt)
qed

lemma load_blocks_spec:
  assumes srt: "c_qsort extent_less srt" and shift: "log2i (blocksize div tbs) = int shift"
    and input: "input_extents text = (input, True)"
    and few: "length (kept_extents partition_start shift input) \<le> BMAP_ALLOC_ENTRIES"
    and fits: "input_fits partition_start shift input" and memory: "0 < memory"
  shows "\<exists>ies. load_blocks srt blocksize tbs partition_start text memory = Value (ies, memory - 1)
    \<and> separated_extents ies \<and> extents_fit ies \<and> extent_blocks ies = input_blocks partition_start shift input"
proof -
  let ?k = "kept_extents partition_start shift input"
  let ?s = "srt ?k"
  note kf = kept_extents_fit [OF fits]
  note set_s = c_qsort.set_qsort [OF srt, of ?k]
  have small: "\<forall>e\<in>set ?s. unat (ie_block e) < 2 ^ 31" using kf(3) set_s by simp
  have "sorted_wrt (\<lambda>x y. \<not> extent_less y x) ?s"
    by (rule c_qsort.qsort_sorted [OF srt small_extents_consistent [OF kf(3)]])
  then have sorted: "sorted_wrt block_le ?s"
    by (rule sorted_wrt_mono_rel [rotated]) (use small in \<open>simp only: extent_less_small not_less\<close>)
  have fit: "extents_fit ?s" using kf(1) set_s by (simp add: extents_fit_def)
  have "merge_outer (length ?k) 0 ?s 0 = merge_extents ?s"
    using merge_outer_spec [of ?s "length ?k" 0 0] c_qsort.length_qsort [OF srt, of ?k] by simp
  then have "load_blocks srt blocksize tbs partition_start text memory = Value (merge_extents ?s, memory - 1)"
    using load_loop_spec [of "[]" partition_start shift input] few memory by (simp add: load_blocks_def shift input Let_def)
  moreover have "extent_blocks ?s = extent_blocks ?k" using set_s by (simp add: extent_blocks_def)
  ultimately show ?thesis using merge_extents_spec [OF sorted fit] kf(2) by auto
qed

text \<open>
  After \<open>load_blocks\<close> on at most 8192 extents that lie in the partition, with block numbers
  below 2^31, the binary search \<open>find_block\<close> finds an extent for exactly the blocks of the file
  system that the input names, whatever lies outside the array; the extent it returns holds the
  block. Sorting, merging in place and the search work together.
\<close>

theorem load_blocks_find_block:
  assumes "c_qsort extent_less srt" and "log2i (blocksize div tbs) = int shift" and "input_extents text = (input, True)"
    and "length (kept_extents partition_start shift input) \<le> BMAP_ALLOC_ENTRIES"
    and "input_fits partition_start shift input" and "0 < memory"
  shows "\<exists>ies. load_blocks srt blocksize tbs partition_start text memory = Value (ies, memory - 1)
    \<and> (\<forall>junk b. case find_block junk ies b of
          Some k \<Rightarrow> extent_holds ies b k \<and> unat b \<in> input_blocks partition_start shift input
        | None \<Rightarrow> unat b \<notin> input_blocks partition_start shift input)"
proof -
  obtain ies where ies: "load_blocks srt blocksize tbs partition_start text memory = Value (ies, memory - 1)"
    "separated_extents ies" "extents_fit ies" "extent_blocks ies = input_blocks partition_start shift input"
    using load_blocks_spec [OF assms] by blast
  have "case find_block junk ies b of
      Some k \<Rightarrow> extent_holds ies b k \<and> unat b \<in> input_blocks partition_start shift input
    | None \<Rightarrow> unat b \<notin> input_blocks partition_start shift input" for junk b
    using find_block_spec [OF ies(2,3), where junk = junk and b = b] extent_blocks_holds [of b ies] ies(4)
    by (auto split: option.splits)
  with ies(1) show ?thesis by blast
qed

text \<open>Three overlapping and adjacent extents, one of them before the partition: \<open>104+16 0+8 64+24 80+8\<close>.\<close>

definition load_sample :: "byte list" where
  "load_sample = [49, 48, 52, 43, 49, 54, 10, 48, 43, 56, 10, 54, 52, 43, 50, 52, 10, 56, 48, 43, 56, 10]"

lemma load_sample_extents: "input_extents load_sample = ([(104, 16), (0, 8), (64, 24), (80, 8)], True)"
  by code_simp

lemma load_blocks_find_block_witness:
  "\<exists>ies. load_blocks (cmp_sort extent_less) 4096 512 64 load_sample 1 = Value (ies, 0)
    \<and> find_block (\<lambda>_. \<lparr>ie_block = 0, ie_len = 9\<rparr>) ies 6 \<noteq> None
    \<and> find_block (\<lambda>_. \<lparr>ie_block = 0, ie_len = 9\<rparr>) ies 3 = None"
proof -
  let ?input = "[(104, 16), (0, 8), (64, 24), (80, 8)] :: (int \<times> u32) list"
  have s: "log2i (4096 div 512) = int 3" by code_simp
  have k: "length (kept_extents 64 3 ?input) \<le> BMAP_ALLOC_ENTRIES"
    by (simp add: kept_extents_def BMAP_ALLOC_ENTRIES_def)
  have f: "input_fits 64 3 ?input" by (simp add: input_fits_def)
  have b: "input_blocks 64 3 ?input = {5..<7} \<union> {0..<3}"
    by (auto simp: input_blocks_def)
  obtain ies where ies: "load_blocks (cmp_sort extent_less) 4096 512 64 load_sample 1 = Value (ies, 0)"
    "\<forall>junk b. case find_block junk ies b of
          Some k \<Rightarrow> extent_holds ies b k \<and> unat b \<in> input_blocks 64 3 ?input
        | None \<Rightarrow> unat b \<notin> input_blocks 64 3 ?input"
    using load_blocks_find_block [OF extent_qsort.c_qsort_axioms s load_sample_extents k f, of 1] by auto
  have "find_block (\<lambda>_. \<lparr>ie_block = 0, ie_len = 9\<rparr>) ies 6 \<noteq> None"
    using ies(2) [rule_format, where junk = "\<lambda>_. \<lparr>ie_block = 0, ie_len = 9\<rparr>" and b = 6] b
    by (auto split: option.splits)
  moreover have "find_block (\<lambda>_. \<lparr>ie_block = 0, ie_len = 9\<rparr>) ies 3 = None"
    using ies(2) [rule_format, where junk = "\<lambda>_. \<lparr>ie_block = 0, ie_len = 9\<rparr>" and b = 3] b
    by (auto split: option.splits)
  ultimately show ?thesis using ies(1) by blast
qed

text \<open>
  The growth of the array comes one entry too late: with more than 8192 extents in the partition
  the entry after the last one is written.
\<close>

theorem load_blocks_overrun:
  assumes "log2i (blocksize div tbs) = int shift" and "input_extents text = (input, complete)"
    and "length (kept_extents partition_start shift input) > BMAP_ALLOC_ENTRIES" and "0 < memory"
  shows "load_blocks srt blocksize tbs partition_start text memory = Undefined"
  using load_loop_spec [of "[]" partition_start shift input] assms by (simp add: load_blocks_def Let_def)

end
