(* ===== verification/E2block2file_Map.thy ===== *)
theory E2block2file_Map
  imports E2block2file_Load Run_Result
begin

text \<open>
  The second part of \<open>e2block2file\<close>: \<open>store_block\<close>, the callback of the block iteration,
  \<open>insert_new_block\<close>, which collects the extents of every inode, \<open>map_blocks\<close>, the scan of all
  inodes, and the naming of the inodes (\<open>map_inodes\<close>).

  A pointer into the array \<open>bmap\<close> is a generation and an index: \<open>realloc\<close> starts a new generation,
  and using a pointer of an older one is undefined. The inode structures are allocated one by one
  and never move; \<open>inode_tab\<close> holds them in the order of allocation, a pointer to one is an index.
  The results of the inode scan, of the block iteration and of the directory iteration are
  arguments; \<open>allocs\<close> is the number of allocations that still succeed.
\<close>

section \<open>Data\<close>

type_synonym bmap_ptr = "nat \<times> nat"

text \<open>The union of \<open>struct block_map\<close>: the next extent of the inode, or its inode.\<close>

datatype map_link = Next_map "bmap_ptr option" | Of_inode nat

record block_map =
  bm_block :: u32
  bm_len :: u32
  bm_offset :: int
  bm_u :: map_link

record inode_blocks =
  ib_ino :: u32
  ib_blocks :: "bmap_ptr option"
  ib_last_block :: "bmap_ptr option"
  ib_name :: "byte list option"

record traverse_data =
  td_ino :: u32
  td_ind0 :: int
  td_ind1 :: int
  td_depth :: int
  td_inode :: "nat option"

text \<open>The global variables; \<open>inodes\<close> is the linked list of inode structures.\<close>

record b2f_state =
  iextents :: "input_extent_map list"
  bmap :: "block_map list"
  bmap_allocated :: nat
  bmap_gen :: nat
  inode_tab :: "inode_blocks list"
  inodes :: "nat list"
  inode_hash :: "nat list list"
  allocs :: nat

definition alloc :: "b2f_state \<Rightarrow> b2f_state run_result" where
  "alloc s = (if allocs s = 0 then Exit 1 else Value (s\<lparr>allocs := allocs s - 1\<rparr>))"

definition map_at :: "b2f_state \<Rightarrow> bmap_ptr \<Rightarrow> nat run_result" where
  "map_at s p = (if fst p = bmap_gen s \<and> snd p < length (bmap s) then Value (snd p) else Undefined)"

section \<open>Offsets of indirect blocks\<close>

definition INDIRECT_TO_OFF :: "int \<Rightarrow> int \<Rightarrow> int" where
  "INDIRECT_TO_OFF off level = - ((push_bit 2 off) OR level)"

definition EXT2_IND_OFFSET :: u32 where "EXT2_IND_OFFSET = 12"

definition EXT2_DIND_OFFSET :: "u32 \<Rightarrow> u32" where
  "EXT2_DIND_OFFSET blocksize = EXT2_IND_OFFSET + drop_bit 2 blocksize"

definition EXT2_TIND_OFFSET :: "u32 \<Rightarrow> u32" where
  "EXT2_TIND_OFFSET blocksize = EXT2_DIND_OFFSET blocksize + drop_bit 2 blocksize * drop_bit 2 blocksize"

definition index_to_offset :: "u32 \<Rightarrow> int \<Rightarrow> int \<Rightarrow> int \<Rightarrow> int" where
  "index_to_offset blocksize depth index0 index1 =
     (if depth = 0 then uint EXT2_IND_OFFSET
      else if depth = 1 then uint (EXT2_DIND_OFFSET blocksize + word_of_int index0 * drop_bit 2 blocksize)
      else if depth = 2 then uint (EXT2_TIND_OFFSET blocksize + word_of_int index0 * drop_bit 2 blocksize
             + word_of_int index1 * drop_bit 2 blocksize * drop_bit 2 blocksize)
      else 0)"

section \<open>Collecting the extents of an inode\<close>

text \<open>The field \<open>ino\<close> of a new structure is set by the caller at once.\<close>

definition insert_new_inode :: "b2f_state \<Rightarrow> (nat \<times> b2f_state) run_result" where
  "insert_new_inode s = and_then (alloc s) (\<lambda>s.
     let i = length (inode_tab s) in
     Value (i, s\<lparr>inode_tab := inode_tab s @ [\<lparr>ib_ino = 0, ib_blocks = None, ib_last_block = None, ib_name = None\<rparr>],
                 inodes := i # inodes s\<rparr>))"

text \<open>Does the block continue the last extent of the inode? \<open>dumptimes\<close> is \<open>options & FL_DUMPTIMES\<close>.\<close>

definition extends_last :: "b2f_state \<Rightarrow> nat \<Rightarrow> int \<Rightarrow> u32 \<Rightarrow> nat option run_result" where
  "extends_last s i offset block =
     (case ib_last_block (inode_tab s ! i) of
        None \<Rightarrow> Value None
      | Some p \<Rightarrow>
          if \<not> 0 \<le> offset then Value None
          else and_then (map_at s p) (\<lambda>k.
            let m = bmap s ! k in
            Value (if bm_block m + bm_len m = block \<and> bm_offset m + uint (bm_len m) = offset
                   then Some k else None)))"

definition grow_bmap :: "b2f_state \<Rightarrow> b2f_state run_result" where
  "grow_bmap s =
     (if length (bmap s) \<ge> bmap_allocated s
      then and_then (alloc s) (\<lambda>s. Value (s\<lparr>bmap_allocated := bmap_allocated s + BMAP_ALLOC_ENTRIES,
                                            bmap_gen := bmap_gen s + 1\<rparr>))
      else Value s)"

definition insert_new_block :: "bool \<Rightarrow> nat \<Rightarrow> int \<Rightarrow> u32 \<Rightarrow> b2f_state \<Rightarrow> b2f_state run_result" where
  "insert_new_block dumptimes i offset block s =
     and_then (extends_last s i offset block) (\<lambda>ext.
     case ext of
       Some k \<Rightarrow> Value (s\<lparr>bmap := (bmap s)[k := (bmap s ! k)\<lparr>bm_len := bm_len (bmap s ! k) + 1\<rparr>]\<rparr>)
     | None \<Rightarrow>
         and_then (grow_bmap s) (\<lambda>s.
         let new = (bmap_gen s, length (bmap s));
             u = (if dumptimes then Of_inode i else Next_map None);
             s1 = s\<lparr>bmap := bmap s @ [\<lparr>bm_block = block, bm_len = 1, bm_offset = offset, bm_u = u\<rparr>]\<rparr>;
             inode = inode_tab s ! i in
         and_then
           (if dumptimes then Value s1
            else (case ib_last_block inode of
                    Some p \<Rightarrow> and_then (map_at s1 p) (\<lambda>k.
                      Value (s1\<lparr>bmap := (bmap s1)[k := (bmap s1 ! k)\<lparr>bm_u := Next_map (Some new)\<rparr>]\<rparr>))
                  | None \<Rightarrow> Value (s1\<lparr>inode_tab := (inode_tab s1)[i := inode\<lparr>ib_blocks := Some new\<rparr>]\<rparr>)))
           (\<lambda>s2. Value (s2\<lparr>inode_tab :=
              (inode_tab s2)[i := (inode_tab s2 ! i)\<lparr>ib_last_block := Some new\<rparr>]\<rparr>))))"

section \<open>The callback\<close>

text \<open>The block counts of indirect blocks, from \<open>ext2fs.h\<close>.\<close>

definition IND_COUNT :: int where "IND_COUNT = -1"
definition DIND_COUNT :: int where "DIND_COUNT = -2"
definition TIND_COUNT :: int where "TIND_COUNT = -3"

definition track_depth :: "int \<Rightarrow> int \<Rightarrow> traverse_data \<Rightarrow> (int \<times> traverse_data) run_result" where
  "track_depth offset parent_offset td =
     (if \<not> offset < 0 then Value (0, td)
      else if offset = IND_COUNT then
        Value (0, if td_depth td < 0 then td\<lparr>td_depth := 0\<rparr>
                  else td\<lparr>td_ind0 := drop_bit 2 parent_offset\<rparr>)
      else if offset = DIND_COUNT then
        Value (1, if td_depth td < 1 then td\<lparr>td_depth := 1, td_ind0 := 0\<rparr>
                  else td\<lparr>td_ind1 := drop_bit 2 parent_offset\<rparr>)
      else if offset = TIND_COUNT then
        Value (2, if td_depth td < 2 then td\<lparr>td_depth := 2, td_ind0 := 0, td_ind1 := 0\<rparr> else td)
      else Exit 1)"

definition store_block ::
  "bool \<Rightarrow> u32 \<Rightarrow> (int \<Rightarrow> input_extent_map) \<Rightarrow> u32 \<Rightarrow> int \<Rightarrow> int \<Rightarrow> traverse_data \<times> b2f_state
     \<Rightarrow> (traverse_data \<times> b2f_state) run_result" where
  "store_block dumptimes blocksize junk blocknr offset parent_offset = (\<lambda>(td, s).
     and_then (track_depth offset parent_offset td) (\<lambda>(depth, td).
     case find_block junk (iextents s) blocknr of
       None \<Rightarrow> Value (td, s)
     | Some _ \<Rightarrow>
         and_then (case td_inode td of
                     Some i \<Rightarrow> Value (i, s)
                   | None \<Rightarrow> insert_new_inode s) (\<lambda>(i, s).
         let td = td\<lparr>td_inode := Some i\<rparr>;
             s = s\<lparr>inode_tab := (inode_tab s)[i := (inode_tab s ! i)\<lparr>ib_ino := td_ino td\<rparr>]\<rparr>;
             off = (if 0 \<le> offset then offset
                    else INDIRECT_TO_OFF (index_to_offset blocksize (td_depth td) (td_ind0 td) (td_ind1 td)) depth) in
         and_then (insert_new_block dumptimes i off blocknr s) (\<lambda>s. Value (td, s)))))"

section \<open>The inode scan\<close>

text \<open>One visit of the block iteration: block, block count and offset in the parent block.\<close>

record iter_visit =
  iv_block :: u32
  iv_offset :: int
  iv_parent_offset :: int

fun store_visits ::
  "bool \<Rightarrow> u32 \<Rightarrow> (int \<Rightarrow> input_extent_map) \<Rightarrow> iter_visit list \<Rightarrow> traverse_data \<times> b2f_state
     \<Rightarrow> (traverse_data \<times> b2f_state) run_result" where
  "store_visits dumptimes blocksize junk [] ts = Value ts"
| "store_visits dumptimes blocksize junk (v # vs) ts =
     and_then (store_block dumptimes blocksize junk (iv_block v) (iv_offset v) (iv_parent_offset v) ts)
       (store_visits dumptimes blocksize junk vs)"

record scanned_inode =
  sc_inum :: u32
  sc_links :: u16
  sc_mode :: u16

definition S_ISREG :: "u16 \<Rightarrow> bool" where "S_ISREG mode \<longleftrightarrow> mode AND 0xF000 = 0x8000"
definition S_ISDIR :: "u16 \<Rightarrow> bool" where "S_ISDIR mode \<longleftrightarrow> mode AND 0xF000 = 0x4000"

definition scanned :: "scanned_inode \<Rightarrow> bool" where
  "scanned inode \<longleftrightarrow> \<not> (sc_links inode = 0 \<or> \<not> (S_ISREG (sc_mode inode) \<or> S_ISDIR (sc_mode inode)))"

definition new_traversal :: "u32 \<Rightarrow> traverse_data" where
  "new_traversal inum = \<lparr>td_ino = inum, td_ind0 = 0, td_ind1 = 0, td_depth = -1, td_inode = None\<rparr>"

text \<open>
  The loop over the results of \<open>ext2fs_get_next_inode\<close>: an error or an inode; the scan ends with
  inode number 0 (or the end of the list). \<open>blocks\<close> gives the visits of an inode and whether the
  iteration succeeds.
\<close>

fun scan_inodes ::
  "bool \<Rightarrow> u32 \<Rightarrow> (int \<Rightarrow> input_extent_map) \<Rightarrow> (u32 \<Rightarrow> iter_visit list \<times> bool) \<Rightarrow> (int + scanned_inode) list
     \<Rightarrow> b2f_state \<Rightarrow> b2f_state run_result" where
  "scan_inodes dumptimes blocksize junk blocks [] s = Value s"
| "scan_inodes dumptimes blocksize junk blocks (Inl error # scan) s = Exit 1"
| "scan_inodes dumptimes blocksize junk blocks (Inr inode # scan) s =
     (if sc_inum inode = 0 then Value s
      else if \<not> scanned inode then scan_inodes dumptimes blocksize junk blocks scan s
      else and_then (store_visits dumptimes blocksize junk (fst (blocks (sc_inum inode)))
                       (new_traversal (sc_inum inode), s)) (\<lambda>(td, s).
           if \<not> snd (blocks (sc_inum inode)) then Exit 1
           else scan_inodes dumptimes blocksize junk blocks scan s))"

definition map_blocks ::
  "bool \<Rightarrow> u32 \<Rightarrow> (int \<Rightarrow> input_extent_map) \<Rightarrow> (u32 \<Rightarrow> iter_visit list \<times> bool) \<Rightarrow> bool
     \<Rightarrow> (int + scanned_inode) list \<Rightarrow> b2f_state \<Rightarrow> b2f_state run_result" where
  "map_blocks dumptimes blocksize junk blocks scan_opens scan s =
     and_then (alloc s) (\<lambda>s.
     if \<not> scan_opens then Exit 1 else scan_inodes dumptimes blocksize junk blocks scan s)"

section \<open>Names\<close>

text \<open>
  The hash table of inodes: \<open>inode_hash\<close> is an array of chains. An inode number picks its chain by
  the remainder.
\<close>

definition inode_hash_size :: "b2f_state \<Rightarrow> nat" where
  "inode_hash_size s = 32 + length (inode_tab s) + length (inode_tab s) div 2"

definition HASH_INO :: "b2f_state \<Rightarrow> u32 \<Rightarrow> nat" where
  "HASH_INO s ino = unat ino mod inode_hash_size s"

fun hash_inodes :: "nat list \<Rightarrow> b2f_state \<Rightarrow> b2f_state" where
  "hash_inodes [] s = s"
| "hash_inodes (i # is) s =
     (let h = HASH_INO s (ib_ino (inode_tab s ! i)) in
      hash_inodes is (s\<lparr>inode_hash := (inode_hash s)[h := i # inode_hash s ! h]\<rparr>))"

definition prepare_inode_hash :: "b2f_state \<Rightarrow> b2f_state run_result" where
  "prepare_inode_hash s = and_then (alloc s) (\<lambda>s.
     let s = hash_inodes (inodes s) (s\<lparr>inode_hash := replicate (inode_hash_size s) []\<rparr>) in
     Value (s\<lparr>inodes := []\<rparr>))"

definition find_delete_inode :: "u32 \<Rightarrow> b2f_state \<Rightarrow> nat option \<times> b2f_state" where
  "find_delete_inode ino s =
     (let h = HASH_INO s ino in
      case find (\<lambda>i. ib_ino (inode_tab s ! i) = ino) (inode_hash s ! h) of
        None \<Rightarrow> (None, s)
      | Some i \<Rightarrow> (Some i, s\<lparr>inode_hash := (inode_hash s)[h := remove1 i (inode_hash s ! h)]\<rparr>))"

fun gather_chain :: "nat list \<Rightarrow> nat list \<Rightarrow> nat list" where
  "gather_chain [] is = is"
| "gather_chain (i # chain) is = gather_chain chain (i # is)"

definition gather_unmapped_inodes :: "b2f_state \<Rightarrow> b2f_state" where
  "gather_unmapped_inodes s =
     s\<lparr>inodes := fold gather_chain (inode_hash s) (inodes s), inode_hash := map (\<lambda>_. []) (inode_hash s)\<rparr>"

text \<open>
  A directory entry: inode, \<open>name_len\<close> (the low byte), the \<open>file_type\<close> byte and the 255 bytes of
  the name. \<open>read_inode\<close> gives the mode of an inode, \<open>None\<close> for an error; \<open>dir\<close> gives the entries
  of a directory and whether its iteration succeeds.
\<close>

record dir_entry =
  de_inode :: u32
  de_len :: byte
  de_file_type :: byte
  de_name :: "byte list"

definition MAX_PATH_LEN :: nat where "MAX_PATH_LEN = 32768"
definition EXT2_FT_DIR :: byte where "EXT2_FT_DIR = 2"

definition is_dot_entry :: "dir_entry \<Rightarrow> bool" where
  "is_dot_entry de \<longleftrightarrow> de_name de ! 0 = 0x2E \<and> (de_len de = 1 \<or> (de_name de ! 1 = 0x2E \<and> de_len de = 2))"

definition entry_is_dir :: "bool \<Rightarrow> (u32 \<Rightarrow> u16 option) \<Rightarrow> dir_entry \<Rightarrow> bool run_result" where
  "entry_is_dir has_filetype read_inode de =
     (if has_filetype then Value (de_file_type de = EXT2_FT_DIR)
      else (case read_inode (de_inode de) of
              None \<Rightarrow> Exit 1
            | Some mode \<Rightarrow> Value (S_ISDIR mode)))"

text \<open>\<open>strndup\<close> stops at a zero byte. The named inode goes back to the front of the list.\<close>

definition name_inode :: "byte list \<Rightarrow> nat \<Rightarrow> b2f_state \<Rightarrow> b2f_state run_result" where
  "name_inode path i s = and_then (alloc s) (\<lambda>s.
     Value (s\<lparr>inode_tab := (inode_tab s)[i := (inode_tab s ! i)\<lparr>ib_name := Some (takeWhile (\<lambda>c. c \<noteq> 0) path)\<rparr>],
              inodes := i # inodes s\<rparr>))"

text \<open>
  \<open>scan_dir\<close> for the entries of one directory in turn. The buffer \<open>path\<close> is its first \<open>pathlen\<close>
  bytes; writing behind its 32768 bytes is undefined, which also ends the recursion.
\<close>

function scan_dirs ::
  "bool \<Rightarrow> (u32 \<Rightarrow> u16 option) \<Rightarrow> (u32 \<Rightarrow> dir_entry list \<times> bool) \<Rightarrow> byte list \<Rightarrow> dir_entry list
     \<Rightarrow> b2f_state \<Rightarrow> b2f_state run_result" where
  "scan_dirs has_filetype read_inode dir path [] s = Value s"
| "scan_dirs has_filetype read_inode dir path (de # des) s =
     (if is_dot_entry de then scan_dirs has_filetype read_inode dir path des s
      else
       (let (iblocks, s) = find_delete_inode (de_inode de) s in
        and_then (entry_is_dir has_filetype read_inode de) (\<lambda>is_dir.
        and_then
          (if iblocks \<noteq> None \<or> is_dir then
             (if length path + unat (de_len de) + 1 \<ge> MAX_PATH_LEN then Undefined
              else
                let path' = path @ 0x2F # map (\<lambda>k. de_name de ! k) [0..<unat (de_len de)] in
                and_then (case iblocks of None \<Rightarrow> Value s | Some i \<Rightarrow> name_inode path' i s) (\<lambda>s.
                if is_dir then
                  and_then (scan_dirs has_filetype read_inode dir path' (fst (dir (de_inode de))) s) (\<lambda>s.
                  if snd (dir (de_inode de)) then Value s else Exit 1)
                else Value s))
           else Value s)
          (\<lambda>s. scan_dirs has_filetype read_inode dir path des s))))"
  by pat_completeness auto
termination
  by (relation "measures [\<lambda>(_, _, _, path, _, _). MAX_PATH_LEN - length path, \<lambda>(_, _, _, _, des, _). length des]") auto

declare scan_dirs.simps(2) [simp del]

definition EXT2_ROOT_INO :: u32 where "EXT2_ROOT_INO = 2"

definition map_inodes ::
  "bool \<Rightarrow> (u32 \<Rightarrow> u16 option) \<Rightarrow> (u32 \<Rightarrow> dir_entry list \<times> bool) \<Rightarrow> b2f_state \<Rightarrow> b2f_state run_result" where
  "map_inodes has_filetype read_inode dir s =
     and_then (prepare_inode_hash s) (\<lambda>s.
     and_then (scan_dirs has_filetype read_inode dir [] (fst (dir EXT2_ROOT_INO)) s) (\<lambda>s.
     if snd (dir EXT2_ROOT_INO) then Value (gather_unmapped_inodes s) else Exit 1))"

end
