(* ===== verification/E2block2file_Collect.thy ===== *)
theory E2block2file_Collect
  imports E2block2file_Map
begin

text \<open>
  What \<open>map_blocks\<close> collects. The ghost list \<open>ow\<close> gives the inode of every extent of \<open>bmap\<close>;
  \<open>store_inv\<close> ties the pointers of the inode structures and the links (or inode pointers) of the
  extents to it. The extents of an inode hold exactly its blocks, in the order they were found.
\<close>

section \<open>Owners\<close>

definition first_of :: "nat list \<Rightarrow> nat \<Rightarrow> nat option" where
  "first_of ow i = find (\<lambda>k. ow ! k = i) [0..<length ow]"

definition last_of :: "nat list \<Rightarrow> nat \<Rightarrow> nat option" where
  "last_of ow i = find (\<lambda>k. ow ! k = i) (rev [0..<length ow])"

definition next_of :: "nat list \<Rightarrow> nat \<Rightarrow> nat option" where
  "next_of ow k = find (\<lambda>k'. k < k' \<and> ow ! k' = ow ! k) [0..<length ow]"

definition chain_of :: "nat list \<Rightarrow> nat \<Rightarrow> nat list" where
  "chain_of ow i = filter (\<lambda>k. ow ! k = i) [0..<length ow]"

lemma find_append: "find P (xs @ ys) = (case find P xs of Some x \<Rightarrow> Some x | None \<Rightarrow> find P ys)"
  by (induction xs) auto

lemma find_cong_set: "(\<And>x. x \<in> set xs \<Longrightarrow> P x = Q x) \<Longrightarrow> find P xs = find Q xs"
  by (induction xs) auto

lemma owners_Nil [simp]: "first_of [] i = None" "last_of [] i = None" "chain_of [] i = []"
  by (simp_all add: first_of_def last_of_def chain_of_def)

lemma first_of_snoc:
  "first_of (ow @ [j]) i = (case first_of ow i of Some k \<Rightarrow> Some k | None \<Rightarrow> if i = j then Some (length ow) else None)"
proof -
  have "find (\<lambda>k. (ow @ [j]) ! k = i) [0..<length ow] = first_of ow i"
    unfolding first_of_def by (rule find_cong_set) (simp add: nth_append)
  then show ?thesis by (auto simp: first_of_def find_append split: option.splits)
qed

lemma last_of_snoc: "last_of (ow @ [j]) i = (if i = j then Some (length ow) else last_of ow i)"
proof -
  have "find (\<lambda>k. (ow @ [j]) ! k = i) (rev [0..<length ow]) = last_of ow i"
    unfolding last_of_def by (rule find_cong_set) (simp add: nth_append)
  then show ?thesis by (auto simp: last_of_def)
qed

lemma chain_of_snoc: "chain_of (ow @ [j]) i = chain_of ow i @ (if i = j then [length ow] else [])"
proof -
  have "filter (\<lambda>k. (ow @ [j]) ! k = i) [0..<length ow] = chain_of ow i"
    unfolding chain_of_def by (rule filter_cong) (simp_all add: nth_append)
  then show ?thesis by (auto simp: chain_of_def)
qed

lemma next_of_snoc:
  assumes "k < length ow"
  shows "next_of (ow @ [j]) k =
    (case next_of ow k of Some n \<Rightarrow> Some n | None \<Rightarrow> if ow ! k = j then Some (length ow) else None)"
proof -
  have "find (\<lambda>k'. k < k' \<and> (ow @ [j]) ! k' = (ow @ [j]) ! k) [0..<length ow] = next_of ow k"
    unfolding next_of_def by (rule find_cong_set) (use assms in \<open>simp add: nth_append\<close>)
  then show ?thesis using assms by (auto simp: next_of_def find_append nth_append split: option.splits)
qed

lemma next_of_new: "next_of (ow @ [j]) (length ow) = None"
  unfolding next_of_def find_None_iff by auto

lemma last_of_bound: "last_of ow i = Some k \<Longrightarrow> k < length ow \<and> ow ! k = i"
  by (induction ow rule: rev_induct) (auto simp: last_of_snoc nth_append split: if_splits)

lemma next_of_None: "k < length ow \<Longrightarrow> next_of ow k = None \<longleftrightarrow> last_of ow (ow ! k) = Some k"
proof (induction ow rule: rev_induct)
  case (snoc j ow)
  show ?case
  proof (cases "k < length ow")
    case True
    have "last_of ow (ow ! k) \<noteq> None" using True by (auto simp: last_of_def find_None_iff)
    then show ?thesis using True snoc.IH
      by (auto simp: next_of_snoc last_of_snoc nth_append split: option.splits)
  next
    case False
    then have "k = length ow" using snoc.prems by simp
    then show ?thesis by (simp add: next_of_new last_of_snoc)
  qed
qed simp

lemma chain_last: "last_of ow i = Some k \<Longrightarrow> \<exists>ks. chain_of ow i = ks @ [k] \<and> k \<notin> set ks"
proof (induction ow rule: rev_induct)
  case (snoc j ow)
  have "length ow \<notin> set (chain_of ow i)" by (simp add: chain_of_def)
  then show ?case using snoc by (auto simp: last_of_snoc chain_of_snoc split: if_splits)
qed simp

lemma last_of_None: "last_of ow i = None \<longleftrightarrow> chain_of ow i = []"
  by (induction ow rule: rev_induct) (auto simp: last_of_snoc chain_of_snoc)

lemma set_chain: "k \<in> set (chain_of ow i) \<longleftrightarrow> k < length ow \<and> ow ! k = i"
  by (auto simp: chain_of_def)

section \<open>The invariant\<close>

definition expand :: "block_map \<Rightarrow> (nat \<times> int) list" where
  "expand m = map (\<lambda>j. (unat (bm_block m) + j, bm_offset m + int j)) [0..<unat (bm_len m)]"

definition map_ok :: "block_map \<Rightarrow> bool" where
  "map_ok m \<longleftrightarrow> 1 \<le> unat (bm_block m) \<and> 1 \<le> unat (bm_len m) \<and> unat (bm_block m) + unat (bm_len m) \<le> 2 ^ 32"

definition link_of :: "bool \<Rightarrow> nat \<Rightarrow> nat list \<Rightarrow> nat \<Rightarrow> map_link" where
  "link_of dumptimes gen ow k =
     (if dumptimes then Of_inode (ow ! k) else Next_map (map_option (Pair gen) (next_of ow k)))"

definition store_inv :: "bool \<Rightarrow> nat list \<Rightarrow> b2f_state \<Rightarrow> bool" where
  "store_inv dumptimes ow s \<longleftrightarrow>
     length ow = length (bmap s) \<and> length (bmap s) \<le> bmap_allocated s
     \<and> (\<forall>i\<in>set ow. i < length (inode_tab s))
     \<and> (\<forall>i<length (inode_tab s). ib_last_block (inode_tab s ! i) = map_option (Pair (bmap_gen s)) (last_of ow i)
          \<and> (\<not> dumptimes \<longrightarrow> ib_blocks (inode_tab s ! i) = map_option (Pair (bmap_gen s)) (first_of ow i)))
     \<and> (\<forall>k<length (bmap s). bm_u (bmap s ! k) = link_of dumptimes (bmap_gen s) ow k \<and> map_ok (bmap s ! k))"

definition file_blocks_of :: "nat list \<Rightarrow> b2f_state \<Rightarrow> nat \<Rightarrow> (nat \<times> int) list" where
  "file_blocks_of ow s i = concat (map (\<lambda>k. expand (bmap s ! k)) (chain_of ow i))"

lemma store_invD:
  assumes "store_inv dumptimes ow s"
  shows "length ow = length (bmap s)" and "length (bmap s) \<le> bmap_allocated s"
    and "i \<in> set ow \<Longrightarrow> i < length (inode_tab s)"
    and "i < length (inode_tab s) \<Longrightarrow> ib_last_block (inode_tab s ! i) = map_option (Pair (bmap_gen s)) (last_of ow i)"
    and "i < length (inode_tab s) \<Longrightarrow> \<not> dumptimes \<Longrightarrow> ib_blocks (inode_tab s ! i) = map_option (Pair (bmap_gen s)) (first_of ow i)"
    and "k < length (bmap s) \<Longrightarrow> bm_u (bmap s ! k) = link_of dumptimes (bmap_gen s) ow k"
    and "k < length (bmap s) \<Longrightarrow> map_ok (bmap s ! k)"
  using assms by (auto simp: store_inv_def)

lemma expand_extend:
  assumes "map_ok m" and "bm_block m + bm_len m = b" and "b \<noteq> 0"
  shows "expand (m\<lparr>bm_len := bm_len m + 1\<rparr>) = expand m @ [(unat b, bm_offset m + int (unat (bm_len m)))]"
    and "map_ok (m\<lparr>bm_len := bm_len m + 1\<rparr>)"
proof -
  have nw: "unat (bm_block m) + unat (bm_len m) < 2 ^ 32"
  proof (rule ccontr)
    assume "\<not> unat (bm_block m) + unat (bm_len m) < 2 ^ 32"
    then have "unat (bm_block m) + unat (bm_len m) = 2 ^ 32" using assms(1) by (simp add: map_ok_def)
    then have "unat (bm_block m + bm_len m) = 0" by (simp add: unat_word_ariths)
    then show False using assms(2,3) by (simp add: unsigned_eq_0_iff)
  qed
  then have b: "unat b = unat (bm_block m) + unat (bm_len m)"
    using assms(2) by (auto simp: unat_word_ariths)
  have l: "unat (bm_len m + 1) = unat (bm_len m) + 1" using nw assms(1) by (simp add: unat_word_ariths map_ok_def)
  show "expand (m\<lparr>bm_len := bm_len m + 1\<rparr>) = expand m @ [(unat b, bm_offset m + int (unat (bm_len m)))]"
    by (simp add: expand_def l b)
  show "map_ok (m\<lparr>bm_len := bm_len m + 1\<rparr>)" using nw assms(1) by (simp add: map_ok_def l)
qed

section \<open>Storing one block\<close>

definition has_room :: "b2f_state \<Rightarrow> bool" where
  "has_room s \<longleftrightarrow> length (bmap s) < bmap_allocated s \<or> bmap s = [] \<and> bmap_allocated s = 0 \<and> 0 < allocs s"

text \<open>Fields that storing a block leaves alone, and the number of allocations it may use.\<close>

definition same_rest :: "b2f_state \<Rightarrow> b2f_state \<Rightarrow> bool" where
  "same_rest s s' \<longleftrightarrow> iextents s' = iextents s \<and> inodes s' = inodes s \<and> inode_hash s' = inode_hash s
     \<and> length (inode_tab s') = length (inode_tab s)
     \<and> (\<forall>i<length (inode_tab s). ib_ino (inode_tab s' ! i) = ib_ino (inode_tab s ! i)
          \<and> ib_name (inode_tab s' ! i) = ib_name (inode_tab s ! i))"

lemma extend_case:
  assumes inv: "store_inv dumptimes ow s" and i: "i < length (inode_tab s)" and b: "b \<noteq> 0"
    and k: "extends_last s i offset b = Value (Some k)"
    and s': "s' = s\<lparr>bmap := (bmap s)[k := (bmap s ! k)\<lparr>bm_len := bm_len (bmap s ! k) + 1\<rparr>]\<rparr>"
  shows "store_inv dumptimes ow s'" and "file_blocks_of ow s' i = file_blocks_of ow s i @ [(unat b, offset)]"
    and "j \<noteq> i \<Longrightarrow> file_blocks_of ow s' j = file_blocks_of ow s j"
proof -
  note D = store_invD [OF inv]
  have kk: "last_of ow i = Some k" "k < length (bmap s)" "bm_block (bmap s ! k) + bm_len (bmap s ! k) = b"
    "bm_offset (bmap s ! k) + uint (bm_len (bmap s ! k)) = offset"
    using k D(4) [OF i] by (auto simp: extends_last_def and_then_Value map_at_def Let_def split: option.splits if_splits)
  note e = expand_extend [OF D(7) [OF kk(2)] kk(3) b]
  show "store_inv dumptimes ow s'"
    using inv e(2) kk(2) unfolding store_inv_def s' by (auto simp: nth_list_update)
  obtain ks where ks: "chain_of ow i = ks @ [k]" "k \<notin> set ks" using chain_last [OF kk(1)] by blast
  have "map (\<lambda>k'. expand (bmap s' ! k')) ks = map (\<lambda>k'. expand (bmap s ! k')) ks"
    using ks(2) kk(2) by (auto simp: s' nth_list_update)
  moreover have "expand (bmap s' ! k) = expand (bmap s ! k) @ [(unat b, offset)]"
    using e(1) kk(2,4) by (simp add: s')
  ultimately show "file_blocks_of ow s' i = file_blocks_of ow s i @ [(unat b, offset)]"
    unfolding file_blocks_of_def ks(1) by (simp cong: map_cong)
  assume "j \<noteq> i"
  then have "k \<notin> set (chain_of ow j)" using kk(1) by (auto simp: set_chain dest: last_of_bound)
  then show "file_blocks_of ow s' j = file_blocks_of ow s j"
    using kk(2) unfolding file_blocks_of_def by (auto simp: s' nth_list_update intro!: arg_cong [of _ _ concat])
qed

lemma grow_case:
  assumes inv: "store_inv dumptimes ow s" and memory_left: "has_room s"
  shows "\<exists>al gen n. grow_bmap s = Value (s\<lparr>bmap_allocated := al, bmap_gen := gen, allocs := n\<rparr>)
    \<and> store_inv dumptimes ow (s\<lparr>bmap_allocated := al, bmap_gen := gen, allocs := n\<rparr>)
    \<and> length (bmap s) < al \<and> (al = bmap_allocated s \<and> n = allocs s \<or> al = BMAP_ALLOC_ENTRIES \<and> bmap_allocated s = 0 \<and> n = allocs s - 1)"
proof (cases "length (bmap s) \<ge> bmap_allocated s")
  case True
  then have e: "bmap s = []" "bmap_allocated s = 0" "0 < allocs s" using memory_left by (auto simp: has_room_def)
  then have "ow = []" using inv by (simp add: store_inv_def)
  then have "store_inv dumptimes ow (s\<lparr>bmap_allocated := BMAP_ALLOC_ENTRIES, bmap_gen := bmap_gen s + 1, allocs := allocs s - 1\<rparr>)"
    using inv e by (simp add: store_inv_def)
  moreover have "grow_bmap s = Value (s\<lparr>bmap_allocated := BMAP_ALLOC_ENTRIES, bmap_gen := bmap_gen s + 1, allocs := allocs s - 1\<rparr>)"
    using e by (simp add: grow_bmap_def alloc_def)
  ultimately show ?thesis using e(1,2) by (force simp: BMAP_ALLOC_ENTRIES_def)
next
  case False
  have "s\<lparr>bmap_allocated := bmap_allocated s, bmap_gen := bmap_gen s, allocs := allocs s\<rparr> = s" by simp
  moreover have "grow_bmap s = Value s" using False by (simp add: grow_bmap_def)
  ultimately show ?thesis using inv False
    by (intro exI [of _ "bmap_allocated s"] exI [of _ "bmap_gen s"] exI [of _ "allocs s"]) simp
qed

text \<open>The state after a new extent has been appended and linked.\<close>

definition appended :: "bool \<Rightarrow> nat \<Rightarrow> int \<Rightarrow> u32 \<Rightarrow> nat list \<Rightarrow> b2f_state \<Rightarrow> b2f_state" where
  "appended dumptimes i offset b ow s =
     (let n = length (bmap s); new = (bmap_gen s, n);
          m = \<lparr>bm_block = b, bm_len = 1, bm_offset = offset, bm_u = if dumptimes then Of_inode i else Next_map None\<rparr>;
          inode = inode_tab s ! i in
      case (if dumptimes then None else last_of ow i) of
        Some p \<Rightarrow> s\<lparr>bmap := (bmap s @ [m])[p := (bmap s ! p)\<lparr>bm_u := Next_map (Some new)\<rparr>],
                    inode_tab := (inode_tab s)[i := inode\<lparr>ib_last_block := Some new\<rparr>]\<rparr>
      | None \<Rightarrow> s\<lparr>bmap := bmap s @ [m],
                  inode_tab := (inode_tab s)[i := if dumptimes then inode\<lparr>ib_last_block := Some new\<rparr>
                     else inode\<lparr>ib_blocks := Some new, ib_last_block := Some new\<rparr>]\<rparr>)"

lemma insert_append:
  assumes inv: "store_inv dumptimes ow s" and i: "i < length (inode_tab s)" and memory_left: "has_room s"
    and ext: "extends_last s i offset b = Value None"
  shows "\<exists>al gen n. let s1 = s\<lparr>bmap_allocated := al, bmap_gen := gen, allocs := n\<rparr> in
    insert_new_block dumptimes i offset b s = Value (appended dumptimes i offset b ow s1)
    \<and> store_inv dumptimes ow s1 \<and> length (bmap s) < al
    \<and> (al = bmap_allocated s \<and> n = allocs s \<or> al = BMAP_ALLOC_ENTRIES \<and> bmap_allocated s = 0 \<and> n = allocs s - 1)"
proof -
  obtain al gen n where g: "grow_bmap s = Value (s\<lparr>bmap_allocated := al, bmap_gen := gen, allocs := n\<rparr>)"
    "store_inv dumptimes ow (s\<lparr>bmap_allocated := al, bmap_gen := gen, allocs := n\<rparr>)" "length (bmap s) < al"
    "al = bmap_allocated s \<and> n = allocs s \<or> al = BMAP_ALLOC_ENTRIES \<and> bmap_allocated s = 0 \<and> n = allocs s - 1"
    using grow_case [OF inv memory_left] by blast
  define s1 where "s1 = s\<lparr>bmap_allocated := al, bmap_gen := gen, allocs := n\<rparr>"
  note D = store_invD [OF g(2) [folded s1_def]]
  have i1: "i < length (inode_tab s1)" using i by (simp add: s1_def)
  have "insert_new_block dumptimes i offset b s = Value (appended dumptimes i offset b ow s1)"
  proof (cases "dumptimes")
    case True
    then show ?thesis using i1 by (simp add: insert_new_block_def ext g(1) flip: s1_def) (simp add: appended_def Let_def)
  next
    case False
    show ?thesis
    proof (cases "last_of ow i")
      case None
      then show ?thesis using i1 False D(4) [OF i1]
        by (simp add: insert_new_block_def ext g(1) flip: s1_def) (simp add: appended_def Let_def)
    next
      case (Some p)
      then have "p < length (bmap s1)" using last_of_bound D(1) by metis
      then show ?thesis using i1 False D(4) [OF i1] Some
        by (simp add: insert_new_block_def ext g(1) map_at_def flip: s1_def) (simp add: appended_def Let_def nth_append)
    qed
  qed
  then show ?thesis using g(2-4) unfolding s1_def Let_def by blast
qed

lemma expand_link [simp]: "expand (m\<lparr>bm_u := u\<rparr>) = expand m"
  by (simp add: expand_def)

lemma map_ok_link [simp]: "map_ok (m\<lparr>bm_u := u\<rparr>) = map_ok m"
  by (simp add: map_ok_def)

lemma appended_fields:
  assumes "length ow = length (bmap s)" and i: "i < length (inode_tab s)"
  shows "length (bmap (appended dumptimes i offset b ow s)) = Suc (length (bmap s))"
    and "k < length (bmap s) \<Longrightarrow> bmap (appended dumptimes i offset b ow s) ! k =
      (if \<not> dumptimes \<and> last_of ow i = Some k then (bmap s ! k)\<lparr>bm_u := Next_map (Some (bmap_gen s, length (bmap s)))\<rparr>
       else bmap s ! k)"
    and "bmap (appended dumptimes i offset b ow s) ! length (bmap s) =
      \<lparr>bm_block = b, bm_len = 1, bm_offset = offset, bm_u = if dumptimes then Of_inode i else Next_map None\<rparr>"
    and "length (inode_tab (appended dumptimes i offset b ow s)) = length (inode_tab s)"
    and "j \<noteq> i \<Longrightarrow> inode_tab (appended dumptimes i offset b ow s) ! j = inode_tab s ! j"
    and "ib_last_block (inode_tab (appended dumptimes i offset b ow s) ! i) = Some (bmap_gen s, length (bmap s))"
    and "ib_blocks (inode_tab (appended dumptimes i offset b ow s) ! i) =
      (if \<not> dumptimes \<and> last_of ow i = None then Some (bmap_gen s, length (bmap s)) else ib_blocks (inode_tab s ! i))"
    and "ib_ino (inode_tab (appended dumptimes i offset b ow s) ! i) = ib_ino (inode_tab s ! i)"
    and "ib_name (inode_tab (appended dumptimes i offset b ow s) ! i) = ib_name (inode_tab s ! i)"
    and "bmap_gen (appended dumptimes i offset b ow s) = bmap_gen s"
    and "bmap_allocated (appended dumptimes i offset b ow s) = bmap_allocated s"
    and "allocs (appended dumptimes i offset b ow s) = allocs s"
    and "iextents (appended dumptimes i offset b ow s) = iextents s"
    and "inodes (appended dumptimes i offset b ow s) = inodes s"
    and "inode_hash (appended dumptimes i offset b ow s) = inode_hash s"
  using assms last_of_bound [of ow i]
  by (auto simp: appended_def Let_def nth_append nth_list_update split: option.splits)

lemma appended_inv:
  assumes inv: "store_inv dumptimes ow s" and i: "i < length (inode_tab s)" and b: "b \<noteq> 0"
    and al: "length (bmap s) < bmap_allocated s"
  shows "store_inv dumptimes (ow @ [i]) (appended dumptimes i offset b ow s)"
proof -
  note D = store_invD [OF inv]
  note F = appended_fields [OF D(1) i, where offset = offset and b = b]
  let ?s = "appended dumptimes i offset b ow s"
  have first: "first_of ow j = None \<longleftrightarrow> last_of ow j = None" for j
    by (auto simp: first_of_def last_of_def find_None_iff)
  have tab: "ib_last_block (inode_tab ?s ! j) = map_option (Pair (bmap_gen ?s)) (last_of (ow @ [i]) j)
      \<and> (\<not> dumptimes \<longrightarrow> ib_blocks (inode_tab ?s ! j) = map_option (Pair (bmap_gen ?s)) (first_of (ow @ [i]) j))"
    if "j < length (inode_tab ?s)" for j
  proof (cases "j = i")
    case True
    then show ?thesis using D(1) D(5) [OF i] first [of i]
      by (auto simp: F last_of_snoc first_of_snoc split: option.splits)
  next
    case False
    then show ?thesis using that D(4,5) [of j] F(4) by (auto simp: F last_of_snoc first_of_snoc split: option.splits)
  qed
  have ub: "unat b < 2 ^ 32" using unsigned_less [of b] by simp
  have map: "bm_u (bmap ?s ! k) = link_of dumptimes (bmap_gen ?s) (ow @ [i]) k \<and> map_ok (bmap ?s ! k)"
    if "k < length (bmap ?s)" for k
  proof (cases "k = length (bmap s)")
    case True
    then show ?thesis using D(1) b ub next_of_new [of ow i]
      by (auto simp: F link_of_def map_ok_def nth_append Suc_le_eq unat_gt_0)
  next
    case False
    then have k: "k < length (bmap s)" using that F(1) by simp
    show ?thesis
      using D(6,7) [OF k] D(1) k next_of_None [of k ow] last_of_bound [of ow i k]
      by (auto simp: F(2) [OF k] F(10) link_of_def next_of_snoc nth_append split: option.splits)
  qed
  show ?thesis unfolding store_inv_def
    using D(1,3) i al tab map by (auto simp: F)
qed

lemma appended_contents:
  assumes inv: "store_inv dumptimes ow s" and i: "i < length (inode_tab s)"
  shows "file_blocks_of (ow @ [i]) (appended dumptimes i offset b ow s) j =
    file_blocks_of ow s j @ (if j = i then [(unat b, offset)] else [])"
proof -
  note D = store_invD [OF inv]
  note F = appended_fields [OF D(1) i, where offset = offset and b = b]
  have "expand (bmap (appended dumptimes i offset b ow s) ! k) = expand (bmap s ! k)" if "k \<in> set (chain_of ow j)" for k
    using that D(1) F(2) [of k] by (auto simp: set_chain)
  then have "map (\<lambda>k. expand (bmap (appended dumptimes i offset b ow s) ! k)) (chain_of ow j) = map (\<lambda>k. expand (bmap s ! k)) (chain_of ow j)"
    by simp
  then show ?thesis
    by (auto simp: file_blocks_of_def chain_of_snoc D(1) F(3) expand_def [of "\<lparr>bm_block = b, bm_len = 1, bm_offset = offset, bm_u = u\<rparr>" for u] cong: map_cong)
qed

lemma insert_new_block_spec:
  assumes inv: "store_inv dumptimes ow s" and i: "i < length (inode_tab s)" and b: "b \<noteq> 0" and memory_left: "has_room s"
  shows "\<exists>s' ow'. insert_new_block dumptimes i offset b s = Value s' \<and> store_inv dumptimes ow' s'
    \<and> (\<forall>j. file_blocks_of ow' s' j = file_blocks_of ow s j @ (if j = i then [(unat b, offset)] else []))
    \<and> same_rest s s' \<and> length (bmap s') \<le> length (bmap s) + 1
    \<and> (bmap_allocated s' = bmap_allocated s \<and> allocs s' = allocs s
       \<or> bmap_allocated s' = BMAP_ALLOC_ENTRIES \<and> bmap_allocated s = 0 \<and> allocs s' = allocs s - 1)"
proof (cases "\<exists>k. extends_last s i offset b = Value (Some k)")
  case True
  then obtain k where k: "extends_last s i offset b = Value (Some k)" by blast
  let ?s = "s\<lparr>bmap := (bmap s)[k := (bmap s ! k)\<lparr>bm_len := bm_len (bmap s ! k) + 1\<rparr>]\<rparr>"
  have "insert_new_block dumptimes i offset b s = Value ?s" by (simp add: insert_new_block_def k)
  then show ?thesis using extend_case [OF inv i b k refl]
    by (intro exI [of _ ?s] exI [of _ ow]) (auto simp: same_rest_def)
next
  case False
  have "extends_last s i offset b = Value None"
  proof (cases "last_of ow i")
    case None
    then show ?thesis using store_invD(4) [OF inv i] by (simp add: extends_last_def)
  next
    case (Some p)
    then have "p < length (bmap s)" using last_of_bound store_invD(1) [OF inv] by metis
    then show ?thesis using False Some store_invD(4) [OF inv i]
      by (auto simp: extends_last_def map_at_def Let_def split: if_splits)
  qed
  from insert_append [OF inv i memory_left this] obtain al gen n where
    a: "insert_new_block dumptimes i offset b s = Value (appended dumptimes i offset b ow (s\<lparr>bmap_allocated := al, bmap_gen := gen, allocs := n\<rparr>))"
    "store_inv dumptimes ow (s\<lparr>bmap_allocated := al, bmap_gen := gen, allocs := n\<rparr>)" "length (bmap s) < al"
    "al = bmap_allocated s \<and> n = allocs s \<or> al = BMAP_ALLOC_ENTRIES \<and> bmap_allocated s = 0 \<and> n = allocs s - 1"
    unfolding Let_def by blast
  define s1 where "s1 = s\<lparr>bmap_allocated := al, bmap_gen := gen, allocs := n\<rparr>"
  have i1: "i < length (inode_tab s1)" "length (bmap s1) < bmap_allocated s1" using i a(3) by (simp_all add: s1_def)
  note inv1 = a(2) [folded s1_def]
  note F = appended_fields [OF store_invD(1) [OF inv1] i1(1), where offset = offset and b = b]
  have c: "file_blocks_of ow s1 j = file_blocks_of ow s j" for j by (simp add: file_blocks_of_def s1_def)
  let ?s = "appended dumptimes i offset b ow s1"
  have "ib_ino (inode_tab ?s ! j) = ib_ino (inode_tab s ! j) \<and> ib_name (inode_tab ?s ! j) = ib_name (inode_tab s ! j)" for j
    by (cases "j = i") (simp_all add: F, simp_all add: s1_def)
  moreover have "length (inode_tab ?s) = length (inode_tab s)" "iextents ?s = iextents s" "inodes ?s = inodes s"
    "inode_hash ?s = inode_hash s"
    by (simp_all only: F) (simp_all add: s1_def)
  ultimately have "same_rest s ?s" by (simp add: same_rest_def)
  moreover have "length (bmap ?s) = length (bmap s) + 1" "bmap_allocated ?s = al" "allocs ?s = n"
    by (simp_all only: F) (simp_all add: s1_def)
  moreover have "store_inv dumptimes (ow @ [i]) ?s" by (rule appended_inv [OF inv1 i1(1) b i1(2)])
  moreover have "file_blocks_of (ow @ [i]) ?s j = file_blocks_of ow s j @ (if j = i then [(unat b, offset)] else [])" for j
    using appended_contents [OF inv1 i1(1), where offset = offset and b = b] c by simp
  ultimately show ?thesis using a(1) [folded s1_def] a(4)
    by (intro exI [of _ ?s] exI [of _ "ow @ [i]"]) auto
qed

section \<open>Storing the blocks of an inode\<close>

text \<open>The entries of the visited blocks: block and file offset, negative for indirect blocks.\<close>

fun visit_entries :: "u32 \<Rightarrow> iter_visit list \<Rightarrow> traverse_data \<Rightarrow> (u32 \<times> int) list" where
  "visit_entries blocksize [] td = []"
| "visit_entries blocksize (v # vs) td =
     (case track_depth (iv_offset v) (iv_parent_offset v) td of
        Value (depth, td') \<Rightarrow>
          (iv_block v, if 0 \<le> iv_offset v then iv_offset v
             else INDIRECT_TO_OFF (index_to_offset blocksize (td_depth td') (td_ind0 td') (td_ind1 td')) depth)
          # visit_entries blocksize vs td'
      | _ \<Rightarrow> [])"

definition visit_ok :: "iter_visit \<Rightarrow> bool" where
  "visit_ok v \<longleftrightarrow> -3 \<le> iv_offset v \<and> iv_block v \<noteq> 0"

definition wanted :: "input_extent_map list \<Rightarrow> (u32 \<times> int) list \<Rightarrow> (nat \<times> int) list" where
  "wanted ies es = map (\<lambda>(b, off). (unat b, off)) (filter (\<lambda>(b, off). unat b \<in> extent_blocks ies) es)"

lemma wanted_simps [simp]:
  "wanted ies [] = []"
  "wanted ies ((b, off) # es) = (if unat b \<in> extent_blocks ies then [(unat b, off)] else []) @ wanted ies es"
  "wanted ies (es @ es') = wanted ies es @ wanted ies es'"
  by (simp_all add: wanted_def)

lemma track_depth_ok:
  assumes "-3 \<le> offset"
  shows "\<exists>depth td'. track_depth offset po td = Value (depth, td') \<and> td_ino td' = td_ino td \<and> td_inode td' = td_inode td"
proof -
  have "offset \<ge> 0 \<or> offset = -1 \<or> offset = -2 \<or> offset = -3" using assms by presburger
  then show ?thesis
    by (auto simp: track_depth_def IND_COUNT_def DIND_COUNT_def TIND_COUNT_def)
qed

lemma track_depth_inode:
  "track_depth offset po (td\<lparr>td_inode := x\<rparr>) =
     (case track_depth offset po td of Value (depth, td') \<Rightarrow> Value (depth, td'\<lparr>td_inode := x\<rparr>)
      | Exit c \<Rightarrow> Exit c | Undefined \<Rightarrow> Undefined)"
  by (auto simp: track_depth_def)

lemma visit_entries_inode: "visit_entries blocksize vs (td\<lparr>td_inode := x\<rparr>) = visit_entries blocksize vs td"
  by (induction vs arbitrary: td) (auto simp: track_depth_inode split: run_result.splits)

text \<open>The sorted, separated extents of the input; what the search finds is what it should.\<close>

definition extents_ok :: "input_extent_map list \<Rightarrow> bool" where
  "extents_ok ies \<longleftrightarrow> separated_extents ies \<and> extents_fit ies"

lemma find_block_wanted: "extents_ok ies \<Longrightarrow> find_block junk ies b = None \<longleftrightarrow> unat b \<notin> extent_blocks ies"
  using find_block_spec [of ies b junk] extent_blocks_holds [of b ies]
  by (auto simp: extents_ok_def split: option.splits)

text \<open>
  Memory for \<open>b\<close> more extents in the array (which is allocated once) and \<open>n\<close> more inode structures.
\<close>

definition memory_left :: "b2f_state \<Rightarrow> nat \<Rightarrow> nat \<Rightarrow> bool" where
  "memory_left s b n \<longleftrightarrow> length (bmap s) + b \<le> BMAP_ALLOC_ENTRIES
     \<and> (bmap_allocated s = 0 \<or> bmap_allocated s = BMAP_ALLOC_ENTRIES)
     \<and> n + (if bmap_allocated s = 0 then 1 else 0) \<le> allocs s"

lemma same_rest_refl [simp]: "same_rest s s"
  by (simp add: same_rest_def)

lemma same_rest_trans: "same_rest s s' \<Longrightarrow> same_rest s' s'' \<Longrightarrow> same_rest s s''"
  by (simp add: same_rest_def)

lemma insert_with_room:
  assumes inv: "store_inv dumptimes ow s" and i: "i < length (inode_tab s)" and b: "b \<noteq> 0" and memory_left: "memory_left s (k + 1) n"
  shows "\<exists>s' ow'. insert_new_block dumptimes i offset b s = Value s' \<and> store_inv dumptimes ow' s'
    \<and> (\<forall>j. file_blocks_of ow' s' j = file_blocks_of ow s j @ (if j = i then [(unat b, offset)] else []))
    \<and> same_rest s s' \<and> memory_left s' k n"
proof -
  have "bmap_allocated s = 0 \<Longrightarrow> bmap s = []" using store_invD(2) [OF inv] by simp
  then have "has_room s" using memory_left by (auto simp: memory_left_def has_room_def split: if_splits)
  from insert_new_block_spec [OF inv i b this, where offset = offset] obtain s' ow' where
    s': "insert_new_block dumptimes i offset b s = Value s'" "store_inv dumptimes ow' s'"
    "\<forall>j. file_blocks_of ow' s' j = file_blocks_of ow s j @ (if j = i then [(unat b, offset)] else [])"
    "same_rest s s'" "length (bmap s') \<le> length (bmap s) + 1"
    "bmap_allocated s' = bmap_allocated s \<and> allocs s' = allocs s
       \<or> bmap_allocated s' = BMAP_ALLOC_ENTRIES \<and> bmap_allocated s = 0 \<and> allocs s' = allocs s - 1"
    by blast
  have "memory_left s' k n" using memory_left s'(5,6) by (auto simp: memory_left_def BMAP_ALLOC_ENTRIES_def split: if_splits)
  then show ?thesis using s'(1-4) by blast
qed

text \<open>One visit for an inode that has its structure.\<close>

lemma store_block_known:
  assumes inv: "store_inv dumptimes ow s" and i: "td_inode td = Some i" "i < length (inode_tab s)"
    "ib_ino (inode_tab s ! i) = td_ino td"
    and v: "visit_ok v" and ies: "extents_ok (iextents s)"
    and memory_left: "memory_left s (length (wanted (iextents s) (visit_entries blocksize [v] td)) + k) n"
  shows "\<exists>td' s' ow'. store_block dumptimes blocksize junk (iv_block v) (iv_offset v) (iv_parent_offset v) (td, s) = Value (td', s')
    \<and> td_inode td' = Some i \<and> td_ino td' = td_ino td
    \<and> (\<forall>vs. visit_entries blocksize (v # vs) td = visit_entries blocksize [v] td @ visit_entries blocksize vs td')
    \<and> store_inv dumptimes ow' s' \<and> same_rest s s' \<and> memory_left s' k n
    \<and> (\<forall>j. file_blocks_of ow' s' j = file_blocks_of ow s j
         @ (if j = i then wanted (iextents s) (visit_entries blocksize [v] td) else []))"
proof -
  obtain depth td' where t: "track_depth (iv_offset v) (iv_parent_offset v) td = Value (depth, td')"
    "td_ino td' = td_ino td" "td_inode td' = Some i"
    using track_depth_ok [of "iv_offset v" "iv_parent_offset v" td] v i(1) by (auto simp: visit_ok_def)
  let ?off = "if 0 \<le> iv_offset v then iv_offset v
    else INDIRECT_TO_OFF (index_to_offset blocksize (td_depth td') (td_ind0 td') (td_ind1 td')) depth"
  note fb = find_block_wanted [OF ies, of junk "iv_block v"]
  have "(inode_tab s ! i)\<lparr>ib_ino := td_ino td\<rparr> = inode_tab s ! i" using i(3) by (cases "inode_tab s ! i") simp
  then have tab: "(inode_tab s)[i := (inode_tab s ! i)\<lparr>ib_ino := td_ino td\<rparr>] = inode_tab s" by simp
  show ?thesis
  proof (cases "unat (iv_block v) \<in> extent_blocks (iextents s)")
    case False
    then have "store_block dumptimes blocksize junk (iv_block v) (iv_offset v) (iv_parent_offset v) (td, s) = Value (td', s)"
      using fb t by (simp add: store_block_def)
    then show ?thesis using t inv memory_left False
      by (intro exI [of _ td'] exI [of _ s] exI [of _ ow]) simp
  next
    case True
    then obtain x where x: "find_block junk (iextents s) (iv_block v) = Some x" using fb by blast
    have "memory_left s (k + 1) n" using memory_left t True by simp
    from insert_with_room [OF inv i(2) _ this, where b = "iv_block v" and offset = ?off] obtain s' ow' where
      s': "insert_new_block dumptimes i ?off (iv_block v) s = Value s'" "store_inv dumptimes ow' s'"
      "\<forall>j. file_blocks_of ow' s' j = file_blocks_of ow s j @ (if j = i then [(unat (iv_block v), ?off)] else [])"
      "same_rest s s'" "memory_left s' k n"
      using v by (auto simp: visit_ok_def)
    have td: "td'\<lparr>td_inode := Some i\<rparr> = td'" using t(3) by simp
    have ss: "s\<lparr>inode_tab := inode_tab s\<rparr> = s" by simp
    have "store_block dumptimes blocksize junk (iv_block v) (iv_offset v) (iv_parent_offset v) (td, s) = Value (td', s')"
      unfolding store_block_def by (simp only: t x prod.case and_then.simps option.case Let_def td t(2) tab ss s'(1))
    then show ?thesis using t s'(2-5) True
      by (intro exI [of _ td'] exI [of _ s'] exI [of _ ow']) simp
  qed
qed

lemma run_visits_known:
  assumes "store_inv dumptimes ow s" and "td_inode td = Some i" "i < length (inode_tab s)"
    "ib_ino (inode_tab s ! i) = td_ino td"
    and "\<forall>v\<in>set vs. visit_ok v" and "extents_ok (iextents s)"
    and "memory_left s (length (wanted (iextents s) (visit_entries blocksize vs td)) + k) n"
  shows "\<exists>td' s' ow'. store_visits dumptimes blocksize junk vs (td, s) = Value (td', s')
    \<and> store_inv dumptimes ow' s' \<and> same_rest s s' \<and> memory_left s' k n
    \<and> (\<forall>j. file_blocks_of ow' s' j = file_blocks_of ow s j
         @ (if j = i then wanted (iextents s) (visit_entries blocksize vs td) else []))"
  using assms
proof (induction vs arbitrary: ow s td)
  case Nil
  then show ?case by (intro exI [of _ td] exI [of _ s] exI [of _ ow]) simp
next
  case (Cons v vs)
  have split: "\<exists>td'. \<forall>vs. visit_entries blocksize (v # vs) td = visit_entries blocksize [v] td @ visit_entries blocksize vs td'"
    using track_depth_ok [of "iv_offset v" "iv_parent_offset v" td] Cons.prems(5) by (auto simp: visit_ok_def)
  then obtain td0 where td0: "visit_entries blocksize (v # vs) td = visit_entries blocksize [v] td @ visit_entries blocksize vs td0"
    by blast
  have memory_left: "memory_left s (length (wanted (iextents s) (visit_entries blocksize [v] td))
      + (length (wanted (iextents s) (visit_entries blocksize vs td0)) + k)) n"
    using Cons.prems(7) by (simp only: td0 wanted_simps(3) length_append add.assoc)
  have "visit_ok v" using Cons.prems(5) by simp
  from store_block_known [OF Cons.prems(1-4) this Cons.prems(6) memory_left, where junk = junk] obtain td1 s1 ow1 where
    one: "store_block dumptimes blocksize junk (iv_block v) (iv_offset v) (iv_parent_offset v) (td, s) = Value (td1, s1)"
    "td_inode td1 = Some i" "td_ino td1 = td_ino td"
    "\<forall>vs. visit_entries blocksize (v # vs) td = visit_entries blocksize [v] td @ visit_entries blocksize vs td1"
    "store_inv dumptimes ow1 s1" "same_rest s s1"
    "memory_left s1 (length (wanted (iextents s) (visit_entries blocksize vs td0)) + k) n"
    "\<forall>j. file_blocks_of ow1 s1 j = file_blocks_of ow s j
         @ (if j = i then wanted (iextents s) (visit_entries blocksize [v] td) else [])"
    by blast
  note split1 = one(4) [rule_format, of vs]
  have e: "visit_entries blocksize vs td0 = visit_entries blocksize vs td1"
    using trans [OF td0 [symmetric] split1] by (simp only: same_append_eq)
  have s1: "i < length (inode_tab s1)" "ib_ino (inode_tab s1 ! i) = td_ino td1" "iextents s1 = iextents s"
    using one(3,6) Cons.prems(3,4) by (auto simp: same_rest_def)
  obtain td' s' ow' where rest: "store_visits dumptimes blocksize junk vs (td1, s1) = Value (td', s')"
    "store_inv dumptimes ow' s'" "same_rest s1 s'" "memory_left s' k n"
    "\<forall>j. file_blocks_of ow' s' j = file_blocks_of ow1 s1 j
         @ (if j = i then wanted (iextents s) (visit_entries blocksize vs td1) else [])"
  proof -
    have "\<forall>v\<in>set vs. visit_ok v" using Cons.prems(5) by simp
    moreover have "extents_ok (iextents s1)" using Cons.prems(6) s1(3) by simp
    moreover have "memory_left s1 (length (wanted (iextents s1) (visit_entries blocksize vs td1)) + k) n"
      using one(7) by (simp only: s1(3) e)
    ultimately show thesis using Cons.IH [OF one(5,2) s1(1,2)] that unfolding s1(3) by blast
  qed
  have "store_visits dumptimes blocksize junk (v # vs) (td, s) = Value (td', s')"
    by (simp add: one(1) rest(1))
  moreover have "file_blocks_of ow' s' j = file_blocks_of ow s j
         @ (if j = i then wanted (iextents s) (visit_entries blocksize (v # vs) td) else [])" for j
    by (cases "j = i")
      (simp_all only: rest(5) one(8) split1 wanted_simps(3) append_assoc simp_thms if_True if_False append_Nil2)
  ultimately show ?case using rest(2,4) same_rest_trans [OF one(6) rest(3)] by blast
qed

section \<open>All inodes\<close>

text \<open>What the table of inodes says: number, name and the blocks with their offsets.\<close>

type_synonym file_view = "u32 \<times> byte list option \<times> (nat \<times> int) list"

definition view :: "nat list \<Rightarrow> b2f_state \<Rightarrow> file_view list" where
  "view ow s = map (\<lambda>i. (ib_ino (inode_tab s ! i), ib_name (inode_tab s ! i), file_blocks_of ow s i)) [0..<length (inode_tab s)]"

definition all_listed :: "b2f_state \<Rightarrow> bool" where
  "all_listed s \<longleftrightarrow> inodes s = rev [0..<length (inode_tab s)]"

definition found :: "u32 \<Rightarrow> (nat \<times> int) list \<Rightarrow> file_view list" where
  "found ino w = (if w = [] then [] else [(ino, None, w)])"

text \<open>The state with a structure for one more inode.\<close>

definition with_inode :: "u32 \<Rightarrow> b2f_state \<Rightarrow> b2f_state" where
  "with_inode ino s = s\<lparr>allocs := allocs s - 1,
     inode_tab := inode_tab s @ [\<lparr>ib_ino = ino, ib_blocks = None, ib_last_block = None, ib_name = None\<rparr>],
     inodes := length (inode_tab s) # inodes s\<rparr>"

lemma with_inode_inv:
  assumes inv: "store_inv dumptimes ow s"
  shows "store_inv dumptimes ow (with_inode ino s)"
    and "view ow (with_inode ino s) = view ow s @ [(ino, None, [])]"
proof -
  note D = store_invD [OF inv]
  have none: "last_of ow (length (inode_tab s)) = None" "first_of ow (length (inode_tab s)) = None"
  proof -
    have "length (inode_tab s) \<notin> set ow" using D(3) [of "length (inode_tab s)"] by blast
    then show "last_of ow (length (inode_tab s)) = None" "first_of ow (length (inode_tab s)) = None"
      by (auto simp: last_of_def first_of_def find_None_iff in_set_conv_nth)
  qed
  show "store_inv dumptimes ow (with_inode ino s)"
    unfolding store_inv_def with_inode_def using D none by (auto simp: nth_append less_Suc_eq)
  have "file_blocks_of ow (with_inode ino s) = file_blocks_of ow s" by (rule ext) (simp add: file_blocks_of_def with_inode_def)
  moreover have "file_blocks_of ow s (length (inode_tab s)) = []" using none(1) by (simp add: file_blocks_of_def last_of_None)
  ultimately show "view ow (with_inode ino s) = view ow s @ [(ino, None, [])]"
    by (simp add: view_def nth_append) (simp add: with_inode_def nth_append)
qed

lemma room_with_inode: "memory_left s b (n + 1) \<Longrightarrow> memory_left (with_inode ino s) b n"
  by (auto simp: memory_left_def with_inode_def split: if_splits)

lemma store_block_new:
  assumes t: "track_depth (iv_offset v) (iv_parent_offset v) td = Value (depth, td')" "td_ino td' = td_ino td"
    and td: "td_inode td = None" "td_inode td' = None" and al: "0 < allocs s"
    and f: "find_block junk (iextents s) (iv_block v) = Some x"
  shows "store_block dumptimes blocksize junk (iv_block v) (iv_offset v) (iv_parent_offset v) (td, s) =
    store_block dumptimes blocksize junk (iv_block v) (iv_offset v) (iv_parent_offset v)
      (td\<lparr>td_inode := Some (length (inode_tab s))\<rparr>, with_inode (td_ino td) s)"
  using assms by (simp add: store_block_def track_depth_inode insert_new_inode_def alloc_def with_inode_def Let_def)

lemma view_add:
  assumes "same_rest s s'" and "i < length (inode_tab s)"
    and "\<forall>j. file_blocks_of ow' s' j = file_blocks_of ow s j @ (if j = i then w else [])"
    and "view ow s = V @ [(ino, name, c)]" and "i = length V"
  shows "view ow' s' = V @ [(ino, name, c @ w)]"
proof -
  have len: "length (inode_tab s) = Suc i" using arg_cong [OF assms(4), of length] assms(5) by (simp add: view_def)
  then have len': "length (inode_tab s') = Suc i" using assms(1) by (simp add: same_rest_def)
  have V: "map (\<lambda>j. (ib_ino (inode_tab s ! j), ib_name (inode_tab s ! j), file_blocks_of ow s j)) [0..<i] = V"
    "(ib_ino (inode_tab s ! i), ib_name (inode_tab s ! i), file_blocks_of ow s i) = (ino, name, c)"
    using assms(4) by (simp_all add: view_def len)
  have "map (\<lambda>j. (ib_ino (inode_tab s' ! j), ib_name (inode_tab s' ! j), file_blocks_of ow' s' j)) [0..<i] = V"
    unfolding V(1) [symmetric] using assms(1,3) len by (simp add: same_rest_def)
  moreover have "(ib_ino (inode_tab s' ! i), ib_name (inode_tab s' ! i), file_blocks_of ow' s' i) = (ino, name, c @ w)"
    using V(2) assms(1,3) len by (simp add: same_rest_def)
  ultimately show ?thesis by (simp add: view_def len')
qed

lemma run_visits_new:
  assumes "store_inv dumptimes ow s" and "td_inode td = None"
    and "\<forall>v\<in>set vs. visit_ok v" and "extents_ok (iextents s)" and "all_listed s"
    and "memory_left s (length (wanted (iextents s) (visit_entries blocksize vs td)) + k) (n + 1)"
  shows "\<exists>td' s' ow'. store_visits dumptimes blocksize junk vs (td, s) = Value (td', s')
    \<and> store_inv dumptimes ow' s' \<and> iextents s' = iextents s \<and> memory_left s' k n \<and> all_listed s'
    \<and> view ow' s' = view ow s @ found (td_ino td) (wanted (iextents s) (visit_entries blocksize vs td))"
  using assms
proof (induction vs arbitrary: td)
  case Nil
  then show ?case by (intro exI [of _ td] exI [of _ s] exI [of _ ow]) (simp add: found_def memory_left_def)
next
  case (Cons v vs)
  have vok: "visit_ok v" "\<forall>v\<in>set vs. visit_ok v" using Cons.prems(3) by simp_all
  obtain depth td' where t: "track_depth (iv_offset v) (iv_parent_offset v) td = Value (depth, td')"
    "td_ino td' = td_ino td" "td_inode td' = None"
    using track_depth_ok [of "iv_offset v" "iv_parent_offset v" td] vok(1) Cons.prems(2) by (auto simp: visit_ok_def)
  note fb = find_block_wanted [OF Cons.prems(4), of junk "iv_block v"]
  show ?case
  proof (cases "unat (iv_block v) \<in> extent_blocks (iextents s)")
    case False
    then have one: "store_block dumptimes blocksize junk (iv_block v) (iv_offset v) (iv_parent_offset v) (td, s) = Value (td', s)"
      using fb t by (simp add: store_block_def)
    have e: "wanted (iextents s) (visit_entries blocksize (v # vs) td) = wanted (iextents s) (visit_entries blocksize vs td')"
      using t False by simp
    have "memory_left s (length (wanted (iextents s) (visit_entries blocksize vs td')) + k) (n + 1)"
      using Cons.prems(6) unfolding e .
    from Cons.IH [OF Cons.prems(1) t(3) vok(2) Cons.prems(4,5) this] show ?thesis
      unfolding e t(2) by (simp add: one)
  next
    case True
    let ?i = "length (inode_tab s)"
    let ?s = "with_inode (td_ino td) s"
    let ?td = "td\<lparr>td_inode := Some ?i\<rparr>"
    let ?w = "wanted (iextents s) (visit_entries blocksize (v # vs) td)"
    obtain x where x: "find_block junk (iextents s) (iv_block v) = Some x" using True fb by blast
    have al: "0 < allocs s" using Cons.prems(6) by (simp add: memory_left_def)
    have eq: "store_visits dumptimes blocksize junk (v # vs) (td, s) = store_visits dumptimes blocksize junk (v # vs) (?td, ?s)"
      by (simp only: store_visits.simps store_block_new [OF t(1,2) Cons.prems(2) t(3) al x])
    have s: "iextents ?s = iextents s" "?i < length (inode_tab ?s)" "ib_ino (inode_tab ?s ! ?i) = td_ino ?td"
      by (simp_all add: with_inode_def)
    have "memory_left ?s (length ?w + k) n" by (rule room_with_inode [OF Cons.prems(6)])
    then have "memory_left ?s (length (wanted (iextents ?s) (visit_entries blocksize (v # vs) ?td)) + k) n"
      by (simp only: s(1) visit_entries_inode)
    moreover have "td_inode ?td = Some ?i" by simp
    moreover have "extents_ok (iextents ?s)" using Cons.prems(4) s(1) by simp
    ultimately obtain td2 s2 ow2 where r: "store_visits dumptimes blocksize junk (v # vs) (?td, ?s) = Value (td2, s2)"
      "store_inv dumptimes ow2 s2" "same_rest ?s s2" "memory_left s2 k n"
      "\<forall>j. file_blocks_of ow2 s2 j = file_blocks_of ow ?s j @ (if j = ?i then ?w else [])"
      using run_visits_known [OF with_inode_inv(1) [OF Cons.prems(1)] _ s(2,3) Cons.prems(3), where junk = junk]
      unfolding s(1) visit_entries_inode by blast
    have "view ow2 s2 = view ow s @ [(td_ino td, None, [] @ ?w)]"
      by (rule view_add [OF r(3) s(2) r(5) with_inode_inv(2) [OF Cons.prems(1)]]) (simp add: view_def)
    moreover have "?w \<noteq> []" using t True by simp
    moreover have "all_listed s2" using r(3) Cons.prems(5) by (simp add: all_listed_def same_rest_def with_inode_def)
    moreover have "iextents s2 = iextents s" using r(3) by (simp add: same_rest_def with_inode_def)
    ultimately show ?thesis unfolding eq using r(1,2,4) by (auto simp only: found_def if_False append_Nil)
  qed
qed

text \<open>What the scan should find: the files with blocks of the input, and their blocks.\<close>

fun expected_files ::
  "u32 \<Rightarrow> (u32 \<Rightarrow> iter_visit list \<times> bool) \<Rightarrow> input_extent_map list \<Rightarrow> (int + scanned_inode) list \<Rightarrow> file_view list" where
  "expected_files blocksize blocks ies [] = []"
| "expected_files blocksize blocks ies (Inl error # scan) = []"
| "expected_files blocksize blocks ies (Inr inode # scan) =
     (if sc_inum inode = 0 then []
      else (if scanned inode
            then found (sc_inum inode) (wanted ies (visit_entries blocksize (fst (blocks (sc_inum inode))) (new_traversal (sc_inum inode))))
            else [])
           @ expected_files blocksize blocks ies scan)"

text \<open>A scan without errors, in which the iterations only pass blocks that exist.\<close>

fun scan_ok :: "(u32 \<Rightarrow> iter_visit list \<times> bool) \<Rightarrow> (int + scanned_inode) list \<Rightarrow> bool" where
  "scan_ok blocks [] \<longleftrightarrow> True"
| "scan_ok blocks (Inl error # scan) \<longleftrightarrow> False"
| "scan_ok blocks (Inr inode # scan) \<longleftrightarrow>
     sc_inum inode = 0
     \<or> (scanned inode \<longrightarrow> snd (blocks (sc_inum inode)) \<and> list_all visit_ok (fst (blocks (sc_inum inode))))
       \<and> scan_ok blocks scan"

definition block_total :: "file_view list \<Rightarrow> nat" where
  "block_total fs = sum_list (map (\<lambda>(ino, name, w). length w) fs)"

lemma block_total_simps [simp]:
  "block_total [] = 0" "block_total (fs @ gs) = block_total fs + block_total gs"
  "block_total (found ino w) = length w"
  by (simp_all add: block_total_def found_def)

lemma room_less: "memory_left s k (Suc n) \<Longrightarrow> memory_left s k n"
  by (auto simp: memory_left_def)

lemma scan_inodes_spec:
  assumes "store_inv dumptimes ow s" and "extents_ok (iextents s)" and "all_listed s" and "scan_ok blocks scan"
    and "memory_left s (block_total (expected_files blocksize blocks (iextents s) scan)) (length scan)"
  shows "\<exists>s' ow'. scan_inodes dumptimes blocksize junk blocks scan s = Value s'
    \<and> store_inv dumptimes ow' s' \<and> all_listed s' \<and> iextents s' = iextents s
    \<and> view ow' s' = view ow s @ expected_files blocksize blocks (iextents s) scan"
  using assms
proof (induction scan arbitrary: s ow)
  case (Cons x scan)
  obtain inode where x: "x = Inr inode" using Cons.prems(4) by (cases x) auto
  let ?fs = "expected_files blocksize blocks (iextents s) scan"
  consider "sc_inum inode = 0" | "sc_inum inode \<noteq> 0" "\<not> scanned inode" | "sc_inum inode \<noteq> 0" "scanned inode"
    by blast
  then show ?case
  proof cases
    case 1
    then show ?thesis using Cons.prems by (auto simp: x)
  next
    case 2
    then show ?thesis using Cons.prems Cons.IH [OF Cons.prems(1-3)] room_less by (auto simp: x)
  next
    case 3
    let ?vs = "fst (blocks (sc_inum inode))"
    let ?w = "wanted (iextents s) (visit_entries blocksize ?vs (new_traversal (sc_inum inode)))"
    have ok: "\<forall>v\<in>set ?vs. visit_ok v" "snd (blocks (sc_inum inode))" "scan_ok blocks scan"
      using Cons.prems(4) 3 by (auto simp: x list_all_iff)
    have "memory_left s (length ?w + block_total ?fs) (length scan + 1)" using Cons.prems(5) 3 by (simp add: x)
    from run_visits_new [OF Cons.prems(1) _ ok(1) Cons.prems(2,3) this, where junk = junk] obtain td1 s1 ow1 where
      one: "store_visits dumptimes blocksize junk ?vs (new_traversal (sc_inum inode), s) = Value (td1, s1)"
      "store_inv dumptimes ow1 s1" "iextents s1 = iextents s" "memory_left s1 (block_total ?fs) (length scan)"
      "all_listed s1" "view ow1 s1 = view ow s @ found (td_ino (new_traversal (sc_inum inode))) ?w"
      by (auto simp: new_traversal_def)
    have "td_ino (new_traversal (sc_inum inode)) = sc_inum inode" by (simp add: new_traversal_def)
    then show ?thesis
      using Cons.IH [OF one(2) _ one(5) ok(3)] Cons.prems(2) one(1,3,4,6) 3 ok(2) by (simp add: x)
  qed
qed auto

definition start_state :: "input_extent_map list \<Rightarrow> nat \<Rightarrow> b2f_state" where
  "start_state ies n = \<lparr>iextents = ies, bmap = [], bmap_allocated = 0, bmap_gen = 0, inode_tab = [],
     inodes = [], inode_hash = [], allocs = n\<rparr>"

lemma map_blocks_spec:
  assumes "extents_ok ies" and "scan_ok blocks scan"
    and "block_total (expected_files blocksize blocks ies scan) \<le> BMAP_ALLOC_ENTRIES" and "length scan + 2 \<le> n"
  shows "\<exists>s' ow'. map_blocks dumptimes blocksize junk blocks True scan (start_state ies n) = Value s'
    \<and> store_inv dumptimes ow' s' \<and> all_listed s' \<and> view ow' s' = expected_files blocksize blocks ies scan"
proof -
  let ?s = "(start_state ies n)\<lparr>allocs := n - 1\<rparr>"
  have inv: "store_inv dumptimes [] ?s" "all_listed ?s" "view [] ?s = []"
    by (simp_all add: store_inv_def start_state_def all_listed_def view_def)
  have ies: "iextents ?s = ies" by (simp add: start_state_def)
  have "memory_left ?s (block_total (expected_files blocksize blocks (iextents ?s) scan)) (length scan)"
    using assms(3,4) by (simp add: memory_left_def start_state_def)
  from scan_inodes_spec [OF inv(1) _ inv(2) assms(2) this, where junk = junk]
  obtain s' ow' where "scan_inodes dumptimes blocksize junk blocks scan ?s = Value s'"
    "store_inv dumptimes ow' s'" "all_listed s'" "view ow' s' = expected_files blocksize blocks ies scan"
    using assms(1) unfolding inv(3) ies by auto
  moreover have "alloc (start_state ies n) = Value ?s" using assms(4) by (simp add: alloc_def start_state_def)
  ultimately show ?thesis by (auto simp: map_blocks_def)
qed

text \<open>
  A pointer of an older generation is used as soon as the array grows while an inode has extents:
  the last extent of the inode is in the memory that \<open>realloc\<close> freed.
\<close>

theorem insert_new_block_after_growth:
  assumes "store_inv False ow s" and "i < length (inode_tab s)" and "last_of ow i \<noteq> None"
    and "length (bmap s) = bmap_allocated s" and "0 < allocs s" and "offset < 0"
  shows "insert_new_block False i offset b s = Undefined"
proof -
  obtain p where p: "ib_last_block (inode_tab s ! i) = Some (bmap_gen s, p)"
    using store_invD(4) [OF assms(1,2)] assms(3) by auto
  then have "extends_last s i offset b = Value None" using assms(6) by (simp add: extends_last_def)
  then show ?thesis using p assms(4,5)
    by (simp add: insert_new_block_def grow_bmap_def alloc_def map_at_def Let_def)
qed

text \<open>
  The second double indirect block below a triple indirect one (block 1024 bytes): \<open>tree_ind[0]\<close>
  still holds the index of the last indirect block visited, so its offset is 256 blocks too high.
\<close>

theorem second_dind_offset:
  "visit_entries 1024 [\<lparr>iv_block = 9, iv_offset = -3, iv_parent_offset = 0\<rparr>, \<lparr>iv_block = 10, iv_offset = -2, iv_parent_offset = 0\<rparr>,
      \<lparr>iv_block = 11, iv_offset = -1, iv_parent_offset = 0\<rparr>, \<lparr>iv_block = 12, iv_offset = -1, iv_parent_offset = 4\<rparr>,
      \<lparr>iv_block = 13, iv_offset = -2, iv_parent_offset = 4\<rparr>] (new_traversal 7) ! 4
    = (13, INDIRECT_TO_OFF (uint (EXT2_TIND_OFFSET 1024) + 256 * 256 + 256) 1)"
  by code_simp

end
