(* ===== verification/E2block2file_Dump.thy ===== *)
theory E2block2file_Dump
  imports E2block2file_Collect
begin

text \<open>
  The output of \<open>e2block2file\<close>: per file (\<open>dump_inodes\<close>) or along the input (\<open>dump_times\<close>). A line
  of output is the list of the numbers and names it is formatted from.
\<close>

section \<open>Output per file\<close>

datatype dump_line =
    Inode_line u32 "byte list option"
  | Extent_line u32 u32 int
  | Unmapped_line int u32
  | Mapped_line int u32 int u32 "byte list option"

text \<open>
  The loop of \<open>dump_inode\<close> along the \<open>next\<close> pointers. With fuel for every extent of the array it
  reaches the end of the list.
\<close>

fun dump_extents :: "nat \<Rightarrow> b2f_state \<Rightarrow> bmap_ptr option \<Rightarrow> dump_line list run_result" where
  "dump_extents fuel s None = Value []"
| "dump_extents 0 s (Some p) = Undefined"
| "dump_extents (Suc fuel) s (Some p) =
     and_then (map_at s p) (\<lambda>k.
     case bm_u (bmap s ! k) of
       Of_inode i \<Rightarrow> Undefined
     | Next_map q \<Rightarrow>
         and_then (dump_extents fuel s q) (\<lambda>ls.
         Value (Extent_line (bm_block (bmap s ! k)) (bm_len (bmap s ! k)) (bm_offset (bmap s ! k)) # ls)))"

definition dump_inode :: "b2f_state \<Rightarrow> nat \<Rightarrow> dump_line list run_result" where
  "dump_inode s i =
     and_then (dump_extents (length (bmap s)) s (ib_blocks (inode_tab s ! i))) (\<lambda>ls.
     Value (Inode_line (ib_ino (inode_tab s ! i)) (ib_name (inode_tab s ! i)) # ls))"

fun dump_list :: "b2f_state \<Rightarrow> nat list \<Rightarrow> dump_line list run_result" where
  "dump_list s [] = Value []"
| "dump_list s (i # is) =
     and_then (dump_inode s i) (\<lambda>ls. and_then (dump_list s is) (\<lambda>ls'. Value (ls @ ls')))"

definition dump_inodes :: "b2f_state \<Rightarrow> dump_line list run_result" where
  "dump_inodes s = dump_list s (inodes s)"

section \<open>Following the links\<close>

lemma filter_find:
  "filter P [m..<n] = (case find P [m..<n] of None \<Rightarrow> [] | Some k \<Rightarrow> k # filter P [Suc k..<n])"
proof (induction "n - m" arbitrary: m)
  case (Suc d)
  then have "[m..<n] = m # [Suc m..<n]" by (simp add: upt_conv_Cons)
  then show ?case using Suc by (auto split: option.splits)
qed simp

lemma find_later: "find (\<lambda>k'. k < k' \<and> P k') [0..<n] = find P [Suc k..<n]"
proof (cases "Suc k \<le> n")
  case True
  then have "[0..<n] = [0..<Suc k] @ [Suc k..<n]" using upt_add_eq_append [of 0 "Suc k" "n - Suc k"] by simp
  moreover have "find (\<lambda>k'. k < k' \<and> P k') [0..<Suc k] = None" by (simp only: find_None_iff) auto
  moreover have "find (\<lambda>k'. k < k' \<and> P k') [Suc k..<n] = find P [Suc k..<n]" by (rule find_cong_set) auto
  ultimately show ?thesis by (simp only: find_append option.case)
next
  case False
  then show ?thesis by (auto simp: find_None_iff)
qed

definition extent_line :: "b2f_state \<Rightarrow> nat \<Rightarrow> dump_line" where
  "extent_line s k = Extent_line (bm_block (bmap s ! k)) (bm_len (bmap s ! k)) (bm_offset (bmap s ! k))"

lemma dump_extents_from:
  assumes inv: "store_inv False ow s"
  shows "length ow - m \<le> fuel \<Longrightarrow>
    dump_extents fuel s (map_option (Pair (bmap_gen s)) (find (\<lambda>k. ow ! k = i) [m..<length ow]))
    = Value (map (extent_line s) (filter (\<lambda>k. ow ! k = i) [m..<length ow]))"
proof (induction fuel arbitrary: m)
  case 0
  then show ?case by simp
next
  case (Suc fuel)
  show ?case
  proof (cases "find (\<lambda>k. ow ! k = i) [m..<length ow]")
    case None
    then show ?thesis by (simp add: filter_find [of _ m])
  next
    case (Some k)
    then have k: "m \<le> k" "k < length ow" "ow ! k = i" by (auto simp: find_Some_iff)
    note D = store_invD [OF inv]
    have "bm_u (bmap s ! k) = Next_map (map_option (Pair (bmap_gen s)) (find (\<lambda>k. ow ! k = i) [Suc k..<length ow]))"
      using D(6) [of k] k D(1) by (simp add: link_of_def next_of_def find_later)
    moreover have "dump_extents fuel s (map_option (Pair (bmap_gen s)) (find (\<lambda>k. ow ! k = i) [Suc k..<length ow]))
      = Value (map (extent_line s) (filter (\<lambda>k. ow ! k = i) [Suc k..<length ow]))"
      using Suc.prems k by (intro Suc.IH) simp
    ultimately show ?thesis using k D(1)
      by (simp add: Some [unfolded D(1)] map_at_def extent_line_def filter_find [of _ m])
  qed
qed

lemma dump_inode_spec:
  assumes "store_inv False ow s" and "i < length (inode_tab s)"
  shows "dump_inode s i = Value (Inode_line (ib_ino (inode_tab s ! i)) (ib_name (inode_tab s ! i))
    # map (extent_line s) (chain_of ow i))"
  using dump_extents_from [OF assms(1), of 0 "length (bmap s)" i] store_invD(1,5) [OF assms(1)] assms(2)
  by (simp add: dump_inode_def first_of_def chain_of_def)

text \<open>Reading the output back: the files, and the blocks of their extents.\<close>

fun line_blocks :: "dump_line \<Rightarrow> (nat \<times> int) list" where
  "line_blocks (Extent_line b n off) = map (\<lambda>j. (unat b + j, off + int j)) [0..<unat n]"
| "line_blocks _ = []"

fun is_extent_line :: "dump_line \<Rightarrow> bool" where
  "is_extent_line (Extent_line b n off) = True"
| "is_extent_line _ = False"

fun read_back :: "dump_line list \<Rightarrow> file_view list" where
  "read_back [] = []"
| "read_back (Inode_line ino name # ls) =
     (ino, name, concat (map line_blocks (takeWhile is_extent_line ls))) # read_back ls"
| "read_back (_ # ls) = read_back ls"

lemma read_back_extents:
  "read_back (map (extent_line s) ks @ ls) = read_back ls"
  by (induction ks) (simp_all add: extent_line_def)

lemma takeWhile_extents:
  "takeWhile is_extent_line (map (extent_line s) ks @ ls) = map (extent_line s) ks @ takeWhile is_extent_line ls"
  by (induction ks) (simp_all add: extent_line_def)

lemma line_blocks_extent: "concat (map line_blocks (map (extent_line s) ks)) = concat (map (\<lambda>k. expand (bmap s ! k)) ks)"
  by (induction ks) (simp_all add: extent_line_def expand_def)

definition starts_file :: "dump_line list \<Rightarrow> bool" where
  "starts_file ls \<longleftrightarrow> takeWhile is_extent_line ls = []"

lemma dump_list_spec:
  assumes inv: "store_inv False ow s"
  shows "\<forall>i\<in>set is. i < length (inode_tab s) \<Longrightarrow>
    \<exists>ls. dump_list s is = Value ls \<and> starts_file ls \<and> read_back ls = map (\<lambda>i. view ow s ! i) is"
proof (induction "is")
  case Nil
  then show ?case by (simp add: starts_file_def)
next
  case (Cons i "is")
  then obtain ls where ls: "dump_list s is = Value ls" "starts_file ls" "read_back ls = map (\<lambda>i. view ow s ! i) is"
    by auto
  have i: "i < length (inode_tab s)" using Cons.prems by simp
  have "view ow s ! i = (ib_ino (inode_tab s ! i), ib_name (inode_tab s ! i), file_blocks_of ow s i)"
    using i by (simp add: view_def)
  then show ?case
    using ls(2) by (simp add: dump_inode_spec [OF inv i] ls(1,3) read_back_extents takeWhile_extents
        starts_file_def line_blocks_extent file_blocks_of_def del: map_map)
qed

lemma dump_inodes_spec:
  assumes "store_inv False ow s" and "set (inodes s) = {..<length (inode_tab s)}"
  shows "\<exists>ls. dump_inodes s = Value ls \<and> read_back ls = map (\<lambda>i. view ow s ! i) (inodes s)"
  using dump_list_spec [OF assms(1), of "inodes s"] assms(2) by (auto simp: dump_inodes_def)

lemma map_view_rev: "map (\<lambda>i. xs ! i) (rev [0..<length xs]) = rev xs"
  by (simp add: rev_map [symmetric] map_nth)

text \<open>
  The output per file, without names: after a scan that reports every block once it is visited,
  the lines list for every file, the last one found first, exactly its blocks that belong to the
  input, in the order of the visits, with their offsets. Extents, links and pointers of the
  structures are an implementation of this list as long as the array is allocated once (at most 8192
  blocks).
\<close>

theorem map_blocks_dump_inodes_spec:
  assumes "extents_ok ies" and "scan_ok blocks scan"
    and "block_total (expected_files blocksize blocks ies scan) \<le> BMAP_ALLOC_ENTRIES" and "length scan + 2 \<le> n"
  shows "\<exists>s ls. map_blocks False blocksize junk blocks True scan (start_state ies n) = Value s
    \<and> dump_inodes s = Value ls \<and> read_back ls = rev (expected_files blocksize blocks ies scan)"
proof -
  obtain s ow where s: "map_blocks False blocksize junk blocks True scan (start_state ies n) = Value s"
    "store_inv False ow s" "all_listed s" "view ow s = expected_files blocksize blocks ies scan"
    using map_blocks_spec [OF assms, where dumptimes = False and junk = junk] by blast
  have "set (inodes s) = {..<length (inode_tab s)}" using s(3) by (auto simp: all_listed_def)
  from dump_inodes_spec [OF s(2) this] obtain ls where
    ls: "dump_inodes s = Value ls" "read_back ls = map (\<lambda>i. view ow s ! i) (inodes s)"
    by blast
  have "length (inode_tab s) = length (view ow s)" by (simp add: view_def)
  then have "read_back ls = rev (view ow s)" using ls(2) s(3) map_view_rev [of "view ow s"] by (simp add: all_listed_def)
  then show ?thesis using s(1,4) ls(1) by simp
qed

text \<open>Two files; the second has an indirect block; one block does not belong to the input.\<close>

definition b2f_sample_visits :: "u32 \<Rightarrow> iter_visit list \<times> bool" where
  "b2f_sample_visits ino =
     (if ino = 5 then ([\<lparr>iv_block = 20, iv_offset = 0, iv_parent_offset = 0\<rparr>, \<lparr>iv_block = 21, iv_offset = 1, iv_parent_offset = 0\<rparr>], True)
      else ([\<lparr>iv_block = 30, iv_offset = 0, iv_parent_offset = 0\<rparr>, \<lparr>iv_block = 22, iv_offset = -1, iv_parent_offset = 0\<rparr>], True))"

definition sample_scan :: "(int + scanned_inode) list" where
  "sample_scan = [Inr \<lparr>sc_inum = 5, sc_links = 1, sc_mode = 0x81A4\<rparr>, Inr \<lparr>sc_inum = 8, sc_links = 1, sc_mode = 0x81A4\<rparr>,
     Inr \<lparr>sc_inum = 0, sc_links = 0, sc_mode = 0\<rparr>]"

lemma sample_expected:
  "expected_files 1024 b2f_sample_visits [\<lparr>ie_block = 20, ie_len = 5\<rparr>] sample_scan
    = [(5, None, [(20, 0), (21, 1)]), (8, None, [(22, -48)])]"
  by (simp add: sample_scan_def b2f_sample_visits_def scanned_def S_ISREG_def S_ISDIR_def wanted_def found_def span_def
      new_traversal_def track_depth_def IND_COUNT_def INDIRECT_TO_OFF_def index_to_offset_def EXT2_IND_OFFSET_def)

lemma sample_ok:
  "extents_ok [\<lparr>ie_block = 20, ie_len = 5\<rparr>]" "scan_ok b2f_sample_visits sample_scan" "length sample_scan + 2 \<le> 5"
  "block_total [(5, None, [(20, 0), (21, 1)]), (8, None, [(22, -48)])] \<le> BMAP_ALLOC_ENTRIES"
  by (simp_all add: extents_ok_def separated_extents_def no_wrap_def sample_scan_def b2f_sample_visits_def visit_ok_def
      BMAP_ALLOC_ENTRIES_def block_total_def)

lemma log2i_1: "log2i 1 = 0"
  by code_simp

section \<open>Output along the input\<close>

definition block_map_cmp :: "block_map \<Rightarrow> block_map \<Rightarrow> int" where
  "block_map_cmp a b = sint (bm_block a - bm_block b)"

definition map_less :: "block_map \<Rightarrow> block_map \<Rightarrow> bool" where
  "map_less a b \<longleftrightarrow> block_map_cmp a b < 0"

definition map_end :: "block_map \<Rightarrow> u32" where
  "map_end m = bm_block m + bm_len m"

function find_map_loop :: "block_map list \<Rightarrow> u32 \<Rightarrow> int \<Rightarrow> int \<Rightarrow> int" where
  "find_map_loop ms blocknr start stop =
     (if \<not> start \<le> stop then start
      else
        (let mid = (start + stop) div 2; m = ms ! nat mid in
         if bm_block m \<le> blocknr \<and> map_end m > blocknr then mid
         else if bm_block m < blocknr then find_map_loop ms blocknr (mid + 1) stop
         else find_map_loop ms blocknr start (mid - 1)))"
  by pat_completeness auto
termination
  by (relation "measure (\<lambda>(ms, b, s, t). nat (t - s + 1))") auto

declare find_map_loop.simps [simp del]

text \<open>Both ways out of the loop return a valid index or, behind the last extent, \<open>NULL\<close>.\<close>

definition find_map_block :: "block_map list \<Rightarrow> u32 \<Rightarrow> nat option" where
  "find_map_block ms blocknr =
     (let k = find_map_loop ms blocknr 0 (int (length ms) - 1) in
      if k \<ge> int (length ms) then None else Some (nat k))"

text \<open>
  The inner loop of \<open>dump_times\<close> for one extent; \<open>blocknum\<close> is a \<open>long long\<close>. Each round prints at
  least one block when the extents are sorted, so fuel for the length is enough.
\<close>

fun dump_pieces :: "nat \<Rightarrow> b2f_state \<Rightarrow> int \<Rightarrow> u32 \<Rightarrow> dump_line list run_result" where
  "dump_pieces fuel s blocknum len =
     (if \<not> len > 0 then Value []
      else case fuel of
        0 \<Rightarrow> Undefined
      | Suc fuel \<Rightarrow>
          (case find_map_block (bmap s) (word_of_int blocknum) of
             None \<Rightarrow> Value [Unmapped_line blocknum len]
           | Some k \<Rightarrow>
               let m = bmap s ! k;
                   gap = blocknum < uint (bm_block m);
                   cur_len = (if gap then min (word_of_int (uint (bm_block m) - blocknum)) len else 0);
                   out = (if gap then [Unmapped_line blocknum cur_len] else []);
                   len = len - cur_len in
               if gap \<and> len = 0 then Value out
               else
                 (let blocknum = blocknum + uint cur_len;
                      piece = min len (word_of_int (uint (bm_len m) - (blocknum - uint (bm_block m)))) in
                  case bm_u m of
                    Next_map _ \<Rightarrow> Undefined
                  | Of_inode i \<Rightarrow>
                      and_then (dump_pieces fuel s (blocknum + uint piece) (len - piece)) (\<lambda>ls.
                      Value (out @ Mapped_line blocknum piece (bm_offset m + (blocknum - uint (bm_block m)))
                        (ib_ino (inode_tab s ! i)) (ib_name (inode_tab s ! i)) # ls)))))"

declare dump_pieces.simps [simp del]

fun dump_input :: "nat \<Rightarrow> int \<Rightarrow> b2f_state \<Rightarrow> (int \<times> u32) list \<Rightarrow> dump_line list run_result" where
  "dump_input shift partition_start s [] = Value []"
| "dump_input shift partition_start s ((blocknum, len) # input) =
     and_then (dump_pieces (unat (drop_bit shift len)) s (drop_bit shift (blocknum - partition_start)) (drop_bit shift len))
       (\<lambda>ls. and_then (dump_input shift partition_start s input) (\<lambda>ls'. Value (ls @ ls')))"

definition dump_times ::
  "(block_map list \<Rightarrow> block_map list) \<Rightarrow> u32 \<Rightarrow> u32 \<Rightarrow> int \<Rightarrow> (int \<times> u32) list \<Rightarrow> b2f_state \<Rightarrow> dump_line list run_result" where
  "dump_times srt blocksize blktrace_block_size partition_start input s =
     (let shift = log2i (blocksize div blktrace_block_size) in
      if shift < 0 then Undefined
      else dump_input (nat shift) partition_start (s\<lparr>bmap := srt (bmap s)\<rparr>) input)"

section \<open>The search for the next extent\<close>

definition m_start :: "block_map \<Rightarrow> nat" where "m_start m = unat (bm_block m)"
definition m_stop :: "block_map \<Rightarrow> nat" where "m_stop m = unat (bm_block m) + unat (bm_len m)"

definition sorted_maps :: "block_map list \<Rightarrow> bool" where
  "sorted_maps ms \<longleftrightarrow> sorted_wrt (\<lambda>m m'. m_stop m \<le> m_start m') ms
     \<and> (\<forall>m\<in>set ms. m_start m < m_stop m \<and> m_stop m < 2 ^ 32)"

lemma sorted_maps_nth:
  assumes "sorted_maps ms" and "k < length ms"
  shows "m_start (ms ! k) < m_stop (ms ! k)" and "unat (map_end (ms ! k)) = m_stop (ms ! k)"
    and "j < k \<Longrightarrow> m_stop (ms ! j) \<le> m_start (ms ! k)"
proof -
  have m: "ms ! k \<in> set ms" using assms(2) by simp
  show "m_start (ms ! k) < m_stop (ms ! k)" using assms(1) m by (simp add: sorted_maps_def)
  have "m_stop (ms ! k) < 2 ^ 32" using assms(1) m by (simp add: sorted_maps_def)
  then show "unat (map_end (ms ! k)) = m_stop (ms ! k)"
    by (simp add: map_end_def m_stop_def unat_word_ariths)
  show "j < k \<Longrightarrow> m_stop (ms ! j) \<le> m_start (ms ! k)"
    using assms sorted_wrt_nth_less unfolding sorted_maps_def by blast
qed

text \<open>The extents before \<open>s\<close> end before the block, those after \<open>t\<close> start behind it.\<close>

definition around :: "block_map list \<Rightarrow> u32 \<Rightarrow> int \<Rightarrow> int \<Rightarrow> bool" where
  "around ms b s t \<longleftrightarrow> 0 \<le> s \<and> s \<le> t + 1 \<and> t < int (length ms)
     \<and> (\<forall>j<length ms. (int j < s \<longrightarrow> m_stop (ms ! j) \<le> unat b) \<and> (t < int j \<longrightarrow> unat b < m_start (ms ! j)))"

definition first_after :: "block_map list \<Rightarrow> u32 \<Rightarrow> nat \<Rightarrow> bool" where
  "first_after ms b k \<longleftrightarrow> k \<le> length ms \<and> (\<forall>j<k. m_stop (ms ! j) \<le> unat b)
     \<and> (k < length ms \<longrightarrow> unat b < m_stop (ms ! k))"

lemma around_step:
  assumes sorted: "sorted_maps ms" and ar: "around ms b s t" and st: "s \<le> t"
  shows "m_stop (ms ! nat ((s + t) div 2)) \<le> unat b \<Longrightarrow> around ms b ((s + t) div 2 + 1) t"
    and "unat b < m_start (ms ! nat ((s + t) div 2)) \<Longrightarrow> around ms b s ((s + t) div 2 - 1)"
proof -
  let ?m = "nat ((s + t) div 2)"
  have m: "s \<le> (s + t) div 2" "(s + t) div 2 \<le> t" "0 \<le> s" "t < int (length ms)"
    using ar st by (auto simp: around_def)
  then have len: "?m < length ms" by linarith
  note mid = sorted_maps_nth [OF sorted len]
  show "around ms b ((s + t) div 2 + 1) t" if "m_stop (ms ! ?m) \<le> unat b"
  proof -
    have "m_stop (ms ! j) \<le> unat b" if "int j < (s + t) div 2 + 1" for j
    proof (cases "j = ?m")
      case False
      then have "j < ?m" using that m by linarith
      from mid(3) [OF this] show ?thesis using mid(1) \<open>m_stop (ms ! ?m) \<le> unat b\<close> by linarith
    qed (use \<open>m_stop (ms ! ?m) \<le> unat b\<close> in simp)
    then show ?thesis using ar m by (simp add: around_def)
  qed
  show "around ms b s ((s + t) div 2 - 1)" if "unat b < m_start (ms ! ?m)"
  proof -
    have "unat b < m_start (ms ! j)" if "(s + t) div 2 - 1 < int j" "j < length ms" for j
    proof (cases "j = ?m")
      case False
      then have "?m < j" using that m by linarith
      from sorted_maps_nth(3) [OF sorted that(2) this] show ?thesis
        using mid(1) \<open>unat b < m_start (ms ! ?m)\<close> by linarith
    qed (use \<open>unat b < m_start (ms ! ?m)\<close> in simp)
    then show ?thesis using ar m by (simp add: around_def)
  qed
qed

lemma around_empty:
  assumes "sorted_maps ms" and "around ms b s t" and "\<not> s \<le> t"
  shows "first_after ms b (nat s)"
proof -
  have s: "s = t + 1" "0 \<le> s" "t < int (length ms)" using assms(2,3) by (auto simp: around_def)
  have "unat b < m_stop (ms ! nat s)" if "nat s < length ms"
  proof -
    have "unat b < m_start (ms ! nat s)" using assms(2) that s by (simp add: around_def)
    with sorted_maps_nth(1) [OF assms(1) that] show ?thesis by linarith
  qed
  moreover have "m_stop (ms ! j) \<le> unat b" if "j < nat s" for j
    using assms(2) that s by (simp add: around_def)
  ultimately show ?thesis using s by (simp add: first_after_def)
qed

lemma find_map_loop_spec:
  assumes sorted: "sorted_maps ms"
  shows "around ms b s t \<Longrightarrow> 0 \<le> find_map_loop ms b s t \<and> first_after ms b (nat (find_map_loop ms b s t))"
proof (induction "nat (t - s + 1)" arbitrary: s t rule: less_induct)
  case less
  show ?case
  proof (cases "s \<le> t")
    case False
    then show ?thesis using around_empty [OF sorted less.prems] less.prems
      by (subst (1 2) find_map_loop.simps) (simp add: around_def)
  next
    case True
    let ?mid = "(s + t) div 2"
    let ?m = "ms ! nat ?mid"
    have m: "s \<le> ?mid" "?mid \<le> t" "0 \<le> s" "t < int (length ms)" using less.prems True by (auto simp: around_def)
    then have len: "nat ?mid < length ms" by linarith
    note mid = sorted_maps_nth [OF sorted len]
    have cmp: "bm_block ?m \<le> b \<longleftrightarrow> m_start ?m \<le> unat b" "map_end ?m > b \<longleftrightarrow> unat b < m_stop ?m"
      "bm_block ?m < b \<longleftrightarrow> m_start ?m < unat b"
      using mid(2) by (simp_all add: m_start_def word_le_nat_alt word_less_nat_alt)
    consider "m_start ?m \<le> unat b" "unat b < m_stop ?m" | "m_stop ?m \<le> unat b" | "unat b < m_start ?m"
      by linarith
    then show ?thesis
    proof cases
      case 1
      then have "find_map_loop ms b s t = ?mid"
        using True cmp by (subst find_map_loop.simps) (simp only: Let_def if_True if_False simp_thms)
      moreover have "m_stop (ms ! j) \<le> unat b" if "j < nat ?mid" for j using mid(3) [OF that] 1(1) by linarith
      ultimately show ?thesis using 1 m len by (simp add: first_after_def)
    next
      case 2
      then have "m_start ?m < unat b" using mid(1) by linarith
      then have "find_map_loop ms b s t = find_map_loop ms b (?mid + 1) t"
        using True cmp leD [OF 2] by (subst find_map_loop.simps) (simp only: Let_def if_True if_False simp_thms)
      then show ?thesis using less.hyps [OF _ around_step(1) [OF sorted less.prems True 2]] m by simp
    next
      case 3
      then have "find_map_loop ms b s t = find_map_loop ms b s (?mid - 1)"
        using True cmp by (subst find_map_loop.simps) (simp only: Let_def not_le [symmetric] if_True if_False simp_thms, auto)
      then show ?thesis using less.hyps [OF _ around_step(2) [OF sorted less.prems True 3]] m by simp
    qed
  qed
qed

lemma find_map_block_spec:
  assumes "sorted_maps ms"
  shows "case find_map_block ms b of Some k \<Rightarrow> k < length ms \<and> first_after ms b k
    | None \<Rightarrow> \<forall>m\<in>set ms. m_stop m \<le> unat b"
proof -
  let ?k = "find_map_loop ms b 0 (int (length ms) - 1)"
  have "around ms b 0 (int (length ms) - 1)" by (auto simp: around_def)
  from find_map_loop_spec [OF assms this] have k: "0 \<le> ?k" "first_after ms b (nat ?k)" by blast+
  show ?thesis
  proof (cases "?k \<ge> int (length ms)")
    case True
    then have "nat ?k = length ms" using k by (auto simp: first_after_def)
    then show ?thesis using True k(2) by (auto simp: find_map_block_def Let_def first_after_def in_set_conv_nth)
  next
    case False
    then show ?thesis using k by (auto simp: find_map_block_def Let_def)
  qed
qed

section \<open>The pieces of an extent\<close>

definition owner_at :: "b2f_state \<Rightarrow> int \<Rightarrow> (u32 \<times> byte list option \<times> int) option" where
  "owner_at s b =
     (case find (\<lambda>m. int (m_start m) \<le> b \<and> b < int (m_stop m)) (bmap s) of
        Some m \<Rightarrow> (case bm_u m of
            Of_inode i \<Rightarrow> Some (ib_ino (inode_tab s ! i), ib_name (inode_tab s ! i), bm_offset m + (b - int (m_start m)))
          | Next_map q \<Rightarrow> None)
      | None \<Rightarrow> None)"

definition owners_from :: "b2f_state \<Rightarrow> int \<Rightarrow> nat \<Rightarrow> (int \<times> (u32 \<times> byte list option \<times> int) option) list" where
  "owners_from s b n = map (\<lambda>j. (b + int j, owner_at s (b + int j))) [0..<n]"

fun line_owners :: "dump_line \<Rightarrow> (int \<times> (u32 \<times> byte list option \<times> int) option) list" where
  "line_owners (Unmapped_line b n) = map (\<lambda>j. (b + int j, None)) [0..<unat n]"
| "line_owners (Mapped_line b n off ino name) = map (\<lambda>j. (b + int j, Some (ino, name, off + int j))) [0..<unat n]"
| "line_owners _ = []"

lemma owners_from_split: "k \<le> n \<Longrightarrow> owners_from s b n = owners_from s b k @ owners_from s (b + int k) (n - k)"
proof -
  assume "k \<le> n"
  then have "[0..<n] = [0..<k] @ map (\<lambda>j. j + k) [0..<n - k]"
    using map_add_upt [of k "n - k"] upt_add_eq_append [of 0 k "n - k"] by simp
  then show ?thesis by (simp add: owners_from_def add.assoc add.commute add.left_commute)
qed

lemma owners_none:
  assumes "\<And>j. j < unat n \<Longrightarrow> owner_at s (b + int j) = None"
  shows "owners_from s b (unat n) = line_owners (Unmapped_line b n)"
  using assms by (simp add: owners_from_def)

lemma owner_at_mapped:
  assumes sorted: "sorted_maps (bmap s)" and k: "k < length (bmap s)" "bm_u (bmap s ! k) = Of_inode i"
    and b: "int (m_start (bmap s ! k)) \<le> b" "b < int (m_stop (bmap s ! k))"
  shows "owner_at s b = Some (ib_ino (inode_tab s ! i), ib_name (inode_tab s ! i), bm_offset (bmap s ! k) + (b - int (m_start (bmap s ! k))))"
proof -
  have "find (\<lambda>m. int (m_start m) \<le> b \<and> b < int (m_stop m)) (bmap s) = Some (bmap s ! k)"
    unfolding find_Some_iff
  proof (intro exI [of _ k] conjI allI impI)
    fix j assume "j < k"
    from sorted_maps_nth(3) [OF sorted k(1) this] b(1)
    show "\<not> (int (m_start (bmap s ! j)) \<le> b \<and> b < int (m_stop (bmap s ! j)))" by linarith
  qed (use k(1) b in simp_all)
  then show ?thesis by (simp add: owner_at_def k(2))
qed

lemma owner_at_unmapped:
  assumes "\<And>m. m \<in> set (bmap s) \<Longrightarrow> int (m_stop m) \<le> b \<or> b < int (m_start m)"
  shows "owner_at s b = None"
proof -
  have "find (\<lambda>m. int (m_start m) \<le> b \<and> b < int (m_stop m)) (bmap s) = None"
    unfolding find_None_iff using assms by fastforce
  then show ?thesis by (simp add: owner_at_def)
qed

lemma owner_before_first:
  assumes sorted: "sorted_maps (bmap s)" and k: "first_after (bmap s) b k" "k < length (bmap s)"
    and c: "int (unat b) \<le> c" "c < int (m_start (bmap s ! k))"
  shows "owner_at s c = None"
proof (rule owner_at_unmapped)
  fix m assume "m \<in> set (bmap s)"
  then obtain j where j: "m = bmap s ! j" "j < length (bmap s)" by (auto simp: in_set_conv_nth)
  consider "j < k" | "j = k" | "k < j" by linarith
  then show "int (m_stop m) \<le> c \<or> c < int (m_start m)"
  proof cases
    case 1
    then have "m_stop m \<le> unat b" using k(1) by (simp add: first_after_def j(1))
    then show ?thesis using c(1) by linarith
  next
    case 2
    then show ?thesis using c(2) j(1) by simp
  next
    case 3
    from sorted_maps_nth(3) [OF sorted j(2) this] sorted_maps_nth(1) [OF sorted k(2)] c(2)
    show ?thesis unfolding j(1) by linarith
  qed
qed

lemma min_unat_right: "unat b \<le> unat a \<Longrightarrow> min a b = (b::u32)"
  by (simp add: min_def flip: word_le_nat_alt)

lemma min_unat_left: "unat a \<le> unat b \<Longrightarrow> min a b = (a::u32)"
  by (simp add: min_def flip: word_le_nat_alt)

lemma word_minus_self: "(a::u32) - a = 0"
  by simp

lemma piece_step:
  assumes sorted: "sorted_maps (bmap s)" and k: "k < length (bmap s)" "bm_u (bmap s ! k) = Of_inode i"
    and b: "int (m_start (bmap s ! k)) \<le> b" "b < int (m_stop (bmap s ! k))" and len: "len \<noteq> 0"
    and n: "n = min len (word_of_int (uint (bm_len (bmap s ! k)) - (b - uint (bm_block (bmap s ! k)))))"
  shows "0 < unat n" and "unat n \<le> unat len"
    and "owners_from s b (unat n) = line_owners (Mapped_line b n (bm_offset (bmap s ! k) + (b - uint (bm_block (bmap s ! k))))
      (ib_ino (inode_tab s ! i)) (ib_name (inode_tab s ! i)))"
proof -
  let ?m = "bmap s ! k"
  let ?r = "uint (bm_len ?m) - (b - uint (bm_block ?m))"
  have blk: "uint (bm_block ?m) = int (m_start ?m)" "uint (bm_len ?m) = int (m_stop ?m) - int (m_start ?m)"
    by (simp_all add: m_start_def m_stop_def)
  have "m_stop ?m < 2 ^ 32" using sorted k(1) by (simp add: sorted_maps_def)
  then have "int (m_stop ?m) < 2 ^ 32" by simp
  then have r: "0 < ?r" "?r < 2 ^ 32" "?r = int (m_stop ?m) - b" using b unfolding blk by linarith+
  have un: "int (unat (word_of_int ?r :: u32)) = ?r" by (rule unat_of_small [OF less_imp_le [OF r(1)] r(2)])
  have "0 < unat len" using len by (simp add: unat_gt_0)
  moreover have "0 < unat (word_of_int ?r :: u32)" using un r(1) by linarith
  ultimately show "0 < unat n" by (simp add: n unat_min)
  show "unat n \<le> unat len" by (simp add: n unat_min)
  have "unat n \<le> unat (word_of_int ?r :: u32)" by (simp add: n unat_min)
  then have "b + int j < int (m_stop ?m)" if "j < unat n" for j using that un r(3) by linarith
  then show "owners_from s b (unat n) = line_owners (Mapped_line b n (bm_offset ?m + (b - uint (bm_block ?m)))
      (ib_ino (inode_tab s ! i)) (ib_name (inode_tab s ! i)))"
    using owner_at_mapped [OF sorted k, of "b + int j" for j] b(1) unfolding blk(1) by (auto simp: owners_from_def)
qed

lemma dump_pieces_spec:
  assumes sorted: "sorted_maps (bmap s)" and own: "\<forall>m\<in>set (bmap s). \<exists>i. bm_u m = Of_inode i"
  shows "0 \<le> b \<Longrightarrow> b + int (unat len) < 2 ^ 32 \<Longrightarrow> unat len \<le> fuel \<Longrightarrow>
    \<exists>ls. dump_pieces fuel s b len = Value ls \<and> concat (map line_owners ls) = owners_from s b (unat len)"
proof (induction fuel arbitrary: b len)
  case 0
  then have "len = 0" by (simp add: unsigned_eq_0_iff)
  then show ?case by (subst dump_pieces.simps) (simp add: owners_from_def)
next
  case (Suc fuel)
  show ?case
  proof (cases "len = 0")
    case True
    then show ?thesis by (subst dump_pieces.simps) (simp add: owners_from_def)
  next
    case False
    then have pos: "len > 0" "0 < unat len" by (simp_all add: word_neq_0_conv unat_gt_0)
    let ?b = "word_of_int b :: u32"
    have "b < 2 ^ 32" using Suc.prems(2) by linarith
    then have ub: "uint ?b = b" "int (unat ?b) = b" using Suc.prems(1) by (simp_all add: uint_word_of_int)
    note found = find_map_block_spec [OF sorted, of ?b]
    show ?thesis
    proof (cases "find_map_block (bmap s) ?b")
      case None
      have "owner_at s (b + int j) = None" for j
      proof (rule owner_at_unmapped)
        fix m assume "m \<in> set (bmap s)"
        then have "m_stop m \<le> unat ?b" using found None by simp
        then show "int (m_stop m) \<le> b + int j \<or> b + int j < int (m_start m)" using ub(2) by linarith
      qed
      then have "owners_from s b (unat len) = line_owners (Unmapped_line b len)" by (rule owners_none)
      moreover have "dump_pieces (Suc fuel) s b len = Value [Unmapped_line b len]"
        using pos(1) None by (subst dump_pieces.simps) simp
      ultimately show ?thesis by simp
    next
      case (Some k)
      then have k: "first_after (bmap s) ?b k" "k < length (bmap s)" using found by simp_all
      let ?m = "bmap s ! k"
      obtain i where i: "bm_u ?m = Of_inode i" using own k(2) nth_mem by blast
      let ?ino = "ib_ino (inode_tab s ! i)" and ?name = "ib_name (inode_tab s ! i)"
      have blk: "uint (bm_block ?m) = int (m_start ?m)" by (simp add: m_start_def)
      have "unat ?b < m_stop ?m" using k by (simp add: first_after_def)
      with ub(2) have stop: "b < int (m_stop ?m)" by linarith
      have mapped: "\<exists>ls. and_then (dump_pieces fuel s (b' + uint n) (len' - n)) (\<lambda>ls.
            Value (out @ Mapped_line b' n (bm_offset ?m + (b' - uint (bm_block ?m))) ?ino ?name # ls)) = Value ls
          \<and> concat (map line_owners ls) = concat (map line_owners out) @ owners_from s b' (unat len')"
        if b': "int (m_start ?m) \<le> b'" "b' < int (m_stop ?m)" "b' + int (unat len') < 2 ^ 32" "len' \<noteq> 0" "unat len' \<le> Suc fuel"
          and n: "n = min len' (word_of_int (uint (bm_len ?m) - (b' - uint (bm_block ?m))))" for b' len' n out
      proof -
        note p = piece_step [OF sorted k(2) i b'(1,2,4) n]
        have sub: "unat (len' - n) = unat len' - unat n" using p(2) by (simp add: unat_sub word_le_nat_alt)
        have "0 \<le> b' + uint n" "b' + uint n + int (unat (len' - n)) < 2 ^ 32" "unat (len' - n) \<le> fuel"
          using b' p(1,2) sub by (simp_all add: of_nat_diff)
        from Suc.IH [OF this] obtain ls where ls: "dump_pieces fuel s (b' + uint n) (len' - n) = Value ls"
          "concat (map line_owners ls) = owners_from s (b' + uint n) (unat (len' - n))"
          by blast
        have "owners_from s b' (unat len') = owners_from s b' (unat n) @ owners_from s (b' + uint n) (unat (len' - n))"
          using owners_from_split [OF p(2), of s b'] sub by simp
        then show ?thesis using ls p(3) by simp
      qed
      show ?thesis
      proof (cases "b < int (m_start ?m)")
        case False
        then have "dump_pieces (Suc fuel) s b len = and_then (dump_pieces fuel s (b + uint (min len (word_of_int (uint (bm_len ?m) - (b - uint (bm_block ?m))))))
            (len - min len (word_of_int (uint (bm_len ?m) - (b - uint (bm_block ?m)))))) (\<lambda>ls.
            Value ([] @ Mapped_line b (min len (word_of_int (uint (bm_len ?m) - (b - uint (bm_block ?m))))) (bm_offset ?m + (b - uint (bm_block ?m))) ?ino ?name # ls))"
          using pos(1) Some i blk by (subst dump_pieces.simps) (simp add: Let_def)
        then show ?thesis
          using mapped [OF _ stop Suc.prems(2) \<open>len \<noteq> 0\<close> Suc.prems(3) refl, of "[]"] False by simp
      next
        case gap: True
        let ?d = "word_of_int (uint (bm_block ?m) - b) :: u32"
        have "m_start ?m < 2 ^ 32" by (simp add: m_start_def unsigned_less [where 'a = nat and 'b = 32, simplified])
        then have "int (m_start ?m) < 2 ^ 32" by simp
        then have "0 \<le> uint (bm_block ?m) - b" "uint (bm_block ?m) - b < 2 ^ 32"
          using gap Suc.prems(1) unfolding blk by linarith+
        from unat_of_small [OF this] have d: "int (unat ?d) = int (m_start ?m) - b" by (simp only: blk)
        have none: "owner_at s (b + int j) = None" if "j < unat ?d" for j
          using that d ub(2) by (intro owner_before_first [OF sorted k]) linarith+
        show ?thesis
        proof (cases "unat len \<le> unat ?d")
          case True
          note min = min_unat_right [OF True]
          have "dump_pieces (Suc fuel) s b len = Value [Unmapped_line b len]"
            using pos(1) Some gap blk min
            by (subst dump_pieces.simps)
              (simp only: Let_def option.case nat.case if_True if_False simp_thms word_minus_self)
          moreover have "owners_from s b (unat len) = line_owners (Unmapped_line b len)"
            using none True by (intro owners_none) simp
          ultimately show ?thesis by simp
        next
          case False
          then have dl: "unat ?d \<le> unat len" "?d \<noteq> len" by auto
          note min = min_unat_left [OF dl(1)]
          have sub: "unat (len - ?d) = unat len - unat ?d" using dl(1) by (simp add: unat_sub word_le_nat_alt)
          have b': "b + uint ?d = int (m_start ?m)" using d by simp
          have len': "len - ?d \<noteq> 0" using dl(2) by simp
          let ?n = "min (len - ?d) (word_of_int (uint (bm_len ?m) - (b + uint ?d - uint (bm_block ?m))))"
          have "dump_pieces (Suc fuel) s b len = and_then (dump_pieces fuel s (b + uint ?d + uint ?n) (len - ?d - ?n)) (\<lambda>ls.
              Value ([Unmapped_line b ?d] @ Mapped_line (b + uint ?d) ?n (bm_offset ?m + (b + uint ?d - uint (bm_block ?m))) ?ino ?name # ls))"
            using pos(1) Some gap blk i min len' by (subst dump_pieces.simps) (simp only: Let_def option.case nat.case if_True if_False simp_thms map_link.case)
          moreover have "b + uint ?d < int (m_stop ?m)" unfolding b' using sorted_maps_nth(1) [OF sorted k(2)] by simp
          moreover have "b + uint ?d + int (unat (len - ?d)) < 2 ^ 32" using Suc.prems(2) dl(1) sub by (simp add: of_nat_diff)
          moreover have "unat (len - ?d) \<le> Suc fuel" using sub Suc.prems(3) by simp
          ultimately obtain ls where ls: "dump_pieces (Suc fuel) s b len = Value ls"
            "concat (map line_owners ls) = concat (map line_owners [Unmapped_line b ?d]) @ owners_from s (b + uint ?d) (unat (len - ?d))"
            using mapped [OF eq_refl [OF b' [symmetric]] _ _ len' _ refl, of "[Unmapped_line b ?d]"] by metis
          have "owners_from s b (unat ?d) = line_owners (Unmapped_line b ?d)" using none by (rule owners_none)
          then have "owners_from s b (unat len) = line_owners (Unmapped_line b ?d) @ owners_from s (b + uint ?d) (unat (len - ?d))"
            using owners_from_split [OF dl(1), of s b] sub by simp
          then show ?thesis using ls by simp
        qed
      qed
    qed
  qed
qed

section \<open>From the collected extents to the sorted array\<close>

definition file_owners :: "file_view list \<Rightarrow> (int \<times> (u32 \<times> byte list option \<times> int)) list" where
  "file_owners fs = concat (map (\<lambda>(ino, name, w). map (\<lambda>(b, off). (int b, (ino, name, off))) w) fs)"

definition distinct_blocks :: "file_view list \<Rightarrow> bool" where
  "distinct_blocks fs \<longleftrightarrow> distinct (concat (map (\<lambda>(ino, name, w). map fst w) fs))"

lemma file_owners_keys: "map fst (file_owners fs) = map int (concat (map (\<lambda>(ino, name, w). map fst w) fs))"
  by (induction fs) (auto simp: file_owners_def)

lemma owner_at_iff:
  assumes sorted: "sorted_maps (bmap s)" and own: "\<forall>m\<in>set (bmap s). \<exists>i. bm_u m = Of_inode i"
  shows "owner_at s b = Some x \<longleftrightarrow> (\<exists>m\<in>set (bmap s). \<exists>i. bm_u m = Of_inode i \<and> int (m_start m) \<le> b \<and> b < int (m_stop m)
    \<and> x = (ib_ino (inode_tab s ! i), ib_name (inode_tab s ! i), bm_offset m + (b - int (m_start m))))"
proof
  assume "owner_at s b = Some x"
  then obtain m i where "find (\<lambda>m. int (m_start m) \<le> b \<and> b < int (m_stop m)) (bmap s) = Some m" "bm_u m = Of_inode i"
    "x = (ib_ino (inode_tab s ! i), ib_name (inode_tab s ! i), bm_offset m + (b - int (m_start m)))"
    by (auto simp: owner_at_def split: option.splits map_link.splits)
  then show "\<exists>m\<in>set (bmap s). \<exists>i. bm_u m = Of_inode i \<and> int (m_start m) \<le> b \<and> b < int (m_stop m)
    \<and> x = (ib_ino (inode_tab s ! i), ib_name (inode_tab s ! i), bm_offset m + (b - int (m_start m)))"
    by (auto simp: find_Some_iff)
next
  assume "\<exists>m\<in>set (bmap s). \<exists>i. bm_u m = Of_inode i \<and> int (m_start m) \<le> b \<and> b < int (m_stop m)
    \<and> x = (ib_ino (inode_tab s ! i), ib_name (inode_tab s ! i), bm_offset m + (b - int (m_start m)))"
  then show "owner_at s b = Some x" using owner_at_mapped [OF sorted] by (fastforce simp: in_set_conv_nth)
qed

lemma chains_mset:
  "\<forall>j\<in>set ow. j < N \<Longrightarrow>
    mset (concat (map (\<lambda>i. concat (map f (chain_of ow i))) [0..<N])) = mset (concat (map f [0..<length ow]))"
proof (induction ow rule: rev_induct)
  case (snoc j ow)
  have "(\<Sum>i\<leftarrow>[0..<N]. if i = j then mset (f (length ow)) else {#}) = mset (f (length ow))"
    using snoc.prems by (simp add: interv_sum_list_conv_sum_set_nat sum.delta)
  moreover have "mset (concat (map f (chain_of (ow @ [j]) i)))
      = mset (concat (map f (chain_of ow i))) + (if i = j then mset (f (length ow)) else {#})" for i
    by (simp add: chain_of_snoc)
  ultimately show ?case using snoc
    by (simp add: mset_concat comp_def sum_list_addf)
qed (simp add: concat_eq_Nil_conv)

definition blocks_of :: "block_map \<Rightarrow> nat list" where
  "blocks_of m = [m_start m..<m_stop m]"

lemma expand_blocks: "map fst (expand m) = blocks_of m"
  by (simp add: expand_def blocks_of_def m_start_def m_stop_def comp_def map_add_upt add.commute)

lemma sorted_disjoint:
  "sorted_wrt (\<lambda>m m'. m_start m \<le> m_start m') ms \<Longrightarrow> distinct (concat (map blocks_of ms)) \<Longrightarrow>
    \<forall>m\<in>set ms. m_start m < m_stop m \<Longrightarrow> sorted_wrt (\<lambda>m m'. m_stop m \<le> m_start m') ms"
proof (induction ms)
  case (Cons m ms)
  have "m_stop m \<le> m_start m'" if m': "m' \<in> set ms" for m'
  proof (rule ccontr)
    assume "\<not> m_stop m \<le> m_start m'"
    then have "m_start m' \<in> set (blocks_of m)" using Cons.prems(1) m' by (auto simp: blocks_of_def)
    moreover have "m_start m' \<in> set (blocks_of m')" using Cons.prems(3) m' by (auto simp: blocks_of_def)
    ultimately show False using Cons.prems(2) m' by auto
  qed
  then show ?case using Cons by simp
qed simp

lemma map_less_consistent:
  assumes "\<forall>m\<in>A. m_start m < 2 ^ 31"
  shows "consistent_on map_less A" and "\<lbrakk>m \<in> A; m' \<in> A\<rbrakk> \<Longrightarrow> map_less m m' \<longleftrightarrow> m_start m < m_start m'"
proof -
  have eq: "map_less m m' \<longleftrightarrow> m_start m < m_start m'" if "m \<in> A" "m' \<in> A" for m m'
  proof -
    have b: "unat (bm_block m) < 2 ^ 31" "unat (bm_block m') < 2 ^ 31" using assms that by (auto simp: m_start_def)
    show ?thesis unfolding map_less_def block_map_cmp_def sint_difference [OF b] m_start_def by linarith
  qed
  then show "consistent_on map_less A" by (rule consistent_on_key)
  show "\<lbrakk>m \<in> A; m' \<in> A\<rbrakk> \<Longrightarrow> map_less m m' \<longleftrightarrow> m_start m < m_start m'" by (rule eq)
qed

interpretation map_qsort: c_qsort map_less "cmp_sort map_less"
  by unfold_locales (rule mset_cmp_sort, rule sorted_cmp_sort)

lemma mset_concat_cong: "mset xs = mset ys \<Longrightarrow> mset (concat (map f xs)) = mset (concat (map f ys))"
proof -
  assume "mset xs = mset ys"
  then have "mset (map (\<lambda>x. mset (f x)) xs) = mset (map (\<lambda>x. mset (f x)) ys)" by simp
  then have "sum_mset (mset (map (\<lambda>x. mset (f x)) xs)) = sum_mset (mset (map (\<lambda>x. mset (f x)) ys))" by simp
  then show ?thesis by (simp only: sum_mset_sum_list mset_concat map_map comp_def)
qed

text \<open>Every block of a file in the table is below 2^31.\<close>

definition small_blocks :: "file_view list \<Rightarrow> bool" where
  "small_blocks fs \<longleftrightarrow> (\<forall>(ino, name, w)\<in>set fs. \<forall>(b, off)\<in>set w. b < 2 ^ 31)"

lemma view_blocks:
  assumes "store_inv dumptimes ow s"
  shows "mset (concat (map (\<lambda>(ino, name, w). map fst w) (view ow s))) = mset (concat (map blocks_of (bmap s)))"
proof -
  have "concat (map (\<lambda>(ino, name, w). map fst w) (view ow s))
      = concat (map (\<lambda>i. concat (map (\<lambda>k. blocks_of (bmap s ! k)) (chain_of ow i))) [0..<length (inode_tab s)])"
    by (simp add: view_def comp_def file_blocks_of_def map_concat expand_blocks)
  also have "mset \<dots> = mset (concat (map (\<lambda>k. blocks_of (bmap s ! k)) [0..<length ow]))"
    using store_invD(3) [OF assms] by (intro chains_mset) blast
  also have "map (\<lambda>k. blocks_of (bmap s ! k)) [0..<length ow] = map blocks_of (bmap s)"
    unfolding store_invD(1) [OF assms] by (rule nth_equalityI) simp_all
  finally show ?thesis .
qed

lemma store_sorted:
  assumes inv: "store_inv dumptimes ow s" and dist: "distinct_blocks (view ow s)" and small: "small_blocks (view ow s)"
    and srt: "c_qsort map_less srt"
  shows "sorted_maps (srt (bmap s))"
proof -
  note vb = view_blocks [OF inv]
  have sets: "set (srt (bmap s)) = set (bmap s)" by (rule c_qsort.set_qsort [OF srt])
  have ok: "m_start m < m_stop m" if "m \<in> set (bmap s)" for m
    using that store_invD(7) [OF inv] by (fastforce simp: in_set_conv_nth map_ok_def m_start_def m_stop_def Suc_le_eq)
  have blk: "b < 2 ^ 31" if "m \<in> set (bmap s)" "b \<in> set (blocks_of m)" for m b
  proof -
    have "b \<in> set (concat (map blocks_of (bmap s)))" using that by auto
    then have "b \<in> set (concat (map (\<lambda>(ino, name, w). map fst w) (view ow s)))" using vb by (metis set_mset_mset)
    then show ?thesis using small by (force simp: small_blocks_def)
  qed
  have st: "m_start m < 2 ^ 31" "m_stop m \<le> 2 ^ 31" if "m \<in> set (bmap s)" for m
  proof -
    have "m_start m \<in> set (blocks_of m)" "m_stop m - 1 \<in> set (blocks_of m)"
      using ok [OF that] by (auto simp: blocks_of_def)
    then have "m_start m < 2 ^ 31" "m_stop m - 1 < 2 ^ 31" using blk [OF that] by blast+
    then show "m_start m < 2 ^ 31" "m_stop m \<le> 2 ^ 31" by linarith+
  qed
  have small': "\<forall>m\<in>set (bmap s). m_start m < 2 ^ 31" using st(1) by blast
  have "sorted_wrt (\<lambda>x y. \<not> map_less y x) (srt (bmap s))"
    by (rule c_qsort.qsort_sorted [OF srt map_less_consistent(1) [OF small']])
  then have "sorted_wrt (\<lambda>m m'. m_start m \<le> m_start m') (srt (bmap s))"
    by (rule sorted_wrt_mono_rel [rotated]) (simp add: sets map_less_consistent(2) [OF small'] not_less)
  moreover have "distinct (concat (map blocks_of (srt (bmap s))))"
    using dist vb mset_concat_cong [OF c_qsort.qsort_mset [OF srt], of blocks_of "bmap s"]
    unfolding distinct_blocks_def by (metis mset_eq_imp_distinct_iff)
  ultimately have "sorted_wrt (\<lambda>m m'. m_stop m \<le> m_start m') (srt (bmap s))"
    using ok sets by (intro sorted_disjoint) auto
  then show ?thesis using ok st(2) sets by (fastforce simp: sorted_maps_def)
qed

lemma expand_set: "(b, off) \<in> set (expand m) \<longleftrightarrow> m_start m \<le> b \<and> b < m_stop m \<and> off = bm_offset m + (int b - int (m_start m))"
  unfolding expand_def m_start_def m_stop_def
  by (auto simp: image_iff intro!: bexI [of _ "b - unat (bm_block m)"])

lemma in_file_owners:
  "(b, x) \<in> set (file_owners fs) \<longleftrightarrow> (\<exists>(ino, name, w)\<in>set fs. \<exists>b' off. (b', off) \<in> set w \<and> b = int b' \<and> x = (ino, name, off))"
  by (induction fs) (auto simp: file_owners_def)

lemma bex_image: "(\<exists>y\<in>f ` A. P y) \<longleftrightarrow> (\<exists>x\<in>A. P (f x))"
  by blast

lemma file_owners_view:
  assumes inv: "store_inv True ow s"
  shows "(b, x) \<in> set (file_owners (view ow s)) \<longleftrightarrow>
    (\<exists>m\<in>set (bmap s). \<exists>i. bm_u m = Of_inode i \<and> int (m_start m) \<le> b \<and> b < int (m_stop m)
      \<and> x = (ib_ino (inode_tab s ! i), ib_name (inode_tab s ! i), bm_offset m + (b - int (m_start m))))"
    (is "?L \<longleftrightarrow> ?R")
proof -
  note D = store_invD [OF inv]
  have u: "bm_u (bmap s ! k) = Of_inode (ow ! k)" if "k < length (bmap s)" for k
    using D(6) [OF that] by (simp add: link_of_def)
  have "?L \<longleftrightarrow> (\<exists>i<length (inode_tab s). \<exists>k\<in>set (chain_of ow i). \<exists>b' off. (b', off) \<in> set (expand (bmap s ! k))
      \<and> b = int b' \<and> x = (ib_ino (inode_tab s ! i), ib_name (inode_tab s ! i), off))"
    unfolding in_file_owners view_def set_map set_upt bex_image prod.case file_blocks_of_def set_concat UN_iff
      set_map bex_image atLeast0LessThan by blast
  also have "\<dots> \<longleftrightarrow> (\<exists>k<length (bmap s). \<exists>b' off. (b', off) \<in> set (expand (bmap s ! k))
      \<and> b = int b' \<and> x = (ib_ino (inode_tab s ! (ow ! k)), ib_name (inode_tab s ! (ow ! k)), off))"
  proof -
    have "(\<exists>i<N. \<exists>k\<in>set (chain_of ow i). Q i k) \<longleftrightarrow> (\<exists>k<length (bmap s). Q (ow ! k) k)"
      if "N = length (inode_tab s)" for Q N
      unfolding that Bex_def set_chain using D(1) D(3) [OF nth_mem] by metis
    from this [OF refl] show ?thesis .
  qed
  also have "\<dots> \<longleftrightarrow> (\<exists>k<length (bmap s). int (m_start (bmap s ! k)) \<le> b \<and> b < int (m_stop (bmap s ! k))
      \<and> x = (ib_ino (inode_tab s ! (ow ! k)), ib_name (inode_tab s ! (ow ! k)), bm_offset (bmap s ! k) + (b - int (m_start (bmap s ! k)))))"
  proof -
    have "(\<exists>b' off. (b', off) \<in> set (expand m) \<and> b = int b' \<and> x = (ino, name, off))
      \<longleftrightarrow> int (m_start m) \<le> b \<and> b < int (m_stop m) \<and> x = (ino, name, bm_offset m + (b - int (m_start m)))" for m ino name
      unfolding expand_set by (cases b) auto
    then show ?thesis by (simp only:)
  qed
  also have "\<dots> \<longleftrightarrow> ?R"
    unfolding Bex_def in_set_conv_nth using u by fastforce
  finally show ?thesis .
qed

lemma owner_at_view:
  assumes inv: "store_inv True ow s" and dist: "distinct_blocks (view ow s)" and small: "small_blocks (view ow s)"
    and srt: "c_qsort map_less srt"
  shows "owner_at (s\<lparr>bmap := srt (bmap s)\<rparr>) b = map_of (file_owners (view ow s)) b"
proof -
  let ?s = "s\<lparr>bmap := srt (bmap s)\<rparr>"
  have sets: "set (bmap ?s) = set (bmap s)" using c_qsort.set_qsort [OF srt] by simp
  have own: "\<forall>m\<in>set (bmap ?s). \<exists>i. bm_u m = Of_inode i"
    unfolding sets using store_invD(6) [OF inv] by (auto simp: in_set_conv_nth link_of_def)
  have sorted: "sorted_maps (bmap ?s)" using store_sorted [OF assms] by simp
  have "distinct (map fst (file_owners (view ow s)))"
    using dist unfolding file_owners_keys distinct_blocks_def by (simp add: distinct_map)
  then have "map_of (file_owners (view ow s)) b = Some x \<longleftrightarrow> owner_at ?s b = Some x" for x
    using owner_at_iff [OF sorted own, of b x] file_owners_view [OF inv, of b x] sets
    by (simp only: map_of_eq_Some_iff) simp
  then show ?thesis by (metis option.exhaust)
qed

text \<open>The pieces for a whole input, and what they should say.\<close>

definition input_pieces ::
  "int \<Rightarrow> nat \<Rightarrow> file_view list \<Rightarrow> (int \<times> u32) list \<Rightarrow> (int \<times> (u32 \<times> byte list option \<times> int) option) list" where
  "input_pieces partition_start shift fs input =
     concat (map (\<lambda>(n, len). map (\<lambda>j. let b = (n - partition_start) div 2 ^ shift + int j in (b, map_of (file_owners fs) b))
                            [0..<unat len div 2 ^ shift]) input)"

lemma dump_input_spec:
  assumes sorted: "sorted_maps (bmap s)" and own: "\<forall>m\<in>set (bmap s). \<exists>i. bm_u m = Of_inode i"
    and owners: "\<And>b. owner_at s b = map_of (file_owners fs) b"
  shows "\<forall>(n, len)\<in>set input. partition_start \<le> n \<Longrightarrow> input_fits partition_start shift input \<Longrightarrow>
    \<exists>ls. dump_input shift partition_start s input = Value ls \<and> concat (map line_owners ls) = input_pieces partition_start shift fs input"
proof (induction input)
  case Nil
  then show ?case by (simp add: input_pieces_def)
next
  case (Cons p input)
  obtain n len where p: "p = (n, len)" by force
  let ?b = "drop_bit shift (n - partition_start)" and ?len = "drop_bit shift len"
  have ul: "unat ?len = unat len div 2 ^ shift"
  proof -
    have "take_bit 32 (unat len) = unat len" using unsigned_less [of len] by (intro take_bit_nat_eq_self) simp
    then show ?thesis by (intro trans [OF unsigned_drop_bit_eq]) (simp add: drop_bit_eq_div)
  qed
  have b: "?b = (n - partition_start) div 2 ^ shift" by (simp add: drop_bit_eq_div)
  have "0 \<le> ?b" "?b + int (unat ?len) < 2 ^ 32"
    using Cons.prems unfolding b ul by (auto simp: p input_fits_def pos_imp_zdiv_nonneg_iff)
  from dump_pieces_spec [OF sorted own this order_refl] obtain ls where
    ls: "dump_pieces (unat ?len) s ?b ?len = Value ls" "concat (map line_owners ls) = owners_from s ?b (unat ?len)"
    by blast
  obtain ls' where ls': "dump_input shift partition_start s input = Value ls'"
    "concat (map line_owners ls') = input_pieces partition_start shift fs input"
    using Cons.IH Cons.prems by (auto simp: input_fits_def)
  have "input_pieces partition_start shift fs (p # input) = owners_from s ?b (unat ?len) @ input_pieces partition_start shift fs input"
    unfolding b ul by (simp add: p input_pieces_def owners_from_def owners Let_def)
  then show ?case using ls ls' by (simp add: p)
qed

text \<open>
  C24: The output along the input: the pieces printed for the input extents cover every block of
  every extent exactly once and in order, each block with the inode and offset that the scan found
  for it, or as unmapped when no file has it. This puts together the collection of the extents, the
  sorting of the array, the search for the next extent and the cutting of the input into pieces.
\<close>

theorem map_blocks_dump_times:
  assumes "extents_ok ies" and "scan_ok blocks scan"
    and "block_total (expected_files blocksize blocks ies scan) \<le> BMAP_ALLOC_ENTRIES" and "length scan + 2 \<le> n"
    and "distinct_blocks (expected_files blocksize blocks ies scan)" and "small_blocks (expected_files blocksize blocks ies scan)"
    and "c_qsort map_less srt" and "log2i (blocksize div tbs) = int shift"
    and "\<forall>(n, len)\<in>set input. partition_start \<le> n" and "input_fits partition_start shift input"
  shows "\<exists>s ls. map_blocks True blocksize junk blocks True scan (start_state ies n) = Value s
    \<and> dump_times srt blocksize tbs partition_start input s = Value ls
    \<and> concat (map line_owners ls) = input_pieces partition_start shift (expected_files blocksize blocks ies scan) input"
proof -
  obtain s ow where s: "map_blocks True blocksize junk blocks True scan (start_state ies n) = Value s"
    "store_inv True ow s" "view ow s = expected_files blocksize blocks ies scan"
    using map_blocks_spec [OF assms(1-4), where dumptimes = True and junk = junk] by blast
  let ?s = "s\<lparr>bmap := srt (bmap s)\<rparr>"
  note d = assms(5,6) [folded s(3)]
  have own: "\<forall>m\<in>set (bmap ?s). \<exists>i. bm_u m = Of_inode i"
    using store_invD(6) [OF s(2)] c_qsort.set_qsort [OF assms(7), of "bmap s"] by (auto simp: in_set_conv_nth link_of_def)
  have sorted: "sorted_maps (bmap ?s)" using store_sorted [OF s(2) d assms(7)] by simp
  from dump_input_spec [OF sorted own owner_at_view [OF s(2) d assms(7)] assms(9,10)]
  obtain ls where "dump_input shift partition_start ?s input = Value ls"
    "concat (map line_owners ls) = input_pieces partition_start shift (view ow s) input" by blast
  then show ?thesis using s(1,3) assms(8) by (auto simp: dump_times_def Let_def)
qed

lemma map_blocks_dump_times_witness:
  "\<exists>s ls. map_blocks True 1024 (\<lambda>_. \<lparr>ie_block = 0, ie_len = 0\<rparr>) b2f_sample_visits True sample_scan
      (start_state [\<lparr>ie_block = 20, ie_len = 5\<rparr>] 5) = Value s
    \<and> dump_times (cmp_sort map_less) 1024 1024 100 [(121, 3)] s = Value ls
    \<and> concat (map line_owners ls) = [(21, Some (5, None, 1)), (22, Some (8, None, -48)), (23, None)]"
proof -
  have p: "input_pieces 100 0 [(5, None, [(20, 0), (21, 1)]), (8, None, [(22, -48)])] [(121, 3)]
    = [(21, Some (5, None, 1)), (22, Some (8, None, -48)), (23, None)]"
    by (simp add: input_pieces_def file_owners_def upt_rec)
  show ?thesis
    using map_blocks_dump_times [of "[\<lparr>ie_block = 20, ie_len = 5\<rparr>]" b2f_sample_visits sample_scan 1024 5 "cmp_sort map_less" 1024 0
        "[(121, 3)]" 100 "\<lambda>_. \<lparr>ie_block = 0, ie_len = 0\<rparr>", unfolded sample_expected p] sample_ok
      map_qsort.c_qsort_axioms
    by (simp add: distinct_blocks_def small_blocks_def input_fits_def log2i_1)
qed

end
