(* ===== verification/E2block2file_Names.thy ===== *)
theory E2block2file_Names
  imports E2block2file_Dump
begin

text \<open>
  The naming of the inodes (\<open>map_inodes\<close>): moving the structures through the hash table and the
  directory scan loses none of them and changes nothing but their names, and every name is a path
  to the inode.
\<close>

section \<open>Paths\<close>

definition entry_name :: "dir_entry \<Rightarrow> byte list" where
  "entry_name de = 0x2F # map (\<lambda>k. de_name de ! k) [0..<unat (de_len de)]"

text \<open>The directories that the scan enters, with their paths.\<close>

inductive dir_path ::
  "bool \<Rightarrow> (u32 \<Rightarrow> u16 option) \<Rightarrow> (u32 \<Rightarrow> dir_entry list \<times> bool) \<Rightarrow> byte list \<Rightarrow> u32 \<Rightarrow> bool"
  for has_filetype read_inode dir where
  root: "dir_path has_filetype read_inode dir [] EXT2_ROOT_INO"
| sub: "dir_path has_filetype read_inode dir path d \<Longrightarrow> de \<in> set (fst (dir d)) \<Longrightarrow> \<not> is_dot_entry de
    \<Longrightarrow> entry_is_dir has_filetype read_inode de = Value True
    \<Longrightarrow> dir_path has_filetype read_inode dir (path @ entry_name de) (de_inode de)"

definition path_to ::
  "bool \<Rightarrow> (u32 \<Rightarrow> u16 option) \<Rightarrow> (u32 \<Rightarrow> dir_entry list \<times> bool) \<Rightarrow> byte list \<Rightarrow> u32 \<Rightarrow> bool" where
  "path_to has_filetype read_inode dir name ino \<longleftrightarrow>
     (\<exists>path d de. dir_path has_filetype read_inode dir path d \<and> de \<in> set (fst (dir d)) \<and> \<not> is_dot_entry de
        \<and> de_inode de = ino \<and> name = takeWhile (\<lambda>c. c \<noteq> 0) (path @ entry_name de))"

section \<open>What naming keeps\<close>

definition held :: "b2f_state \<Rightarrow> nat multiset" where
  "held s = mset (concat (inode_hash s)) + mset (inodes s)"

definition same_blocks :: "b2f_state \<Rightarrow> b2f_state \<Rightarrow> bool" where
  "same_blocks s s' \<longleftrightarrow> bmap s' = bmap s \<and> bmap_gen s' = bmap_gen s \<and> bmap_allocated s' = bmap_allocated s
     \<and> length (inode_tab s') = length (inode_tab s)
     \<and> (\<forall>i<length (inode_tab s). ib_ino (inode_tab s' ! i) = ib_ino (inode_tab s ! i)
          \<and> ib_blocks (inode_tab s' ! i) = ib_blocks (inode_tab s ! i)
          \<and> ib_last_block (inode_tab s' ! i) = ib_last_block (inode_tab s ! i))"

definition named_ok ::
  "bool \<Rightarrow> (u32 \<Rightarrow> u16 option) \<Rightarrow> (u32 \<Rightarrow> dir_entry list \<times> bool) \<Rightarrow> b2f_state \<Rightarrow> bool" where
  "named_ok has_filetype read_inode dir s \<longleftrightarrow>
     length (inode_hash s) = inode_hash_size s \<and> (\<forall>i\<in>#held s. i < length (inode_tab s))
     \<and> (\<forall>i<length (inode_tab s). \<forall>name. ib_name (inode_tab s ! i) = Some name
          \<longrightarrow> path_to has_filetype read_inode dir name (ib_ino (inode_tab s ! i)))"

lemma same_blocks_refl [simp]: "same_blocks s s"
  by (simp add: same_blocks_def)

lemma same_blocks_trans: "same_blocks s s' \<Longrightarrow> same_blocks s' s'' \<Longrightarrow> same_blocks s s''"
  by (simp add: same_blocks_def)

lemma remove_from_bucket:
  assumes "h < length xs" and "i \<in> set (xs ! h)"
  shows "add_mset i (mset (concat (xs[h := remove1 i (xs ! h)]))) = mset (concat xs)"
proof -
  have "mset (concat (xs[h := remove1 i (xs ! h)])) + mset (xs ! h) = mset (concat xs) + mset (remove1 i (xs ! h))"
    by (rule mset_concat_update [OF assms(1)])
  moreover have "mset (xs ! h) = add_mset i (mset (remove1 i (xs ! h)))" using assms(2) by simp
  ultimately show ?thesis
    by (metis union_mset_add_mset_left union_mset_add_mset_right add_right_cancel)
qed

lemma hash_index: "HASH_INO s ino < inode_hash_size s"
  by (simp add: HASH_INO_def inode_hash_size_def)

lemma find_delete_spec:
  assumes "named_ok has_filetype read_inode dir s" and "find_delete_inode ino s = (r, s')"
  shows "length (inode_hash s') = length (inode_hash s)" and "inode_tab s' = inode_tab s" and "inodes s' = inodes s"
    and "same_blocks s s'"
    and "r = None \<Longrightarrow> held s' = held s"
    and "r = Some i \<Longrightarrow> ib_ino (inode_tab s ! i) = ino \<and> i < length (inode_tab s) \<and> add_mset i (held s') = held s"
proof -
  let ?h = "HASH_INO s ino"
  have h: "?h < length (inode_hash s)" using assms(1) hash_index by (simp add: named_ok_def)
  show "length (inode_hash s') = length (inode_hash s)" "inode_tab s' = inode_tab s" "inodes s' = inodes s" "same_blocks s s'"
    using assms(2) by (auto simp: find_delete_inode_def Let_def same_blocks_def split: option.splits)
  show "r = None \<Longrightarrow> held s' = held s" using assms(2) by (auto simp: find_delete_inode_def Let_def split: option.splits)
  assume "r = Some i"
  then have f: "find (\<lambda>i. ib_ino (inode_tab s ! i) = ino) (inode_hash s ! ?h) = Some i"
    and s': "s' = s\<lparr>inode_hash := (inode_hash s)[?h := remove1 i (inode_hash s ! ?h)]\<rparr>"
    using assms(2) by (auto simp: find_delete_inode_def Let_def split: option.splits)
  have i: "ib_ino (inode_tab s ! i) = ino" "i \<in> set (inode_hash s ! ?h)" using f by (auto simp: find_Some_iff)
  note remove_from_bucket [OF h i(2)]
  then have "add_mset i (held s') = held s" by (simp add: held_def s' flip: union_mset_add_mset_left)
  moreover from this have "i \<in># held s" by (metis union_single_eq_member)
  ultimately show "ib_ino (inode_tab s ! i) = ino \<and> i < length (inode_tab s) \<and> add_mset i (held s') = held s"
    using assms(1) i(1) by (simp add: named_ok_def)
qed

lemma name_inode_spec:
  assumes "name_inode path i s = Value s'" and "i < length (inode_tab s)"
  shows "held s' = add_mset i (held s)" and "same_blocks s s'" and "inode_hash s' = inode_hash s"
    and "\<forall>j. ib_name (inode_tab s' ! j) = (if j = i then Some (takeWhile (\<lambda>c. c \<noteq> 0) path) else ib_name (inode_tab s ! j))"
  using assms by (auto simp: name_inode_def alloc_def held_def same_blocks_def nth_list_update split: if_splits)

section \<open>The directory scan\<close>

text \<open>One entry without the recursion: the inode is taken from the table and gets its name.\<close>

lemma take_and_name:
  assumes ok: "named_ok has_filetype read_inode dir s" and fd: "find_delete_inode (de_inode de) s = (r, s1)"
    and nm: "(case r of None \<Rightarrow> Value s1 | Some i \<Rightarrow> name_inode (path @ entry_name de) i s1) = Value s2"
    and p: "dir_path has_filetype read_inode dir path d" "de \<in> set (fst (dir d))" "\<not> is_dot_entry de"
  shows "named_ok has_filetype read_inode dir s2 \<and> held s2 = held s \<and> same_blocks s s2"
proof (cases r)
  case None
  note F = find_delete_spec [OF ok fd]
  have "s2 = s1" using nm None by simp
  then show ?thesis using F ok None by (auto simp: named_ok_def inode_hash_size_def)
next
  case (Some i)
  note F = find_delete_spec [OF ok fd]
  note i = F(6) [OF Some]
  have "name_inode (path @ entry_name de) i s1 = Value s2" "i < length (inode_tab s1)"
    using nm Some i F(2) by simp_all
  note N = name_inode_spec [OF this]
  have held: "held s2 = held s" using N(1) i by simp
  have same: "same_blocks s s2" using F(4) N(2) same_blocks_trans by blast
  have "path_to has_filetype read_inode dir (takeWhile (\<lambda>c. c \<noteq> 0) (path @ entry_name de)) (de_inode de)"
    using p unfolding path_to_def by blast
  then have "\<forall>j<length (inode_tab s2). \<forall>name. ib_name (inode_tab s2 ! j) = Some name
      \<longrightarrow> path_to has_filetype read_inode dir name (ib_ino (inode_tab s2 ! j))"
    using ok same i by (auto simp: N(4) F(2) named_ok_def same_blocks_def)
  then show ?thesis using ok held same F(1) N(3) by (auto simp: named_ok_def same_blocks_def inode_hash_size_def)
qed

lemma scan_dirs_Cons:
  assumes "\<not> is_dot_entry de" and "find_delete_inode (de_inode de) s = (r, s1)"
    and "scan_dirs has_filetype read_inode dir path (de # des) s = Value s'"
  shows "\<exists>is_dir s2 s3. entry_is_dir has_filetype read_inode de = Value is_dir
    \<and> (case r of None \<Rightarrow> Value s1 | Some i \<Rightarrow> name_inode (path @ entry_name de) i s1) = Value s2
    \<and> (if is_dir then length (path @ entry_name de) < MAX_PATH_LEN
           \<and> scan_dirs has_filetype read_inode dir (path @ entry_name de) (fst (dir (de_inode de))) s2 = Value s3
       else s3 = s2)
    \<and> scan_dirs has_filetype read_inode dir path des s3 = Value s'"
proof -
  obtain is_dir where d: "entry_is_dir has_filetype read_inode de = Value is_dir"
    using assms by (auto simp: scan_dirs.simps(2) and_then_Value)
  have len: "length (path @ entry_name de) = length path + unat (de_len de) + 1" by (simp add: entry_name_def)
  show ?thesis
  proof (cases "r \<noteq> None \<or> is_dir")
    case True
    then have "length (path @ entry_name de) < MAX_PATH_LEN"
      using assms d unfolding len by (auto simp: scan_dirs.simps(2) and_then_Value split: if_splits)
    then show ?thesis using True assms d unfolding len entry_name_def
      by (auto simp: scan_dirs.simps(2) and_then_Value Let_def split: if_splits)
  next
    case False
    then show ?thesis using assms d by (auto simp: scan_dirs.simps(2) and_then_Value)
  qed
qed

lemma scan_dirs_spec:
  "scan_dirs has_filetype read_inode dir path des s = Value s' \<Longrightarrow> named_ok has_filetype read_inode dir s
    \<Longrightarrow> dir_path has_filetype read_inode dir path d \<Longrightarrow> set des \<subseteq> set (fst (dir d))
    \<Longrightarrow> named_ok has_filetype read_inode dir s' \<and> held s' = held s \<and> same_blocks s s'"
proof (induction "MAX_PATH_LEN - length path" arbitrary: path des s s' d rule: less_induct)
  case less
  note deeper = less.hyps
  show ?case using less.prems
  proof (induction des arbitrary: s)
    case Nil
    then show ?case by simp
  next
    case (Cons de des)
    show ?case
    proof (cases "is_dot_entry de")
      case True
      then show ?thesis using Cons by (simp add: scan_dirs.simps(2))
    next
      case False
      obtain r s1 where fd: "find_delete_inode (de_inode de) s = (r, s1)" by force
      obtain is_dir s2 s3 where st: "entry_is_dir has_filetype read_inode de = Value is_dir"
        "(case r of None \<Rightarrow> Value s1 | Some i \<Rightarrow> name_inode (path @ entry_name de) i s1) = Value s2"
        "if is_dir then length (path @ entry_name de) < MAX_PATH_LEN
           \<and> scan_dirs has_filetype read_inode dir (path @ entry_name de) (fst (dir (de_inode de))) s2 = Value s3
         else s3 = s2"
        "scan_dirs has_filetype read_inode dir path des s3 = Value s'"
        using scan_dirs_Cons [OF False fd Cons.prems(1)] by blast
      have de: "de \<in> set (fst (dir d))" using Cons.prems(4) by simp
      have two: "named_ok has_filetype read_inode dir s2 \<and> held s2 = held s \<and> same_blocks s s2"
        by (rule take_and_name [OF Cons.prems(2) fd st(2) Cons.prems(3) de False])
      have three: "named_ok has_filetype read_inode dir s3 \<and> held s3 = held s2 \<and> same_blocks s2 s3"
      proof (cases is_dir)
        case True
        then have s3: "length (path @ entry_name de) < MAX_PATH_LEN"
          "scan_dirs has_filetype read_inode dir (path @ entry_name de) (fst (dir (de_inode de))) s2 = Value s3"
          using st(3) by simp_all
        have "dir_path has_filetype read_inode dir (path @ entry_name de) (de_inode de)"
          using dir_path.sub [OF Cons.prems(3) de False] st(1) True by simp
        moreover have "MAX_PATH_LEN - length (path @ entry_name de) < MAX_PATH_LEN - length path"
          using s3(1) by (simp add: entry_name_def)
        ultimately show ?thesis using deeper [OF _ s3(2)] two by blast
      qed (use st(3) two in simp)
      have "named_ok has_filetype read_inode dir s' \<and> held s' = held s3 \<and> same_blocks s3 s'"
        using Cons.IH [OF st(4)] three Cons.prems(3,4) by simp
      then show ?thesis using two three same_blocks_trans by metis
    qed
  qed
qed

lemma hash_inodes_held:
  "length (inode_hash s) = inode_hash_size s \<Longrightarrow>
    held (hash_inodes is s) = mset is + held s \<and> same_blocks s (hash_inodes is s)
    \<and> inode_tab (hash_inodes is s) = inode_tab s \<and> length (inode_hash (hash_inodes is s)) = inode_hash_size s
    \<and> inodes (hash_inodes is s) = inodes s"
proof (induction "is" arbitrary: s)
  case (Cons i "is")
  let ?h = "HASH_INO s (ib_ino (inode_tab s ! i))"
  let ?s = "s\<lparr>inode_hash := (inode_hash s)[?h := i # inode_hash s ! ?h]\<rparr>"
  have "mset (concat ((inode_hash s)[?h := i # inode_hash s ! ?h])) + mset (inode_hash s ! ?h)
      = mset (concat (inode_hash s)) + mset (i # inode_hash s ! ?h)"
    using Cons.prems hash_index by (intro mset_concat_update) simp
  then have "held ?s = add_mset i (held s)" by (simp add: held_def)
  moreover have "same_blocks s ?s" "inode_hash_size ?s = inode_hash_size s" by (simp_all add: same_blocks_def inode_hash_size_def)
  ultimately show ?case using Cons.IH [of ?s] Cons.prems same_blocks_trans [of s ?s] by (simp add: Let_def)
qed simp

lemma gather_held: "mset (inodes (gather_unmapped_inodes s)) = held s"
proof -
  have chain: "mset (gather_chain c is) = mset c + mset is" for c "is" by (induction c arbitrary: "is") auto
  have "mset (fold gather_chain cs is) = mset (concat cs) + mset is" for cs "is"
    by (induction cs arbitrary: "is") (auto simp: chain)
  then show ?thesis by (simp add: gather_unmapped_inodes_def held_def)
qed

section \<open>Every inode with a directory entry gets a name\<close>

definition hashed :: "b2f_state \<Rightarrow> nat set" where
  "hashed s = set (concat (inode_hash s))"

definition hashed_inos :: "b2f_state \<Rightarrow> u32 set" where
  "hashed_inos s = (\<lambda>i. ib_ino (inode_tab s ! i)) ` hashed s"

definition hash_ok :: "b2f_state \<Rightarrow> bool" where
  "hash_ok s \<longleftrightarrow> length (inode_hash s) = inode_hash_size s \<and> distinct (concat (inode_hash s))
     \<and> inj_on (\<lambda>i. ib_ino (inode_tab s ! i)) (hashed s) \<and> (\<forall>i\<in>hashed s. i < length (inode_tab s))
     \<and> (\<forall>h<length (inode_hash s). \<forall>i\<in>set (inode_hash s ! h). HASH_INO s (ib_ino (inode_tab s ! i)) = h)
     \<and> (\<forall>i\<in>set (inodes s). i < length (inode_tab s) \<and> ib_name (inode_tab s ! i) \<noteq> None)"

text \<open>From one state to a later one: the table loses inodes only, numbers stay.\<close>

definition later :: "b2f_state \<Rightarrow> b2f_state \<Rightarrow> bool" where
  "later s s' \<longleftrightarrow> hash_ok s' \<and> hashed_inos s' \<subseteq> hashed_inos s"

lemma later_trans: "later s s' \<Longrightarrow> later s' s'' \<Longrightarrow> later s s''"
  by (auto simp: later_def)

lemma hash_bucket:
  assumes "hash_ok s" and "i \<in> hashed s"
  shows "i \<in> set (inode_hash s ! HASH_INO s (ib_ino (inode_tab s ! i)))"
proof -
  obtain b where "b \<in> set (inode_hash s)" "i \<in> set b" using assms(2) by (auto simp: hashed_def)
  then obtain h where "h < length (inode_hash s)" "i \<in> set (inode_hash s ! h)" by (auto simp: in_set_conv_nth)
  then show ?thesis using assms(1) by (auto simp: hash_ok_def)
qed

lemma find_delete_later:
  assumes ok: "hash_ok s" and fd: "find_delete_inode ino s = (r, s')"
  shows "later s s'" and "ino \<notin> hashed_inos s'" and "r = Some i \<Longrightarrow> i < length (inode_tab s')"
proof -
  let ?h = "HASH_INO s ino"
  have h: "?h < length (inode_hash s)" using ok hash_index by (simp add: hash_ok_def)
  note bucket = hash_bucket [OF ok]
  have "later s s' \<and> ino \<notin> hashed_inos s' \<and> (\<forall>i. r = Some i \<longrightarrow> i < length (inode_tab s'))"
  proof (cases r)
    case None
    then have n: "find (\<lambda>i. ib_ino (inode_tab s ! i) = ino) (inode_hash s ! ?h) = None" "s' = s"
      using fd by (auto simp: find_delete_inode_def Let_def split: option.splits)
    have "ino \<notin> hashed_inos s"
    proof
      assume "ino \<in> hashed_inos s"
      then obtain j where "j \<in> hashed s" "ib_ino (inode_tab s ! j) = ino" unfolding hashed_inos_def by blast
      with bucket [of j] n(1) show False by (auto simp: find_None_iff)
    qed
    then show ?thesis using ok n(2) None by (simp add: later_def)
  next
    case (Some i)
    then have f: "find (\<lambda>i. ib_ino (inode_tab s ! i) = ino) (inode_hash s ! ?h) = Some i"
      and s': "s' = s\<lparr>inode_hash := (inode_hash s)[?h := remove1 i (inode_hash s ! ?h)]\<rparr>"
      using fd by (auto simp: find_delete_inode_def Let_def split: option.splits)
    have i: "ib_ino (inode_tab s ! i) = ino" "i \<in> set (inode_hash s ! ?h)" using f by (auto simp: find_Some_iff)
    have his: "i \<in> hashed s" using i(2) h by (auto simp: hashed_def)
    have m: "mset (i # concat (inode_hash s')) = mset (concat (inode_hash s))"
      using remove_from_bucket [OF h i(2)] by (simp add: s')
    have dist: "distinct (i # concat (inode_hash s'))"
      using ok mset_eq_imp_distinct_iff [OF m] by (simp only: hash_ok_def)
    have set: "insert i (hashed s') = hashed s" using mset_eq_setD [OF m] by (simp only: hashed_def list.set)
    have sub: "hashed s' = hashed s - {i}" using set dist unfolding hashed_def by (simp only: distinct.simps) blast
    have tab: "inode_tab s' = inode_tab s" "inodes s' = inodes s" "HASH_INO s' = HASH_INO s" "inode_hash_size s' = inode_hash_size s"
      unfolding s' HASH_INO_def inode_hash_size_def fun_eq_iff by simp_all
    have "\<forall>h'<length (inode_hash s'). \<forall>j\<in>set (inode_hash s' ! h'). HASH_INO s' (ib_ino (inode_tab s' ! j)) = h'"
    proof -
      have "set (inode_hash s' ! h') \<subseteq> set (inode_hash s ! h')" for h'
        using h set_remove1_subset [of i "inode_hash s ! ?h"] by (cases "h' = ?h") (simp_all add: s')
      moreover have "length (inode_hash s') = length (inode_hash s)" by (simp add: s')
      moreover have "\<forall>h<length (inode_hash s). \<forall>i\<in>set (inode_hash s ! h). HASH_INO s (ib_ino (inode_tab s ! i)) = h"
        using ok unfolding hash_ok_def by (elim conjE)
      ultimately show ?thesis unfolding tab by auto
    qed
    moreover have "inj_on (\<lambda>i. ib_ino (inode_tab s' ! i)) (hashed s')"
    proof -
      have "inj_on (\<lambda>i. ib_ino (inode_tab s ! i)) (hashed s)" using ok by (simp only: hash_ok_def)
      then show ?thesis unfolding sub tab by (rule inj_on_diff)
    qed
    moreover have "length (inode_hash s') = inode_hash_size s'" using ok unfolding tab by (simp add: s' hash_ok_def)
    moreover have "distinct (concat (inode_hash s'))" using dist by (simp only: distinct.simps)
    moreover have "\<forall>i\<in>hashed s'. i < length (inode_tab s')" using ok unfolding sub tab hash_ok_def by blast
    moreover have "\<forall>i\<in>set (inodes s'). i < length (inode_tab s') \<and> ib_name (inode_tab s' ! i) \<noteq> None"
      using ok unfolding tab hash_ok_def by blast
    ultimately have "hash_ok s'" unfolding hash_ok_def by iprover
    moreover have "hashed_inos s' \<subseteq> hashed_inos s" unfolding hashed_inos_def sub tab by blast
    moreover have "ino \<notin> hashed_inos s'"
    proof
      assume "ino \<in> hashed_inos s'"
      then obtain j where j: "j \<in> hashed s" "j \<noteq> i" "ib_ino (inode_tab s ! j) = ino"
        unfolding hashed_inos_def sub tab by blast
      have "inj_on (\<lambda>i. ib_ino (inode_tab s ! i)) (hashed s)" using ok by (simp only: hash_ok_def)
      from inj_onD [OF this _ j(1) his] j(2,3) i(1) show False by simp
    qed
    moreover have "i < length (inode_tab s')" using ok his unfolding tab hash_ok_def by blast
    ultimately show ?thesis using Some by (simp add: later_def)
  qed
  then show "later s s'" "ino \<notin> hashed_inos s'" "r = Some i \<Longrightarrow> i < length (inode_tab s')" by blast+
qed

lemma name_inode_later:
  assumes "hash_ok s" and "name_inode path i s = Value s'" and "i < length (inode_tab s)"
  shows "later s s'"
proof -
  have s': "s' = s\<lparr>allocs := allocs s - 1, inode_tab := (inode_tab s)[i := (inode_tab s ! i)\<lparr>ib_name := Some (takeWhile (\<lambda>c. c \<noteq> 0) path)\<rparr>],
              inodes := i # inodes s\<rparr>"
    using assms(2) by (auto simp: name_inode_def alloc_def split: if_splits)
  have ino: "ib_ino (inode_tab s' ! j) = ib_ino (inode_tab s ! j)" for j
    using assms(3) by (simp add: s' nth_list_update)
  have eq: "hashed s' = hashed s" "inode_hash_size s' = inode_hash_size s" "HASH_INO s' = HASH_INO s"
    "inode_hash s' = inode_hash s" "length (inode_tab s') = length (inode_tab s)"
    by (simp_all add: s' hashed_def HASH_INO_def inode_hash_size_def fun_eq_iff)
  have "\<forall>j\<in>set (inodes s'). j < length (inode_tab s') \<and> ib_name (inode_tab s' ! j) \<noteq> None"
    using assms(1,3) by (auto simp: s' hash_ok_def nth_list_update)
  then show ?thesis using assms(1) unfolding later_def hash_ok_def hashed_inos_def ino eq by simp
qed

definition sub_dir ::
  "bool \<Rightarrow> (u32 \<Rightarrow> u16 option) \<Rightarrow> (u32 \<Rightarrow> dir_entry list \<times> bool) \<Rightarrow> u32 \<Rightarrow> u32 \<Rightarrow> bool" where
  "sub_dir has_filetype read_inode dir d d' \<longleftrightarrow>
     (\<exists>de\<in>set (fst (dir d)). \<not> is_dot_entry de \<and> entry_is_dir has_filetype read_inode de = Value True \<and> de_inode de = d')"

text \<open>All entries of a directory, and of the directories below, are gone from the table.\<close>

definition entries_done ::
  "bool \<Rightarrow> (u32 \<Rightarrow> u16 option) \<Rightarrow> (u32 \<Rightarrow> dir_entry list \<times> bool) \<Rightarrow> b2f_state \<Rightarrow> u32 \<Rightarrow> bool" where
  "entries_done has_filetype read_inode dir s d \<longleftrightarrow>
     (\<forall>d'. (sub_dir has_filetype read_inode dir)\<^sup>*\<^sup>* d d' \<longrightarrow>
        (\<forall>de\<in>set (fst (dir d')). \<not> is_dot_entry de \<longrightarrow> de_inode de \<notin> hashed_inos s))"

definition entry_done ::
  "bool \<Rightarrow> (u32 \<Rightarrow> u16 option) \<Rightarrow> (u32 \<Rightarrow> dir_entry list \<times> bool) \<Rightarrow> b2f_state \<Rightarrow> dir_entry \<Rightarrow> bool" where
  "entry_done has_filetype read_inode dir s de \<longleftrightarrow>
     is_dot_entry de \<or> de_inode de \<notin> hashed_inos s
       \<and> (entry_is_dir has_filetype read_inode de = Value True \<longrightarrow> entries_done has_filetype read_inode dir s (de_inode de))"

lemma entries_done_later: "later s s' \<Longrightarrow> entries_done hf ri dir s d \<Longrightarrow> entries_done hf ri dir s' d"
  by (auto simp: entries_done_def later_def)

lemma entry_done_later: "later s s' \<Longrightarrow> entry_done hf ri dir s de \<Longrightarrow> entry_done hf ri dir s' de"
  using entries_done_later by (fastforce simp: entry_done_def later_def)

lemma entries_doneI:
  assumes "\<forall>de\<in>set (fst (dir d)). entry_done hf ri dir s de"
  shows "entries_done hf ri dir s d"
  unfolding entries_done_def
proof (intro allI impI)
  fix d' assume "(sub_dir hf ri dir)\<^sup>*\<^sup>* d d'"
  then show "\<forall>de\<in>set (fst (dir d')). \<not> is_dot_entry de \<longrightarrow> de_inode de \<notin> hashed_inos s"
  proof (cases rule: converse_rtranclpE)
    case base
    then show ?thesis using assms by (auto simp: entry_done_def)
  next
    case (step d1)
    then show ?thesis using assms by (fastforce simp: sub_dir_def entry_done_def entries_done_def)
  qed
qed

lemma scan_dirs_complete:
  "scan_dirs hf ri dir path des s = Value s' \<Longrightarrow> hash_ok s
    \<Longrightarrow> later s s' \<and> (\<forall>de\<in>set des. entry_done hf ri dir s' de)"
proof (induction "MAX_PATH_LEN - length path" arbitrary: path des s s' rule: less_induct)
  case less
  note deeper = less.hyps
  show ?case using less.prems
  proof (induction des arbitrary: s)
    case Nil
    then show ?case by (simp add: later_def)
  next
    case (Cons de des)
    show ?case
    proof (cases "is_dot_entry de")
      case True
      then show ?thesis using Cons by (simp add: scan_dirs.simps(2) entry_done_def)
    next
      case False
      obtain r s1 where fd: "find_delete_inode (de_inode de) s = (r, s1)" by force
      obtain is_dir s2 s3 where st: "entry_is_dir hf ri de = Value is_dir"
        "(case r of None \<Rightarrow> Value s1 | Some i \<Rightarrow> name_inode (path @ entry_name de) i s1) = Value s2"
        "if is_dir then length (path @ entry_name de) < MAX_PATH_LEN
           \<and> scan_dirs hf ri dir (path @ entry_name de) (fst (dir (de_inode de))) s2 = Value s3
         else s3 = s2"
        "scan_dirs hf ri dir path des s3 = Value s'"
        using scan_dirs_Cons [OF False fd Cons.prems(1)] by blast
      note one = find_delete_later [OF Cons.prems(2) fd]
      have two: "later s1 s2"
      proof (cases r)
        case None
        then show ?thesis using st(2) one(1) by (simp add: later_def)
      next
        case (Some i)
        then show ?thesis using st(2) one(1,3) name_inode_later [of s1] by (simp add: later_def)
      qed
      have three: "later s2 s3 \<and> (is_dir \<longrightarrow> entries_done hf ri dir s3 (de_inode de))"
      proof (cases is_dir)
        case True
        then have s3: "length (path @ entry_name de) < MAX_PATH_LEN"
          "scan_dirs hf ri dir (path @ entry_name de) (fst (dir (de_inode de))) s2 = Value s3"
          using st(3) by simp_all
        have "MAX_PATH_LEN - length (path @ entry_name de) < MAX_PATH_LEN - length path"
          using s3(1) by (simp add: entry_name_def)
        from deeper [OF this s3(2)] show ?thesis using two entries_doneI by (metis later_def)
      qed (use st(3) two in \<open>simp add: later_def\<close>)
      have "later s s3" using one(1) two three later_trans by blast
      then have rest: "later s3 s' \<and> (\<forall>de\<in>set des. entry_done hf ri dir s' de)"
        using Cons.IH [OF st(4)] by (simp add: later_def)
      have "later s1 s3" using two three later_trans by blast
      then have "entry_done hf ri dir s3 de" using one(2) three st(1) by (auto simp: entry_done_def later_def)
      then show ?thesis using rest entry_done_later [of s3 s'] \<open>later s s3\<close> later_trans by auto
    qed
  qed
qed

lemma hash_inodes_ok:
  "hash_ok (s\<lparr>inodes := []\<rparr>) \<Longrightarrow> distinct is \<Longrightarrow> set is \<inter> hashed s = {}
    \<Longrightarrow> inj_on (\<lambda>i. ib_ino (inode_tab s ! i)) (set is \<union> hashed s) \<Longrightarrow> \<forall>i\<in>set is. i < length (inode_tab s)
    \<Longrightarrow> hash_ok ((hash_inodes is s)\<lparr>inodes := []\<rparr>)"
proof (induction "is" arbitrary: s)
  case (Cons i "is")
  let ?h = "HASH_INO s (ib_ino (inode_tab s ! i))"
  define s1 where "s1 = s\<lparr>inode_hash := (inode_hash s)[?h := i # inode_hash s ! ?h]\<rparr>"
  have eq: "inode_tab s1 = inode_tab s" "HASH_INO s1 = HASH_INO s" "inode_hash_size s1 = inode_hash_size s"
    "length (inode_hash s1) = length (inode_hash s)"
    unfolding s1_def HASH_INO_def inode_hash_size_def fun_eq_iff by simp_all
  have len: "length (inode_hash s) = inode_hash_size s"
    using Cons.prems(1) by (simp add: hash_ok_def inode_hash_size_def)
  then have h: "?h < length (inode_hash s)" using hash_index by simp
  have "mset (concat (inode_hash s1)) + mset (inode_hash s ! ?h) = mset (concat (inode_hash s)) + mset (i # inode_hash s ! ?h)"
    unfolding s1_def by (simp add: mset_concat_update [OF h])
  then have m: "mset (concat (inode_hash s1)) = mset (i # concat (inode_hash s))" by simp
  have hashed: "hashed s1 = insert i (hashed s)" using mset_eq_setD [OF m] by (simp add: hashed_def)
  have "distinct (concat (inode_hash s))" using Cons.prems(1) by (simp add: hash_ok_def)
  then have "distinct (i # concat (inode_hash s))" using Cons.prems(3) by (simp add: hashed_def)
  then have dist: "distinct (concat (inode_hash s1))" using mset_eq_imp_distinct_iff [OF m] by simp
  have old: "\<forall>h<length (inode_hash s). \<forall>j\<in>set (inode_hash s ! h). HASH_INO s (ib_ino (inode_tab s ! j)) = h"
    using Cons.prems(1) by (simp add: hash_ok_def HASH_INO_def inode_hash_size_def)
  have bucket: "\<forall>h<length (inode_hash s1). \<forall>j\<in>set (inode_hash s1 ! h). HASH_INO s1 (ib_ino (inode_tab s1 ! j)) = h"
    using old h unfolding eq by (auto simp: s1_def nth_list_update)
  have "inj_on (\<lambda>i. ib_ino (inode_tab s ! i)) (hashed s1)"
    using Cons.prems(4) unfolding hashed by (rule inj_on_subset) auto
  moreover have "\<forall>j\<in>hashed s1. j < length (inode_tab s)"
    using Cons.prems(1,5) unfolding hashed by (simp add: hash_ok_def hashed_def)
  ultimately have "hash_ok (s1\<lparr>inodes := []\<rparr>)"
    using len dist bucket unfolding hash_ok_def eq by (simp add: eq hashed_def HASH_INO_def inode_hash_size_def)
  moreover have "set is \<inter> hashed s1 = {}" using Cons.prems(2,3) unfolding hashed by auto
  moreover have "inj_on (\<lambda>i. ib_ino (inode_tab s1 ! i)) (set is \<union> hashed s1)"
    using Cons.prems(4) unfolding eq hashed by (rule inj_on_subset) auto
  moreover have "\<forall>j\<in>set is. j < length (inode_tab s1)" using Cons.prems(5) unfolding eq by simp
  ultimately have "hash_ok ((hash_inodes is s1)\<lparr>inodes := []\<rparr>)" using Cons.IH [of s1] Cons.prems(2) by simp
  then show ?case by (simp add: Let_def s1_def)
qed simp

text \<open>
  C25: Naming the files loses none of them: the list of inodes after \<open>map_inodes\<close> is a permutation of
  the list before it, their numbers, extents and pointers are unchanged, every name is a path from
  the root directory to the inode, and every inode with an entry in a directory that is reached from
  the root has a name.
\<close>

theorem map_inodes_names:
  assumes "map_inodes has_filetype read_inode dir s = Value s'"
    and "\<forall>i\<in>set (inodes s). i < length (inode_tab s)" and "\<forall>inode\<in>set (inode_tab s). ib_name inode = None"
    and "distinct (inodes s)" and "inj_on (\<lambda>i. ib_ino (inode_tab s ! i)) (set (inodes s))"
  shows "mset (inodes s') = mset (inodes s) \<and> same_blocks s s'
    \<and> (\<forall>i<length (inode_tab s). \<forall>name. ib_name (inode_tab s' ! i) = Some name
         \<longrightarrow> path_to has_filetype read_inode dir name (ib_ino (inode_tab s ! i)))
    \<and> (\<forall>i\<in>set (inodes s). \<forall>d. (sub_dir has_filetype read_inode dir)\<^sup>*\<^sup>* EXT2_ROOT_INO d \<longrightarrow>
         (\<forall>de\<in>set (fst (dir d)). \<not> is_dot_entry de \<longrightarrow> de_inode de = ib_ino (inode_tab s ! i)
            \<longrightarrow> ib_name (inode_tab s' ! i) \<noteq> None))"
proof -
  define s0 where "s0 = s\<lparr>allocs := allocs s - 1, inode_hash := replicate (inode_hash_size s) []\<rparr>"
  define s1 where "s1 = (hash_inodes (inodes s) s0)\<lparr>inodes := []\<rparr>"
  have s0: "inode_tab s0 = inode_tab s" "held s0 = mset (inodes s)" "inodes s0 = inodes s" "same_blocks s s0"
    "length (inode_hash s0) = inode_hash_size s0" "inode_hash_size s0 = inode_hash_size s"
    by (simp_all add: s0_def held_def same_blocks_def inode_hash_size_def)
  note H = hash_inodes_held [OF s0(5), of "inodes s"]
  obtain s2 where s2: "scan_dirs has_filetype read_inode dir [] (fst (dir EXT2_ROOT_INO)) s1 = Value s2"
    "s' = gather_unmapped_inodes s2"
    using assms(1) unfolding s0_def s1_def
    by (auto simp: map_inodes_def prepare_inode_hash_def alloc_def and_then_Value Let_def inode_hash_size_def split: if_splits)
  have "held (hash_inodes (inodes s) s0) = held s1 + mset (inodes s)"
    using H s0(3) by (simp add: held_def s1_def)
  then have held: "held s1 = mset (inodes s)" using H s0(2) by simp
  have same: "same_blocks s s1" using H s0(4) same_blocks_trans [of s s0] by (simp add: same_blocks_def s1_def)
  have tab: "inode_tab s1 = inode_tab s" "length (inode_hash s1) = inode_hash_size s1"
    using H s0 by (simp_all add: s1_def inode_hash_size_def)
  have "named_ok has_filetype read_inode dir s1"
    using tab assms(2,3) held by (simp add: named_ok_def)
  from scan_dirs_spec [OF s2(1) this dir_path.root] have r: "named_ok has_filetype read_inode dir s2"
    "held s2 = held s1" "same_blocks s1 s2" by blast+
  have "same_blocks s2 s'" unfolding s2(2) by (simp add: gather_unmapped_inodes_def same_blocks_def)
  then have all: "same_blocks s s'" using same r(3) same_blocks_trans by blast
  have "inode_tab s' = inode_tab s2" unfolding s2(2) by (simp add: gather_unmapped_inodes_def)
  then have "\<forall>i<length (inode_tab s). \<forall>name. ib_name (inode_tab s' ! i) = Some name
         \<longrightarrow> path_to has_filetype read_inode dir name (ib_ino (inode_tab s ! i))"
    using r(1) all by (simp add: named_ok_def same_blocks_def)
  moreover have "ib_name (inode_tab s' ! i) \<noteq> None"
    if i: "i \<in> set (inodes s)" and d: "(sub_dir has_filetype read_inode dir)\<^sup>*\<^sup>* EXT2_ROOT_INO d"
      and de: "de \<in> set (fst (dir d))" "\<not> is_dot_entry de" "de_inode de = ib_ino (inode_tab s ! i)" for i d de
  proof -
    have "hashed s0 = {}" by (simp add: hashed_def s0_def)
    then have "hash_ok s1" unfolding s1_def
      using assms(2,4,5) s0 by (intro hash_inodes_ok) (auto simp: hash_ok_def hashed_def s0_def inode_hash_size_def)
    from scan_dirs_complete [OF s2(1) this] have fin: "hash_ok s2" "entries_done has_filetype read_inode dir s2 EXT2_ROOT_INO"
      using entries_doneI by (auto simp: later_def)
    have "i < length (inode_tab s)" using i assms(2) by blast
    then have ino: "ib_ino (inode_tab s2 ! i) = ib_ino (inode_tab s ! i)" using r(3) tab(1) by (simp add: same_blocks_def)
    have "de_inode de \<notin> hashed_inos s2" using fin(2) d de(1,2) unfolding entries_done_def by blast
    then have "i \<notin> hashed s2" using de(3) ino unfolding hashed_inos_def by (metis image_eqI)
    moreover have "i \<in># held s2" using i r(2) held by simp
    ultimately have "i \<in> set (inodes s2)" by (auto simp: held_def hashed_def)
    then show ?thesis using fin(1) \<open>inode_tab s' = inode_tab s2\<close> by (simp add: hash_ok_def)
  qed
  moreover have "mset (inodes s') = mset (inodes s)" using gather_held [of s2] r(2) held s2(2) by simp
  ultimately show ?thesis using all by blast
qed

text \<open>Two files; one has a name in a directory, the other one has none.\<close>

definition sample_dir :: "u32 \<Rightarrow> dir_entry list \<times> bool" where
  "sample_dir d =
     (if d = 2 then ([\<lparr>de_inode = 2, de_len = 1, de_file_type = 2, de_name = [0x2E]\<rparr>,
                      \<lparr>de_inode = 11, de_len = 1, de_file_type = 2, de_name = [0x61]\<rparr>], True)
      else if d = 11 then ([\<lparr>de_inode = 12, de_len = 2, de_file_type = 1, de_name = [0x62, 0x63]\<rparr>], True)
      else ([], True))"

definition sample_inodes :: b2f_state where
  "sample_inodes = \<lparr>iextents = [], bmap = [], bmap_allocated = 0, bmap_gen = 0,
     inode_tab = [\<lparr>ib_ino = 12, ib_blocks = None, ib_last_block = None, ib_name = None\<rparr>,
                  \<lparr>ib_ino = 13, ib_blocks = None, ib_last_block = None, ib_name = None\<rparr>],
     inodes = [1, 0], inode_hash = [], allocs = 9\<rparr>"

definition sample_named :: "b2f_state run_result" where
  "sample_named = map_inodes True (\<lambda>_. None) sample_dir sample_inodes"

definition inode_names :: "b2f_state run_result \<Rightarrow> (byte list option) list" where
  "inode_names r = (case r of Value s \<Rightarrow> map ib_name (inode_tab s) | _ \<Rightarrow> [])"

lemma sample_names: "inode_names sample_named = [Some [0x2F, 0x61, 0x2F, 0x62, 0x63], None]"
  unfolding sample_named_def sample_inodes_def
  by (simp add: map_inodes_def prepare_inode_hash_def alloc_def inode_hash_size_def Let_def HASH_INO_def sample_dir_def
      EXT2_ROOT_INO_def scan_dirs.simps(2) is_dot_entry_def find_delete_inode_def entry_is_dir_def EXT2_FT_DIR_def
      MAX_PATH_LEN_def name_inode_def gather_unmapped_inodes_def inode_names_def upt_rec nth_list_update
      cong: and_then_weak)

lemma map_inodes_names_witness:
  "\<exists>s'. map_inodes True (\<lambda>_. None) sample_dir sample_inodes = Value s' \<and> mset (inodes s') = {#0, 1#}
    \<and> path_to True (\<lambda>_. None) sample_dir [0x2F, 0x61, 0x2F, 0x62, 0x63] 12"
proof -
  obtain s' where s': "map_inodes True (\<lambda>_. None) sample_dir sample_inodes = Value s'"
    using sample_names by (cases sample_named) (auto simp: inode_names_def sample_named_def)
  have "ib_name (inode_tab s' ! 0) = Some [0x2F, 0x61, 0x2F, 0x62, 0x63]"
    using sample_names s' by (cases "inode_tab s'") (auto simp: inode_names_def sample_named_def)
  moreover have "mset (inodes s') = mset (inodes sample_inodes)
    \<and> (\<forall>i<length (inode_tab sample_inodes). \<forall>name. ib_name (inode_tab s' ! i) = Some name
         \<longrightarrow> path_to True (\<lambda>_. None) sample_dir name (ib_ino (inode_tab sample_inodes ! i)))"
    using map_inodes_names [OF s'] by (simp add: sample_inodes_def inj_on_def)
  ultimately show ?thesis using s' by (auto simp: sample_inodes_def add_mset_commute)
qed

end
