(* ===== verification/E2block2file_Tree.thy ===== *)
theory E2block2file_Tree
  imports E2block2file_Dump
begin

text \<open>
  The specification of the offsets that \<open>e2block2file\<close> reports, from the block tree of an inode and
  without the state of the traversal: a data block is at its logical number; the offset of an indirect
  block is negative, its lowest two bits are the depth of its tree, the other bits the logical number
  of the first block that can be referenced below it (\<open>README\<close>).
\<close>

section \<open>Block trees\<close>

text \<open>Blocks with their index in the parent; holes are left out. The zones of the inode are lists of at most one tree.\<close>

datatype ind_tree = Ind u32 "(nat \<times> u32) list"
datatype dind_tree = Dind u32 "(nat \<times> ind_tree) list"
datatype tind_tree = Tind u32 "(nat \<times> dind_tree) list"

record inode_tree =
  it_direct :: "(nat \<times> u32) list"
  it_ind :: "ind_tree option"
  it_dind :: "dind_tree option"
  it_tind :: "tind_tree option"

text \<open>
  The calls that \<open>ext2fs_block_iterate2\<close> makes for an inode without \<open>BLOCK_FLAG_DEPTH_TRAVERSE\<close>: an
  indirect block before the blocks below it. \<open>a\<close> is the number of addresses in a block, \<open>first\<close> the first
  logical block below a tree, \<open>po\<close> the byte offset in the parent block.
\<close>

definition data_visits :: "int \<Rightarrow> nat \<Rightarrow> (nat \<times> u32) list \<Rightarrow> iter_visit list" where
  "data_visits unit first cs =
     map (\<lambda>(j, b). \<lparr>iv_block = b, iv_offset = int (first + j), iv_parent_offset = unit * int j\<rparr>) cs"

fun ind_visits :: "int \<Rightarrow> nat \<Rightarrow> ind_tree \<Rightarrow> iter_visit list" where
  "ind_visits po first (Ind b cs) = \<lparr>iv_block = b, iv_offset = -1, iv_parent_offset = po\<rparr> # data_visits 4 first cs"

fun dind_visits :: "nat \<Rightarrow> int \<Rightarrow> nat \<Rightarrow> dind_tree \<Rightarrow> iter_visit list" where
  "dind_visits a po first (Dind b ts) = \<lparr>iv_block = b, iv_offset = -2, iv_parent_offset = po\<rparr>
     # concat (map (\<lambda>(i, t). ind_visits (4 * int i) (first + i * a) t) ts)"

fun tind_visits :: "nat \<Rightarrow> int \<Rightarrow> nat \<Rightarrow> tind_tree \<Rightarrow> iter_visit list" where
  "tind_visits a po first (Tind b ts) = \<lparr>iv_block = b, iv_offset = -3, iv_parent_offset = po\<rparr>
     # concat (map (\<lambda>(i, t). dind_visits a (4 * int i) (first + i * a * a) t) ts)"

definition zone_visits :: "('a \<Rightarrow> iter_visit list) \<Rightarrow> 'a option \<Rightarrow> iter_visit list" where
  "zone_visits f z = (case z of None \<Rightarrow> [] | Some t \<Rightarrow> f t)"

definition tree_visits :: "nat \<Rightarrow> inode_tree \<Rightarrow> iter_visit list" where
  "tree_visits a t = data_visits 1 0 (it_direct t) @ zone_visits (ind_visits 12 12) (it_ind t)
     @ zone_visits (dind_visits a 13 (12 + a)) (it_dind t) @ zone_visits (tind_visits a 14 (12 + a + a * a)) (it_tind t)"

section \<open>The offsets\<close>

definition indirect_offset :: "nat \<Rightarrow> nat \<Rightarrow> int" where
  "indirect_offset first depth = - int (4 * first + depth)"

definition data_offsets :: "nat \<Rightarrow> (nat \<times> u32) list \<Rightarrow> (u32 \<times> int) list" where
  "data_offsets first cs = map (\<lambda>(j, b). (b, int (first + j))) cs"

fun ind_offsets :: "nat \<Rightarrow> ind_tree \<Rightarrow> (u32 \<times> int) list" where
  "ind_offsets first (Ind b cs) = (b, indirect_offset first 0) # data_offsets first cs"

fun dind_offsets :: "nat \<Rightarrow> nat \<Rightarrow> dind_tree \<Rightarrow> (u32 \<times> int) list" where
  "dind_offsets a first (Dind b ts) = (b, indirect_offset first 1)
     # concat (map (\<lambda>(i, t). ind_offsets (first + i * a) t) ts)"

fun tind_offsets :: "nat \<Rightarrow> nat \<Rightarrow> tind_tree \<Rightarrow> (u32 \<times> int) list" where
  "tind_offsets a first (Tind b ts) = (b, indirect_offset first 2)
     # concat (map (\<lambda>(i, t). dind_offsets a (first + i * a * a) t) ts)"

definition zone_offsets :: "('a \<Rightarrow> (u32 \<times> int) list) \<Rightarrow> 'a option \<Rightarrow> (u32 \<times> int) list" where
  "zone_offsets f z = (case z of None \<Rightarrow> [] | Some t \<Rightarrow> f t)"

definition tree_offsets :: "nat \<Rightarrow> inode_tree \<Rightarrow> (u32 \<times> int) list" where
  "tree_offsets a t = data_offsets 0 (it_direct t) @ zone_offsets (ind_offsets 12) (it_ind t)
     @ zone_offsets (dind_offsets a (12 + a)) (it_dind t) @ zone_offsets (tind_offsets a (12 + a + a * a)) (it_tind t)"

text \<open>Blocks that exist, indices within a block, at most one double indirect block below the triple indirect one.\<close>

fun ind_ok :: "ind_tree \<Rightarrow> bool" where
  "ind_ok (Ind b cs) \<longleftrightarrow> b \<noteq> 0 \<and> (\<forall>(j, c)\<in>set cs. c \<noteq> 0)"

fun dind_ok :: "nat \<Rightarrow> dind_tree \<Rightarrow> bool" where
  "dind_ok a (Dind b ts) \<longleftrightarrow> b \<noteq> 0 \<and> (\<forall>(i, t)\<in>set ts. i < a \<and> ind_ok t)"

fun tind_ok :: "nat \<Rightarrow> tind_tree \<Rightarrow> bool" where
  "tind_ok a (Tind b ts) \<longleftrightarrow> b \<noteq> 0 \<and> (\<forall>(i, t)\<in>set ts. i < a \<and> dind_ok a t) \<and> length ts \<le> 1"

definition zone_ok :: "('a \<Rightarrow> bool) \<Rightarrow> 'a option \<Rightarrow> bool" where
  "zone_ok p z \<longleftrightarrow> (case z of None \<Rightarrow> True | Some t \<Rightarrow> p t)"

definition tree_ok :: "nat \<Rightarrow> inode_tree \<Rightarrow> bool" where
  "tree_ok a t \<longleftrightarrow> (\<forall>(j, c)\<in>set (it_direct t). c \<noteq> 0) \<and> zone_ok ind_ok (it_ind t) \<and> zone_ok (dind_ok a) (it_dind t)
     \<and> zone_ok (tind_ok a) (it_tind t)"

section \<open>The traversal computes them\<close>

lemma indirect_to_off: "0 \<le> level \<Longrightarrow> level < 4 \<Longrightarrow> INDIRECT_TO_OFF off level = - (4 * off + level)"
proof -
  assume l: "0 \<le> level" "level < 4"
  have t: "take_bit 2 level = level" using l by (simp add: take_bit_int_eq_self)
  have "push_bit 2 off AND level = push_bit 2 off AND take_bit 2 level" by (simp add: t)
  also have "\<dots> = 0" by (rule bit_eqI) (auto simp: bit_simps)
  finally have "push_bit 2 off OR level = push_bit 2 off + level" by (simp add: disjunctive_add_eq_or)
  then show ?thesis by (simp add: INDIRECT_TO_OFF_def push_bit_eq_mult)
qed

lemma uint_word_nat: "n < 2 ^ 32 \<Longrightarrow> uint (word_of_int (int n) :: u32) = int n"
  by (simp only: uint_word_of_int) simp

text \<open>The number of addresses in a block: \<open>a = blocksize / 4\<close>, at most 1024 (block sizes up to 4096).\<close>

definition addresses :: "u32 \<Rightarrow> nat \<Rightarrow> bool" where
  "addresses blocksize a \<longleftrightarrow> drop_bit 2 blocksize = word_of_int (int a) \<and> 0 < a \<and> a \<le> 1024"

lemma index_offsets:
  assumes "addresses blocksize a" and "i < a" and "j < a"
  shows "index_to_offset blocksize 0 x y = 12"
    and "index_to_offset blocksize 1 (int i) y = int (12 + a + i * a)"
    and "index_to_offset blocksize 2 (int i) (int j) = int (12 + a + a * a + j * a * a + i * a)"
proof -
  have b: "drop_bit 2 blocksize = word_of_int (int a)" and a: "a \<le> 1024" using assms(1) by (simp_all add: addresses_def)
  have sq: "a * a \<le> 1024 * 1024" "i * a \<le> 1024 * 1024" "j * a \<le> 1024 * 1024"
    using a assms(2,3) by (intro mult_le_mono; simp)+
  have cube: "j * a * a \<le> 1024 * 1024 * 1024" using sq(3) a by (rule mult_le_mono)
  show "index_to_offset blocksize 0 x y = 12" by (simp add: index_to_offset_def EXT2_IND_OFFSET_def)
  have "EXT2_DIND_OFFSET blocksize + word_of_int (int i) * drop_bit 2 blocksize = word_of_int (int (12 + a + i * a))"
    by (simp add: EXT2_DIND_OFFSET_def EXT2_IND_OFFSET_def b)
  moreover have "uint (word_of_int (int (12 + a + i * a)) :: u32) = int (12 + a + i * a)"
    by (rule uint_word_nat) (use sq a in simp)
  ultimately show "index_to_offset blocksize 1 (int i) y = int (12 + a + i * a)"
    by (simp only: index_to_offset_def) simp
  have "EXT2_TIND_OFFSET blocksize + word_of_int (int i) * drop_bit 2 blocksize
      + word_of_int (int j) * drop_bit 2 blocksize * drop_bit 2 blocksize = word_of_int (int (12 + a + a * a + j * a * a + i * a))"
    by (simp add: EXT2_TIND_OFFSET_def EXT2_DIND_OFFSET_def EXT2_IND_OFFSET_def b)
  moreover have "uint (word_of_int (int (12 + a + a * a + j * a * a + i * a)) :: u32) = int (12 + a + a * a + j * a * a + i * a)"
    by (rule uint_word_nat) (use sq cube a in simp)
  ultimately show "index_to_offset blocksize 2 (int i) (int j) = int (12 + a + a * a + j * a * a + i * a)"
    by (simp only: index_to_offset_def) simp
qed

lemma indirect_offset_eq:
  "d < 4 \<Longrightarrow> INDIRECT_TO_OFF (int first) (int d) = indirect_offset first d"
  using indirect_to_off [of "int d" "int first"] by (simp add: indirect_offset_def)

lemma data_entries:
  "visit_entries blocksize (data_visits unit first cs @ ws) td = data_offsets first cs @ visit_entries blocksize ws td"
  by (induction cs) (auto simp: data_visits_def data_offsets_def track_depth_def)

lemma visit_indirect:
  assumes "track_depth off po td = Value (int d, td')" and "d < 4" and "off < 0"
    and "index_to_offset blocksize (td_depth td') (td_ind0 td') (td_ind1 td') = int first"
  shows "visit_entries blocksize (\<lparr>iv_block = b, iv_offset = off, iv_parent_offset = po\<rparr> # ws) td
    = (b, indirect_offset first d) # visit_entries blocksize ws td'"
  using assms indirect_offset_eq [OF assms(2), of first] by simp

lemma ind_top:
  assumes "addresses blocksize a" and "td_depth td < 0"
  shows "visit_entries blocksize (ind_visits po 12 t @ ws) td = ind_offsets 12 t @ visit_entries blocksize ws (td\<lparr>td_depth := 0\<rparr>)"
proof (cases t)
  case (Ind b cs)
  have "track_depth (-1) po td = Value (int 0, td\<lparr>td_depth := 0\<rparr>)"
    using assms(2) by (simp add: track_depth_def IND_COUNT_def)
  from visit_indirect [OF this, of blocksize 12 b] index_offsets(1) [OF assms(1), of 0 0] assms(1)
  show ?thesis by (simp add: Ind data_entries addresses_def)
qed

lemma ind_below:
  assumes "\<not> td_depth td < 0"
    and "index_to_offset blocksize (td_depth td) (int i) (td_ind1 td) = int first"
  shows "visit_entries blocksize (ind_visits (4 * int i) first t @ ws) td
    = ind_offsets first t @ visit_entries blocksize ws (td\<lparr>td_ind0 := int i\<rparr>)"
proof (cases t)
  case (Ind b cs)
  have "drop_bit 2 (4 * int i) = int i" by (simp add: drop_bit_eq_div)
  then have "track_depth (-1) (4 * int i) td = Value (int 0, td\<lparr>td_ind0 := int i\<rparr>)"
    using assms(1) by (simp add: track_depth_def IND_COUNT_def)
  from visit_indirect [OF this, of blocksize first b] assms(2)
  show ?thesis by (simp add: Ind data_entries)
qed

lemma inds_below:
  assumes "\<forall>(i, t)\<in>set ts. index_to_offset blocksize (td_depth td) (int i) (td_ind1 td) = int (f i)"
    and "\<not> td_depth td < 0"
  shows "\<exists>k. \<forall>ws. visit_entries blocksize (concat (map (\<lambda>(i, t). ind_visits (4 * int i) (f i) t) ts) @ ws) td
    = concat (map (\<lambda>(i, t). ind_offsets (f i) t) ts) @ visit_entries blocksize ws (td\<lparr>td_ind0 := k\<rparr>)"
  using assms
proof (induction ts arbitrary: td)
  case Nil
  show ?case by (intro exI [of _ "td_ind0 td"]) simp
next
  case (Cons x ts)
  obtain i t where x: "x = (i, t)" by force
  have "index_to_offset blocksize (td_depth td) (int i) (td_ind1 td) = int (f i)" using Cons.prems(1) by (simp add: x)
  note one = ind_below [OF Cons.prems(2) this]
  obtain k where k: "\<And>ws. visit_entries blocksize (concat (map (\<lambda>(i, t). ind_visits (4 * int i) (f i) t) ts) @ ws) (td\<lparr>td_ind0 := int i\<rparr>)
    = concat (map (\<lambda>(i, t). ind_offsets (f i) t) ts) @ visit_entries blocksize ws (td\<lparr>td_ind0 := k\<rparr>)"
    using Cons.IH [of "td\<lparr>td_ind0 := int i\<rparr>"] Cons.prems by auto
  show ?case by (intro exI [of _ k] allI) (simp add: x one k)
qed

lemma dind_top:
  assumes "addresses blocksize a" and "dind_ok a t" and "td_depth td < 1"
  shows "\<exists>td'. td_depth td' = 1 \<and> (\<forall>ws. visit_entries blocksize (dind_visits a po (12 + a) t @ ws) td
    = dind_offsets a (12 + a) t @ visit_entries blocksize ws td')"
proof (cases t)
  case (Dind b ts)
  let ?td = "td\<lparr>td_depth := 1, td_ind0 := 0\<rparr>"
  have a: "0 < a" using assms(1) by (simp add: addresses_def)
  have "track_depth (-2) po td = Value (int 1, ?td)"
    using assms(3) by (simp add: track_depth_def IND_COUNT_def DIND_COUNT_def)
  note one = visit_indirect [OF this, of blocksize "12 + a" b]
  have "\<forall>(i, t)\<in>set ts. index_to_offset blocksize (td_depth ?td) (int i) (td_ind1 ?td) = int (12 + a + i * a)"
    using assms(2) index_offsets(2) [OF assms(1) _ a] by (auto simp: Dind)
  from inds_below [OF this] obtain k where
    k: "\<And>ws. visit_entries blocksize (concat (map (\<lambda>(i, t). ind_visits (4 * int i) (12 + a + i * a) t) ts) @ ws) ?td
    = concat (map (\<lambda>(i, t). ind_offsets (12 + a + i * a) t) ts) @ visit_entries blocksize ws (?td\<lparr>td_ind0 := k\<rparr>)"
    by auto
  show ?thesis
    using one k index_offsets(2) [OF assms(1) a a, of "td_ind1 td"]
    by (intro exI [of _ "?td\<lparr>td_ind0 := k\<rparr>"]) (simp add: Dind)
qed

lemma dind_below:
  assumes "addresses blocksize a" and "dind_ok a t" and "td_depth td = 2" and "td_ind0 td = 0" and "j < a"
  shows "\<exists>td'. \<forall>ws. visit_entries blocksize (dind_visits a (4 * int j) (12 + a + a * a + j * a * a) t @ ws) td
    = dind_offsets a (12 + a + a * a + j * a * a) t @ visit_entries blocksize ws td'"
proof (cases t)
  case (Dind b ts)
  let ?f = "12 + a + a * a + j * a * a"
  let ?td = "td\<lparr>td_ind1 := int j\<rparr>"
  have a: "0 < a" using assms(1) by (simp add: addresses_def)
  have "drop_bit 2 (4 * int j) = int j" by (simp add: drop_bit_eq_div)
  then have "track_depth (-2) (4 * int j) td = Value (int 1, ?td)"
    using assms(3) by (simp add: track_depth_def IND_COUNT_def DIND_COUNT_def)
  note one = visit_indirect [OF this, of blocksize ?f b]
  have "\<forall>(i, t)\<in>set ts. index_to_offset blocksize (td_depth ?td) (int i) (td_ind1 ?td) = int (?f + i * a)"
    using assms(2,3) index_offsets(3) [OF assms(1) _ assms(5)] by (auto simp: Dind)
  from inds_below [OF this] obtain k where
    k: "\<And>ws. visit_entries blocksize (concat (map (\<lambda>(i, t). ind_visits (4 * int i) (?f + i * a) t) ts) @ ws) ?td
    = concat (map (\<lambda>(i, t). ind_offsets (?f + i * a) t) ts) @ visit_entries blocksize ws (?td\<lparr>td_ind0 := k\<rparr>)"
    using assms(3) by auto
  show ?thesis
    using one k assms(3,4) index_offsets(3) [OF assms(1) a assms(5)]
    by (intro exI [of _ "?td\<lparr>td_ind0 := k\<rparr>"]) (simp add: Dind)
qed

lemma tind_top:
  assumes "addresses blocksize a" and "tind_ok a t" and "td_depth td < 2"
  shows "\<exists>td'. \<forall>ws. visit_entries blocksize (tind_visits a po (12 + a + a * a) t @ ws) td
    = tind_offsets a (12 + a + a * a) t @ visit_entries blocksize ws td'"
proof (cases t)
  case (Tind b ts)
  let ?td = "td\<lparr>td_depth := 2, td_ind0 := 0, td_ind1 := 0\<rparr>"
  have a: "0 < a" using assms(1) by (simp add: addresses_def)
  have "track_depth (-3) po td = Value (int 2, ?td)"
    using assms(3) by (simp add: track_depth_def IND_COUNT_def DIND_COUNT_def TIND_COUNT_def)
  from visit_indirect [OF this, of blocksize "12 + a + a * a" b] index_offsets(3) [OF assms(1) a a]
  have one: "visit_entries blocksize (\<lparr>iv_block = b, iv_offset = -3, iv_parent_offset = po\<rparr> # ws) td
      = (b, indirect_offset (12 + a + a * a) 2) # visit_entries blocksize ws ?td" for ws
    by simp
  show ?thesis
  proof (cases ts)
    case Nil
    show ?thesis by (intro exI [of _ ?td]) (simp add: Tind Nil one del: visit_entries.simps)
  next
    case (Cons x xs)
    obtain j u where x: "x = (j, u)" by force
    have ok: "xs = []" "j < a" "dind_ok a u" using assms(2) by (simp_all add: Tind Cons x)
    obtain td' where "\<And>ws. visit_entries blocksize (dind_visits a (4 * int j) (12 + a + a * a + j * a * a) u @ ws) ?td
      = dind_offsets a (12 + a + a * a + j * a * a) u @ visit_entries blocksize ws td'"
      using dind_below [OF assms(1) ok(3) _ _ ok(2), of ?td] by auto
    then show ?thesis by (intro exI [of _ td']) (simp add: Tind Cons x ok(1) one del: visit_entries.simps)
  qed
qed

lemma tree_entries:
  assumes "addresses blocksize a" and "tree_ok a t"
  shows "visit_entries blocksize (tree_visits a t) (new_traversal ino) = tree_offsets a t"
proof -
  let ?td = "new_traversal ino"
  have "\<exists>td1. td_depth td1 < 1 \<and> (\<forall>ws. visit_entries blocksize (zone_visits (ind_visits 12 12) (it_ind t) @ ws) ?td
      = zone_offsets (ind_offsets 12) (it_ind t) @ visit_entries blocksize ws td1)"
  proof (cases "it_ind t")
    case None
    then show ?thesis by (intro exI [of _ ?td]) (simp add: zone_visits_def zone_offsets_def new_traversal_def)
  next
    case (Some u)
    then show ?thesis using ind_top [OF assms(1), of ?td]
      by (intro exI [of _ "?td\<lparr>td_depth := 0\<rparr>"]) (simp add: zone_visits_def zone_offsets_def new_traversal_def)
  qed
  then obtain td1 where td1: "td_depth td1 < 1" "\<And>ws. visit_entries blocksize (zone_visits (ind_visits 12 12) (it_ind t) @ ws) ?td
      = zone_offsets (ind_offsets 12) (it_ind t) @ visit_entries blocksize ws td1" by blast
  have "\<exists>td2. td_depth td2 < 2 \<and> (\<forall>ws. visit_entries blocksize (zone_visits (dind_visits a 13 (12 + a)) (it_dind t) @ ws) td1
      = zone_offsets (dind_offsets a (12 + a)) (it_dind t) @ visit_entries blocksize ws td2)"
  proof (cases "it_dind t")
    case None
    then show ?thesis using td1(1) by (intro exI [of _ td1]) (simp add: zone_visits_def zone_offsets_def)
  next
    case (Some u)
    then have "dind_ok a u" using assms(2) by (simp add: tree_ok_def zone_ok_def)
    from dind_top [OF assms(1) this td1(1), of 13] obtain td' where
      "td_depth td' = 1" "\<And>ws. visit_entries blocksize (dind_visits a 13 (12 + a) u @ ws) td1
        = dind_offsets a (12 + a) u @ visit_entries blocksize ws td'"
      by blast
    then show ?thesis by (intro exI [of _ td']) (simp add: Some zone_visits_def zone_offsets_def)
  qed
  then obtain td2 where td2: "td_depth td2 < 2" "\<And>ws. visit_entries blocksize (zone_visits (dind_visits a 13 (12 + a)) (it_dind t) @ ws) td1
      = zone_offsets (dind_offsets a (12 + a)) (it_dind t) @ visit_entries blocksize ws td2" by blast
  have "\<exists>td3. (\<forall>ws. visit_entries blocksize (zone_visits (tind_visits a 14 (12 + a + a * a)) (it_tind t) @ ws) td2
      = zone_offsets (tind_offsets a (12 + a + a * a)) (it_tind t) @ visit_entries blocksize ws td3)"
  proof (cases "it_tind t")
    case None
    then show ?thesis by (intro exI [of _ td2]) (simp add: zone_visits_def zone_offsets_def)
  next
    case (Some u)
    then have "tind_ok a u" using assms(2) by (simp add: tree_ok_def zone_ok_def)
    from tind_top [OF assms(1) this td2(1), of 14] obtain td' where
      "\<And>ws. visit_entries blocksize (tind_visits a 14 (12 + a + a * a) u @ ws) td2
        = tind_offsets a (12 + a + a * a) u @ visit_entries blocksize ws td'"
      by blast
    then show ?thesis by (intro exI [of _ td']) (simp add: Some zone_visits_def zone_offsets_def)
  qed
  then obtain td3 where td3: "\<And>ws. visit_entries blocksize (zone_visits (tind_visits a 14 (12 + a + a * a)) (it_tind t) @ ws) td2
      = zone_offsets (tind_offsets a (12 + a + a * a)) (it_tind t) @ visit_entries blocksize ws td3" by blast
  show ?thesis using td3 [of "[]"] unfolding tree_visits_def tree_offsets_def by (simp add: data_entries td1(2) td2(2))
qed

section \<open>The files of a scan\<close>

text \<open>
  The iterations of a scan are those of block trees: \<open>tree\<close> gives the tree of an inode. What the tool
  should find: for every scanned inode the blocks of its tree that belong to \<open>B\<close>, with their offsets.
\<close>

fun scan_trees ::
  "nat \<Rightarrow> (u32 \<Rightarrow> inode_tree) \<Rightarrow> (u32 \<Rightarrow> iter_visit list \<times> bool) \<Rightarrow> (int + scanned_inode) list \<Rightarrow> bool" where
  "scan_trees a tree blocks [] \<longleftrightarrow> True"
| "scan_trees a tree blocks (Inl error # scan) \<longleftrightarrow> False"
| "scan_trees a tree blocks (Inr inode # scan) \<longleftrightarrow>
     sc_inum inode = 0
     \<or> (scanned inode \<longrightarrow> tree_ok a (tree (sc_inum inode))
          \<and> blocks (sc_inum inode) = (tree_visits a (tree (sc_inum inode)), True))
       \<and> scan_trees a tree blocks scan"

definition chosen_blocks :: "nat set \<Rightarrow> (u32 \<times> int) list \<Rightarrow> (nat \<times> int) list" where
  "chosen_blocks B es = map (\<lambda>(b, off). (unat b, off)) (filter (\<lambda>(b, off). unat b \<in> B) es)"

fun tree_files :: "nat \<Rightarrow> (u32 \<Rightarrow> inode_tree) \<Rightarrow> nat set \<Rightarrow> (int + scanned_inode) list \<Rightarrow> file_view list" where
  "tree_files a tree B [] = []"
| "tree_files a tree B (Inl error # scan) = []"
| "tree_files a tree B (Inr inode # scan) =
     (if sc_inum inode = 0 then []
      else (let w = chosen_blocks B (tree_offsets a (tree (sc_inum inode))) in
            if scanned inode \<and> w \<noteq> [] then [(sc_inum inode, None, w)] else [])
           @ tree_files a tree B scan)"

lemma expected_tree_files:
  assumes "addresses blocksize a" and "scan_trees a tree blocks scan" and "extent_blocks ies = B"
  shows "expected_files blocksize blocks ies scan = tree_files a tree B scan"
  using assms(2)
proof (induction scan)
  case (Cons x scan)
  have w: "wanted ies = chosen_blocks B" by (rule ext) (simp add: wanted_def chosen_blocks_def assms(3))
  show ?case
  proof (cases x)
    case (Inr inode)
    then show ?thesis using Cons tree_entries [OF assms(1)] by (auto simp: w found_def Let_def)
  qed simp
qed simp

lemma data_visits_ok: "\<forall>(j, c)\<in>set cs. c \<noteq> 0 \<Longrightarrow> list_all visit_ok (data_visits unit first cs)"
  by (auto simp: data_visits_def list_all_iff visit_ok_def)

lemma ind_visits_ok: "ind_ok t \<Longrightarrow> list_all visit_ok (ind_visits po first t)"
  by (cases t) (simp add: visit_ok_def data_visits_ok)

lemma dind_visits_ok: "dind_ok a t \<Longrightarrow> list_all visit_ok (dind_visits a po first t)"
  by (cases t) (fastforce simp: visit_ok_def list_all_iff dest: ind_visits_ok [unfolded list_all_iff])

lemma tind_visits_ok: "tind_ok a t \<Longrightarrow> list_all visit_ok (tind_visits a po first t)"
  by (cases t) (fastforce simp: visit_ok_def list_all_iff dest: dind_visits_ok [unfolded list_all_iff])

lemma tree_visits_ok: "tree_ok a t \<Longrightarrow> list_all visit_ok (tree_visits a t)"
  by (simp add: tree_ok_def zone_ok_def tree_visits_def zone_visits_def data_visits_ok ind_visits_ok dind_visits_ok
      tind_visits_ok split: option.splits)

lemma scan_trees_ok: "scan_trees a tree blocks scan \<Longrightarrow> scan_ok blocks scan"
proof (induction scan)
  case (Cons x scan)
  then show ?case using tree_visits_ok by (cases x) auto
qed simp

end
