(* ===== verification/E2block2file.thy ===== *)
theory E2block2file
  imports E2block2file_Names E2block2file_Tree Layout_List
begin

text \<open>
  The command line and \<open>main\<close> of \<open>e2block2file\<close>, and the tool as a whole. \<open>getopt\<close> is a list of its
  results; which files and devices can be opened is decided by arguments.
\<close>

section \<open>The command line\<close>

record b2f_options =
  fl_nodirnames :: bool
  fl_dumptimes :: bool
  block_size :: int
  part_start :: int
  given_part_start :: bool

definition default_options :: b2f_options where
  "default_options = \<lparr>fl_nodirnames = False, fl_dumptimes = False, block_size = 512, part_start = 0, given_part_start = False\<rparr>"

definition parse_option :: "bool \<Rightarrow> char \<times> byte list \<Rightarrow> b2f_options \<Rightarrow> b2f_options run_result" where
  "parse_option output_opens = (\<lambda>(c, optarg) o'.
     if c = CHR ''b'' then
       (let (l, rest) = strtol10 optarg; v = sint (word_of_int l :: u32) in
        if rest \<noteq> [] \<or> v \<le> 0 \<or> v AND (v - 1) \<noteq> 0 then Exit 1 else Value (o'\<lparr>block_size := v\<rparr>))
     else if c = CHR ''s'' then
       (let (v, rest) = strtol10 optarg in
        if rest \<noteq> [] \<or> v < 0 then Exit 1 else Value (o'\<lparr>part_start := v, given_part_start := True\<rparr>))
     else if c = CHR ''o'' then (if output_opens then Value o' else Exit 1)
     else if c = CHR ''n'' then Value (o'\<lparr>fl_nodirnames := True\<rparr>)
     else if c = CHR ''t'' then Value (o'\<lparr>fl_dumptimes := True\<rparr>)
     else if c = CHR ''?'' \<or> c = CHR ''h'' then Exit 1
     else Value o')"

fun parse_option_list :: "bool \<Rightarrow> (char \<times> byte list) list \<Rightarrow> b2f_options \<Rightarrow> b2f_options run_result" where
  "parse_option_list output_opens [] o' = Value o'"
| "parse_option_list output_opens (x # xs) o' =
     and_then (parse_option output_opens x o') (parse_option_list output_opens xs)"

text \<open>
  \<open>input_opens\<close> is true for the standard input too; \<open>geometry\<close> is the start of the partition that
  \<open>HDIO_GETGEO\<close> gives, \<open>None\<close> when the device cannot be opened or asked.
\<close>

definition b2f_parse_options ::
  "bool \<Rightarrow> bool \<Rightarrow> bool \<Rightarrow> int option \<Rightarrow> (char \<times> byte list) list \<Rightarrow> byte list list \<Rightarrow> b2f_options run_result" where
  "b2f_parse_options output_opens input_opens fs_opens geometry opts args =
     and_then (parse_option_list output_opens opts default_options) (\<lambda>o'.
     if length args \<noteq> 2 then Exit 1
     else if \<not> input_opens then Exit 1
     else if \<not> fs_opens then Exit 1
     else if given_part_start o' then Value o'
     else (case geometry of None \<Rightarrow> Exit 1 | Some start \<Rightarrow> Value (o'\<lparr>part_start := start\<rparr>)))"

section \<open>The program\<close>

text \<open>What the tool gets from outside: the file system and the sorting function.\<close>

record b2f_input =
  bi_text :: "byte list"
  bi_blocksize :: u32
  bi_scan_opens :: bool
  bi_scan :: "(int + scanned_inode) list"
  bi_blocks :: "u32 \<Rightarrow> iter_visit list \<times> bool"
  bi_has_filetype :: bool
  bi_read_inode :: "u32 \<Rightarrow> u16 option"
  bi_dir :: "u32 \<Rightarrow> dir_entry list \<times> bool"
  bi_memory :: nat

definition b2f_run ::
  "(input_extent_map list \<Rightarrow> input_extent_map list) \<Rightarrow> (block_map list \<Rightarrow> block_map list) \<Rightarrow> (int \<Rightarrow> input_extent_map)
     \<Rightarrow> b2f_options \<Rightarrow> b2f_input \<Rightarrow> dump_line list run_result" where
  "b2f_run sort_extents sort_maps junk opts inp =
     and_then (load_blocks sort_extents (bi_blocksize inp) (word_of_int (block_size opts)) (part_start opts)
                 (bi_text inp) (bi_memory inp)) (\<lambda>(ies, memory).
     and_then (map_blocks (fl_dumptimes opts) (bi_blocksize inp) junk (bi_blocks inp) (bi_scan_opens inp) (bi_scan inp)
                 (start_state ies memory)) (\<lambda>s.
     and_then (if fl_nodirnames opts then Value s
               else map_inodes (bi_has_filetype inp) (bi_read_inode inp) (bi_dir inp) s) (\<lambda>s.
     if \<not> fl_dumptimes opts then dump_inodes s
     else dump_times sort_maps (bi_blocksize inp) (word_of_int (block_size opts)) (part_start opts)
            (fst (input_extents (bi_text inp))) s)))"

definition b2f_main ::
  "(input_extent_map list \<Rightarrow> input_extent_map list) \<Rightarrow> (block_map list \<Rightarrow> block_map list) \<Rightarrow> (int \<Rightarrow> input_extent_map)
     \<Rightarrow> bool \<Rightarrow> bool \<Rightarrow> bool \<Rightarrow> int option \<Rightarrow> (char \<times> byte list) list \<Rightarrow> byte list list \<Rightarrow> b2f_input
     \<Rightarrow> dump_line list run_result" where
  "b2f_main sort_extents sort_maps junk output_opens input_opens fs_opens geometry opts args inp =
     and_then (b2f_parse_options output_opens input_opens fs_opens geometry opts args) (\<lambda>o'.
     b2f_run sort_extents sort_maps junk o' inp)"

section \<open>The tool as a whole\<close>

text \<open>
  The files whose blocks the input names, with the offsets of their blocks: computed from the extents of
  the input and the block trees of the scanned inodes alone. \<open>a\<close> is the number of addresses in a block.
\<close>

definition input_files :: "b2f_options \<Rightarrow> nat \<Rightarrow> nat \<Rightarrow> (u32 \<Rightarrow> inode_tree) \<Rightarrow> b2f_input \<Rightarrow> file_view list" where
  "input_files opts shift a tree inp =
     tree_files a tree (input_blocks (part_start opts) shift (fst (input_extents (bi_text inp)))) (bi_scan inp)"

text \<open>
  An input without errors: the scan iterates over block trees with at most one double indirect block
  below a triple indirect one, at most 8192 extents are kept and at most 8192 blocks of files found, the
  block numbers stay below 2^31, and there is memory for a structure per inode and three arrays.
\<close>

definition good_input :: "b2f_options \<Rightarrow> nat \<Rightarrow> nat \<Rightarrow> (u32 \<Rightarrow> inode_tree) \<Rightarrow> b2f_input \<Rightarrow> bool" where
  "good_input opts shift a tree inp \<longleftrightarrow>
     log2i (bi_blocksize inp div word_of_int (block_size opts)) = int shift
     \<and> snd (input_extents (bi_text inp)) \<and> bi_scan_opens inp
     \<and> addresses (bi_blocksize inp) a \<and> scan_trees a tree (bi_blocks inp) (bi_scan inp)
     \<and> length (kept_extents (part_start opts) shift (fst (input_extents (bi_text inp)))) \<le> BMAP_ALLOC_ENTRIES
     \<and> input_fits (part_start opts) shift (fst (input_extents (bi_text inp)))
     \<and> block_total (input_files opts shift a tree inp) \<le> BMAP_ALLOC_ENTRIES
     \<and> length (bi_scan inp) + 3 \<le> bi_memory inp"

lemma good_input_load:
  assumes "good_input opts shift a tree inp" and "c_qsort extent_less sort_extents"
  shows "\<exists>ies. load_blocks sort_extents (bi_blocksize inp) (word_of_int (block_size opts)) (part_start opts) (bi_text inp)
      (bi_memory inp) = Value (ies, bi_memory inp - 1) \<and> extents_ok ies
    \<and> expected_files (bi_blocksize inp) (bi_blocks inp) ies (bi_scan inp) = input_files opts shift a tree inp"
proof -
  have g: "log2i (bi_blocksize inp div word_of_int (block_size opts)) = int shift"
    "input_extents (bi_text inp) = (fst (input_extents (bi_text inp)), True)"
    "length (kept_extents (part_start opts) shift (fst (input_extents (bi_text inp)))) \<le> BMAP_ALLOC_ENTRIES"
    "input_fits (part_start opts) shift (fst (input_extents (bi_text inp)))" "0 < bi_memory inp"
    and t: "addresses (bi_blocksize inp) a" "scan_trees a tree (bi_blocks inp) (bi_scan inp)"
    using assms(1) by (simp_all add: good_input_def prod_eq_iff)
  from load_blocks_spec [OF assms(2) g] obtain ies where
    ies: "load_blocks sort_extents (bi_blocksize inp) (word_of_int (block_size opts)) (part_start opts) (bi_text inp)
      (bi_memory inp) = Value (ies, bi_memory inp - 1)" "extents_ok ies"
      "extent_blocks ies = input_blocks (part_start opts) shift (fst (input_extents (bi_text inp)))"
    by (auto simp: extents_ok_def)
  then show ?thesis using expected_tree_files [OF t(1,2) ies(3)] by (simp add: input_files_def)
qed

text \<open>
  C23: \<open>e2block2file -n\<close> as a whole, on a good input (\<open>good_input\<close>): reading, sorting and merging the
  input, the scan and the output per file together list, for every scanned file, exactly its blocks that
  some input line names, in the order of its block tree and with their offsets, the file found last
  first. The offsets are those of the tree: the logical number of a data block; for an indirect block the
  negative number whose lowest two bits are the depth and whose other bits are the first block that can
  be referenced below it.
\<close>

theorem e2block2file_lists_files:
  assumes "good_input opts shift a tree inp" and "c_qsort extent_less sort_extents"
    and "fl_nodirnames opts" and "\<not> fl_dumptimes opts"
  shows "\<exists>ls. b2f_run sort_extents sort_maps junk opts inp = Value ls
    \<and> read_back ls = rev (input_files opts shift a tree inp)"
proof -
  obtain ies where ies: "load_blocks sort_extents (bi_blocksize inp) (word_of_int (block_size opts)) (part_start opts) (bi_text inp)
      (bi_memory inp) = Value (ies, bi_memory inp - 1)" "extents_ok ies"
    "expected_files (bi_blocksize inp) (bi_blocks inp) ies (bi_scan inp) = input_files opts shift a tree inp"
    using good_input_load [OF assms(1,2)] by blast
  have g: "bi_scan_opens inp" "scan_ok (bi_blocks inp) (bi_scan inp)"
    "length (bi_scan inp) + 2 \<le> bi_memory inp - 1"
    "block_total (expected_files (bi_blocksize inp) (bi_blocks inp) ies (bi_scan inp)) \<le> BMAP_ALLOC_ENTRIES"
    using assms(1) ies(3) scan_trees_ok by (auto simp: good_input_def)
  from map_blocks_dump_inodes_spec [OF ies(2) g(2,4,3), of junk] obtain s ls where
    "map_blocks False (bi_blocksize inp) junk (bi_blocks inp) True (bi_scan inp) (start_state ies (bi_memory inp - 1)) = Value s"
    "dump_inodes s = Value ls" "read_back ls = rev (input_files opts shift a tree inp)"
    unfolding ies(3) by blast
  then show ?thesis using assms(3,4) ies(1) g(1) by (simp add: b2f_run_def)
qed

text \<open>
  Two files and the overlapping input \<open>122+4 120+3 7+1\<close>; the second file has blocks below a triple indirect block.
  \<open>b2f_main\<close> runs with the options \<open>-n -b 1024 -s 100\<close>.
\<close>

definition sample_tree :: "u32 \<Rightarrow> inode_tree" where
  "sample_tree ino =
     (if ino = 5 then \<lparr>it_direct = [(0, 20), (1, 21)], it_ind = None, it_dind = None, it_tind = None\<rparr>
      else \<lparr>it_direct = [(0, 30)], it_ind = None, it_dind = None,
             it_tind = Some (Tind 22 [(3, Dind 23 [(2, Ind 24 [(5, 25)])])])\<rparr>)"

definition sample_bytes :: "byte list" where
  "sample_bytes = [49, 50, 50, 43, 52, 10, 49, 50, 48, 43, 51, 10, 55, 43, 49, 10]"

lemma sample_bytes_extents: "input_extents sample_bytes = ([(122, 4), (120, 3), (7, 1)], True)"
  by code_simp

definition sample_input :: b2f_input where
  "sample_input = \<lparr>bi_text = sample_bytes, bi_blocksize = 1024, bi_scan_opens = True,
     bi_scan = sample_scan, bi_blocks = (\<lambda>ino. (tree_visits 256 (sample_tree ino), True)), bi_has_filetype = True,
     bi_read_inode = (\<lambda>_. None), bi_dir = (\<lambda>_. ([], True)), bi_memory = 9\<rparr>"

definition sample_options :: b2f_options where
  "sample_options = \<lparr>fl_nodirnames = True, fl_dumptimes = False, block_size = 1024, part_start = 100, given_part_start = True\<rparr>"

lemma sample_command_line:
  "b2f_parse_options True True True None [(CHR ''n'', []), (CHR ''b'', [49, 48, 50, 52]), (CHR ''s'', [49, 48, 48])] [[45], [47]]
    = Value sample_options"
  by code_simp

lemma sample_input_files: "input_files sample_options 0 256 sample_tree sample_input
    = [(5, None, [(20, 0), (21, 1)]), (8, None, [(22, -263218), (23, -1049649), (24, -1051696), (25, 262929)])]"
proof -
  have "input_blocks 100 0 [(122, 4), (120, 3), (7, 1)] = {20..<26}"
    by (auto simp: input_blocks_def)
  then show ?thesis
    by (simp add: input_files_def sample_options_def sample_input_def sample_bytes_extents sample_scan_def sample_tree_def scanned_def S_ISREG_def
        S_ISDIR_def tree_offsets_def zone_offsets_def data_offsets_def indirect_offset_def chosen_blocks_def)
qed

lemma sample_trees: "scan_trees 256 sample_tree (bi_blocks sample_input) sample_scan"
  by (simp add: sample_input_def sample_scan_def sample_tree_def tree_ok_def zone_ok_def)

lemma e2block2file_lists_files_witness:
  "\<exists>ls. b2f_main (cmp_sort extent_less) (cmp_sort map_less) (\<lambda>_. \<lparr>ie_block = 0, ie_len = 0\<rparr>) True True True None
      [(CHR ''n'', []), (CHR ''b'', [49, 48, 50, 52]), (CHR ''s'', [49, 48, 48])] [[45], [47]] sample_input = Value ls
    \<and> read_back ls = [(8, None, [(22, -263218), (23, -1049649), (24, -1051696), (25, 262929)]), (5, None, [(20, 0), (21, 1)])]"
proof -
  have scan: "bi_scan sample_input = sample_scan" and len: "length sample_scan = 3"
    by (simp_all add: sample_input_def sample_scan_def)
  have "good_input sample_options 0 256 sample_tree sample_input"
    unfolding good_input_def sample_input_files
    using sample_trees scan len
    by (simp add: sample_options_def log2i_1 kept_extents_def BMAP_ALLOC_ENTRIES_def input_fits_def addresses_def block_total_def)
      (simp add: sample_input_def sample_bytes_extents log2i_1 input_fits_def)
  from e2block2file_lists_files [OF this extent_qsort.c_qsort_axioms, of "cmp_sort map_less" "\<lambda>_. \<lparr>ie_block = 0, ie_len = 0\<rparr>"]
  show ?thesis by (simp add: b2f_main_def sample_command_line sample_input_files) (simp add: sample_options_def)
qed

end
