(* ===== verification/E2remap_Splay.thy ===== *)
theory E2remap_Splay
  imports Run_Result C_Text "HOL-Library.Tree"
begin

text \<open>
  The tree of extents of \<open>e2remapblocks.c\<close>: top-down splaying (\<open>extent_splay\<close>) and insertion
  (\<open>extent_insert\<close>). The pointers \<open>l\<close> and \<open>r\<close> make a tree of extents; the two trees that the loop
  of \<open>extent_splay\<close> grows under its local node \<open>N\<close> are lists of the nodes on their right and left
  spine, the innermost first, each with its other subtree.
\<close>

record remap_extent =
  re_block :: u32
  re_len :: u32
  re_offset :: int
  re_chunk_offset :: int

definition re_end :: "remap_extent \<Rightarrow> u32" where
  "re_end e = re_block e + re_len e"

type_synonym extent_tree = "remap_extent tree"

section \<open>Splaying\<close>

text \<open>The end of the loop: both spines get the subtrees of the root.\<close>

fun assemble_left :: "(extent_tree \<times> remap_extent) list \<Rightarrow> extent_tree \<Rightarrow> extent_tree" where
  "assemble_left [] t = t"
| "assemble_left ((l, e) # ls) t = assemble_left ls (Node l e t)"

fun assemble_right :: "extent_tree \<Rightarrow> (remap_extent \<times> extent_tree) list \<Rightarrow> extent_tree" where
  "assemble_right t [] = t"
| "assemble_right t ((e, r) # rs) = assemble_right (Node t e r) rs"

definition assemble ::
  "(extent_tree \<times> remap_extent) list \<Rightarrow> extent_tree \<Rightarrow> remap_extent \<Rightarrow> extent_tree
     \<Rightarrow> (remap_extent \<times> extent_tree) list \<Rightarrow> extent_tree" where
  "assemble ls l e r rs = Node (assemble_left ls l) e (assemble_right r rs)"

function splay_loop ::
  "u32 \<Rightarrow> (extent_tree \<times> remap_extent) list \<Rightarrow> extent_tree \<Rightarrow> (remap_extent \<times> extent_tree) list \<Rightarrow> extent_tree" where
  "splay_loop blocknr ls Leaf rs = Leaf"
| "splay_loop blocknr ls (Node l e r) rs =
     (if blocknr < re_block e then
        (case l of
           Leaf \<Rightarrow> assemble ls l e r rs
         | Node ll le lr \<Rightarrow>
             if blocknr < re_block le then
               (if ll = Leaf then assemble ls ll le (Node lr e r) rs
                else splay_loop blocknr ls ll ((le, Node lr e r) # rs))
             else splay_loop blocknr ls l ((e, r) # rs))
      else if blocknr \<ge> re_end e then
        (case r of
           Leaf \<Rightarrow> assemble ls l e r rs
         | Node rl re rr \<Rightarrow>
             if blocknr \<ge> re_end re then
               (if rr = Leaf then assemble ls (Node l e rl) re rr rs
                else splay_loop blocknr ((Node l e rl, re) # ls) rr rs)
             else splay_loop blocknr ((l, e) # ls) r rs)
      else assemble ls l e r rs)"
  by pat_completeness auto
termination
  by (relation "measure (\<lambda>(b, ls, t, rs). size t)") auto

declare splay_loop.simps(2) [simp del]

definition extent_splay :: "u32 \<Rightarrow> extent_tree \<Rightarrow> extent_tree" where
  "extent_splay blocknr t = (if t = Leaf then Leaf else splay_loop blocknr [] t [])"

section \<open>Insertion\<close>

definition extent_insert :: "remap_extent \<Rightarrow> extent_tree \<Rightarrow> extent_tree run_result" where
  "extent_insert new t =
     (if t = Leaf then Value (Node Leaf new Leaf)
      else (case extent_splay (re_block new) t of
          Leaf \<Rightarrow> Undefined
        | Node l e r \<Rightarrow>
            if re_block new + re_len new < re_block e then Value (Node l new (Node Leaf e r))
            else if re_block new \<ge> re_end e then Value (Node (Node l e Leaf) new r)
            else Exit 1))"

section \<open>What splaying keeps and finds\<close>

definition spine_left :: "(extent_tree \<times> remap_extent) list \<Rightarrow> remap_extent list" where
  "spine_left ls = concat (map (\<lambda>(l, e). inorder l @ [e]) (rev ls))"

definition spine_right :: "(remap_extent \<times> extent_tree) list \<Rightarrow> remap_extent list" where
  "spine_right rs = concat (map (\<lambda>(e, r). e # inorder r) rs)"

lemma spine_simps [simp]:
  "spine_left [] = []" "spine_left ((l, e) # ls) = spine_left ls @ inorder l @ [e]"
  "spine_right [] = []" "spine_right ((e, r) # rs) = e # inorder r @ spine_right rs"
  by (simp_all add: spine_left_def spine_right_def)

lemma inorder_assemble_left [simp]: "inorder (assemble_left ls t) = spine_left ls @ inorder t"
  by (induction ls t rule: assemble_left.induct) simp_all

lemma inorder_assemble_right [simp]: "inorder (assemble_right t rs) = inorder t @ spine_right rs"
  by (induction t rs rule: assemble_right.induct) simp_all

lemma inorder_assemble [simp]: "inorder (assemble ls l e r rs) = spine_left ls @ inorder l @ e # inorder r @ spine_right rs"
  by (simp add: assemble_def)

text \<open>
  An induction over the rounds of the loop: a property that holds at every way out of the loop and is
  handed on by every round holds for the result.
\<close>

lemma splay_loop_rule:
  assumes stop: "\<And>ls l e r rs. P ls (Node l e r) rs \<Longrightarrow> (b < re_block e \<longrightarrow> l = Leaf)
      \<Longrightarrow> (\<not> b < re_block e \<longrightarrow> b \<ge> re_end e \<longrightarrow> r = Leaf) \<Longrightarrow> Q (assemble ls l e r rs)"
    and right: "\<And>ls l e r rs. P ls (Node l e r) rs \<Longrightarrow> b < re_block e \<Longrightarrow> P ls l ((e, r) # rs)"
    and rotate_right: "\<And>ls ll le lr e r rs. P ls (Node (Node ll le lr) e r) rs \<Longrightarrow> b < re_block e \<Longrightarrow> b < re_block le
      \<Longrightarrow> P ls (Node ll le (Node lr e r)) rs"
    and left: "\<And>ls l e r rs. P ls (Node l e r) rs \<Longrightarrow> \<not> b < re_block e \<Longrightarrow> b \<ge> re_end e \<Longrightarrow> P ((l, e) # ls) r rs"
    and rotate_left: "\<And>ls l e rl re rr rs. P ls (Node l e (Node rl re rr)) rs \<Longrightarrow> \<not> b < re_block e \<Longrightarrow> b \<ge> re_end e
      \<Longrightarrow> b \<ge> re_end re \<Longrightarrow> P ls (Node (Node l e rl) re rr) rs"
    and block_end: "\<And>ls l e rl re rr rs. P ls (Node (Node l e rl) re rr) rs \<Longrightarrow> b \<ge> re_end re \<Longrightarrow> \<not> b < re_block re"
  shows "P ls t rs \<Longrightarrow> t \<noteq> Leaf \<Longrightarrow> Q (splay_loop b ls t rs)"
proof (induction "size t" arbitrary: ls t rs rule: less_induct)
  case less
  obtain l e r where t: "t = Node l e r" using less.prems(2) by (cases t) auto
  note P = less.prems(1) [unfolded t]
  have IH: "\<And>ls t' rs. size t' < size t \<Longrightarrow> P ls t' rs \<Longrightarrow> t' \<noteq> Leaf \<Longrightarrow> Q (splay_loop b ls t' rs)"
    using less.hyps by blast
  consider "b < re_block e" | "\<not> b < re_block e" "b \<ge> re_end e" | "\<not> b < re_block e" "\<not> b \<ge> re_end e" by blast
  then show ?case
  proof cases
    case 1
    show ?thesis
    proof (cases l)
      case Leaf
      then show ?thesis unfolding t using 1 stop [OF P] by (subst splay_loop.simps(2)) simp
    next
      case (Node ll le lr)
      show ?thesis
      proof (cases "b < re_block le")
        case False
        have "splay_loop b ls t rs = splay_loop b ls l ((e, r) # rs)"
          unfolding t using 1 False Node by (subst splay_loop.simps(2)) simp
        then show ?thesis using IH [of l ls "(e, r) # rs"] right [OF P 1] Node by (simp add: t)
      next
        case True
        note rot = rotate_right [OF P [unfolded Node] 1 True]
        show ?thesis
        proof (cases "ll = Leaf")
          case leaf: True
          have "splay_loop b ls t rs = assemble ls ll le (Node lr e r) rs"
            unfolding t using 1 True Node leaf by (subst splay_loop.simps(2)) simp
          then show ?thesis using stop [OF rot] leaf True by simp
        next
          case False
          have "splay_loop b ls t rs = splay_loop b ls ll ((le, Node lr e r) # rs)"
            unfolding t using 1 True Node False by (subst splay_loop.simps(2)) simp
          then show ?thesis using IH [of ll ls "(le, Node lr e r) # rs"] right [OF rot True] False by (simp add: t Node)
        qed
      qed
    qed
  next
    case 2
    show ?thesis
    proof (cases r)
      case Leaf
      then show ?thesis unfolding t using 2 stop [OF P] by (subst splay_loop.simps(2)) simp
    next
      case (Node rl re rr)
      show ?thesis
      proof (cases "b \<ge> re_end re")
        case False
        have "splay_loop b ls t rs = splay_loop b ((l, e) # ls) r rs"
          unfolding t using 2 False Node by (subst splay_loop.simps(2)) simp
        then show ?thesis using IH [of r "(l, e) # ls" rs] left [OF P 2] Node by (simp add: t)
      next
        case True
        note rot = rotate_left [OF P [unfolded Node] 2 True]
        note nb = block_end [OF rot True]
        show ?thesis
        proof (cases "rr = Leaf")
          case leaf: True
          have "splay_loop b ls t rs = assemble ls (Node l e rl) re rr rs"
            unfolding t using 2 True Node leaf by (subst splay_loop.simps(2)) simp
          then show ?thesis using stop [OF rot] leaf True nb by simp
        next
          case False
          have "splay_loop b ls t rs = splay_loop b ((Node l e rl, re) # ls) rr rs"
            unfolding t using 2 True Node False by (subst splay_loop.simps(2)) simp
          then show ?thesis using IH [of rr "(Node l e rl, re) # ls" rs] left [OF rot nb True] False by (simp add: t Node)
        qed
      qed
    qed
  next
    case 3
    then show ?thesis unfolding t using stop [OF P] by (subst splay_loop.simps(2)) simp
  qed
qed

text \<open>The extents of a tree in order: not empty, without wrap-around, one after the other.\<close>

definition ext_start :: "remap_extent \<Rightarrow> nat" where "ext_start e = unat (re_block e)"
definition ext_stop :: "remap_extent \<Rightarrow> nat" where "ext_stop e = unat (re_block e) + unat (re_len e)"

definition ordered :: "remap_extent list \<Rightarrow> bool" where
  "ordered es \<longleftrightarrow> (\<forall>e\<in>set es. ext_start e < ext_stop e \<and> ext_stop e < 2 ^ 32)
     \<and> sorted_wrt (\<lambda>e f. ext_stop e \<le> ext_start f) es"

lemma unat_re_end: "ext_stop e < 2 ^ 32 \<Longrightarrow> unat (re_end e) = ext_stop e"
  by (simp add: re_end_def ext_stop_def unat_word_ariths)

lemma ordered_simps:
  "ordered []" "ordered (e # es) \<longleftrightarrow> ext_start e < ext_stop e \<and> ext_stop e < 2 ^ 32 \<and> (\<forall>f\<in>set es. ext_stop e \<le> ext_start f) \<and> ordered es"
  "ordered (es @ fs) \<longleftrightarrow> ordered es \<and> ordered fs \<and> (\<forall>e\<in>set es. \<forall>f\<in>set fs. ext_stop e \<le> ext_start f)"
  by (auto simp: ordered_def sorted_wrt_append)

text \<open>
  The root after splaying: it holds the block, or it is the first extent behind it, or the last one
  before it.
\<close>

definition near :: "u32 \<Rightarrow> extent_tree \<Rightarrow> bool" where
  "near b t \<longleftrightarrow> (case t of Leaf \<Rightarrow> False
     | Node l e r \<Rightarrow> (unat b < ext_start e \<longrightarrow> (\<forall>f\<in>set_tree l. ext_stop f \<le> unat b))
         \<and> (ext_stop e \<le> unat b \<longrightarrow> (\<forall>f\<in>set_tree r. unat b < ext_start f)))"

lemma extent_splay_spec:
  assumes ord: "ordered (inorder t)" and t: "t \<noteq> Leaf"
  shows "inorder (extent_splay b t) = inorder t \<and> near b (extent_splay b t)"
proof -
  let ?P = "\<lambda>ls u rs. spine_left ls @ inorder u @ spine_right rs = inorder t
    \<and> (\<forall>f\<in>set (spine_left ls). ext_stop f \<le> unat b) \<and> (\<forall>f\<in>set (spine_right rs). unat b < ext_start f)"
  let ?Q = "\<lambda>u. inorder u = inorder t \<and> near b u"
  have tests: "(b < re_block e) = (unat b < ext_start e)" "(b \<ge> re_end e) = (ext_stop e \<le> unat b)" "ext_start e < ext_stop e"
    if "e \<in> set (inorder t)" for e
    using that ord unat_re_end [of e]
    by (auto simp: ordered_def ext_start_def word_less_nat_alt word_le_nat_alt)
  have "?Q (splay_loop b [] t [])"
  proof (rule splay_loop_rule [where P = ?P], goal_cases)
    case (1 ls l e r rs)
    then have io: "inorder (assemble ls l e r rs) = inorder t" by simp
    have e: "e \<in> set (inorder t)" unfolding io [symmetric] by simp
    have "near b (assemble ls l e r rs)"
      unfolding near_def assemble_def using 1 tests [OF e]
      by (auto simp flip: set_inorder)
    then show ?case using io by blast
  next
    case (2 ls l e r rs)
    then have io: "inorder t = spine_left ls @ inorder l @ e # inorder r @ spine_right rs" by simp
    then have te: "unat b < ext_start e" "ext_start e < ext_stop e" using tests [of e] 2(2) by simp_all
    have "unat b < ext_start f" if "f \<in> set (inorder r)" for f
    proof -
      have "ext_stop e \<le> ext_start f" using ord that unfolding io by (simp add: ordered_simps)
      with te show ?thesis by linarith
    qed
    then show ?case using 2(1) te by auto
  next
    case (3 ls ll le lr e r rs)
    then show ?case by simp
  next
    case (4 ls l e r rs)
    then have io: "inorder t = spine_left ls @ inorder l @ e # inorder r @ spine_right rs" by simp
    then have te: "ext_stop e \<le> unat b" "ext_start e < ext_stop e" using tests [of e] 4(3) by simp_all
    have "ext_stop f \<le> unat b" if "f \<in> set (inorder l)" for f
    proof -
      have "ext_stop f \<le> ext_start e" using ord that unfolding io by (simp add: ordered_simps)
      with te show ?thesis by linarith
    qed
    then show ?case using 4(1) te by auto
  next
    case (5 ls l e rl re rr rs)
    then show ?case by simp
  next
    case (6 ls l e rl re rr rs)
    then have "re \<in> set (inorder t)" by (metis Un_iff inorder.simps(2) list.set_intros(1) set_append)
    then show ?case using 6(2) tests [of re] by linarith
  next
    case 7
    then show ?case by simp
  next
    case 8
    then show ?case by (rule t)
  qed
  then show ?thesis using t by (simp add: extent_splay_def)
qed

lemma inorder_splay: "ordered (inorder t) \<Longrightarrow> inorder (extent_splay b t) = inorder t"
  using extent_splay_spec [of t b] by (cases "t = Leaf") (simp_all add: extent_splay_def)

lemma near_neighbours:
  assumes "ordered (inorder t)" and "t \<noteq> Leaf" and "extent_splay b t = Node l e r"
  shows "inorder t = inorder l @ e # inorder r"
    and "unat b < ext_start e \<Longrightarrow> \<forall>f\<in>set (inorder l). ext_stop f \<le> unat b"
    and "ext_stop e \<le> unat b \<Longrightarrow> \<forall>f\<in>set (inorder r). unat b < ext_start f"
  using extent_splay_spec [OF assms(1,2), of b] assms(3) by (auto simp: near_def)

lemma extent_splay_not_Leaf: "t \<noteq> Leaf \<Longrightarrow> ordered (inorder t) \<Longrightarrow> extent_splay b t \<noteq> Leaf"
  using extent_splay_spec [of t b] by (auto simp: near_def split: tree.splits)

text \<open>
  When the root lies before the block and has a right subtree, splaying once more brings up an extent
  of that subtree.
\<close>

lemma splay_right_root:
  assumes ord: "ordered (inorder (Node l e r))" and r: "r \<noteq> Leaf" and e: "ext_stop e \<le> unat b"
    and after: "\<forall>f\<in>set (inorder r). unat b < ext_start f"
  shows "\<exists>l' e' r'. extent_splay b (Node l e r) = Node l' e' r' \<and> unat b < ext_start e'"
proof -
  obtain rl re rr where r': "r = Node rl re rr" using r by (cases r) auto
  have ok: "ext_start f < ext_stop f" "ext_stop f < 2 ^ 32" if "f \<in> set (inorder (Node l e r))" for f
    using ord that by (auto simp: ordered_def)
  have tests: "(b < re_block f) = (unat b < ext_start f)" "(b \<ge> re_end f) = (ext_stop f \<le> unat b)"
    if "f \<in> set (inorder (Node l e r))" for f
    using unat_re_end [OF ok(2) [OF that]] by (simp_all add: ext_start_def word_less_nat_alt word_le_nat_alt)
  have in_e: "e \<in> set (inorder (Node l e r))" "re \<in> set (inorder (Node l e r))" by (simp_all add: r')
  have nre: "unat b < ext_start re" using after by (simp add: r')
  have "extent_splay b (Node l e r) = splay_loop b [(l, e)] r []"
    using tests [OF in_e(1)] tests [OF in_e(2)] ok [OF in_e(1)] ok [OF in_e(2)] e nre
    unfolding extent_splay_def r' by (subst splay_loop.simps(2)) simp
  moreover have "\<exists>l' e' r'. splay_loop b [(l, e)] r [] = Node l' e' r' \<and> unat b < ext_start e'"
  proof (rule splay_loop_rule [where P = "\<lambda>ls u rs. \<forall>f\<in>set (inorder u). unat b < ext_start f \<and> f \<in> set (inorder (Node l e r))"], goal_cases)
    case (6 ls l1 e1 rl1 re1 rr1 rs)
    then have "unat b < ext_start re1" "re1 \<in> set (inorder (Node l e r))" by auto
    then show ?case using 6(2) tests [of re1] ok [of re1] by linarith
  next
    case 8
    then show ?case by (rule r)
  qed (use after in \<open>auto simp: assemble_def\<close>)
  ultimately show ?thesis by simp
qed

text \<open>
  Insertion: an extent that touches no other one is put in its place. One that ends where the next
  one begins is refused as overlapping.
\<close>

lemma extent_insert_spec:
  assumes ord: "ordered (inorder t)" and new: "ext_start new < ext_stop new" "ext_stop new < 2 ^ 32"
    and ins: "extent_insert new t = Value t'"
    and free: "\<forall>e\<in>set (inorder t). ext_stop new \<le> ext_start e \<or> ext_stop e \<le> ext_start new"
  shows "ordered (inorder t') \<and> mset (inorder t') = add_mset new (mset (inorder t))"
proof (cases "t = Leaf")
  case True
  then show ?thesis using ins new by (auto simp: extent_insert_def ordered_simps)
next
  case False
  obtain l e r where sp: "extent_splay (re_block new) t = Node l e r"
    using extent_splay_not_Leaf [OF False ord] by (cases "extent_splay (re_block new) t") auto
  note N = near_neighbours [OF ord False sp]
  have b: "unat (re_block new) = ext_start new" by (simp add: ext_start_def)
  have eo: "ext_start e < ext_stop e" "ext_stop e < 2 ^ 32" using ord unfolding N(1) by (simp_all add: ordered_simps)
  have nb: "\<forall>f\<in>set (inorder l). ext_stop f \<le> ext_start e" "\<forall>f\<in>set (inorder r). ext_stop e \<le> ext_start f"
    "ordered (inorder l)" "ordered (inorder r)" "\<forall>f\<in>set (inorder l). \<forall>g\<in>set (inorder r). ext_stop f \<le> ext_start g"
    using ord unfolding N(1) by (simp_all add: ordered_simps)
  show ?thesis
  proof (cases "re_block new + re_len new < re_block e")
    case True
    then have t': "t' = Node l new (Node Leaf e r)" using ins False sp by (simp add: extent_insert_def)
    have lt: "ext_stop new < ext_start e"
      using True unat_re_end [OF new(2)] by (simp add: re_end_def ext_start_def word_less_nat_alt)
    then have before: "\<forall>f\<in>set (inorder l). ext_stop f \<le> ext_start new" using N(2) new(1) b by simp
    have after: "\<forall>f\<in>set (inorder r). ext_stop new \<le> ext_start f"
    proof
      fix f assume "f \<in> set (inorder r)"
      then have "ext_stop e \<le> ext_start f" using nb(2) by blast
      then show "ext_stop new \<le> ext_start f" using lt eo by linarith
    qed
    show ?thesis unfolding t' N(1) using nb before after new eo lt by (simp add: ordered_simps)
  next
    case F: False
    then have ge: "re_block new \<ge> re_end e" and t': "t' = Node (Node l e Leaf) new r"
      using ins False sp by (auto simp: extent_insert_def split: if_splits)
    have le: "ext_stop e \<le> ext_start new"
      using ge unat_re_end [OF eo(2)] by (simp add: ext_start_def word_le_nat_alt)
    have after: "\<forall>f\<in>set (inorder r). ext_stop new \<le> ext_start f"
    proof
      fix f assume f: "f \<in> set (inorder r)"
      have "ext_start new < ext_start f" using N(3) b le f by simp
      moreover have "ext_start f < ext_stop f" using nb(4) f by (simp add: ordered_def)
      moreover have "ext_stop new \<le> ext_start f \<or> ext_stop f \<le> ext_start new" using free f unfolding N(1) by simp
      ultimately show "ext_stop new \<le> ext_start f" by linarith
    qed
    have before: "\<forall>f\<in>set (inorder l). ext_stop f \<le> ext_start new"
    proof
      fix f assume "f \<in> set (inorder l)"
      then have "ext_stop f \<le> ext_start e" using nb(1) by blast
      then show "ext_stop f \<le> ext_start new" using le eo by linarith
    qed
    show ?thesis unfolding t' N(1) using nb before after new eo le by (simp add: ordered_simps)
  qed
qed

end
