(* ===== verification/E2remap_Load.thy ===== *)
theory E2remap_Load
  imports E2remap_Splay
begin

text \<open>
  \<open>load_extents\<close> of \<open>e2remapblocks.c\<close>: the extents to move, in a splay tree and in a list per inode,
  with a hash table of the inodes. The list of the extents of an inode (\<open>inode_next\<close>, \<open>last_ext\<close>)
  is a list. The array of inodes moves when it grows: a pointer to an inode is a generation of the
  array and an index. \<open>malloc\<close> does not clear the hash table: \<open>zeroed\<close> says whether the memory
  happens to be zero, a slot that was never set is \<open>None\<close>. \<open>rs_allocs\<close> is the number of allocations
  that still succeed.
\<close>

section \<open>State\<close>

definition INODE_ALLOC_ENTRIES :: int where "INODE_ALLOC_ENTRIES = 8192"

record inode_extents =
  ix_ino :: u32
  ix_extents :: "remap_extent list"

record remap_state =
  rs_tree :: extent_tree
  rs_inodes :: "inode_extents list"
  rs_allocated :: int
  rs_gen :: nat
  rs_hash :: "(nat \<times> nat) list option list"
  rs_blocks :: int
  rs_allocs :: nat

definition remap_alloc :: "remap_state \<Rightarrow> remap_state run_result" where
  "remap_alloc s = (if rs_allocs s = 0 then Exit 1 else Value (s\<lparr>rs_allocs := rs_allocs s - 1\<rparr>))"

section \<open>Inodes\<close>

definition hash_slot :: "remap_state \<Rightarrow> u32 \<Rightarrow> nat" where
  "hash_slot s ino = unat ino mod length (rs_hash s)"

definition create_new_inode :: "u32 \<Rightarrow> remap_state \<Rightarrow> (nat \<times> remap_state) run_result" where
  "create_new_inode ino s =
     and_then (if int (length (rs_inodes s)) \<ge> rs_allocated s
               then and_then (remap_alloc s) (\<lambda>s. Value (s\<lparr>rs_allocated := rs_allocated s + INODE_ALLOC_ENTRIES,
                                                             rs_gen := rs_gen s + 1\<rparr>))
               else Value s) (\<lambda>s.
     case rs_hash s ! hash_slot s ino of
       None \<Rightarrow> Undefined
     | Some chain \<Rightarrow>
         let n = length (rs_inodes s) in
         Value (n, s\<lparr>rs_inodes := rs_inodes s @ [\<lparr>ix_ino = ino, ix_extents = []\<rparr>],
                     rs_hash := (rs_hash s)[hash_slot s ino := Some ((rs_gen s, n) # chain)]\<rparr>))"

fun lookup_chain :: "remap_state \<Rightarrow> u32 \<Rightarrow> (nat \<times> nat) list \<Rightarrow> nat option run_result" where
  "lookup_chain s ino [] = Value None"
| "lookup_chain s ino ((g, i) # chain) =
     (if g \<noteq> rs_gen s \<or> i \<ge> length (rs_inodes s) then Undefined
      else if ix_ino (rs_inodes s ! i) = ino then Value (Some i)
      else lookup_chain s ino chain)"

definition lookup_inode :: "u32 \<Rightarrow> remap_state \<Rightarrow> nat option run_result" where
  "lookup_inode ino s =
     (case rs_hash s ! hash_slot s ino of
        None \<Rightarrow> Undefined
      | Some chain \<Rightarrow> lookup_chain s ino chain)"

text \<open>\<open>first_ino\<close> is \<open>EXT2_FIRST_INO(fs->super)\<close>.\<close>

definition good_inode :: "u32 \<Rightarrow> u32 \<Rightarrow> bool" where
  "good_inode first_ino ino \<longleftrightarrow> ino \<ge> first_ino"

definition insert_new_extent :: "u32 \<Rightarrow> u32 \<Rightarrow> u32 \<Rightarrow> int \<Rightarrow> u32 \<Rightarrow> remap_state \<Rightarrow> remap_state run_result" where
  "insert_new_extent first_ino blocknr len offset ino s =
     (if \<not> good_inode first_ino ino then Value s
      else and_then (remap_alloc s) (\<lambda>s.
           and_then (lookup_inode ino s) (\<lambda>found.
           and_then (case found of Some i \<Rightarrow> Value (i, s) | None \<Rightarrow> create_new_inode ino s) (\<lambda>(i, s).
           let ext = \<lparr>re_block = blocknr, re_len = len, re_offset = offset, re_chunk_offset = rs_blocks s\<rparr>;
               s = s\<lparr>rs_inodes := (rs_inodes s)[i := (rs_inodes s ! i)\<lparr>ix_extents := ix_extents (rs_inodes s ! i) @ [ext]\<rparr>],
                     rs_blocks := rs_blocks s + uint len\<rparr> in
           and_then (extent_insert ext (rs_tree s)) (\<lambda>t. Value (s\<lparr>rs_tree := t\<rparr>))))))"

section \<open>Lines of the input\<close>

text \<open>A line: without a blank or not readable, marked as unmapped, or block, length, offset and inode.\<close>

datatype remap_line = Bad_line | Unmapped_in | Extent_in int u32 int u32

definition unmapped_word :: "byte list" where "unmapped_word = [117, 110, 109, 97, 112, 112, 101, 100]"
definition INO_word :: "byte list" where "INO_word = [73, 78, 79]"

text \<open>\<open>sscanf\<close> with the format \<open>%Ld+%u %Ld INO %u\<close>; fewer than four conversions make a bad line.\<close>

definition scan_extent_line :: "byte list \<Rightarrow> remap_line" where
  "scan_extent_line s =
     (case Option.bind (scan_Ld s) (\<lambda>(blocknr, s).
           Option.bind (scan_literal [43] s) (\<lambda>s.
           Option.bind (scan_u s) (\<lambda>(len, s).
           Option.bind (scan_Ld (scan_white s)) (\<lambda>(offset, s).
           Option.bind (scan_literal INO_word (scan_white s)) (\<lambda>s.
           Option.bind (scan_u (scan_white s)) (\<lambda>(ino, s).
           Some (Extent_in blocknr len offset ino))))))) of
        None \<Rightarrow> Bad_line
      | Some line \<Rightarrow> line)"

text \<open>What the loop makes of the buffer that \<open>fgets\<close> filled: the string in it ends at the first zero byte.\<close>

definition read_line :: "byte list \<Rightarrow> remap_line" where
  "read_line linebuf =
     (let s = c_string linebuf; c = dropWhile (\<lambda>c. c \<noteq> 32) s in
      if c = [] then Bad_line
      else if strncmp (tl c) unmapped_word 8 = 0 then Unmapped_in
      else scan_extent_line s)"

definition LINEBUF_SIZE :: nat where "LINEBUF_SIZE = 256"

lemma fgets_linebuf: "fgets LINEBUF_SIZE inp = Some (line, rest) \<Longrightarrow> length rest < length inp"
  by (auto simp: fgets_def Let_def LINEBUF_SIZE_def split: if_splits)

text \<open>The lines of the input; a longer line is read in pieces of 255 bytes.\<close>

function input_lines :: "byte list \<Rightarrow> remap_line list" where
  "input_lines inp =
     (case fgets LINEBUF_SIZE inp of
        None \<Rightarrow> []
      | Some (linebuf, rest) \<Rightarrow> read_line linebuf # input_lines rest)"
  by pat_completeness auto
termination by (relation "measure List.length") (auto dest: fgets_linebuf)

declare input_lines.simps [simp del]

text \<open>The pointer \<open>r\<close> of the node that \<open>extent_splay\<close> returned, after an insertion may have moved it.\<close>

fun right_subtree :: "remap_extent \<Rightarrow> extent_tree \<Rightarrow> extent_tree" where
  "right_subtree e Leaf = Leaf"
| "right_subtree e (Node l a r) =
     (if a = e then r else if e \<in> set_tree l then right_subtree e l else right_subtree e r)"

text \<open>
  A round of the loop for one line; \<open>again\<close> is the rest of the rounds. The extent \<open>e\<close> at the root is
  \<open>ext\<close>.
\<close>

definition load_round ::
  "(int \<Rightarrow> u32 \<Rightarrow> int \<Rightarrow> remap_state \<Rightarrow> remap_state run_result) \<Rightarrow> u32 \<Rightarrow> u32 \<Rightarrow> int \<Rightarrow> u32 \<Rightarrow> int
     \<Rightarrow> remap_state \<Rightarrow> remap_state run_result" where
  "load_round again first_ino ino blocknr len offset s =
     (let t = extent_splay (word_of_int blocknr) (rs_tree s); s = s\<lparr>rs_tree := t\<rparr> in
      case t of
        Leaf \<Rightarrow> insert_new_extent first_ino (word_of_int blocknr) len offset ino s
      | Node l e r \<Rightarrow>
          if blocknr < uint (re_block e) \<and> blocknr + uint len < uint (re_block e)
          then insert_new_extent first_ino (word_of_int blocknr) len offset ino s
          else
            and_then (if blocknr < uint (re_block e)
                      then insert_new_extent first_ino (word_of_int blocknr) (word_of_int (uint (re_block e) - blocknr)) offset ino s
                      else Value s) (\<lambda>s.
            let gap = (if blocknr < uint (re_block e) then uint (re_block e) - blocknr else 0);
                offset = offset + gap; len = len - word_of_int gap; blocknr = blocknr + gap in
            if uint (re_block e) \<le> blocknr \<and> uint (re_end e) > blocknr then
              (if uint (re_end e) \<ge> blocknr + uint len then Value s
               else again (uint (re_end e)) (len - word_of_int (uint (re_end e) - blocknr))
                      (offset + (uint (re_end e) - blocknr)) s)
            else if right_subtree e (rs_tree s) = Leaf then insert_new_extent first_ino (word_of_int blocknr) len offset ino s
            else again blocknr len offset s))"

text \<open>
  The loop. Every second round takes something off the length, so fuel for twice the length is
  enough.
\<close>

fun load_line :: "nat \<Rightarrow> u32 \<Rightarrow> u32 \<Rightarrow> int \<Rightarrow> u32 \<Rightarrow> int \<Rightarrow> remap_state \<Rightarrow> remap_state run_result" where
  "load_line 0 first_ino ino blocknr len offset s = (if len = 0 then Value s else Undefined)"
| "load_line (Suc fuel) first_ino ino blocknr len offset s =
     (if len = 0 then Value s else load_round (load_line fuel first_ino ino) first_ino ino blocknr len offset s)"

definition load_one :: "u32 \<Rightarrow> remap_line \<Rightarrow> remap_state \<Rightarrow> remap_state run_result" where
  "load_one first_ino line s =
     (case line of
        Bad_line \<Rightarrow> Exit 1
      | Unmapped_in \<Rightarrow> Value s
      | Extent_in blocknr len offset ino \<Rightarrow> load_line (2 * unat len + 1) first_ino ino blocknr len offset s)"

fun load_lines :: "u32 \<Rightarrow> remap_line list \<Rightarrow> remap_state \<Rightarrow> remap_state run_result" where
  "load_lines first_ino [] s = Value s"
| "load_lines first_ino (line # lines) s = and_then (load_one first_ino line s) (load_lines first_ino lines)"

text \<open>
  \<open>input\<close> is the contents of the input file. A bad line ends the tool, so it makes no difference that
  the lines are taken apart before the first one is worked on.
\<close>

definition load_extents :: "u32 \<Rightarrow> u32 \<Rightarrow> bool \<Rightarrow> byte list \<Rightarrow> remap_state \<Rightarrow> remap_state run_result" where
  "load_extents first_ino inode_hash_size zeroed input s =
     and_then (remap_alloc s) (\<lambda>s.
     and_then (load_lines first_ino (input_lines input)
                 (s\<lparr>rs_hash := replicate (unat inode_hash_size) (if zeroed then Some [] else None)\<rparr>)) (\<lambda>s.
     Value (s\<lparr>rs_hash := []\<rparr>)))"

section \<open>The invariant\<close>

text \<open>The extents as they are numbered: in the order of their insertion, one after the other.\<close>

definition numbered :: "remap_extent list \<Rightarrow> int \<Rightarrow> bool" where
  "numbered es n \<longleftrightarrow> (\<forall>k<length es. re_chunk_offset (es ! k) = sum_list (map (\<lambda>e. int (unat (re_len e))) (take k es)))
     \<and> n = sum_list (map (\<lambda>e. int (unat (re_len e))) es)"

definition hash_fits :: "remap_state \<Rightarrow> bool" where
  "hash_fits s \<longleftrightarrow> 0 < length (rs_hash s) \<and> (\<forall>slot\<in>set (rs_hash s). slot \<noteq> None)
     \<and> (\<forall>h<length (rs_hash s). \<forall>p\<in>set (the (rs_hash s ! h)).
          fst p = rs_gen s \<and> snd p < length (rs_inodes s) \<and> hash_slot s (ix_ino (rs_inodes s ! snd p)) = h)
     \<and> (\<forall>i<length (rs_inodes s). (rs_gen s, i) \<in> set (the (rs_hash s ! hash_slot s (ix_ino (rs_inodes s ! i)))))
     \<and> (rs_allocated s = 0 \<longrightarrow> rs_inodes s = [])
     \<and> (rs_allocated s = 0 \<or> rs_allocated s = INODE_ALLOC_ENTRIES)"

definition load_inv :: "remap_state \<Rightarrow> bool" where
  "load_inv s \<longleftrightarrow> ordered (inorder (rs_tree s))
     \<and> mset (inorder (rs_tree s)) = mset (concat (map ix_extents (rs_inodes s)))
     \<and> (\<exists>es. mset es = mset (inorder (rs_tree s)) \<and> numbered es (rs_blocks s))
     \<and> distinct (map ix_ino (rs_inodes s)) \<and> (\<forall>x\<in>set (rs_inodes s). ix_extents x \<noteq> [])"

section \<open>The hash table\<close>

lemma hash_fitsD:
  assumes "hash_fits s" and "h < length (rs_hash s)"
  shows "\<exists>chain. rs_hash s ! h = Some chain \<and> (\<forall>p\<in>set chain. fst p = rs_gen s \<and> snd p < length (rs_inodes s)
    \<and> hash_slot s (ix_ino (rs_inodes s ! snd p)) = h)"
proof -
  have "rs_hash s ! h \<noteq> None" using assms by (auto simp: hash_fits_def)
  then obtain chain where "rs_hash s ! h = Some chain" by blast
  then show ?thesis using assms by (auto simp: hash_fits_def)
qed

lemma hash_slot_less: "hash_fits s \<Longrightarrow> hash_slot s ino < length (rs_hash s)"
  by (simp add: hash_fits_def hash_slot_def)

lemma lookup_chain_spec:
  "\<forall>p\<in>set chain. fst p = rs_gen s \<and> snd p < length (rs_inodes s) \<Longrightarrow>
    lookup_chain s ino chain = Value None \<and> (\<forall>p\<in>set chain. ix_ino (rs_inodes s ! snd p) \<noteq> ino)
    \<or> (\<exists>i<length (rs_inodes s). lookup_chain s ino chain = Value (Some i) \<and> ix_ino (rs_inodes s ! i) = ino)"
  by (induction s ino chain rule: lookup_chain.induct) auto

lemma lookup_inode_spec:
  assumes "hash_fits s"
  shows "lookup_inode ino s = Value None \<and> ino \<notin> ix_ino ` set (rs_inodes s)
    \<or> (\<exists>i<length (rs_inodes s). lookup_inode ino s = Value (Some i) \<and> ix_ino (rs_inodes s ! i) = ino)"
proof -
  obtain chain where c: "rs_hash s ! hash_slot s ino = Some chain"
    "\<forall>p\<in>set chain. fst p = rs_gen s \<and> snd p < length (rs_inodes s)"
    using hash_fitsD [OF assms hash_slot_less [OF assms]] by blast
  have all: "(rs_gen s, i) \<in> set chain" if "i < length (rs_inodes s)" "ix_ino (rs_inodes s ! i) = ino" for i
    using assms that c(1) by (force simp: hash_fits_def)
  from lookup_chain_spec [OF c(2), of ino] show ?thesis
  proof
    assume n: "lookup_chain s ino chain = Value None \<and> (\<forall>p\<in>set chain. ix_ino (rs_inodes s ! snd p) \<noteq> ino)"
    have "ino \<notin> ix_ino ` set (rs_inodes s)"
    proof
      assume "ino \<in> ix_ino ` set (rs_inodes s)"
      then obtain i where "i < length (rs_inodes s)" "ix_ino (rs_inodes s ! i) = ino" by (auto simp: in_set_conv_nth)
      with all n show False by fastforce
    qed
    then show ?thesis using n c(1) by (simp add: lookup_inode_def)
  qed (use c(1) in \<open>auto simp: lookup_inode_def\<close>)
qed

lemma create_new_inode_spec:
  assumes fits: "hash_fits s" and few: "int (length (rs_inodes s)) < INODE_ALLOC_ENTRIES"
  shows "create_new_inode ino s = Exit 1
    \<or> (\<exists>s'. create_new_inode ino s = Value (length (rs_inodes s), s') \<and> hash_fits s'
         \<and> rs_inodes s' = rs_inodes s @ [\<lparr>ix_ino = ino, ix_extents = []\<rparr>] \<and> rs_tree s' = rs_tree s \<and> rs_blocks s' = rs_blocks s)"
proof (cases "int (length (rs_inodes s)) \<ge> rs_allocated s \<and> rs_allocs s = 0")
  case True
  then show ?thesis by (simp add: create_new_inode_def remap_alloc_def)
next
  case False
  define s1 where "s1 = (if int (length (rs_inodes s)) \<ge> rs_allocated s
    then s\<lparr>rs_allocs := rs_allocs s - 1, rs_allocated := rs_allocated s + INODE_ALLOC_ENTRIES, rs_gen := rs_gen s + 1\<rparr> else s)"
  have fits1: "hash_fits s1 \<and> rs_inodes s1 = rs_inodes s \<and> rs_tree s1 = rs_tree s \<and> rs_blocks s1 = rs_blocks s
    \<and> rs_allocated s1 = INODE_ALLOC_ENTRIES"
  proof (cases "int (length (rs_inodes s)) \<ge> rs_allocated s")
    case True
    then have z: "rs_allocated s = 0" "rs_inodes s = []" using fits few by (auto simp: hash_fits_def)
    then have "hash_fits s1" using fits by (auto simp: s1_def hash_fits_def hash_slot_def)
    then show ?thesis using z by (simp add: s1_def)
  next
    case False
    then have "rs_allocated s = INODE_ALLOC_ENTRIES" using fits few by (auto simp: hash_fits_def)
    with False fits show ?thesis by (simp add: s1_def)
  qed
  let ?h = "hash_slot s1 ino"
  have h: "?h < length (rs_hash s1)" using fits1 hash_slot_less by blast
  obtain chain where c: "rs_hash s1 ! ?h = Some chain" using hash_fitsD [OF _ h] fits1 by blast
  let ?n = "length (rs_inodes s)"
  let ?s = "s1\<lparr>rs_inodes := rs_inodes s1 @ [\<lparr>ix_ino = ino, ix_extents = []\<rparr>], rs_hash := (rs_hash s1)[?h := Some ((rs_gen s1, ?n) # chain)]\<rparr>"
  have cr: "create_new_inode ino s = Value (?n, ?s)"
    using False c fits1 unfolding s1_def
    by (auto simp: create_new_inode_def remap_alloc_def Let_def split: if_splits)
  have slot: "hash_slot ?s = hash_slot s1" by (rule ext) (simp add: hash_slot_def)
  have old: "\<forall>h<length (rs_hash s1). \<forall>p\<in>set (the (rs_hash s1 ! h)). fst p = rs_gen s1 \<and> snd p < ?n
      \<and> hash_slot s1 (ix_ino (rs_inodes s1 ! snd p)) = h"
    using fits1 unfolding hash_fits_def by metis
  have "hash_fits ?s"
    unfolding hash_fits_def slot
  proof (intro conjI)
    show "\<forall>slot\<in>set (rs_hash ?s). slot \<noteq> None"
      using fits1 by (auto simp: hash_fits_def dest: set_update_subset_insert [THEN subsetD])
    show "\<forall>h<length (rs_hash ?s). \<forall>p\<in>set (the (rs_hash ?s ! h)). fst p = rs_gen ?s \<and> snd p < length (rs_inodes ?s)
        \<and> hash_slot s1 (ix_ino (rs_inodes ?s ! snd p)) = h"
    proof (intro allI impI ballI)
      fix h' p
      assume h': "h' < length (rs_hash ?s)" and p: "p \<in> set (the (rs_hash ?s ! h'))"
      consider "h' = ?h" "p = (rs_gen s1, ?n)" | "p \<in> set (the (rs_hash s1 ! h'))" "h' < length (rs_hash s1)"
        using h h' p c by (cases "h' = ?h") auto
      then show "fst p = rs_gen ?s \<and> snd p < length (rs_inodes ?s) \<and> hash_slot s1 (ix_ino (rs_inodes ?s ! snd p)) = h'"
      proof cases
        case 1
        then show ?thesis using fits1 by (simp add: nth_append)
      next
        case 2
        from old [rule_format, OF 2(2,1)] show ?thesis using fits1 by (simp add: nth_append)
      qed
    qed
    show "\<forall>i<length (rs_inodes ?s). (rs_gen ?s, i) \<in> set (the (rs_hash ?s ! hash_slot s1 (ix_ino (rs_inodes ?s ! i))))"
    proof (intro allI impI)
      fix i assume "i < length (rs_inodes ?s)"
      then consider "i < ?n" | "i = ?n" using fits1 by fastforce
      then show "(rs_gen ?s, i) \<in> set (the (rs_hash ?s ! hash_slot s1 (ix_ino (rs_inodes ?s ! i))))"
      proof cases
        case 1
        then have "(rs_gen s1, i) \<in> set (the (rs_hash s1 ! hash_slot s1 (ix_ino (rs_inodes s1 ! i))))"
          using fits1 unfolding hash_fits_def by metis
        then show ?thesis using 1 c h fits1 by (auto simp: nth_append nth_list_update)
      next
        case 2
        then show ?thesis using h fits1 by (simp add: nth_append)
      qed
    qed
  qed (use fits1 in \<open>auto simp: hash_fits_def INODE_ALLOC_ENTRIES_def\<close>)
  then show ?thesis using cr fits1 by (intro disjI2 exI [of _ ?s]) simp
qed

section \<open>What the extents claim\<close>

text \<open>The blocks claimed, each with its inode and offset.\<close>

definition claims :: "remap_state \<Rightarrow> (nat \<times> u32 \<times> int) set" where
  "claims s = {(b, ix_ino x, re_offset e + (int b - int (ext_start e))) | b x e.
     x \<in> set (rs_inodes s) \<and> e \<in> set (ix_extents x) \<and> ext_start e \<le> b \<and> b < ext_stop e}"

definition re_covered :: "remap_state \<Rightarrow> nat set" where
  "re_covered s = (\<Union>e\<in>set (inorder (rs_tree s)). {ext_start e..<ext_stop e})"

definition piece :: "int \<Rightarrow> nat \<Rightarrow> int \<Rightarrow> u32 \<Rightarrow> (nat \<times> u32 \<times> int) set" where
  "piece blocknr n offset ino = (\<lambda>j. (nat blocknr + j, ino, offset + int j)) ` {..<n}"

lemma tree_extents:
  assumes "load_inv s"
  shows "e \<in> set (inorder (rs_tree s)) \<longleftrightarrow> (\<exists>x\<in>set (rs_inodes s). e \<in> set (ix_extents x))"
proof -
  have "mset (inorder (rs_tree s)) = mset (concat (map ix_extents (rs_inodes s)))" using assms by (simp add: load_inv_def)
  from mset_eq_setD [OF this] show ?thesis by auto
qed

lemma covered_claims:
  assumes "load_inv s"
  shows "b \<in> re_covered s \<longleftrightarrow> (\<exists>ino off. (b, ino, off) \<in> claims s)"
proof -
  have "b \<in> re_covered s \<longleftrightarrow> (\<exists>e. e \<in> set (inorder (rs_tree s)) \<and> ext_start e \<le> b \<and> b < ext_stop e)"
    by (auto simp: re_covered_def)
  also have "\<dots> \<longleftrightarrow> (\<exists>x\<in>set (rs_inodes s). \<exists>e\<in>set (ix_extents x). ext_start e \<le> b \<and> b < ext_stop e)"
    using tree_extents [OF assms] by blast
  also have "\<dots> \<longleftrightarrow> (\<exists>ino off. (b, ino, off) \<in> claims s)" by (auto simp: claims_def)
  finally show ?thesis .
qed

definition extent_claims :: "u32 \<Rightarrow> remap_extent \<Rightarrow> (nat \<times> u32 \<times> int) set" where
  "extent_claims ino e = (\<lambda>b. (b, ino, re_offset e + (int b - int (ext_start e)))) ` {ext_start e..<ext_stop e}"

lemma in_extent_claims:
  "(b, ino', off) \<in> extent_claims ino e \<longleftrightarrow>
    ino' = ino \<and> ext_start e \<le> b \<and> b < ext_stop e \<and> off = re_offset e + (int b - int (ext_start e))"
  by (auto simp: extent_claims_def)

definition inode_claims :: "inode_extents \<Rightarrow> (nat \<times> u32 \<times> int) set" where
  "inode_claims x = (\<Union>e\<in>set (ix_extents x). extent_claims (ix_ino x) e)"

lemma claims_inodes: "claims s = (\<Union>x\<in>set (rs_inodes s). inode_claims x)"
proof (rule set_eqI)
  fix p :: "nat \<times> u32 \<times> int"
  obtain b ino off where p: "p = (b, ino, off)" by (cases p)
  have "p \<in> claims s \<longleftrightarrow> (\<exists>x\<in>set (rs_inodes s). \<exists>e\<in>set (ix_extents x). ino = ix_ino x \<and> ext_start e \<le> b \<and> b < ext_stop e
      \<and> off = re_offset e + (int b - int (ext_start e)))"
    unfolding claims_def p by blast
  also have "\<dots> \<longleftrightarrow> p \<in> (\<Union>x\<in>set (rs_inodes s). inode_claims x)"
    unfolding inode_claims_def p by (simp add: in_extent_claims)
  finally show "p \<in> claims s \<longleftrightarrow> p \<in> (\<Union>x\<in>set (rs_inodes s). inode_claims x)" .
qed

lemma union_update:
  assumes "i < length xs" and "f y = f (xs ! i) \<union> A"
  shows "(\<Union>x\<in>set (xs[i := y]). f x) = (\<Union>x\<in>set xs. f x) \<union> A"
proof -
  have "set (xs[i := y]) = insert y (set (take i xs) \<union> set (drop (Suc i) xs))"
    using assms(1) by (simp add: upd_conv_take_nth_drop)
  moreover have "set xs = insert (xs ! i) (set (take i xs) \<union> set (drop (Suc i) xs))"
    using arg_cong [OF id_take_nth_drop [OF assms(1)], of set] by simp
  ultimately show ?thesis using assms(2) by auto
qed

lemma numbered_snoc:
  "numbered es n \<Longrightarrow> re_chunk_offset e = n \<Longrightarrow> numbered (es @ [e]) (n + int (unat (re_len e)))"
  by (auto simp: numbered_def nth_append less_Suc_eq)

lemma and_then_assoc: "and_then (and_then r f) g = and_then r (\<lambda>x. and_then (f x) g)"
  by (cases r) simp_all

lemma insert_new_extent_spec:
  assumes inv: "load_inv s" and fits: "hash_fits s" and good: "good_inode first_ino ino"
    and few: "ino \<in> ix_ino ` set (rs_inodes s) \<or> int (length (rs_inodes s)) < INODE_ALLOC_ENTRIES"
    and b: "0 \<le> blocknr" "0 < unat len" "blocknr + int (unat len) < 2 ^ 32"
    and free: "\<forall>e\<in>set (inorder (rs_tree s)). int (ext_stop e) \<le> blocknr \<or> blocknr + int (unat len) \<le> int (ext_start e)"
  shows "insert_new_extent first_ino (word_of_int blocknr) len offset ino s = Exit 1
    \<or> (\<exists>s'. insert_new_extent first_ino (word_of_int blocknr) len offset ino s = Value s' \<and> load_inv s' \<and> hash_fits s'
         \<and> claims s' = claims s \<union> piece blocknr (unat len) offset ino
         \<and> set (map ix_ino (rs_inodes s')) = insert ino (set (map ix_ino (rs_inodes s))))"
proof (cases "rs_allocs s = 0")
  case True
  then show ?thesis using good by (simp add: insert_new_extent_def remap_alloc_def)
next
  case False
  define s0 where "s0 = s\<lparr>rs_allocs := rs_allocs s - 1\<rparr>"
  have s0: "hash_fits s0" "rs_inodes s0 = rs_inodes s" "rs_tree s0 = rs_tree s" "rs_blocks s0 = rs_blocks s"
    using fits by (auto simp: s0_def hash_fits_def hash_slot_def)
  let ?look = "and_then (lookup_inode ino s0) (\<lambda>found.
        case found of Some i \<Rightarrow> Value (i, s0) | None \<Rightarrow> create_new_inode ino s0)"
  let ?new = "\<lparr>ix_ino = ino, ix_extents = []\<rparr>"
  have "?look = Exit 1 \<or> (\<exists>i s1. ?look = Value (i, s1) \<and> i < length (rs_inodes s1) \<and> ix_ino (rs_inodes s1 ! i) = ino
      \<and> hash_fits s1 \<and> rs_tree s1 = rs_tree s \<and> rs_blocks s1 = rs_blocks s
      \<and> (rs_inodes s1 = rs_inodes s \<or> rs_inodes s1 = rs_inodes s @ [?new] \<and> ino \<notin> ix_ino ` set (rs_inodes s) \<and> i = length (rs_inodes s)))"
    using lookup_inode_spec [OF s0(1), of ino]
  proof
    assume n: "lookup_inode ino s0 = Value None \<and> ino \<notin> ix_ino ` set (rs_inodes s0)"
    then have "int (length (rs_inodes s0)) < INODE_ALLOC_ENTRIES" using few s0(2) by simp
    from create_new_inode_spec [OF s0(1) this, of ino] show ?thesis
    proof
      assume "\<exists>s'. create_new_inode ino s0 = Value (length (rs_inodes s0), s') \<and> hash_fits s'
         \<and> rs_inodes s' = rs_inodes s0 @ [?new] \<and> rs_tree s' = rs_tree s0 \<and> rs_blocks s' = rs_blocks s0"
      then obtain s' where s': "create_new_inode ino s0 = Value (length (rs_inodes s), s')" "hash_fits s'"
        "rs_inodes s' = rs_inodes s @ [?new]" "rs_tree s' = rs_tree s" "rs_blocks s' = rs_blocks s"
        by (auto simp: s0)
      then show ?thesis using n s0(2) by (intro disjI2 exI [of _ "length (rs_inodes s)"] exI [of _ s']) simp
    qed (use n in simp)
  next
    assume "\<exists>i<length (rs_inodes s0). lookup_inode ino s0 = Value (Some i) \<and> ix_ino (rs_inodes s0 ! i) = ino"
    then obtain i where "i < length (rs_inodes s0)" "lookup_inode ino s0 = Value (Some i)" "ix_ino (rs_inodes s0 ! i) = ino"
      by blast
    then show ?thesis using s0 by (intro disjI2 exI [of _ i] exI [of _ s0]) simp
  qed
  moreover have base: "insert_new_extent first_ino (word_of_int blocknr) len offset ino s = and_then ?look (\<lambda>(i, s).
      let ext = \<lparr>re_block = word_of_int blocknr, re_len = len, re_offset = offset, re_chunk_offset = rs_blocks s\<rparr>;
          s = s\<lparr>rs_inodes := (rs_inodes s)[i := (rs_inodes s ! i)\<lparr>ix_extents := ix_extents (rs_inodes s ! i) @ [ext]\<rparr>],
                rs_blocks := rs_blocks s + uint len\<rparr> in
      and_then (extent_insert ext (rs_tree s)) (\<lambda>t. Value (s\<lparr>rs_tree := t\<rparr>)))"
    unfolding s0_def One_nat_def using good False by (simp add: insert_new_extent_def remap_alloc_def and_then_assoc)
  ultimately show ?thesis
  proof (elim disjE)
    assume "?look = Exit 1"
    then show ?thesis using base by simp
  next
    assume "\<exists>i s1. ?look = Value (i, s1) \<and> i < length (rs_inodes s1) \<and> ix_ino (rs_inodes s1 ! i) = ino
      \<and> hash_fits s1 \<and> rs_tree s1 = rs_tree s \<and> rs_blocks s1 = rs_blocks s
      \<and> (rs_inodes s1 = rs_inodes s \<or> rs_inodes s1 = rs_inodes s @ [?new] \<and> ino \<notin> ix_ino ` set (rs_inodes s) \<and> i = length (rs_inodes s))"
    then obtain i s1 where look: "?look = Value (i, s1)" and i: "i < length (rs_inodes s1)" "ix_ino (rs_inodes s1 ! i) = ino"
      "hash_fits s1" "rs_tree s1 = rs_tree s" "rs_blocks s1 = rs_blocks s"
      "rs_inodes s1 = rs_inodes s \<or> rs_inodes s1 = rs_inodes s @ [?new] \<and> ino \<notin> ix_ino ` set (rs_inodes s) \<and> i = length (rs_inodes s)"
      by blast
    let ?e = "\<lparr>re_block = word_of_int blocknr, re_len = len, re_offset = offset, re_chunk_offset = rs_blocks s\<rparr>"
    let ?x = "(rs_inodes s1 ! i)\<lparr>ix_extents := ix_extents (rs_inodes s1 ! i) @ [?e]\<rparr>"
    have run: "insert_new_extent first_ino (word_of_int blocknr) len offset ino s =
      and_then (extent_insert ?e (rs_tree s)) (\<lambda>t. Value (s1\<lparr>rs_inodes := (rs_inodes s1)[i := ?x], rs_blocks := rs_blocks s + uint len, rs_tree := t\<rparr>))"
      unfolding base look using i(4,5) by (simp add: Let_def)
    have e: "int (ext_start ?e) = blocknr" "ext_stop ?e = ext_start ?e + unat len" "ext_start ?e = nat blocknr"
    proof -
      have "blocknr < 2 ^ 32" using b(2,3) by linarith
      then have u: "uint (word_of_int blocknr :: u32) = blocknr" using b(1) by (simp add: uint_word_of_int)
      then show "int (ext_start ?e) = blocknr" by (simp add: ext_start_def)
      then show "ext_start ?e = nat blocknr" by linarith
    qed (simp add: ext_start_def ext_stop_def)
    have "int (ext_stop ?e) < int (2 ^ 32)" unfolding e(2) using e(1) b(3) by simp
    then have new: "ext_start ?e < ext_stop ?e" "ext_stop ?e < 2 ^ 32" unfolding of_nat_less_iff using e(2) b(2) by linarith+
    have ord: "ordered (inorder (rs_tree s))" using inv by (simp add: load_inv_def)
    have fr: "\<forall>f\<in>set (inorder (rs_tree s)). ext_stop ?e \<le> ext_start f \<or> ext_stop f \<le> ext_start ?e"
    proof
      fix f assume "f \<in> set (inorder (rs_tree s))"
      then have "int (ext_stop f) \<le> blocknr \<or> blocknr + int (unat len) \<le> int (ext_start f)" using free by blast
      then show "ext_stop ?e \<le> ext_start f \<or> ext_stop f \<le> ext_start ?e" using e(1,2) by linarith
    qed
    show ?thesis
    proof (cases "extent_insert ?e (rs_tree s)")
      case Undefined
      then show ?thesis using extent_splay_not_Leaf [OF _ ord]
        by (auto simp: extent_insert_def split: if_splits tree.splits)
    next
      case (Exit c)
      then show ?thesis using run by (auto simp: extent_insert_def split: if_splits tree.splits)
    next
      case (Value t)
      define s3 where "s3 = s1\<lparr>rs_inodes := (rs_inodes s1)[i := ?x], rs_blocks := rs_blocks s + uint len, rs_tree := t\<rparr>"
      note ins = extent_insert_spec [OF ord new Value fr]
      have old: "mset (concat (map ix_extents (rs_inodes s1))) = mset (inorder (rs_tree s))"
        "distinct (map ix_ino (rs_inodes s1))" "\<forall>x\<in>set (rs_inodes s1). ix_extents x = [] \<longrightarrow> x = rs_inodes s1 ! i"
        using i(6) inv by (auto simp: load_inv_def)
      have "inode_claims ?new = {}" by (simp add: inode_claims_def)
      then have old_claims: "(\<Union>x\<in>set (rs_inodes s1). inode_claims x) = claims s"
        using i(6) by (auto simp: claims_inodes)
      have "mset (concat (map ix_extents ((rs_inodes s1)[i := ?x]))) = add_mset ?e (mset (inorder (rs_tree s)))"
        using mset_concat_update [of i "map ix_extents (rs_inodes s1)" "ix_extents ?x"] i(1) old(1)
        by (simp add: map_update)
      moreover obtain es where es: "mset es = mset (inorder (rs_tree s))" "numbered es (rs_blocks s)"
        using inv by (auto simp: load_inv_def)
      have "numbered (es @ [?e]) (rs_blocks s + uint len)"
        using numbered_snoc [OF es(2), of ?e] by simp
      moreover have "mset (es @ [?e]) = mset (inorder t)" using ins es(1) by simp
      moreover have inos: "map ix_ino ((rs_inodes s1)[i := ?x]) = map ix_ino (rs_inodes s1)"
        using i(1) list_update_id [of "map ix_ino (rs_inodes s1)" i] by (simp add: map_update)
      moreover have "\<forall>x\<in>set ((rs_inodes s1)[i := ?x]). ix_extents x \<noteq> []"
      proof
        fix x assume "x \<in> set ((rs_inodes s1)[i := ?x])"
        then obtain k where k: "k < length (rs_inodes s1)" "x = (if k = i then ?x else rs_inodes s1 ! k)"
          by (auto simp: in_set_conv_nth nth_list_update)
        show "ix_extents x \<noteq> []"
        proof (cases "k = i")
          case False
          then have "rs_inodes s1 ! k \<noteq> rs_inodes s1 ! i"
            using old(2) k(1) i(1) by (metis distinct_conv_nth length_map nth_map)
          then show ?thesis using old(3) k False by auto
        qed (use k in simp)
      qed
      ultimately have inv3: "load_inv s3"
        using ins old(2) unfolding load_inv_def s3_def
        by (intro conjI exI [of _ "es @ [?e]"]) simp_all
      have "hash_fits s3"
        using i(1,3) unfolding hash_fits_def s3_def hash_slot_def by (auto simp: nth_list_update)
      moreover have "claims s3 = claims s \<union> piece blocknr (unat len) offset ino"
      proof -
        have "inode_claims ?x = inode_claims (rs_inodes s1 ! i) \<union> extent_claims ino ?e"
          using i(2) by (auto simp: inode_claims_def)
        from union_update [OF i(1), of inode_claims, OF this]
        have "claims s3 = claims s \<union> extent_claims ino ?e" unfolding claims_inodes [of s3] by (simp add: s3_def old_claims)
        moreover have "extent_claims ino ?e = piece blocknr (unat len) offset ino"
        proof -
          have "{ext_start ?e..<ext_stop ?e} = (\<lambda>j. nat blocknr + j) ` {..<unat len}"
            unfolding e(2,3) lessThan_atLeast0 by (simp add: add.commute)
          then show ?thesis unfolding extent_claims_def piece_def using e(1,3) by (simp add: image_image)
        qed
        ultimately show ?thesis by simp
      qed
      moreover have "set (map ix_ino (rs_inodes s3)) = insert ino (set (map ix_ino (rs_inodes s)))"
      proof -
        have "set (map ix_ino (rs_inodes s3)) = set (map ix_ino (rs_inodes s1))"
          using arg_cong [OF inos, of set] by (simp add: s3_def)
        also have "\<dots> = insert ino (set (map ix_ino (rs_inodes s)))"
          using i(6)
        proof
          assume "rs_inodes s1 = rs_inodes s"
          moreover from this have "ino \<in> set (map ix_ino (rs_inodes s))" using i(1,2) by (metis length_map nth_map nth_mem)
          ultimately show ?thesis by (simp add: insert_absorb)
        qed simp
        finally show ?thesis .
      qed
      ultimately show ?thesis using run Value inv3 by (simp add: s3_def)
    qed
  qed
qed

section \<open>One line\<close>

text \<open>The blocks of a range that are not yet in \<open>C\<close>, claimed for the inode.\<close>

definition fresh_claims :: "bool \<Rightarrow> nat set \<Rightarrow> int \<Rightarrow> nat \<Rightarrow> int \<Rightarrow> u32 \<Rightarrow> (nat \<times> u32 \<times> int) set" where
  "fresh_claims good C b n offset ino =
     (if good then {(x, ino', off). ino' = ino \<and> off = offset + (int x - b) \<and> b \<le> int x \<and> int x < b + int n \<and> x \<notin> C} else {})"

lemma fresh_claims_split:
  "fresh_claims good C b (m + n) offset ino = fresh_claims good C b m offset ino \<union> fresh_claims good C (b + int m) n (offset + int m) ino"
  by (auto simp: fresh_claims_def)

lemma fresh_claims_cong:
  "(\<And>x. b \<le> int x \<Longrightarrow> int x < b + int n \<Longrightarrow> x \<in> C \<longleftrightarrow> x \<in> C') \<Longrightarrow>
    fresh_claims good C b n offset ino = fresh_claims good C' b n offset ino"
  by (auto simp: fresh_claims_def)

lemma fresh_claims_none:
  "(\<And>x. b \<le> int x \<Longrightarrow> int x < b + int n \<Longrightarrow> x \<in> C) \<Longrightarrow> fresh_claims good C b n offset ino = {}"
  by (auto simp: fresh_claims_def)

lemma fresh_claims_piece:
  assumes "0 \<le> b" and "\<And>x. b \<le> int x \<Longrightarrow> int x < b + int n \<Longrightarrow> x \<notin> C"
  shows "fresh_claims True C b n offset ino = piece b n offset ino"
proof (rule set_eqI)
  fix p :: "nat \<times> u32 \<times> int"
  obtain x i off where p: "p = (x, i, off)" by (cases p)
  have "(\<exists>j<n. x = nat b + j \<and> off = offset + int j) \<longleftrightarrow> off = offset + (int x - b) \<and> b \<le> int x \<and> int x < b + int n"
    using assms(1) by (auto intro!: exI [of _ "x - nat b"])
  then show "p \<in> fresh_claims True C b n offset ino \<longleftrightarrow> p \<in> piece b n offset ino"
    using assms(2) [of x] unfolding p fresh_claims_def piece_def by auto
qed

definition ready :: "u32 set \<Rightarrow> remap_state \<Rightarrow> bool" where
  "ready A s \<longleftrightarrow> load_inv s \<and> hash_fits s \<and> set (map ix_ino (rs_inodes s)) \<subseteq> A \<and> finite A \<and> int (card A) \<le> INODE_ALLOC_ENTRIES"

lemma ready_few:
  assumes "ready A s" and "ino \<in> A"
  shows "ino \<in> ix_ino ` set (rs_inodes s) \<or> int (length (rs_inodes s)) < INODE_ALLOC_ENTRIES"
proof (cases "ino \<in> ix_ino ` set (rs_inodes s)")
  case False
  have d: "distinct (map ix_ino (rs_inodes s))" using assms(1) by (simp add: ready_def load_inv_def)
  have "card (insert ino (set (map ix_ino (rs_inodes s)))) \<le> card A"
    using assms by (intro card_mono) (auto simp: ready_def)
  then have "Suc (length (rs_inodes s)) \<le> card A" using False distinct_card [OF d] by simp
  then show ?thesis using assms(1) by (simp add: ready_def)
qed simp

lemma covered_step:
  assumes "load_inv s" and "load_inv s'" and "claims s' = claims s \<union> fresh_claims good (re_covered s) b n offset ino"
  shows "x \<in> re_covered s' \<longleftrightarrow> x \<in> re_covered s \<or> good \<and> b \<le> int x \<and> int x < b + int n"
  unfolding covered_claims [OF assms(2)] using assms(3) covered_claims [OF assms(1), of x]
  by (auto simp: fresh_claims_def)

lemma insert_any:
  assumes rdy: "ready A s" and ino: "ino \<in> A" and b: "0 \<le> blocknr" "0 < unat len" "blocknr + int (unat len) < 2 ^ 32"
    and free: "\<forall>e\<in>set (inorder (rs_tree s)). int (ext_stop e) \<le> blocknr \<or> blocknr + int (unat len) \<le> int (ext_start e)"
  shows "insert_new_extent first_ino (word_of_int blocknr) len offset ino s = Exit 1
    \<or> (\<exists>s'. insert_new_extent first_ino (word_of_int blocknr) len offset ino s = Value s' \<and> ready A s'
         \<and> claims s' = claims s \<union> fresh_claims (good_inode first_ino ino) (re_covered s) blocknr (unat len) offset ino)"
proof (cases "good_inode first_ino ino")
  case True
  have "x \<notin> re_covered s" if "blocknr \<le> int x" "int x < blocknr + int (unat len)" for x
    using free that unfolding re_covered_def by fastforce
  then have "fresh_claims True (re_covered s) blocknr (unat len) offset ino = piece blocknr (unat len) offset ino"
    using b(1) by (rule fresh_claims_piece [rotated])
  then show ?thesis
    using insert_new_extent_spec [OF _ _ True ready_few [OF rdy ino] b free, of offset] rdy ino True
    by (auto simp: ready_def)
next
  case False
  then show ?thesis using rdy by (simp add: insert_new_extent_def fresh_claims_def)
qed

lemma ready_splay:
  assumes "ready A s"
  shows "ready A (s\<lparr>rs_tree := extent_splay b (rs_tree s)\<rparr>)"
    and "claims (s\<lparr>rs_tree := extent_splay b (rs_tree s)\<rparr>) = claims s"
    and "re_covered (s\<lparr>rs_tree := extent_splay b (rs_tree s)\<rparr>) = re_covered s"
proof -
  have i: "inorder (extent_splay b (rs_tree s)) = inorder (rs_tree s)"
    using assms by (intro inorder_splay) (simp add: ready_def load_inv_def)
  have "load_inv (s\<lparr>rs_tree := extent_splay b (rs_tree s)\<rparr>) = load_inv s" by (simp add: load_inv_def i)
  moreover have "hash_fits (s\<lparr>rs_tree := extent_splay b (rs_tree s)\<rparr>) = hash_fits s"
    by (simp add: hash_fits_def hash_slot_def)
  ultimately show "ready A (s\<lparr>rs_tree := extent_splay b (rs_tree s)\<rparr>)"
    using assms by (simp add: ready_def)
  show "claims (s\<lparr>rs_tree := extent_splay b (rs_tree s)\<rparr>) = claims s" by (simp add: claims_def)
  show "re_covered (s\<lparr>rs_tree := extent_splay b (rs_tree s)\<rparr>) = re_covered s" by (simp add: re_covered_def i)
qed

end
