(* ===== verification/E2remap_Free.thy ===== *)
theory E2remap_Free
  imports E2remap_Load C_Qsort
begin

text \<open>
  The search for free space in \<open>e2remapblocks.c\<close>: \<open>find_free_blocks\<close> collects runs of free blocks,
  chooses among them and numbers the chosen ones, \<open>find_remapped_offset\<close> finds the one with a given
  position. The block bitmap of the library is an argument: the blocks in use, the first block and the
  end that the library reports. A loop that has no fuel left is \<open>Undefined\<close>.
\<close>

section \<open>Data\<close>

record free_extent =
  fe_block :: u32
  fe_len :: u32
  fe_offset :: u32

record block_bitmap =
  bb_used :: "u32 \<Rightarrow> bool"
  bb_start :: u32
  bb_end :: u32

definition FREE_EXTENT_ALLOC_ENTRIES :: int where "FREE_EXTENT_ALLOC_ENTRIES = 1024"

definition cmp_extents_len :: "free_extent \<Rightarrow> free_extent \<Rightarrow> int" where
  "cmp_extents_len a b = (if fe_len a < fe_len b then -1 else if fe_len a > fe_len b then 1 else 0)"

definition cmp_extents_start :: "free_extent \<Rightarrow> free_extent \<Rightarrow> int" where
  "cmp_extents_start a b = (if fe_block a < fe_block b then -1 else if fe_block a > fe_block b then 1 else 0)"

definition len_less :: "free_extent \<Rightarrow> free_extent \<Rightarrow> bool" where
  "len_less a b \<longleftrightarrow> cmp_extents_len a b < 0"

definition start_less :: "free_extent \<Rightarrow> free_extent \<Rightarrow> bool" where
  "start_less a b \<longleftrightarrow> cmp_extents_start a b < 0"

section \<open>Collecting the runs\<close>

fun skip_used :: "nat \<Rightarrow> block_bitmap \<Rightarrow> u32 \<Rightarrow> u32 run_result" where
  "skip_used 0 bm actblk = Undefined"
| "skip_used (Suc fuel) bm actblk =
     (if bb_used bm actblk \<and> actblk < bb_end bm then skip_used fuel bm (actblk + 8) else Value actblk)"

fun skip_free :: "nat \<Rightarrow> block_bitmap \<Rightarrow> u32 \<Rightarrow> u32 run_result" where
  "skip_free 0 bm actblk = Undefined"
| "skip_free (Suc fuel) bm actblk =
     (if \<not> bb_used bm actblk \<and> actblk < bb_end bm then skip_free fuel bm (actblk + 1) else Value actblk)"

text \<open>
  The result says whether a single run is large enough, and gives the runs. The field \<open>offset\<close> of a
  run is not set yet.
\<close>

fun scan_free ::
  "nat \<Rightarrow> block_bitmap \<Rightarrow> int \<Rightarrow> u32 \<Rightarrow> u32 \<Rightarrow> free_extent list \<Rightarrow> int \<Rightarrow> nat \<Rightarrow> (bool \<times> free_extent list \<times> nat) run_result" where
  "scan_free 0 bm remap_blocks min_size actblk fes allocated n = Undefined"
| "scan_free (Suc fuel) bm remap_blocks min_size actblk fes allocated n =
     (if \<not> actblk < bb_end bm then Value (False, fes, n)
      else
        and_then (skip_used fuel bm ((actblk + 8) AND NOT 7)) (\<lambda>block.
        if block \<ge> bb_end bm then Value (False, fes, n)
        else
          and_then (skip_free fuel bm block) (\<lambda>actblk.
          let len = actblk - block in
          if uint len > remap_blocks
          then Value (True, [\<lparr>fe_block = block, fe_len = word_of_int remap_blocks, fe_offset = 0\<rparr>], n)
          else if len \<ge> min_size then
            (let fes = fes @ [\<lparr>fe_block = block, fe_len = len, fe_offset = 0\<rparr>] in
             if int (length fes) \<ge> allocated then
               (if n = 0 then Exit 1
                else scan_free fuel bm remap_blocks min_size actblk fes (allocated + FREE_EXTENT_ALLOC_ENTRIES) (n - 1))
             else scan_free fuel bm remap_blocks min_size actblk fes allocated n)
          else scan_free fuel bm remap_blocks min_size actblk fes allocated n)))"

section \<open>Choosing among the runs\<close>

text \<open>How many of the shortest runs are enough: \<open>actext\<close> after the first loop.\<close>

fun first_enough :: "int \<Rightarrow> u32 \<Rightarrow> free_extent list \<Rightarrow> nat" where
  "first_enough remap_blocks actblk [] = 0"
| "first_enough remap_blocks actblk (fe # fes) =
     (if uint actblk < remap_blocks then Suc (first_enough remap_blocks (actblk + fe_len fe) fes) else 0)"

text \<open>The second loop: the runs that are taken, with their offsets, and \<open>actblk\<close> after it.\<close>

fun take_extents :: "int \<Rightarrow> u32 \<Rightarrow> u32 \<Rightarrow> free_extent list \<Rightarrow> free_extent list \<times> u32" where
  "take_extents remap_blocks min_ext_size actblk [] = ([], actblk)"
| "take_extents remap_blocks min_ext_size actblk (fe # fes) =
     (if \<not> uint actblk < remap_blocks then ([], actblk)
      else if fe_len fe \<ge> min_ext_size then
        (let (taken, last) = take_extents remap_blocks min_ext_size (actblk + fe_len fe) fes in
         (fe\<lparr>fe_offset := actblk\<rparr> # taken, last))
      else take_extents remap_blocks min_ext_size actblk fes)"

definition select_extents ::
  "(free_extent list \<Rightarrow> free_extent list) \<Rightarrow> (free_extent list \<Rightarrow> free_extent list) \<Rightarrow> int \<Rightarrow> free_extent list
     \<Rightarrow> free_extent list run_result" where
  "select_extents srt_len srt_start remap_blocks fes =
     (let fes = srt_len fes; actext = first_enough remap_blocks 0 fes in
      if actext \<ge> length fes then Exit 1
      else if actext = 0 then Undefined
      else
        (let min_ext_size = drop_bit 1 (fe_len (fes ! (actext - 1)));
             (taken, actblk) = take_extents remap_blocks min_ext_size 0 (srt_start fes) in
         if taken = [] then Undefined
         else Value (butlast taken @ [last taken\<lparr>fe_len := fe_len (last taken) - word_of_int (uint actblk - remap_blocks)\<rparr>])))"

definition find_free_blocks ::
  "(free_extent list \<Rightarrow> free_extent list) \<Rightarrow> (free_extent list \<Rightarrow> free_extent list) \<Rightarrow> block_bitmap option \<Rightarrow> int
     \<Rightarrow> remap_state \<Rightarrow> (free_extent list \<times> remap_state) run_result" where
  "find_free_blocks srt_len srt_start bitmap min_free_extent_size s =
     (case bitmap of
        None \<Rightarrow> Exit 1
      | Some bm \<Rightarrow>
          and_then (remap_alloc s) (\<lambda>s.
          and_then (scan_free (unat (bb_end bm) + 2) bm (rs_blocks s) (word_of_int min_free_extent_size) (bb_start bm) []
                      FREE_EXTENT_ALLOC_ENTRIES (rs_allocs s)) (\<lambda>(single, fes, n).
          let s = s\<lparr>rs_allocs := n\<rparr> in
          if single then Value (fes, s)
          else
            and_then (select_extents srt_len srt_start (rs_blocks s) fes) (\<lambda>fes.
            and_then (remap_alloc s) (\<lambda>s. Value (fes, s))))))"

section \<open>The extent of a position\<close>

function find_remapped_loop :: "free_extent list \<Rightarrow> u32 \<Rightarrow> int \<Rightarrow> int \<Rightarrow> nat option" where
  "find_remapped_loop fes offset start stop =
     (if \<not> start \<le> stop then None
      else
        (let mid = (start + stop) div 2; fe = fes ! nat mid in
         if fe_offset fe \<le> offset \<and> fe_offset fe + fe_len fe > offset then Some (nat mid)
         else if fe_offset fe < offset then find_remapped_loop fes offset (mid + 1) stop
         else find_remapped_loop fes offset start (mid - 1)))"
  by pat_completeness auto
termination
  by (relation "measure (\<lambda>(fes, offset, start, stop). nat (stop - start + 1))") auto

declare find_remapped_loop.simps [simp del]

definition find_remapped_offset :: "free_extent list \<Rightarrow> u32 \<Rightarrow> nat option" where
  "find_remapped_offset fes offset = find_remapped_loop fes offset 0 (int (length fes) - 1)"

section \<open>The order of the runs\<close>

lemma len_less_consistent: "consistent_on len_less A"
  by (rule consistent_on_key [where key = "\<lambda>e. unat (fe_len e)"])
    (auto simp: len_less_def cmp_extents_len_def word_less_nat_alt)

lemma start_less_consistent: "consistent_on start_less A"
  by (rule consistent_on_key [where key = "\<lambda>e. unat (fe_block e)"])
    (auto simp: start_less_def cmp_extents_start_def word_less_nat_alt)

interpretation len_qsort: c_qsort len_less "cmp_sort len_less"
  by unfold_locales (rule mset_cmp_sort, rule sorted_cmp_sort)

interpretation start_qsort: c_qsort start_less "cmp_sort start_less"
  by unfold_locales (rule mset_cmp_sort, rule sorted_cmp_sort)

end
