(* ===== verification/E2remap_Space.thy ===== *)
theory E2remap_Space
  imports E2remap_Free
begin

text \<open>
  What \<open>find_free_blocks\<close> finds: the chosen extents give every position a block, and consist of free
  blocks, but for the last one when the runs of at least half the threshold are too few.
\<close>

section \<open>Runs\<close>

definition fe_start :: "free_extent \<Rightarrow> nat" where "fe_start e = unat (fe_block e)"
definition fe_stop :: "free_extent \<Rightarrow> nat" where "fe_stop e = unat (fe_block e) + unat (fe_len e)"

definition run_free :: "block_bitmap \<Rightarrow> free_extent \<Rightarrow> bool" where
  "run_free bm e \<longleftrightarrow> 0 < unat (fe_len e)
     \<and> (\<forall>x. fe_start e \<le> unat x \<longrightarrow> unat x < fe_stop e \<longrightarrow> \<not> bb_used bm x) \<and> fe_stop e \<le> unat (bb_end bm)"

definition runs :: "block_bitmap \<Rightarrow> free_extent list \<Rightarrow> bool" where
  "runs bm fes \<longleftrightarrow> (\<forall>e\<in>set fes. run_free bm e) \<and> sorted_wrt (\<lambda>e f. fe_stop e \<le> fe_start f) fes"

lemma runs_simps:
  "runs bm []" "runs bm (e # es) \<longleftrightarrow> run_free bm e \<and> (\<forall>f\<in>set es. fe_stop e \<le> fe_start f) \<and> runs bm es"
  "runs bm (es @ [e]) \<longleftrightarrow> runs bm es \<and> run_free bm e \<and> (\<forall>f\<in>set es. fe_stop f \<le> fe_start e)"
  by (auto simp: runs_def sorted_wrt_append)

lemma run_free_less: "run_free bm e \<Longrightarrow> fe_start e < fe_stop e"
  by (simp add: run_free_def fe_start_def fe_stop_def)

section \<open>The scan\<close>

lemma unat_align:
  assumes "unat (a::u32) + 8 < 2 ^ 32"
  shows "unat a < unat ((a + 8) AND NOT 7) \<and> unat ((a + 8) AND NOT 7) \<le> unat a + 8"
proof -
  define y where "y = a + 8"
  have y: "unat y = unat a + 8" using assms by (simp add: y_def unat_word_ariths)
  have "(y AND NOT 7) AND (y AND 7) = 0" by (rule bit_eqI) (auto simp: bit_simps)
  then have "(y AND NOT 7) + (y AND 7) = (y AND NOT 7) OR (y AND 7)" by (rule disjunctive_add_eq_or)
  also have "\<dots> = y" by (rule bit_eqI) (auto simp: bit_simps)
  finally have "y AND NOT 7 = y - (y AND 7)" by (simp add: algebra_simps)
  moreover have "y AND 7 \<le> y" "y AND 7 \<le> 7" by (rule word_and_le2, rule word_and_le1)
  ultimately have "unat (y AND NOT 7) = unat y - unat (y AND 7)" "unat (y AND 7) \<le> 7"
    by (simp_all add: unat_sub_le word_le_nat_alt)
  then show ?thesis unfolding y_def [symmetric] using y by linarith
qed

lemma skip_used_spec:
  assumes "unat (bb_end bm) + 8 \<le> 2 ^ 32"
  shows "unat (bb_end bm) \<le> unat b + fuel \<Longrightarrow>
    \<exists>b'. skip_used (Suc fuel) bm b = Value b' \<and> unat b \<le> unat b' \<and> (unat b' < unat (bb_end bm) \<longrightarrow> \<not> bb_used bm b')"
proof (induction fuel arbitrary: b)
  case 0
  then show ?case by (auto simp: word_less_nat_alt)
next
  case (Suc fuel)
  show ?case
  proof (cases "bb_used bm b \<and> b < bb_end bm")
    case True
    then have b8: "unat (b + 8) = unat b + 8" using assms by (simp add: unat_word_ariths word_less_nat_alt)
    then have "unat (bb_end bm) \<le> unat (b + 8) + fuel" using Suc.prems by simp
    from Suc.IH [OF this] obtain b' where "skip_used (Suc fuel) bm (b + 8) = Value b'" "unat (b + 8) \<le> unat b'"
      "unat b' < unat (bb_end bm) \<longrightarrow> \<not> bb_used bm b'" by blast
    then show ?thesis using True b8 by (intro exI [of _ b']) simp
  next
    case False
    then show ?thesis by (auto simp: word_less_nat_alt)
  qed
qed

lemma skip_free_spec:
  "unat (bb_end bm) \<le> unat b + fuel \<Longrightarrow> unat b \<le> unat (bb_end bm) \<Longrightarrow>
    \<exists>b'. skip_free (Suc fuel) bm b = Value b' \<and> unat b \<le> unat b' \<and> unat b' \<le> unat (bb_end bm)
      \<and> (\<forall>x. unat b \<le> unat x \<longrightarrow> unat x < unat b' \<longrightarrow> \<not> bb_used bm x)
      \<and> (\<not> bb_used bm b \<longrightarrow> unat b < unat (bb_end bm) \<longrightarrow> unat b < unat b')"
proof (induction fuel arbitrary: b)
  case 0
  then show ?case by (auto simp: word_less_nat_alt)
next
  case (Suc fuel)
  show ?case
  proof (cases "\<not> bb_used bm b \<and> b < bb_end bm")
    case True
    then have b1: "unat (b + 1) = unat b + 1" by (intro unat_inc) blast
    then have "unat (bb_end bm) \<le> unat (b + 1) + fuel" "unat (b + 1) \<le> unat (bb_end bm)"
      using Suc.prems True by (simp_all add: word_less_nat_alt)
    from Suc.IH [OF this] obtain b' where b': "skip_free (Suc fuel) bm (b + 1) = Value b'" "unat (b + 1) \<le> unat b'"
      "unat b' \<le> unat (bb_end bm)" "\<forall>x. unat (b + 1) \<le> unat x \<longrightarrow> unat x < unat b' \<longrightarrow> \<not> bb_used bm x" by blast
    have "\<not> bb_used bm x" if "unat b \<le> unat x" "unat x < unat b'" for x
    proof (cases "unat x = unat b")
      case True
      then show ?thesis using \<open>\<not> bb_used bm b \<and> b < bb_end bm\<close> by (metis word_unat_eq_iff)
    next
      case False
      then show ?thesis using that b'(4) b1 by simp
    qed
    then show ?thesis using True b' b1 by (intro exI [of _ b']) simp
  next
    case False
    then show ?thesis using Suc.prems by (auto simp: word_less_nat_alt)
  qed
qed

lemma scan_free_spec:
  assumes stop: "unat (bb_end bm) + 8 \<le> 2 ^ 32" and remap: "0 < remap_blocks" "remap_blocks < 2 ^ 32" and min: "0 < min_size"
  shows "unat (bb_end bm) \<le> unat actblk + fuel \<Longrightarrow> runs bm fes \<Longrightarrow> \<forall>e\<in>set fes. fe_stop e \<le> unat actblk \<Longrightarrow>
    scan_free (Suc (Suc fuel)) bm remap_blocks min_size actblk fes allocated n = Exit 1
    \<or> (\<exists>e m. scan_free (Suc (Suc fuel)) bm remap_blocks min_size actblk fes allocated n = Value (True, [e], m)
         \<and> run_free bm e \<and> fe_offset e = 0 \<and> uint (fe_len e) = remap_blocks)
    \<or> (\<exists>fes' m. scan_free (Suc (Suc fuel)) bm remap_blocks min_size actblk fes allocated n = Value (False, fes', m)
         \<and> runs bm fes')"
proof (induction fuel arbitrary: actblk fes allocated n)
  case 0
  then show ?case by (auto simp: word_less_nat_alt)
next
  case (Suc fuel)
  let ?run = "scan_free (Suc (Suc (Suc fuel))) bm remap_blocks min_size actblk fes allocated n"
  let ?first = "(actblk + 8) AND NOT 7"
  show ?case
  proof (cases "actblk < bb_end bm")
    case False
    then show ?thesis using Suc.prems by simp
  next
    case True
    then have "unat actblk + 8 < 2 ^ 32" using stop by (simp add: word_less_nat_alt)
    note first = unat_align [OF this]
    have "unat (bb_end bm) \<le> unat ?first + Suc fuel" using first Suc.prems(1) by linarith
    then obtain block where block: "skip_used (Suc (Suc fuel)) bm ?first = Value block" "unat ?first \<le> unat block"
      "unat block < unat (bb_end bm) \<longrightarrow> \<not> bb_used bm block"
      using skip_used_spec [OF stop] by blast
    show ?thesis
    proof (cases "block \<ge> bb_end bm")
      case True
      then show ?thesis using block(1) \<open>actblk < bb_end bm\<close> Suc.prems(2) by (simp add: scan_free.simps(2))
    next
      case False
      then have lt: "unat block < unat (bb_end bm)" by (simp add: word_le_nat_alt)
      have "unat (bb_end bm) \<le> unat block + Suc fuel" "unat block \<le> unat (bb_end bm)" using block(2) first Suc.prems(1) lt by linarith+
      from skip_free_spec [OF this] obtain act where act: "skip_free (Suc (Suc fuel)) bm block = Value act"
        "unat act \<le> unat (bb_end bm)" "\<forall>x. unat block \<le> unat x \<longrightarrow> unat x < unat act \<longrightarrow> \<not> bb_used bm x" "unat block < unat act"
        using block(3) lt by blast
      define len where "len = act - block"
      have len: "unat len = unat act - unat block" "0 < unat len"
        using act(4) by (simp_all add: len_def unat_sub_le word_le_nat_alt)
      have run: "?run = (if uint len > remap_blocks
          then Value (True, [\<lparr>fe_block = block, fe_len = word_of_int remap_blocks, fe_offset = 0\<rparr>], n)
          else if len \<ge> min_size then
            (let fes = fes @ [\<lparr>fe_block = block, fe_len = len, fe_offset = 0\<rparr>] in
             if int (length fes) \<ge> allocated then
               (if n = 0 then Exit 1
                else scan_free (Suc (Suc fuel)) bm remap_blocks min_size act fes (allocated + FREE_EXTENT_ALLOC_ENTRIES) (n - 1))
             else scan_free (Suc (Suc fuel)) bm remap_blocks min_size act fes allocated n)
          else scan_free (Suc (Suc fuel)) bm remap_blocks min_size act fes allocated n)"
        using \<open>actblk < bb_end bm\<close> False block(1) act(1) by (subst scan_free.simps(2)) (simp add: Let_def flip: len_def)
      have act_fuel: "unat (bb_end bm) \<le> unat act + fuel" using act(4) block(2) first Suc.prems(1) by linarith
      let ?e = "\<lparr>fe_block = block, fe_len = len, fe_offset = 0\<rparr>"
      have e: "fe_stop ?e = unat act" "fe_start ?e = unat block"
        using len act(4) by (simp_all add: fe_stop_def fe_start_def)
      have e_run: "run_free bm ?e"
        unfolding run_free_def e using len(2) act(2,3) by simp
      have old: "\<forall>f\<in>set fes. fe_stop f \<le> unat block" using Suc.prems(3) first block(2) by fastforce
      show ?thesis
      proof (cases "uint len > remap_blocks")
        case True
        have u: "uint (word_of_int remap_blocks :: u32) = remap_blocks" using remap by (simp add: uint_word_of_int)
        then have ur: "int (unat (word_of_int remap_blocks :: u32)) = remap_blocks" by (simp only: uint_nat)
        have "int (unat len) > remap_blocks" using True by simp
        then have less: "0 < unat (word_of_int remap_blocks :: u32)" "unat (word_of_int remap_blocks :: u32) \<le> unat len"
          using ur remap(1) by linarith+
        have "run_free bm \<lparr>fe_block = block, fe_len = word_of_int remap_blocks, fe_offset = 0\<rparr>"
          unfolding run_free_def fe_start_def fe_stop_def free_extent.simps
        proof (intro conjI allI impI)
          fix x :: u32 assume "unat block \<le> unat x" "unat x < unat block + unat (word_of_int remap_blocks :: u32)"
          then show "\<not> bb_used bm x" using e_run less(2) unfolding run_free_def fe_start_def fe_stop_def free_extent.simps by fastforce
        next
          show "unat block + unat (word_of_int remap_blocks :: u32) \<le> unat (bb_end bm)"
            using e_run less(2) unfolding run_free_def fe_stop_def free_extent.simps by linarith
        qed (rule less(1))
        then show ?thesis unfolding run using True u by simp
      next
        case F: False
        have new: "runs bm (fes @ [?e])" "\<forall>f\<in>set (fes @ [?e]). fe_stop f \<le> unat act"
          using Suc.prems(2) old e_run e act(4) by (auto simp: runs_simps)
        have keep: "\<forall>f\<in>set fes. fe_stop f \<le> unat act" using old act(4) by fastforce
        note IH1 = Suc.IH [OF act_fuel new] and IH2 = Suc.IH [OF act_fuel Suc.prems(2) keep]
        show ?thesis unfolding run Let_def using F IH1 IH2 by (simp split: if_split)
      qed
    qed
  qed
qed

declare scan_free.simps [simp del]

section \<open>The choice\<close>

text \<open>The offsets continue from \<open>a\<close> without a gap.\<close>

fun placed :: "nat \<Rightarrow> free_extent list \<Rightarrow> bool" where
  "placed a [] = True"
| "placed a (e # es) \<longleftrightarrow> unat (fe_offset e) = a \<and> 0 < unat (fe_len e) \<and> placed (a + unat (fe_len e)) es"

definition fe_total :: "free_extent list \<Rightarrow> nat" where
  "fe_total es = sum_list (map (\<lambda>e. unat (fe_len e)) es)"

lemma fe_total_simps [simp]:
  "fe_total [] = 0" "fe_total (e # es) = unat (fe_len e) + fe_total es" "fe_total (es @ fs) = fe_total es + fe_total fs"
  by (simp_all add: fe_total_def)

lemma placed_append: "placed a (es @ fs) \<longleftrightarrow> placed a es \<and> placed (a + fe_total es) fs"
  by (induction es arbitrary: a) (auto simp: add.assoc)

lemma run_free_offset [simp]: "run_free bm (e\<lparr>fe_offset := x\<rparr>) = run_free bm e" "fe_start (e\<lparr>fe_offset := x\<rparr>) = fe_start e"
  "fe_stop (e\<lparr>fe_offset := x\<rparr>) = fe_stop e"
  by (simp_all add: run_free_def fe_start_def fe_stop_def)

lemma take_extents_spec:
  assumes "take_extents remap_blocks min_size a fes = (taken, act)" and "runs bm fes" and "\<forall>e\<in>set fes. unat a \<le> fe_start e"
  shows "placed (unat a) taken \<and> runs bm taken \<and> unat act = unat a + fe_total taken
    \<and> (\<forall>e\<in>set taken. uint (fe_offset e) < remap_blocks) \<and> (\<forall>e\<in>set taken. \<exists>f\<in>set fes. fe_start e = fe_start f)
    \<and> (uint act < remap_blocks \<longrightarrow> fe_total taken = fe_total (filter (\<lambda>e. fe_len e \<ge> min_size) fes))"
  using assms
proof (induction remap_blocks min_size a fes arbitrary: taken act rule: take_extents.induct)
  case (2 remap_blocks min_size a e fes)
  have rest: "runs bm fes" "run_free bm e" "\<forall>f\<in>set fes. fe_stop e \<le> fe_start f" using 2(4) by (simp_all add: runs_simps)
  show ?case
  proof (cases "uint a < remap_blocks")
    case False
    then show ?thesis using 2(3) by (auto simp: runs_simps)
  next
    case True
    show ?thesis
    proof (cases "fe_len e \<ge> min_size")
      case F: False
      then have t: "take_extents remap_blocks min_size a fes = (taken, act)" using 2(3) True by simp
      have "\<forall>e\<in>set fes. unat a \<le> fe_start e" using 2(5) by simp
      from 2(2) [OF _ _ t rest(1) this] show ?thesis using True F by auto
    next
      case len: True
      then obtain taken' where t: "take_extents remap_blocks min_size (a + fe_len e) fes = (taken', act)"
        and taken: "taken = e\<lparr>fe_offset := a\<rparr> # taken'"
        using 2(3) True by (auto split: prod.splits)
      have ae: "unat a \<le> fe_start e" using 2(5) by simp
      have "fe_stop e < 2 ^ 32" using rest(2) unsigned_less [of "bb_end bm", where ?'a = nat] by (simp add: run_free_def)
      then have al: "unat (a + fe_len e) = unat a + unat (fe_len e)"
        using ae by (simp add: fe_start_def fe_stop_def unat_word_ariths)
      have "unat (a + fe_len e) \<le> fe_stop e" unfolding al fe_stop_def using ae by (simp add: fe_start_def)
      then have "\<forall>f\<in>set fes. unat (a + fe_len e) \<le> fe_start f" using rest(3) by fastforce
      note IH = 2(1) [OF _ _ t rest(1) this]
      have ih: "placed (unat (a + fe_len e)) taken'" "runs bm taken'" "unat act = unat (a + fe_len e) + fe_total taken'"
        "\<forall>e\<in>set taken'. uint (fe_offset e) < remap_blocks" "\<forall>e\<in>set taken'. \<exists>f\<in>set fes. fe_start e = fe_start f"
        "uint act < remap_blocks \<longrightarrow> fe_total taken' = fe_total (filter (\<lambda>e. fe_len e \<ge> min_size) fes)"
        using IH True len by simp_all
      have "0 < unat (fe_len e)" using rest(2) by (simp add: run_free_def)
      moreover have "\<forall>f\<in>set taken'. fe_stop e \<le> fe_start f" using ih(5) rest(3) by fastforce
      ultimately show ?thesis using ih rest(2) len True unfolding taken by (simp add: runs_simps al)
    qed
  qed
qed (simp add: runs_simps)

text \<open>Sorting by the start does nothing to runs that are in order.\<close>

lemma sort_runs:
  assumes "c_qsort start_less srt" and "runs bm fes" and "mset es = mset fes"
  shows "srt es = fes"
proof -
  have set: "set (srt es) = set fes"
    using c_qsort.set_qsort [OF assms(1)] assms(3) by (metis set_mset_mset)
  have fes: "sorted_wrt (\<lambda>e f. fe_start e < fe_start f) fes"
  proof (rule sorted_wrt_mono_rel [where P = "\<lambda>e f. fe_stop e \<le> fe_start f"])
    fix e f assume "e \<in> set fes" "fe_stop e \<le> fe_start f"
    then show "fe_start e < fe_start f" using run_free_less [of bm e] assms(2) by (simp add: runs_def)
  qed (use assms(2) in \<open>simp add: runs_def\<close>)
  then have d: "distinct (map fe_start fes)" "sorted (map fe_start fes)"
    unfolding sorted_wrt_map [of _ fe_start, symmetric] strict_sorted_iff by simp_all
  have "sorted_wrt (\<lambda>e f. \<not> start_less f e) (srt es)"
    by (rule c_qsort.qsort_sorted [OF assms(1) start_less_consistent])
  then have s: "sorted (map fe_start (srt es))"
    unfolding sorted_wrt_map
    by (rule sorted_wrt_mono_rel [rotated])
      (simp add: start_less_def cmp_extents_start_def fe_start_def word_less_nat_alt not_less split: if_splits)
  have m: "mset (map fe_start (srt es)) = mset (map fe_start fes)"
    using c_qsort.qsort_mset [OF assms(1)] assms(3) by simp
  have "distinct (map fe_start (srt es))" using d(1) m by (metis mset_eq_imp_distinct_iff)
  moreover have "inj_on fe_start (set (srt es) \<union> set fes)" unfolding set using d(1) by (simp add: distinct_map)
  ultimately show ?thesis using map_sorted_distinct_set_unique [OF _ s _ d(2,1) set] by blast
qed

text \<open>The threshold of the second loop, and whether the runs that reach it are enough.\<close>

definition size_threshold :: "(free_extent list \<Rightarrow> free_extent list) \<Rightarrow> int \<Rightarrow> free_extent list \<Rightarrow> u32" where
  "size_threshold srt_len remap_blocks fes = drop_bit 1 (fe_len (srt_len fes ! (first_enough remap_blocks 0 (srt_len fes) - 1)))"

definition enough_runs :: "(free_extent list \<Rightarrow> free_extent list) \<Rightarrow> int \<Rightarrow> free_extent list \<Rightarrow> bool" where
  "enough_runs srt_len remap_blocks fes \<longleftrightarrow>
     remap_blocks \<le> int (fe_total (filter (\<lambda>e. fe_len e \<ge> size_threshold srt_len remap_blocks fes) fes))"

text \<open>
  What the chosen extents are: they give the positions \<open>0..<n\<close> blocks, in the order of the disk, and
  all but the last one are free runs; the last one too when \<open>ok\<close>.
\<close>

definition area :: "block_bitmap \<Rightarrow> int \<Rightarrow> bool \<Rightarrow> free_extent list \<Rightarrow> bool" where
  "area bm n ok fes \<longleftrightarrow> placed 0 fes \<and> int (fe_total fes) = n \<and> sorted_wrt (\<lambda>e f. fe_stop e \<le> fe_start f) fes
     \<and> fes \<noteq> [] \<and> (\<forall>e\<in>set (butlast fes). run_free bm e) \<and> (ok \<longrightarrow> run_free bm (last fes))"

lemma half_le: "drop_bit 1 (w::u32) \<le> w"
  by (simp add: word_le_nat_alt drop_bit_eq_div unat_div)

lemma first_enough_pos: "0 < remap_blocks \<Longrightarrow> fes \<noteq> [] \<Longrightarrow> 0 < first_enough remap_blocks 0 fes"
  by (cases fes) simp_all

lemma first_enough_le: "first_enough remap_blocks a fes \<le> length fes"
  by (induction remap_blocks a fes rule: first_enough.induct) simp_all

lemma sorted_len_nth:
  assumes "c_qsort len_less srt_len" and "i \<le> j" and "j < length (srt_len fes)"
  shows "fe_len (srt_len fes ! i) \<le> fe_len (srt_len fes ! j)"
proof (cases "i = j")
  case False
  have "sorted_wrt (\<lambda>x y. \<not> len_less y x) (srt_len fes)"
    by (rule c_qsort.qsort_sorted [OF assms(1) len_less_consistent])
  then have "\<not> len_less (srt_len fes ! j) (srt_len fes ! i)"
    using assms(2,3) False by (simp add: sorted_wrt_iff_nth_less)
  then show ?thesis by (auto simp: len_less_def cmp_extents_len_def split: if_splits)
qed simp

lemma select_extents_spec:
  assumes srt: "c_qsort len_less srt_len" "c_qsort start_less srt_start" and remap: "0 < remap_blocks" "remap_blocks < 2 ^ 32"
    and fes: "runs bm fes"
  shows "select_extents srt_len srt_start remap_blocks fes = Exit 1
    \<or> (\<exists>fes'. select_extents srt_len srt_start remap_blocks fes = Value fes' \<and> area bm remap_blocks (enough_runs srt_len remap_blocks fes) fes')"
proof (cases "first_enough remap_blocks 0 (srt_len fes) \<ge> length (srt_len fes)")
  case True
  then show ?thesis by (simp add: select_extents_def)
next
  case False
  define k where "k = first_enough remap_blocks 0 (srt_len fes)"
  have k: "k < length (srt_len fes)" using False by (simp add: k_def)
  then have ne: "srt_len fes \<noteq> []" by auto
  have k0: "0 < k" unfolding k_def using remap(1) ne by (rule first_enough_pos)
  let ?thr = "size_threshold srt_len remap_blocks fes"
  have thr: "drop_bit 1 (fe_len (srt_len fes ! (k - 1))) = ?thr" by (simp only: size_threshold_def k_def)
  have "mset (srt_len fes) = mset fes" by (rule c_qsort.qsort_mset [OF srt(1)])
  from sort_runs [OF srt(2) fes this] have start: "srt_start (srt_len fes) = fes" .
  obtain taken act where t: "take_extents remap_blocks ?thr 0 fes = (taken, act)"
    by (cases "take_extents remap_blocks ?thr 0 fes") auto
  have "\<forall>e\<in>set fes. unat (0::u32) \<le> fe_start e" by simp
  from take_extents_spec [OF t fes this]
  have taken: "placed 0 taken" "runs bm taken" "unat act = fe_total taken" "\<forall>e\<in>set taken. uint (fe_offset e) < remap_blocks"
    "uint act < remap_blocks \<longrightarrow> fe_total taken = fe_total (filter (\<lambda>e. fe_len e \<ge> ?thr) fes)"
    by simp_all
  have big: "srt_len fes ! k \<in> set fes" "fe_len (srt_len fes ! k) \<ge> ?thr"
  proof -
    show "srt_len fes ! k \<in> set fes" using nth_mem [OF k] by (simp add: c_qsort.set_qsort [OF srt(1)])
    have "fe_len (srt_len fes ! (k - 1)) \<le> fe_len (srt_len fes ! k)"
      by (rule sorted_len_nth [OF srt(1)]) (use k in simp_all)
    moreover have "?thr \<le> fe_len (srt_len fes ! (k - 1))"
      unfolding size_threshold_def k_def [symmetric] by (rule half_le)
    ultimately show "fe_len (srt_len fes ! k) \<ge> ?thr" by simp
  qed
  have tne: "taken \<noteq> []"
  proof
    assume e: "taken = []"
    then have "uint act = 0" using taken(3) unfolding uint_nat by simp
    then have "fe_total (filter (\<lambda>e. fe_len e \<ge> ?thr) fes) = 0" using taken(5) remap(1) e by simp
    then have "\<forall>f\<in>set (filter (\<lambda>e. fe_len e \<ge> ?thr) fes). unat (fe_len f) = 0" by (auto simp: fe_total_def)
    then have "unat (fe_len (srt_len fes ! k)) = 0" using big by simp
    moreover have "run_free bm (srt_len fes ! k)" using fes big(1) by (simp add: runs_def)
    ultimately show False by (simp add: run_free_def)
  qed
  obtain ts l where tl: "taken = ts @ [l]" using tne by (cases taken rule: rev_cases) auto
  define l' where "l' = l\<lparr>fe_len := fe_len l - word_of_int (uint act - remap_blocks)\<rparr>"
  have off: "uint (fe_offset l) = int (fe_total ts)" "int (fe_total ts) < remap_blocks"
  proof -
    have "unat (fe_offset l) = fe_total ts" "uint (fe_offset l) < remap_blocks"
      using taken(1,4) unfolding tl placed_append by simp_all
    then show "uint (fe_offset l) = int (fe_total ts)" "int (fe_total ts) < remap_blocks"
      unfolding uint_nat by simp_all
  qed
  have ul: "uint act = uint (fe_offset l) + uint (fe_len l)"
    using taken(3) off(1) unfolding tl uint_nat by simp
  have len': "fe_len l' = word_of_int (remap_blocks - int (fe_total ts))"
  proof -
    have "fe_len l = word_of_int (uint (fe_len l))" by simp
    then have "fe_len l' = word_of_int (uint (fe_len l) - (uint act - remap_blocks))"
      unfolding l'_def by simp
    then show ?thesis unfolding ul off(1) by simp
  qed
  have "0 < remap_blocks - int (fe_total ts)" "remap_blocks - int (fe_total ts) < 2 ^ 32" using off remap by linarith+
  then have ul': "int (unat (fe_len l')) = remap_blocks - int (fe_total ts)"
    unfolding len' by (intro unat_of_small) linarith+
  have lrun: "run_free bm l'" if "enough_runs srt_len remap_blocks fes"
  proof -
    have "remap_blocks \<le> uint act"
    proof (rule ccontr)
      assume "\<not> remap_blocks \<le> uint act"
      then have lt: "uint act < remap_blocks" by simp
      with taken(5) that have "remap_blocks \<le> int (fe_total taken)" by (simp add: enough_runs_def)
      then show False using lt taken(3) unfolding uint_nat by linarith
    qed
    then have "int (unat (fe_len l')) \<le> int (unat (fe_len l))" unfolding ul' using ul off(1) by simp
    then have le: "unat (fe_len l') \<le> unat (fe_len l)" unfolding of_nat_le_iff .
    have pos: "0 < unat (fe_len l')" using ul' off(2) by linarith
    have start: "fe_start l' = fe_start l" "fe_stop l' \<le> fe_stop l" using le by (simp_all add: l'_def fe_start_def fe_stop_def)
    have "run_free bm l" using taken(2) unfolding tl by (simp add: runs_simps)
    then show ?thesis unfolding run_free_def using pos start by fastforce
  qed
  have "area bm remap_blocks (enough_runs srt_len remap_blocks fes) (ts @ [l'])"
    unfolding area_def
  proof (intro conjI impI)
    have "0 < unat (fe_len l')" using ul' off(2) by linarith
    then show "placed 0 (ts @ [l'])" using taken(1) unfolding tl placed_append by (simp add: l'_def)
    show "int (fe_total (ts @ [l'])) = remap_blocks" using ul' by simp
    show "sorted_wrt (\<lambda>e f. fe_stop e \<le> fe_start f) (ts @ [l'])"
      using taken(2) unfolding tl by (simp add: runs_def sorted_wrt_append l'_def fe_start_def)
    show "\<forall>e\<in>set (butlast (ts @ [l'])). run_free bm e" using taken(2) unfolding tl by (simp add: runs_def)
  qed (use lrun in simp_all)
  moreover have "select_extents srt_len srt_start remap_blocks fes = Value (ts @ [l'])"
    unfolding select_extents_def Let_def k_def [symmetric] start thr t prod.case using k k0 by (simp add: tl l'_def)
  ultimately show ?thesis by blast
qed

section \<open>The search as a whole\<close>

lemma area_single:
  assumes "run_free bm e" and "fe_offset e = 0" and "uint (fe_len e) = n"
  shows "area bm n True [e]"
  using assms by (auto simp: area_def run_free_def)

text \<open>The runs that the scan finds when no single run is long enough, with memory for \<open>n\<close> allocations.\<close>

definition runs_found :: "block_bitmap \<Rightarrow> int \<Rightarrow> int \<Rightarrow> nat \<Rightarrow> free_extent list \<Rightarrow> bool" where
  "runs_found bm remap_blocks min_size n found \<longleftrightarrow>
     (\<exists>m. scan_free (unat (bb_end bm) + 2) bm remap_blocks (word_of_int min_size) (bb_start bm) [] FREE_EXTENT_ALLOC_ENTRIES n
       = Value (False, found, m))"

lemma find_free_blocks_spec:
  assumes srt: "c_qsort len_less srt_len" "c_qsort start_less srt_start"
    and bm: "unat (bb_end bm) + 8 \<le> 2 ^ 32" and remap: "0 < rs_blocks s" "rs_blocks s < 2 ^ 32"
    and min: "0 < min_size" "min_size < 2 ^ 31"
  shows "find_free_blocks srt_len srt_start (Some bm) min_size s = Exit 1
    \<or> (\<exists>fes m. find_free_blocks srt_len srt_start (Some bm) min_size s = Value (fes, s\<lparr>rs_allocs := m\<rparr>)
         \<and> (area bm (rs_blocks s) True fes
           \<or> (\<exists>found. runs_found bm (rs_blocks s) min_size (rs_allocs s - 1) found \<and> runs bm found
             \<and> \<not> enough_runs srt_len (rs_blocks s) found \<and> area bm (rs_blocks s) False fes)))"
proof (cases "rs_allocs s = 0")
  case True
  then show ?thesis by (simp add: find_free_blocks_def remap_alloc_def)
next
  case False
  define w where "w = (word_of_int min_size :: u32)"
  have "int (unat w) = min_size" unfolding w_def using min by (intro unat_of_small) simp_all
  then have "0 < unat w" using min(1) by linarith
  then have pos: "0 < w" by (simp add: word_less_nat_alt)
  let ?scan = "scan_free (unat (bb_end bm) + 2) bm (rs_blocks s) w (bb_start bm) [] FREE_EXTENT_ALLOC_ENTRIES (rs_allocs s - 1)"
  have run: "find_free_blocks srt_len srt_start (Some bm) min_size s = and_then ?scan (\<lambda>(single, fes, n).
      let s = s\<lparr>rs_allocs := n\<rparr> in
      if single then Value (fes, s)
      else and_then (select_extents srt_len srt_start (rs_blocks s) fes) (\<lambda>fes. and_then (remap_alloc s) (\<lambda>s. Value (fes, s))))"
  proof -
    define s0 where "s0 = s\<lparr>rs_allocs := rs_allocs s - 1\<rparr>"
    have s0: "remap_alloc s = Value s0" "rs_blocks s0 = rs_blocks s" "rs_allocs s0 = rs_allocs s - 1"
      "s0\<lparr>rs_allocs := n\<rparr> = s\<lparr>rs_allocs := n\<rparr>" "rs_blocks (s\<lparr>rs_allocs := n\<rparr>) = rs_blocks s" for n
      using False by (simp_all add: remap_alloc_def s0_def)
    show ?thesis
      unfolding find_free_blocks_def option.case s0(1) and_then.simps(1) w_def [symmetric] s0(2-5) Let_def ..
  qed
  have fuel: "unat (bb_end bm) + 2 = Suc (Suc (unat (bb_end bm)))" by simp
  have "unat (bb_end bm) \<le> unat (bb_start bm) + unat (bb_end bm)" by simp
  have "runs bm []" "\<forall>e\<in>set []. fe_stop e \<le> unat (bb_start bm)" by (simp_all add: runs_simps)
  from scan_free_spec [OF bm remap pos \<open>unat (bb_end bm) \<le> _\<close> this, of FREE_EXTENT_ALLOC_ENTRIES "rs_allocs s - 1"]
  consider "?scan = Exit 1" | e m where "?scan = Value (True, [e], m)" "run_free bm e" "fe_offset e = 0" "uint (fe_len e) = rs_blocks s"
    | fes m where "?scan = Value (False, fes, m)" "runs bm fes"
    unfolding fuel by blast
  then show ?thesis
  proof cases
    case 1
    then show ?thesis unfolding run by simp
  next
    case (2 e m)
    have "area bm (rs_blocks s) True [e]" using 2(2-4) by (rule area_single)
    moreover have "find_free_blocks srt_len srt_start (Some bm) min_size s = Value ([e], s\<lparr>rs_allocs := m\<rparr>)"
      unfolding run 2(1) by simp
    ultimately show ?thesis by blast
  next
    case (3 fes m)
    have found: "runs_found bm (rs_blocks s) min_size (rs_allocs s - 1) fes"
      using 3(1) unfolding runs_found_def w_def by blast
    from select_extents_spec [OF srt remap 3(2)] show ?thesis
    proof
      assume "select_extents srt_len srt_start (rs_blocks s) fes = Exit 1"
      then show ?thesis unfolding run 3(1) by (simp add: Let_def)
    next
      assume "\<exists>fes'. select_extents srt_len srt_start (rs_blocks s) fes = Value fes'
        \<and> area bm (rs_blocks s) (enough_runs srt_len (rs_blocks s) fes) fes'"
      then obtain fes' where fes': "select_extents srt_len srt_start (rs_blocks s) fes = Value fes'"
        "area bm (rs_blocks s) (enough_runs srt_len (rs_blocks s) fes) fes'" by blast
      show ?thesis
      proof (cases "m = 0")
        case True
        then show ?thesis unfolding run 3(1) by (simp add: Let_def fes' remap_alloc_def)
      next
        case False
        then have "find_free_blocks srt_len srt_start (Some bm) min_size s = Value (fes', s\<lparr>rs_allocs := m - 1\<rparr>)"
          unfolding run 3(1) by (simp add: Let_def fes' remap_alloc_def)
        moreover have "area bm (rs_blocks s) True fes'
           \<or> (\<exists>found. runs_found bm (rs_blocks s) min_size (rs_allocs s - 1) found \<and> runs bm found
             \<and> \<not> enough_runs srt_len (rs_blocks s) found \<and> area bm (rs_blocks s) False fes')"
          using fes'(2) 3(2) found by (cases "enough_runs srt_len (rs_blocks s) fes") (simp, metis)
        ultimately show ?thesis by blast
      qed
    qed
  qed
qed

section \<open>The extent of a position\<close>

definition fe_holds :: "free_extent \<Rightarrow> nat \<Rightarrow> bool" where
  "fe_holds e p \<longleftrightarrow> unat (fe_offset e) \<le> p \<and> p < unat (fe_offset e) + unat (fe_len e)"

lemma placed_nth:
  assumes "placed a fes" and "k < length fes"
  shows "unat (fe_offset (fes ! k)) = a + fe_total (take k fes) \<and> unat (fe_offset (fes ! k)) + unat (fe_len (fes ! k)) \<le> a + fe_total fes"
proof -
  have split: "fes = take k fes @ fes ! k # drop (Suc k) fes" using assms(2) by (rule id_take_nth_drop)
  have "placed a (take k fes @ fes ! k # drop (Suc k) fes)" using assms(1) split by simp
  moreover have "fe_total fes = fe_total (take k fes @ fes ! k # drop (Suc k) fes)" using split by simp
  ultimately show ?thesis unfolding placed_append by simp
qed

lemma placed_order:
  assumes "placed a fes" and "j < k" and "k < length fes"
  shows "unat (fe_offset (fes ! j)) + unat (fe_len (fes ! j)) \<le> unat (fe_offset (fes ! k))"
proof -
  have "placed a (take k fes)" using assms(1) by (metis append_take_drop_id placed_append)
  from placed_nth [OF this, of j] assms(2,3) have "unat (fe_offset (fes ! j)) + unat (fe_len (fes ! j)) \<le> a + fe_total (take k fes)"
    by simp
  then show ?thesis using placed_nth [OF assms(1,3)] by simp
qed

lemma placed_pos: "placed a fes \<Longrightarrow> e \<in> set fes \<Longrightarrow> 0 < unat (fe_len e)"
  by (induction fes arbitrary: a) auto

lemma placed_holds:
  "placed a fes \<Longrightarrow> a \<le> p \<Longrightarrow> p < a + fe_total fes \<Longrightarrow> \<exists>k<length fes. fe_holds (fes ! k) p"
proof (induction fes arbitrary: a)
  case (Cons e fes)
  show ?case
  proof (cases "p < a + unat (fe_len e)")
    case True
    then show ?thesis using Cons.prems by (intro exI [of _ 0]) (simp add: fe_holds_def)
  next
    case False
    then obtain k where "k < length fes" "fe_holds (fes ! k) p" using Cons.IH [of "a + unat (fe_len e)"] Cons.prems by auto
    then show ?thesis by (intro exI [of _ "Suc k"]) simp
  qed
qed simp

lemma fe_holds_unique:
  assumes "placed a fes" and "j < length fes" and "k < length fes" and "fe_holds (fes ! j) p" and "fe_holds (fes ! k) p"
  shows "j = k"
proof (rule ccontr)
  assume "j \<noteq> k"
  then consider "j < k" | "k < j" by linarith
  then show False using placed_order [OF assms(1)] assms(2-5) unfolding fe_holds_def by cases fastforce+
qed

lemma find_remapped_loop_spec:
  assumes fes: "placed 0 fes" "fe_total fes < 2 ^ 32" and k: "k < length fes" "fe_holds (fes ! k) (unat offset)"
  shows "0 \<le> start \<Longrightarrow> stop < int (length fes) \<Longrightarrow> start \<le> int k \<Longrightarrow> int k \<le> stop
    \<Longrightarrow> find_remapped_loop fes offset start stop = Some k"
proof (induction "nat (stop - start + 1)" arbitrary: start stop rule: less_induct)
  case less
  define mid where "mid = nat ((start + stop) div 2)"
  have mid: "int mid = (start + stop) div 2" "start \<le> int mid" "int mid \<le> stop" "mid < length fes"
    using less.prems unfolding mid_def by auto
  let ?f = "fes ! mid"
  have f: "unat (fe_offset ?f) + unat (fe_len ?f) \<le> fe_total fes" using placed_nth [OF fes(1) mid(4)] by simp
  have sum: "unat (fe_offset ?f + fe_len ?f) = unat (fe_offset ?f) + unat (fe_len ?f)"
    using f fes(2) by (simp add: unat_word_ariths)
  have test: "fe_offset ?f \<le> offset \<and> fe_offset ?f + fe_len ?f > offset \<longleftrightarrow> fe_holds ?f (unat offset)"
    unfolding fe_holds_def word_le_nat_alt word_less_nat_alt sum ..
  have loop: "find_remapped_loop fes offset start stop =
     (if fe_holds ?f (unat offset) then Some mid
      else if fe_offset ?f < offset then find_remapped_loop fes offset (int mid + 1) stop
      else find_remapped_loop fes offset start (int mid - 1))"
    unfolding find_remapped_loop.simps [of fes offset start stop] Let_def mid(1) [symmetric] nat_int test
    using less.prems by simp
  show ?case
  proof (cases "fe_holds ?f (unat offset)")
    case True
    then show ?thesis using fe_holds_unique [OF fes(1) mid(4) k(1) True k(2)] loop by simp
  next
    case False
    then have ne: "mid \<noteq> k" using k(2) by auto
    show ?thesis
    proof (cases "fe_offset ?f < offset")
      case True
      then have "unat (fe_offset ?f) + unat (fe_len ?f) \<le> unat offset" using False by (simp add: fe_holds_def word_less_nat_alt)
      then have "\<not> k < mid" using placed_order [OF fes(1) _ mid(4), of k] k(2) True
        by (auto simp: fe_holds_def word_less_nat_alt)
      then have "mid < k" using ne by simp
      have "find_remapped_loop fes offset (int mid + 1) stop = Some k"
        by (rule less.hyps) (use less.prems mid \<open>mid < k\<close> in auto)
      then show ?thesis using loop False True by simp
    next
      case before: False
      then have le: "unat offset \<le> unat (fe_offset ?f)" by (simp add: word_less_nat_alt)
      have "\<not> mid < k"
      proof
        assume "mid < k"
        from placed_order [OF fes(1) this k(1)] k(2) le placed_pos [OF fes(1) nth_mem [OF mid(4)]] show False
          unfolding fe_holds_def by linarith
      qed
      then have "k < mid" using ne by simp
      have "find_remapped_loop fes offset start (int mid - 1) = Some k"
        by (rule less.hyps) (use less.prems mid \<open>k < mid\<close> in auto)
      then show ?thesis using loop False before by simp
    qed
  qed
qed

lemma find_remapped_offset_spec:
  assumes "placed 0 fes" and "fe_total fes < 2 ^ 32" and "unat offset < fe_total fes"
  shows "\<exists>k<length fes. find_remapped_offset fes offset = Some k \<and> fe_holds (fes ! k) (unat offset)"
proof -
  obtain k where "k < length fes" "fe_holds (fes ! k) (unat offset)" using placed_holds [OF assms(1), of "unat offset"] assms(3) by auto
  then show ?thesis using find_remapped_loop_spec [OF assms(1,2)] by (auto simp: find_remapped_offset_def)
qed

section \<open>When the runs are too few\<close>

text \<open>The block behind a run is in use, or the bitmap ends there.\<close>

definition run_ends :: "block_bitmap \<Rightarrow> free_extent \<Rightarrow> bool" where
  "run_ends bm e \<longleftrightarrow> bb_used bm (fe_block e + fe_len e) \<or> bb_end bm \<le> fe_block e + fe_len e"

lemma skip_free_ends:
  "skip_free fuel bm b = Value b' \<Longrightarrow> bb_used bm b' \<or> bb_end bm \<le> b'"
  by (induction fuel bm b rule: skip_free.induct) (auto split: if_splits)

lemma scan_free_ends:
  "scan_free fuel bm remap_blocks min_size actblk fes allocated n = Value (False, found, m)
    \<Longrightarrow> \<forall>e\<in>set fes. run_ends bm e \<Longrightarrow> \<forall>e\<in>set found. run_ends bm e"
proof (induction fuel arbitrary: actblk fes allocated n)
  case (Suc fuel)
  show ?case
  proof (cases "actblk < bb_end bm")
    case False
    then show ?thesis using Suc.prems by (simp add: scan_free.simps(2))
  next
    case True
    obtain block where block: "skip_used fuel bm ((actblk + 8) AND NOT 7) = Value block"
      using Suc.prems(1) True by (auto simp: scan_free.simps(2) and_then_Value)
    show ?thesis
    proof (cases "block \<ge> bb_end bm")
      case behind: True
      then show ?thesis using Suc.prems True block by (simp add: scan_free.simps(2))
    next
      case False
      obtain act where act: "skip_free fuel bm block = Value act"
        using Suc.prems(1) True block False by (auto simp: scan_free.simps(2) and_then_Value)
      let ?e = "\<lparr>fe_block = block, fe_len = act - block, fe_offset = 0\<rparr>"
      have "run_ends bm ?e" using skip_free_ends [OF act] by (simp add: run_ends_def)
      then have new: "\<forall>e\<in>set (fes @ [?e]). run_ends bm e" using Suc.prems(2) by simp
      have "(\<exists>al k. scan_free fuel bm remap_blocks min_size act (fes @ [?e]) al k = Value (False, found, m))
        \<or> (\<exists>al k. scan_free fuel bm remap_blocks min_size act fes al k = Value (False, found, m))"
        using Suc.prems(1) True block False act
        by (simp add: scan_free.simps(2) Let_def split: if_splits) blast+
      then show ?thesis using Suc.IH new Suc.prems(2) by blast
    qed
  qed
qed (simp add: scan_free.simps(1))

lemma take_extents_total:
  "take_extents remap_blocks min_size a fes = (taken, act) \<Longrightarrow>
    fe_total taken \<le> fe_total (filter (\<lambda>e. fe_len e \<ge> min_size) fes)
    \<and> (\<forall>e\<in>set taken. \<exists>f\<in>set fes. \<exists>x. e = f\<lparr>fe_offset := x\<rparr>)"
proof (induction remap_blocks min_size a fes arbitrary: taken act rule: take_extents.induct)
  case (2 remap_blocks min_size a e fes)
  show ?case
  proof (cases "uint a < remap_blocks \<and> fe_len e \<ge> min_size")
    case True
    then obtain taken' where "take_extents remap_blocks min_size (a + fe_len e) fes = (taken', act)"
      "taken = e\<lparr>fe_offset := a\<rparr> # taken'"
      using 2(3) by (auto split: prod.splits)
    then show ?thesis using 2(1) True by fastforce
  next
    case False
    then show ?thesis using 2(2,3) by (cases "uint a < remap_blocks") auto
  qed
qed simp

lemma select_extents_overrun:
  assumes srt: "c_qsort len_less srt_len" "c_qsort start_less srt_start"
    and remap: "0 < remap_blocks" "remap_blocks < 2 ^ 32"
    and fes: "runs bm fes" "\<forall>e\<in>set fes. run_ends bm e"
    and few: "\<not> enough_runs srt_len remap_blocks fes"
    and run: "select_extents srt_len srt_start remap_blocks fes = Value fes'"
  shows "\<exists>f\<in>set fes. fe_start (last fes') = fe_start f \<and> fe_stop f < fe_stop (last fes')
    \<and> (\<exists>x. unat x = fe_stop f \<and> (bb_used bm x \<or> bb_end bm \<le> x))"
proof -
  let ?thr = "size_threshold srt_len remap_blocks fes"
  have "mset (srt_len fes) = mset fes" by (rule c_qsort.qsort_mset [OF srt(1)])
  from sort_runs [OF srt(2) fes(1) this] have start: "srt_start (srt_len fes) = fes" .
  obtain taken act where t: "take_extents remap_blocks ?thr 0 fes = (taken, act)"
    by (cases "take_extents remap_blocks ?thr 0 fes") auto
  have fes': "taken \<noteq> []"
    "fes' = butlast taken @ [last taken\<lparr>fe_len := fe_len (last taken) - word_of_int (uint act - remap_blocks)\<rparr>]"
    using run t unfolding select_extents_def Let_def start size_threshold_def by (auto split: if_splits prod.splits)
  obtain ts l where tl: "taken = ts @ [l]" using fes'(1) by (cases taken rule: rev_cases) auto
  obtain l' where l': "fes' = ts @ [l']" "fe_block l' = fe_block l" using fes'(2) unfolding tl by simp
  obtain f x where f: "f \<in> set fes" "l = f\<lparr>fe_offset := x\<rparr>"
    using take_extents_total [OF t] unfolding tl by auto
  have "\<forall>e\<in>set fes. unat (0::u32) \<le> fe_start e" by simp
  have "fe_total taken \<le> fe_total (filter (\<lambda>e. fe_len e \<ge> ?thr) fes)" using take_extents_total [OF t] by blast
  then have less: "int (fe_total taken) < remap_blocks" using few unfolding enough_runs_def by linarith
  from select_extents_spec [OF srt remap fes(1)] run
  have "int (fe_total fes') = remap_blocks" unfolding area_def by auto
  then have "fe_total ts + unat (fe_len l) < fe_total ts + unat (fe_len l')"
    using less unfolding tl l'(1) fe_total_simps by linarith
  then have len: "unat (fe_len f) < unat (fe_len l')" using f(2) by simp
  have rf: "run_free bm f" using fes(1) f(1) by (simp add: runs_def)
  then have "fe_stop f < 2 ^ 32"
    using unsigned_less [of "bb_end bm", where ?'a = nat] by (simp add: run_free_def)
  then have x: "unat (fe_block f + fe_len f) = fe_stop f" by (simp add: fe_stop_def unat_word_ariths)
  have "fe_start l' = fe_start f" "fe_stop f < fe_stop l'"
    using len l'(2) f(2) by (simp_all add: fe_start_def fe_stop_def)
  moreover have "bb_used bm (fe_block f + fe_len f) \<or> bb_end bm \<le> fe_block f + fe_len f"
    using fes(2) f(1) by (simp add: run_ends_def)
  ultimately show ?thesis using x f(1) l'(1) by auto
qed

definition gap_bitmap :: block_bitmap where
  "gap_bitmap = \<lparr>bb_used = (\<lambda>x. \<not> (8 \<le> x \<and> x < 24 \<or> 32 \<le> x \<and> x < 48 \<or> 56 \<le> x \<and> x < 72 \<or> 80 \<le> x \<and> x < 120 \<or> 128 \<le> x \<and> x < 168)),
     bb_start = 0, bb_end = 199\<rparr>"

text \<open>
  C28: \<open>find_free_blocks\<close> ends with exit code 1 or chooses extents that give every position one block, in
  the order of the disk and without overlap. All but the last one are runs of free blocks, and so is
  the last one when the runs of at least half the threshold length have enough blocks together.
\<close>

theorem find_free_blocks_area:
  assumes "c_qsort len_less srt_len" and "c_qsort start_less srt_start" and "unat (bb_end bm) + 8 \<le> 2 ^ 32"
    and "0 < rs_blocks s" and "rs_blocks s < 2 ^ 32" and "0 < min_size" and "min_size < 2 ^ 31"
  shows "find_free_blocks srt_len srt_start (Some bm) min_size s = Exit 1
    \<or> (\<exists>fes m. find_free_blocks srt_len srt_start (Some bm) min_size s = Value (fes, s\<lparr>rs_allocs := m\<rparr>)
        \<and> placed 0 fes \<and> int (fe_total fes) = rs_blocks s \<and> sorted_wrt (\<lambda>e f. fe_stop e \<le> fe_start f) fes
        \<and> (\<forall>e\<in>set (butlast fes). run_free bm e)
        \<and> ((\<forall>found k. runs_found bm (rs_blocks s) min_size k found \<longrightarrow> enough_runs srt_len (rs_blocks s) found)
             \<longrightarrow> run_free bm (last fes)))"
  using find_free_blocks_spec [OF assms] unfolding area_def by blast

theorem find_free_blocks_area_witness:
  "\<exists>fes m. find_free_blocks (cmp_sort len_less) (cmp_sort start_less) (Some gap_bitmap) 16
       \<lparr>rs_tree = Leaf, rs_inodes = [], rs_allocated = 0, rs_gen = 0, rs_hash = [], rs_blocks = 60, rs_allocs = 9\<rparr>
     = Value (fes, \<lparr>rs_tree = Leaf, rs_inodes = [], rs_allocated = 0, rs_gen = 0, rs_hash = [], rs_blocks = 60, rs_allocs = m\<rparr>)
   \<and> fes = [\<lparr>fe_block = 80, fe_len = 40, fe_offset = 0\<rparr>, \<lparr>fe_block = 128, fe_len = 20, fe_offset = 40\<rparr>]
   \<and> placed 0 fes \<and> (\<forall>e\<in>set (butlast fes). run_free gap_bitmap e)"
proof -
  let ?s = "\<lparr>rs_tree = Leaf, rs_inodes = [], rs_allocated = 0, rs_gen = 0, rs_hash = [], rs_blocks = 60, rs_allocs = 9\<rparr> :: remap_state"
  have run: "find_free_blocks (cmp_sort len_less) (cmp_sort start_less) (Some gap_bitmap) 16 ?s =
    Value ([\<lparr>fe_block = 80, fe_len = 40, fe_offset = 0\<rparr>, \<lparr>fe_block = 128, fe_len = 20, fe_offset = 40\<rparr>], ?s\<lparr>rs_allocs := 7\<rparr>)"
    by code_simp
  show ?thesis
    using find_free_blocks_area [OF len_qsort.c_qsort_axioms start_qsort.c_qsort_axioms, of gap_bitmap ?s 16]
    unfolding run by (simp add: gap_bitmap_def)
qed



end
