(* ===== verification/E2remap_Order.thy ===== *)
theory E2remap_Order
  imports E2remap_Load C_Qsort
begin

text \<open>
  The order of the extents of an inode in \<open>e2remapblocks.c\<close>: \<open>cmp_ext_offset_ptr_core\<close>, which puts the
  indirect blocks among the data blocks, and \<open>sort_inodes_extents\<close>. \<open>qsort\<close> is a parameter with the
  contract \<open>c_qsort\<close>.
\<close>

section \<open>The comparison\<close>

definition OFF_TO_DEPTH :: "int \<Rightarrow> int" where
  "OFF_TO_DEPTH offset = (- offset) AND 3"

definition OFF_TO_DATAOFF :: "int \<Rightarrow> int" where
  "OFF_TO_DATAOFF offset = drop_bit 2 (- offset)"

definition cmp_ext_offset_ptr_core :: "int \<Rightarrow> int \<Rightarrow> int" where
  "cmp_ext_offset_ptr_core ao bo =
     (let a_depth = (if ao < 0 then OFF_TO_DEPTH ao else -1);
          ao = (if ao < 0 then OFF_TO_DATAOFF ao else ao);
          b_depth = (if bo < 0 then OFF_TO_DEPTH bo else -1);
          bo = (if bo < 0 then OFF_TO_DATAOFF bo else bo) in
      if ao < bo then -1 else if ao > bo then 1 else b_depth - a_depth)"

definition cmp_ext_offset_ptr :: "remap_extent \<Rightarrow> remap_extent \<Rightarrow> int" where
  "cmp_ext_offset_ptr a b = cmp_ext_offset_ptr_core (re_offset a) (re_offset b)"

definition ext_offset_less :: "remap_extent \<Rightarrow> remap_extent \<Rightarrow> bool" where
  "ext_offset_less a b \<longleftrightarrow> cmp_ext_offset_ptr a b < 0"

section \<open>Sorting the extents of every inode\<close>

text \<open>
  \<open>exts_count\<close> is the size of the array of pointers, which grows to the longest list. For an inode
  without extents the code would use \<open>exts[act_count-1]\<close>.
\<close>

fun sort_inodes ::
  "(remap_extent list \<Rightarrow> remap_extent list) \<Rightarrow> nat \<Rightarrow> nat \<Rightarrow> inode_extents list \<Rightarrow> (inode_extents list \<times> nat) run_result" where
  "sort_inodes srt exts_count n [] = Value ([], n)"
| "sort_inodes srt exts_count n (x # xs) =
     (let act_count = length (ix_extents x) in
      if act_count > exts_count \<and> n = 0 then Exit 1
      else if act_count = 0 then Undefined
      else
        and_then (if act_count > exts_count then sort_inodes srt act_count (n - 1) xs
                  else sort_inodes srt exts_count n xs) (\<lambda>(ys, n).
        Value (x\<lparr>ix_extents := srt (ix_extents x)\<rparr> # ys, n)))"

definition sort_inodes_extents :: "(remap_extent list \<Rightarrow> remap_extent list) \<Rightarrow> remap_state \<Rightarrow> remap_state run_result" where
  "sort_inodes_extents srt s =
     and_then (sort_inodes srt 0 (rs_allocs s) (rs_inodes s)) (\<lambda>(xs, n).
     Value (s\<lparr>rs_inodes := xs, rs_allocs := n\<rparr>))"

section \<open>The comparison is a linear order\<close>

text \<open>
  The place of an offset: the data offset and the depth, in which an indirect block (depth 0 to 3)
  comes before the data block with its offset (depth -1), the deeper tree first.
\<close>

definition off_place :: "int \<Rightarrow> int \<times> int" where
  "off_place off = (if off < 0 then (OFF_TO_DATAOFF off, OFF_TO_DEPTH off) else (off, -1))"

definition off_less :: "int \<Rightarrow> int \<Rightarrow> bool" where
  "off_less a b \<longleftrightarrow> fst (off_place a) < fst (off_place b)
     \<or> fst (off_place a) = fst (off_place b) \<and> snd (off_place b) < snd (off_place a)"

lemma OFF_TO_split: "4 * OFF_TO_DATAOFF off + OFF_TO_DEPTH off = - off \<and> 0 \<le> OFF_TO_DEPTH off \<and> OFF_TO_DEPTH off < 4"
proof -
  have "OFF_TO_DEPTH off = (- off) mod 4"
  proof -
    have "mask 2 = (3::int)" by (simp add: mask_eq_exp_minus_1)
    then have "(- off) AND 3 = take_bit 2 (- off)" by (simp only: take_bit_eq_mask)
    then show ?thesis by (simp add: OFF_TO_DEPTH_def take_bit_eq_mod)
  qed
  moreover have "OFF_TO_DATAOFF off = (- off) div 4" by (simp add: OFF_TO_DATAOFF_def drop_bit_eq_div)
  ultimately show ?thesis by simp
qed

lemma off_place_inject: "off_place a = off_place b \<longleftrightarrow> a = b"
proof -
  have from_place: "x = (if snd (off_place x) = -1 then fst (off_place x) else - (4 * fst (off_place x) + snd (off_place x)))" for x
  proof (cases "x < 0")
    case True
    then show ?thesis using OFF_TO_split [of x] by (simp add: off_place_def)
  qed (simp add: off_place_def)
  show ?thesis using from_place [of a] from_place [of b] by metis
qed

lemma off_place_data: "0 \<le> off \<Longrightarrow> off_place off = (off, -1)"
  by (simp add: off_place_def)

lemma cmp_core_place:
  "cmp_ext_offset_ptr_core a b =
     (if fst (off_place a) < fst (off_place b) then -1 else if fst (off_place a) > fst (off_place b) then 1
      else snd (off_place b) - snd (off_place a))"
proof -
  have f: "fst (off_place x) = (if x < 0 then OFF_TO_DATAOFF x else x)"
    and s: "snd (off_place x) = (if x < 0 then OFF_TO_DEPTH x else -1)" for x
    by (simp_all add: off_place_def)
  show ?thesis unfolding cmp_ext_offset_ptr_core_def Let_def f s ..
qed

lemma cmp_core_less: "cmp_ext_offset_ptr_core a b < 0 \<longleftrightarrow> off_less a b"
  unfolding cmp_core_place off_less_def by simp

lemma cmp_core_greater: "cmp_ext_offset_ptr_core a b > 0 \<longleftrightarrow> off_less b a"
  unfolding cmp_core_place off_less_def by auto

lemma cmp_core_zero: "cmp_ext_offset_ptr_core a b = 0 \<longleftrightarrow> a = b"
  unfolding off_place_inject [of a b, symmetric] cmp_core_place prod_eq_iff by auto

lemma off_less_irrefl: "\<not> off_less a a"
  by (simp add: off_less_def)

lemma off_less_trans: "off_less a b \<Longrightarrow> off_less b c \<Longrightarrow> off_less a c"
  by (auto simp: off_less_def)

lemma off_less_linear: "off_less a b \<or> a = b \<or> off_less b a"
  unfolding off_place_inject [of a b, symmetric] by (auto simp: off_less_def prod_eq_iff)

lemma off_less_data: "0 \<le> a \<Longrightarrow> 0 \<le> b \<Longrightarrow> off_less a b \<longleftrightarrow> a < b"
  by (simp add: off_less_def off_place_data)

lemma ext_offset_less_iff: "ext_offset_less a b \<longleftrightarrow> off_less (re_offset a) (re_offset b)"
  by (simp add: ext_offset_less_def cmp_ext_offset_ptr_def cmp_core_less)

lemma ext_offset_less_consistent: "consistent_on ext_offset_less A"
  unfolding consistent_on_def ext_offset_less_iff
  using off_less_irrefl off_less_trans off_less_linear by metis

text \<open>
  C30: \<open>cmp_ext_offset_ptr_core\<close> is a linear order of the offsets, as \<open>qsort\<close> needs it: data offsets are
  ordered by their value, and an indirect block comes before the data block that it leads to.
\<close>

theorem cmp_ext_offset_linear_order:
  "(cmp_ext_offset_ptr_core a b < 0 \<longleftrightarrow> cmp_ext_offset_ptr_core b a > 0)
   \<and> (cmp_ext_offset_ptr_core a b = 0 \<longleftrightarrow> a = b)
   \<and> (cmp_ext_offset_ptr_core a b < 0 \<and> cmp_ext_offset_ptr_core b c < 0 \<longrightarrow> cmp_ext_offset_ptr_core a c < 0)
   \<and> (a < 0 \<longrightarrow> cmp_ext_offset_ptr_core a (OFF_TO_DATAOFF a) < 0)
   \<and> (0 \<le> a \<and> 0 \<le> b \<longrightarrow> (cmp_ext_offset_ptr_core a b < 0 \<longleftrightarrow> a < b))"
  (is "?A \<and> ?B \<and> ?C \<and> ?D \<and> ?E")
proof (intro conjI)
  show ?A by (simp add: cmp_core_less cmp_core_greater)
  show ?B by (rule cmp_core_zero)
  show ?C using off_less_trans by (auto simp: cmp_core_less)
  show ?D using OFF_TO_split [of a] by (auto simp: cmp_core_less off_less_def off_place_def)
  show ?E by (auto simp: cmp_core_less off_less_data)
qed

theorem cmp_ext_offset_linear_order_witness:
  "cmp_ext_offset_ptr_core (-49) 12 < 0 \<and> cmp_ext_offset_ptr_core 12 13 < 0 \<and> cmp_ext_offset_ptr_core (-49) 13 < 0"
proof -
  have off: "OFF_TO_DATAOFF (-49) = 12" by (simp add: OFF_TO_DATAOFF_def drop_bit_eq_div)
  have "(-49 :: int) < 0" "(0 :: int) \<le> 12" "(0 :: int) \<le> 13" "(12 :: int) < 13" by simp_all
  then show ?thesis
    using cmp_ext_offset_linear_order [of "-49" 12 13] cmp_ext_offset_linear_order [of 12 13] unfolding off by blast
qed

interpretation offset_qsort: c_qsort ext_offset_less "cmp_sort ext_offset_less"
  by unfold_locales (rule mset_cmp_sort, rule sorted_cmp_sort)

section \<open>What sorting leaves\<close>

definition sorted_inode :: "inode_extents \<Rightarrow> inode_extents \<Rightarrow> bool" where
  "sorted_inode x y \<longleftrightarrow> ix_ino y = ix_ino x \<and> mset (ix_extents y) = mset (ix_extents x)
     \<and> sorted_wrt (\<lambda>a b. \<not> ext_offset_less b a) (ix_extents y)"

lemma sort_inodes_spec:
  assumes srt: "c_qsort ext_offset_less srt"
  shows "\<forall>x\<in>set xs. ix_extents x \<noteq> [] \<Longrightarrow> sort_inodes srt c n xs = Exit 1
    \<or> (\<exists>ys m. sort_inodes srt c n xs = Value (ys, m) \<and> list_all2 sorted_inode xs ys)"
proof (induction xs arbitrary: c n)
  case (Cons x xs)
  have "sorted_inode x (x\<lparr>ix_extents := srt (ix_extents x)\<rparr>)"
    using c_qsort.qsort_mset [OF srt] c_qsort.qsort_sorted [OF srt ext_offset_less_consistent]
    by (simp add: sorted_inode_def)
  moreover have "\<forall>x\<in>set xs. ix_extents x \<noteq> []" using Cons.prems by simp
  note Cons.IH [OF this, of "length (ix_extents x)" "n - 1"] Cons.IH [OF this, of c n]
  ultimately show ?case using Cons.prems by (auto simp: Let_def)
qed simp

lemma sort_inodes_extents_spec:
  assumes "c_qsort ext_offset_less srt" and "load_inv s"
  shows "sort_inodes_extents srt s = Exit 1
    \<or> (\<exists>xs m. sort_inodes_extents srt s = Value (s\<lparr>rs_inodes := xs, rs_allocs := m\<rparr>) \<and> list_all2 sorted_inode (rs_inodes s) xs)"
proof -
  have "\<forall>x\<in>set (rs_inodes s). ix_extents x \<noteq> []" using assms(2) by (simp add: load_inv_def)
  from sort_inodes_spec [OF assms(1) this, of 0 "rs_allocs s"] show ?thesis
  proof
    assume "\<exists>ys m. sort_inodes srt 0 (rs_allocs s) (rs_inodes s) = Value (ys, m) \<and> list_all2 sorted_inode (rs_inodes s) ys"
    then obtain ys m where "sort_inodes srt 0 (rs_allocs s) (rs_inodes s) = Value (ys, m)" "list_all2 sorted_inode (rs_inodes s) ys"
      by blast
    then show ?thesis unfolding sort_inodes_extents_def by (intro disjI2 exI [of _ ys] exI [of _ m]) simp
  qed (simp add: sort_inodes_extents_def)
qed

end
