(* ===== verification/E2remap_Copy.thy ===== *)
theory E2remap_Copy
  imports E2remap_Space E2remap_Order E2block2file_Map
begin

text \<open>
  Moving the blocks in \<open>e2remapblocks.c\<close>: copying the extents of an inode (\<open>copy_inode_blocks\<close>), the
  callback that puts the new block numbers into the file (\<open>remap_block\<close>) and the bitmap and group
  counts (\<open>update_bitmap\<close>). The device is a list of blocks with a number of transfers that succeed; the
  blocks of a file as \<open>ext2fs_block_iterate2\<close> visits them are an argument.
\<close>

section \<open>The device\<close>

record remap_dev =
  rd_blocks :: "nat \<Rightarrow> byte list"
  rd_size :: nat
  rd_ios :: nat

definition read_blocks :: "u32 \<Rightarrow> u32 \<Rightarrow> remap_dev \<Rightarrow> (byte list list \<times> remap_dev) run_result" where
  "read_blocks block len d =
     (if rd_ios d = 0 \<or> unat block + unat len > rd_size d then Exit 1
      else Value (map (\<lambda>i. rd_blocks d (unat block + i)) [0..<unat len], d\<lparr>rd_ios := rd_ios d - 1\<rparr>))"

definition write_blocks :: "u32 \<Rightarrow> byte list list \<Rightarrow> u32 \<Rightarrow> remap_dev \<Rightarrow> remap_dev run_result" where
  "write_blocks block buf len d =
     (if rd_ios d = 0 \<or> unat block + unat len > rd_size d then Exit 1
      else Value (d\<lparr>rd_blocks := (\<lambda>x. if unat block \<le> x \<and> x < unat block + unat len then buf ! (x - unat block) else rd_blocks d x),
                    rd_ios := rd_ios d - 1\<rparr>))"

section \<open>Copying an inode\<close>

text \<open>The inner loop: one buffer is written, in a piece for every extent of free blocks that it reaches.\<close>

fun write_pieces :: "nat \<Rightarrow> free_extent list \<Rightarrow> remap_extent \<Rightarrow> byte list list \<Rightarrow> u32 \<Rightarrow> u32 \<Rightarrow> remap_dev \<Rightarrow> remap_dev run_result" where
  "write_pieces 0 fes ext buf curlen writepos d = Undefined"
| "write_pieces (Suc fuel) fes ext buf curlen writepos d =
     (if \<not> writepos < curlen then Value d
      else (case find_remapped_offset fes (word_of_int (re_chunk_offset ext + uint writepos)) of
          None \<Rightarrow> Undefined
        | Some k \<Rightarrow>
            let fe = fes ! k;
                skip = re_chunk_offset ext + uint writepos - uint (fe_offset fe);
                writelen = word_of_int (min (uint (fe_len fe) - skip) (uint (curlen - writepos))) in
            and_then (write_blocks (word_of_int (uint (fe_block fe) + skip)) (drop (unat writepos) buf) writelen d)
              (write_pieces fuel fes ext buf curlen (writepos + writelen))))"

text \<open>The loop over the buffers of an extent.\<close>

fun copy_buffers :: "nat \<Rightarrow> u32 \<Rightarrow> free_extent list \<Rightarrow> remap_extent \<Rightarrow> u32 \<Rightarrow> remap_dev \<Rightarrow> remap_dev run_result" where
  "copy_buffers 0 remap_buf_blocks fes ext curpos d = Undefined"
| "copy_buffers (Suc fuel) remap_buf_blocks fes ext curpos d =
     (if \<not> curpos < re_len ext then Value d
      else
        (let curlen = min (re_len ext - curpos) remap_buf_blocks in
         and_then (read_blocks (re_block ext + curpos) curlen d) (\<lambda>(buf, d).
         and_then (write_pieces (unat curlen + 1) fes ext buf curlen 0 d)
           (copy_buffers fuel remap_buf_blocks fes ext (curpos + curlen)))))"

fun copy_extents :: "u32 \<Rightarrow> free_extent list \<Rightarrow> remap_extent list \<Rightarrow> remap_dev \<Rightarrow> remap_dev run_result" where
  "copy_extents remap_buf_blocks fes [] d = Value d"
| "copy_extents remap_buf_blocks fes (ext # exts) d =
     and_then (copy_buffers (unat (re_len ext) + 1) remap_buf_blocks fes ext 0 d) (copy_extents remap_buf_blocks fes exts)"

text \<open>\<open>cs_buf\<close>: the static buffer is allocated.\<close>

record copy_state =
  cs_dev :: remap_dev
  cs_buf :: bool
  cs_allocs :: nat

definition copy_inode_blocks :: "u32 \<Rightarrow> free_extent list \<Rightarrow> inode_extents \<Rightarrow> copy_state \<Rightarrow> copy_state run_result" where
  "copy_inode_blocks remap_buf_blocks fes inode c =
     and_then (if cs_buf c then Value c
               else if cs_allocs c = 0 then Exit 1
               else Value (c\<lparr>cs_buf := True, cs_allocs := cs_allocs c - 1\<rparr>)) (\<lambda>c.
     and_then (copy_extents remap_buf_blocks fes (ix_extents inode) (cs_dev c)) (\<lambda>d. Value (c\<lparr>cs_dev := d\<rparr>)))"

section \<open>The callback\<close>

definition remap_index_to_offset :: "u32 \<Rightarrow> int \<Rightarrow> int \<Rightarrow> int \<Rightarrow> int" where
  "remap_index_to_offset blocksize depth index0 index1 =
     (if depth = 0 then uint EXT2_IND_OFFSET
      else if depth = 1 then uint (EXT2_DIND_OFFSET blocksize + word_of_int index0 * drop_bit 2 blocksize)
      else if depth = 2 then uint (EXT2_TIND_OFFSET blocksize + word_of_int index0 * drop_bit 2 blocksize
             + word_of_int index1 * drop_bit 2 blocksize * drop_bit 2 blocksize)
      else 0)"

text \<open>\<open>bt_ext\<close> is the list of extents from \<open>actext\<close> on, empty for the null pointer.\<close>

record block_traverse =
  bt_ind0 :: int
  bt_ind1 :: int
  bt_depth :: int
  bt_ext :: "remap_extent list"

datatype iter_flag = Unchanged_block | Changed_block | Abort_iteration

definition remap_track :: "int \<Rightarrow> int \<Rightarrow> block_traverse \<Rightarrow> (int \<times> block_traverse) run_result" where
  "remap_track offset parent_offset bt =
     (if offset = IND_COUNT then
        Value (0, if bt_depth bt < 0 then bt\<lparr>bt_depth := 0\<rparr>
                  else bt\<lparr>bt_ind0 := drop_bit 2 parent_offset\<rparr>)
      else if offset = DIND_COUNT then
        Value (1, if bt_depth bt < 1 then bt\<lparr>bt_depth := 1, bt_ind0 := 0\<rparr>
                  else bt\<lparr>bt_ind1 := drop_bit 2 parent_offset\<rparr>)
      else if offset = TIND_COUNT then
        Value (2, if bt_depth bt < 2 then bt\<lparr>bt_depth := 2, bt_ind0 := 0, bt_ind1 := 0\<rparr> else bt)
      else Exit 1)"

text \<open>The part of the callback behind the computation of the offset, and \<open>actext\<close> after it.\<close>

definition remap_at :: "u32 \<Rightarrow> free_extent list \<Rightarrow> u32 \<Rightarrow> int \<Rightarrow> remap_extent list \<Rightarrow> (iter_flag \<times> u32 \<times> remap_extent list) run_result" where
  "remap_at blocks_count fes blocknr offset exts =
     (if blocknr \<ge> blocks_count then Exit 1
      else (case exts of
          [] \<Rightarrow> Undefined
        | act # rest \<Rightarrow>
            let exts = (if cmp_ext_offset_ptr_core offset (re_offset act + uint (re_len act) - 1) > 0 then rest else exts) in
            (case exts of
               [] \<Rightarrow> Value (Abort_iteration, blocknr, exts)
             | act # _ \<Rightarrow>
                 if offset \<ge> re_offset act \<and> offset < re_offset act + uint (re_len act) then
                   (let freeext = find_remapped_offset fes (word_of_int (re_chunk_offset act + offset - re_offset act)) in
                    if uint blocknr \<noteq> uint (re_block act) + offset - re_offset act then Exit 1
                    else (case freeext of
                        None \<Rightarrow> Undefined
                      | Some k \<Rightarrow>
                          let new = word_of_int (uint (fe_block (fes ! k)) + re_chunk_offset act + offset - re_offset act
                                      - uint (fe_offset (fes ! k))) in
                          if new \<ge> blocks_count then Exit 1 else Value (Changed_block, new, exts)))
                 else Value (Unchanged_block, blocknr, exts))))"

definition remap_block ::
  "u32 \<Rightarrow> u32 \<Rightarrow> free_extent list \<Rightarrow> u32 \<Rightarrow> int \<Rightarrow> int \<Rightarrow> block_traverse \<Rightarrow> (iter_flag \<times> u32 \<times> block_traverse) run_result" where
  "remap_block blocksize blocks_count fes blocknr offset parent_offset bt =
     and_then (if offset < 0 then
                 and_then (remap_track offset parent_offset bt) (\<lambda>(depth, bt).
                 Value (INDIRECT_TO_OFF (remap_index_to_offset blocksize (bt_depth bt) (bt_ind0 bt) (bt_ind1 bt)) depth, bt))
               else Value (offset, bt)) (\<lambda>(offset, bt).
     and_then (remap_at blocks_count fes blocknr offset (bt_ext bt)) (\<lambda>(flag, b, exts).
     Value (flag, b, bt\<lparr>bt_ext := exts\<rparr>)))"

text \<open>The iteration over the blocks of a file: the block numbers that it leaves in the file.\<close>

fun remap_visits :: "u32 \<Rightarrow> u32 \<Rightarrow> free_extent list \<Rightarrow> iter_visit list \<Rightarrow> block_traverse \<Rightarrow> u32 list run_result" where
  "remap_visits blocksize blocks_count fes [] bt = Value []"
| "remap_visits blocksize blocks_count fes (v # vs) bt =
     and_then (remap_block blocksize blocks_count fes (iv_block v) (iv_offset v) (iv_parent_offset v) bt) (\<lambda>(flag, b, bt).
     if flag = Abort_iteration then Value (map iv_block (v # vs))
     else and_then (remap_visits blocksize blocks_count fes vs bt) (\<lambda>bs. Value (b # bs)))"

section \<open>The bitmap\<close>

text \<open>
  The calls on the block bitmap, and the group of a block. The number of free blocks of a group is a
  16-bit field; \<open>free\<close> says whether the range becomes free.
\<close>

record 'm bitmap_lib =
  bl_mark :: "u32 \<Rightarrow> u32 \<Rightarrow> 'm \<Rightarrow> 'm"
  bl_unmark :: "u32 \<Rightarrow> u32 \<Rightarrow> 'm \<Rightarrow> 'm"
  bl_group :: "u32 \<Rightarrow> int"
  bl_write :: "'m \<Rightarrow> bool"

fun group_counts :: "nat \<Rightarrow> (u32 \<Rightarrow> int) \<Rightarrow> u32 \<Rightarrow> bool \<Rightarrow> u32 \<Rightarrow> u32 \<Rightarrow> u16 list \<Rightarrow> u16 list run_result" where
  "group_counts 0 group_of blocks_per_group free start len counts = (if len = 0 then Value counts else Undefined)"
| "group_counts (Suc fuel) group_of blocks_per_group free start len counts =
     (if len = 0 then Value counts
      else
        (let grp = group_of start;
             stop = min (blocks_per_group * word_of_int (grp + 1)) (start + len);
             n = stop - start in
         if grp < 0 \<or> nat grp \<ge> length counts then Undefined
         else group_counts fuel group_of blocks_per_group free stop (len - n)
                (counts[nat grp := (if free then counts ! nat grp + ucast n else counts ! nat grp - ucast n)])))"

text \<open>A list of ranges: the ranges of the free extents are marked, those of the old extents unmarked.\<close>

fun update_ranges :: "'m bitmap_lib \<Rightarrow> u32 \<Rightarrow> bool \<Rightarrow> (u32 \<times> u32) list \<Rightarrow> 'm \<times> u16 list \<Rightarrow> ('m \<times> u16 list) run_result" where
  "update_ranges lib blocks_per_group free [] mc = Value mc"
| "update_ranges lib blocks_per_group free ((start, len) # rs) mc =
     (let m = (if free then bl_unmark lib start len (fst mc) else bl_mark lib start len (fst mc)) in
      and_then (group_counts (unat len) (bl_group lib) blocks_per_group free start len (snd mc)) (\<lambda>counts.
      update_ranges lib blocks_per_group free rs (m, counts)))"

definition update_bitmap ::
  "'m bitmap_lib \<Rightarrow> u32 \<Rightarrow> free_extent list \<Rightarrow> inode_extents list \<Rightarrow> 'm \<times> u16 list \<Rightarrow> ('m \<times> u16 list) run_result" where
  "update_bitmap lib blocks_per_group fes inos mc =
     and_then (update_ranges lib blocks_per_group False (map (\<lambda>fe. (fe_block fe, fe_len fe)) fes) mc) (\<lambda>mc.
     and_then (update_ranges lib blocks_per_group True
                 (map (\<lambda>e. (re_block e, re_len e)) (concat (map ix_extents inos))) mc) (\<lambda>mc.
     if bl_write lib (fst mc) then Value mc else Exit 1))"

section \<open>All inodes\<close>

text \<open>
  What the tool gets from the file system: the links of an inode (\<open>None\<close> when it cannot be read), and
  its blocks in the order of the iteration with the success of the iteration.
\<close>

record 'm remap_fs =
  rf_blocksize :: u32
  rf_blocks_count :: u32
  rf_first_ino :: u32
  rf_blocks_per_group :: u32
  rf_links :: "u32 \<Rightarrow> u16 option"
  rf_visits :: "u32 \<Rightarrow> iter_visit list \<times> bool"
  rf_lib :: "'m bitmap_lib"

fun remap_inodes ::
  "'m remap_fs \<Rightarrow> u32 \<Rightarrow> free_extent list \<Rightarrow> inode_extents list \<Rightarrow> copy_state \<Rightarrow> ((u32 \<times> u32 list) list \<times> copy_state) run_result" where
  "remap_inodes fs remap_buf_blocks fes [] c = Value ([], c)"
| "remap_inodes fs remap_buf_blocks fes (x # xs) c =
     (case rf_links fs (ix_ino x) of
        None \<Rightarrow> Exit 1
      | Some links \<Rightarrow>
          if links = 0 then Exit 1
          else
            and_then (copy_inode_blocks remap_buf_blocks fes x c) (\<lambda>c.
            and_then (remap_visits (rf_blocksize fs) (rf_blocks_count fs) fes (fst (rf_visits fs (ix_ino x)))
                        \<lparr>bt_ind0 = 0, bt_ind1 = 0, bt_depth = -1, bt_ext = ix_extents x\<rparr>) (\<lambda>bs.
            if \<not> snd (rf_visits fs (ix_ino x)) then Exit 1
            else and_then (remap_inodes fs remap_buf_blocks fes xs c) (\<lambda>(files, c).
                 Value ((ix_ino x, bs) # files, c)))))"

definition copy_and_remap_extents ::
  "'m remap_fs \<Rightarrow> u32 \<Rightarrow> free_extent list \<Rightarrow> inode_extents list \<Rightarrow> 'm \<times> u16 list \<Rightarrow> copy_state
     \<Rightarrow> ((u32 \<times> u32 list) list \<times> ('m \<times> u16 list) \<times> copy_state) run_result" where
  "copy_and_remap_extents fs remap_buf_blocks fes inos mc c =
     and_then (remap_inodes fs remap_buf_blocks fes inos c) (\<lambda>(files, c).
     and_then (update_bitmap (rf_lib fs) (rf_blocks_per_group fs) fes inos mc) (\<lambda>mc.
     Value (files, mc, c)))"

end
