(* ===== verification/E2remap_Copied.thy ===== *)
theory E2remap_Copied
  imports E2remap_Copy
begin

text \<open>What copying does to the device: every block of an extent arrives at its position in the area.\<close>

section \<open>Positions\<close>

text \<open>The block at a position of the chosen extents.\<close>

fun target :: "free_extent list \<Rightarrow> nat \<Rightarrow> nat" where
  "target [] p = 0"
| "target (e # es) p = (if p < unat (fe_len e) then fe_start e + p else target es (p - unat (fe_len e)))"

text \<open>Extents without overlap or wrap-around that give blocks to \<open>n\<close> positions.\<close>

definition good_area :: "nat \<Rightarrow> free_extent list \<Rightarrow> bool" where
  "good_area n fes \<longleftrightarrow> placed 0 fes \<and> fe_total fes = n \<and> n < 2 ^ 32 \<and> sorted_wrt (\<lambda>e f. fe_stop e \<le> fe_start f) fes
     \<and> (\<forall>e\<in>set fes. fe_stop e < 2 ^ 32)"

lemma target_holds:
  "placed a fes \<Longrightarrow> k < length fes \<Longrightarrow> fe_holds (fes ! k) (a + p)
    \<Longrightarrow> target fes p = fe_start (fes ! k) + (a + p - unat (fe_offset (fes ! k)))"
proof (induction fes arbitrary: a p k)
  case (Cons e fes)
  show ?case
  proof (cases k)
    case 0
    then show ?thesis using Cons.prems by (simp add: fe_holds_def)
  next
    case (Suc j)
    have pl: "placed (a + unat (fe_len e)) fes" "unat (fe_offset e) = a" using Cons.prems(1) by simp_all
    have j: "j < length fes" "fe_holds (fes ! j) (a + p)" using Cons.prems Suc by simp_all
    then have "a + unat (fe_len e) \<le> a + p" using placed_nth [OF pl(1) j(1)] by (simp add: fe_holds_def)
    then have p: "\<not> p < unat (fe_len e)" "a + unat (fe_len e) + (p - unat (fe_len e)) = a + p" by simp_all
    have "fe_holds (fes ! j) (a + unat (fe_len e) + (p - unat (fe_len e)))" using j(2) p(2) by simp
    from Cons.IH [OF pl(1) j(1) this] show ?thesis using Suc p by simp
  qed
qed simp

lemma target_in:
  assumes "good_area n fes" and "p < n"
  shows "\<exists>k<length fes. fe_holds (fes ! k) p \<and> target fes p = fe_start (fes ! k) + (p - unat (fe_offset (fes ! k)))
    \<and> fe_start (fes ! k) \<le> target fes p \<and> target fes p < fe_stop (fes ! k)"
proof -
  have pl: "placed 0 fes" "fe_total fes = n" using assms(1) by (simp_all add: good_area_def)
  obtain k where k: "k < length fes" "fe_holds (fes ! k) p" using placed_holds [OF pl(1), of p] assms(2) pl(2) by auto
  moreover have "target fes p = fe_start (fes ! k) + (p - unat (fe_offset (fes ! k)))"
    using target_holds [OF pl(1) k(1), of p] k(2) by simp
  ultimately show ?thesis by (intro exI [of _ k]) (auto simp: fe_holds_def fe_start_def fe_stop_def)
qed

lemma target_inj:
  assumes "good_area n fes" and "p < n" and "q < n" and "target fes p = target fes q"
  shows "p = q"
proof -
  obtain j where j: "j < length fes" "fe_holds (fes ! j) p" "target fes p = fe_start (fes ! j) + (p - unat (fe_offset (fes ! j)))"
    "fe_start (fes ! j) \<le> target fes p" "target fes p < fe_stop (fes ! j)"
    using target_in [OF assms(1,2)] by blast
  obtain k where k: "k < length fes" "fe_holds (fes ! k) q" "target fes q = fe_start (fes ! k) + (q - unat (fe_offset (fes ! k)))"
    "fe_start (fes ! k) \<le> target fes q" "target fes q < fe_stop (fes ! k)"
    using target_in [OF assms(1,3)] by blast
  have ord: "fe_stop (fes ! i) \<le> fe_start (fes ! i')" if "i < i'" "i' < length fes" for i i'
    using assms(1) that by (simp add: good_area_def sorted_wrt_iff_nth_less)
  have jk: "j = k"
  proof (rule ccontr)
    assume "j \<noteq> k"
    then consider "j < k" | "k < j" by linarith
    then show False using ord j k assms(4) by cases fastforce+
  qed
  show ?thesis using j(2,3) k(2,3) assms(4) unfolding jk fe_holds_def by linarith
qed

section \<open>One buffer\<close>

text \<open>What a copy of the positions \<open>c + i\<close> to \<open>c + m\<close> leaves, when the blocks are those of \<open>src\<close>.\<close>

definition copied :: "free_extent list \<Rightarrow> nat \<Rightarrow> nat \<Rightarrow> nat \<Rightarrow> (nat \<Rightarrow> byte list) \<Rightarrow> remap_dev \<Rightarrow> remap_dev \<Rightarrow> bool" where
  "copied fes c i m src d d' \<longleftrightarrow> rd_size d' = rd_size d
     \<and> (\<forall>j. i \<le> j \<longrightarrow> j < m \<longrightarrow> rd_blocks d' (target fes (c + j)) = src j)
     \<and> (\<forall>x. x \<notin> target fes ` {c + i..<c + m} \<longrightarrow> rd_blocks d' x = rd_blocks d x)"

lemma copied_empty: "i = m \<Longrightarrow> copied fes c i m src d d"
  by (simp add: copied_def)

lemma copied_trans:
  assumes area: "good_area n fes" "c + m \<le> n" and le: "i \<le> k" "k \<le> m"
    and "copied fes c i k src d d1" and "copied fes c k m src d1 d2"
  shows "copied fes c i m src d d2"
  unfolding copied_def
proof (intro conjI allI impI)
  show "rd_size d2 = rd_size d" using assms(5,6) by (simp add: copied_def)
next
  fix j assume j: "i \<le> j" "j < m"
  show "rd_blocks d2 (target fes (c + j)) = src j"
  proof (cases "k \<le> j")
    case True
    then show ?thesis using assms(6) j by (simp add: copied_def)
  next
    case False
    have "target fes (c + j) \<notin> target fes ` {c + k..<c + m}"
    proof
      assume "target fes (c + j) \<in> target fes ` {c + k..<c + m}"
      then obtain q where q: "q \<in> {c + k..<c + m}" "target fes (c + j) = target fes q" by blast
      have "c + j = q" by (rule target_inj [OF area(1) _ _ q(2)]) (use j q(1) area(2) in auto)
      then show False using False q(1) by simp
    qed
    then have "rd_blocks d2 (target fes (c + j)) = rd_blocks d1 (target fes (c + j))" using assms(6) by (simp add: copied_def)
    then show ?thesis using assms(5) j False by (simp add: copied_def)
  qed
next
  fix x assume x: "x \<notin> target fes ` {c + i..<c + m}"
  moreover have "{c + i..<c + k} \<subseteq> {c + i..<c + m}" "{c + k..<c + m} \<subseteq> {c + i..<c + m}" using le by auto
  ultimately have "x \<notin> target fes ` {c + i..<c + k}" "x \<notin> target fes ` {c + k..<c + m}" by blast+
  then show "rd_blocks d2 x = rd_blocks d x" using assms(5,6) by (simp add: copied_def)
qed

lemma write_piece_copied:
  assumes area: "good_area n fes" and k: "k < length fes" "fe_holds (fes ! k) (c + i)"
    and l: "0 < l" "c + i + l \<le> unat (fe_offset (fes ! k)) + unat (fe_len (fes ! k))"
    and w: "unat block = target fes (c + i)" "unat len = l"
    and run: "write_blocks block buf len d = Value d'" and buf: "\<And>j. j < l \<Longrightarrow> buf ! j = src (i + j)"
  shows "copied fes c i (i + l) src d d'"
proof -
  have d': "d' = d\<lparr>rd_blocks := (\<lambda>x. if unat block \<le> x \<and> x < unat block + unat len then buf ! (x - unat block) else rd_blocks d x),
      rd_ios := rd_ios d - 1\<rparr>"
    using run by (simp add: write_blocks_def split: if_splits)
  have pl: "placed 0 fes" using area by (simp add: good_area_def)
  have t: "target fes (c + (i + j)) = unat block + j" if "j < l" for j
  proof -
    have "fe_holds (fes ! k) (c + (i + j))" using k(2) l that by (simp add: fe_holds_def)
    then have "target fes (c + (i + j)) = fe_start (fes ! k) + (c + (i + j) - unat (fe_offset (fes ! k)))"
      using target_holds [OF pl k(1), of "c + (i + j)"] by simp
    moreover have "target fes (c + i) = fe_start (fes ! k) + (c + i - unat (fe_offset (fes ! k)))"
      using target_holds [OF pl k(1), of "c + i"] k(2) by simp
    moreover have "unat (fe_offset (fes ! k)) \<le> c + i" using k(2) by (simp add: fe_holds_def)
    ultimately show ?thesis unfolding w(1) by linarith
  qed
  show ?thesis
    unfolding copied_def
  proof (intro conjI allI impI)
    fix j assume j: "i \<le> j" "j < i + l"
    then obtain q where "j = i + q" "q < l" by (metis add_less_cancel_left le_Suc_ex)
    then show "rd_blocks d' (target fes (c + j)) = src j" using t [of q] buf [of q] w(2) by (simp add: d')
  next
    fix x assume x: "x \<notin> target fes ` {c + i..<c + (i + l)}"
    have "\<not> (unat block \<le> x \<and> x < unat block + unat len)"
    proof
      assume b: "unat block \<le> x \<and> x < unat block + unat len"
      then obtain q where q: "x = unat block + q" "q < l" using w(2) by (metis add_less_cancel_left le_Suc_ex)
      then have "x = target fes (c + (i + q))" using t [of q] by simp
      moreover have "c + (i + q) \<in> {c + i..<c + (i + l)}" using q by auto
      ultimately show False using x by blast
    qed
    then show "rd_blocks d' x = rd_blocks d x" by (auto simp: d')
  qed (simp add: d')
qed

lemma write_pieces_spec:
  assumes area: "good_area n fes" and c: "re_chunk_offset ext = int c" "c + unat curlen \<le> n"
    and buf: "length buf = unat curlen" "\<And>j. j < unat curlen \<Longrightarrow> buf ! j = src j"
  shows "unat writepos \<le> unat curlen \<Longrightarrow> unat curlen < unat writepos + fuel \<Longrightarrow>
    write_pieces fuel fes ext buf curlen writepos d = Exit 1
    \<or> (\<exists>d'. write_pieces fuel fes ext buf curlen writepos d = Value d' \<and> copied fes c (unat writepos) (unat curlen) src d d')"
proof (induction fuel arbitrary: writepos d)
  case (Suc fuel)
  show ?case
  proof (cases "writepos < curlen")
    case False
    then have "unat writepos = unat curlen" using Suc.prems(1) by (simp add: word_less_nat_alt)
    then show ?thesis using False copied_empty by auto
  next
    case True
    define i where "i = unat writepos"
    have i: "i < unat curlen" using True by (simp add: i_def word_less_nat_alt)
    have n: "n < 2 ^ 32" "placed 0 fes" "fe_total fes = n" using area by (simp_all add: good_area_def)
    let ?pos = "word_of_int (re_chunk_offset ext + uint writepos) :: u32"
    have upos: "re_chunk_offset ext + uint writepos = int (c + i)" unfolding c(1) i_def uint_nat by simp
    have pos: "unat ?pos = c + i"
    proof -
      have "int (c + i) < 2 ^ 32" using c(2) i n(1) by simp
      then have "int (unat ?pos) = int (c + i)" unfolding upos by (intro unat_of_small) simp_all
      then show ?thesis by (simp only: of_nat_eq_iff)
    qed
    have "unat ?pos < fe_total fes" unfolding pos n(3) using c(2) i by linarith
    from find_remapped_offset_spec [OF n(2) _ this] n(1,3)
    obtain k where k: "k < length fes" "find_remapped_offset fes ?pos = Some k" "fe_holds (fes ! k) (c + i)"
      unfolding pos by blast
    let ?fe = "fes ! k"
    have off: "unat (fe_offset ?fe) \<le> c + i" "c + i < unat (fe_offset ?fe) + unat (fe_len ?fe)" using k(3) by (simp_all add: fe_holds_def)
    define skip where "skip = re_chunk_offset ext + uint writepos - uint (fe_offset ?fe)"
    have skip: "skip = int (c + i - unat (fe_offset ?fe))"
      unfolding skip_def upos using off(1) by (simp add: of_nat_diff)
    define l where "l = min (unat (fe_len ?fe) - (c + i - unat (fe_offset ?fe))) (unat curlen - i)"
    have lpos: "0 < l" using off i by (simp add: l_def)
    have rest: "unat (curlen - writepos) = unat curlen - i"
      using True by (simp add: i_def unat_sub_le)
    have wl: "min (uint (fe_len ?fe) - skip) (uint (curlen - writepos)) = int l"
    proof -
      have "int (unat (fe_len ?fe) - (c + i - unat (fe_offset ?fe))) = int (unat (fe_len ?fe)) - int (c + i - unat (fe_offset ?fe))"
        using off by linarith
      then show ?thesis unfolding skip uint_nat rest l_def of_nat_min by simp
    qed
    define writelen where "writelen = (word_of_int (min (uint (fe_len ?fe) - skip) (uint (curlen - writepos))) :: u32)"
    have l32: "l < 2 ^ 32" using unsigned_less [of curlen, where ?'a = nat] by (simp add: l_def)
    have writelen: "unat writelen = l"
    proof -
      have "int (unat writelen) = int l" unfolding writelen_def wl using l32 by (intro unat_of_small) simp_all
      then show ?thesis by (simp only: of_nat_eq_iff)
    qed
    define block where "block = (word_of_int (uint (fe_block ?fe) + skip) :: u32)"
    have tgt: "target fes (c + i) = fe_start ?fe + (c + i - unat (fe_offset ?fe))"
      using target_holds [OF n(2) k(1), of "c + i"] k(3) by simp
    have block: "unat block = target fes (c + i)"
    proof -
      have "fe_stop ?fe < 2 ^ 32" using area k(1) by (simp add: good_area_def)
      then have "target fes (c + i) < 2 ^ 32" unfolding tgt using off by (simp add: fe_start_def fe_stop_def)
      moreover have "uint (fe_block ?fe) + skip = int (target fes (c + i))" unfolding tgt skip fe_start_def uint_nat by simp
      ultimately have "int (unat block) = int (target fes (c + i))" unfolding block_def by (metis unat_of_small of_nat_0_le_iff of_nat_less_iff of_nat_numeral of_nat_power)
      then show ?thesis by (simp only: of_nat_eq_iff)
    qed
    have run: "write_pieces (Suc fuel) fes ext buf curlen writepos d =
        and_then (write_blocks block (drop i buf) writelen d) (write_pieces fuel fes ext buf curlen (writepos + writelen))"
      using True k(2) by (simp add: Let_def i_def block_def writelen_def skip_def)
    have next_pos: "unat (writepos + writelen) = i + l"
    proof -
      have "i + l \<le> unat curlen" using i by (simp add: l_def)
      then have "unat writepos + unat writelen < 2 ^ 32" using unsigned_less [of curlen, where ?'a = nat] by (simp add: i_def writelen)
      then show ?thesis by (simp add: unat_word_ariths i_def writelen)
    qed
    have il: "i + l \<le> unat curlen" using i by (simp add: l_def)
    show ?thesis
    proof (cases "write_blocks block (drop i buf) writelen d")
      case (Exit e)
      then show ?thesis unfolding run by (auto simp: write_blocks_def split: if_splits)
    next
      case Undefined
      then show ?thesis by (auto simp: write_blocks_def split: if_splits)
    next
      case (Value d1)
      have c1: "copied fes c i (i + l) src d d1"
      proof (rule write_piece_copied [OF area k(1,3) lpos _ block writelen Value])
        show "c + i + l \<le> unat (fe_offset ?fe) + unat (fe_len ?fe)" using off by (auto simp: l_def)
        fix j assume "j < l"
        then show "drop i buf ! j = src (i + j)" using buf il by simp
      qed
      have "unat (writepos + writelen) \<le> unat curlen" "unat curlen < unat (writepos + writelen) + fuel"
        unfolding next_pos using il lpos Suc.prems(2) by (simp_all add: i_def)
      from Suc.IH [OF this, of d1] show ?thesis
        unfolding run Value and_then.simps next_pos i_def [symmetric]
        using copied_trans [OF area c(2) _ il c1] by auto
    qed
  qed
qed simp

section \<open>One extent\<close>

lemma copied_reads: "copied fes c i m src (d\<lparr>rd_ios := k\<rparr>) d' = copied fes c i m src d d'"
  by (simp add: copied_def)

lemma copy_round:
  assumes area: "good_area n fes" and c: "re_chunk_offset ext = int c" "c + unat curlen \<le> n"
    and src: "\<And>j. j < unat curlen \<Longrightarrow> rd_blocks d (unat block + j) = src j"
  shows "and_then (read_blocks block curlen d) (\<lambda>(buf, d). and_then (write_pieces (unat curlen + 1) fes ext buf curlen 0 d) f) = Exit 1
    \<or> (\<exists>d'. and_then (read_blocks block curlen d) (\<lambda>(buf, d). and_then (write_pieces (unat curlen + 1) fes ext buf curlen 0 d) f) = f d'
         \<and> copied fes c 0 (unat curlen) src d d')"
proof (cases "rd_ios d = 0 \<or> unat block + unat curlen > rd_size d")
  case True
  then show ?thesis by (auto simp: read_blocks_def)
next
  case False
  let ?buf = "map (\<lambda>i. rd_blocks d (unat block + i)) [0..<unat curlen]" and ?d = "d\<lparr>rd_ios := rd_ios d - 1\<rparr>"
  have read: "read_blocks block curlen d = Value (?buf, ?d)" using False by (auto simp: read_blocks_def)
  have "unat (0::u32) \<le> unat curlen" "unat curlen < unat (0::u32) + (unat curlen + 1)" by simp_all
  from write_pieces_spec [OF area c _ _ this, of ?buf src ?d]
  have "write_pieces (unat curlen + 1) fes ext ?buf curlen 0 ?d = Exit 1
    \<or> (\<exists>d'. write_pieces (unat curlen + 1) fes ext ?buf curlen 0 ?d = Value d' \<and> copied fes c 0 (unat curlen) src d d')"
    using src by (simp add: copied_reads)
  then show ?thesis
  proof
    assume "\<exists>d'. write_pieces (unat curlen + 1) fes ext ?buf curlen 0 ?d = Value d' \<and> copied fes c 0 (unat curlen) src d d'"
    then obtain d' where d': "write_pieces (unat curlen + 1) fes ext ?buf curlen 0 ?d = Value d'" "copied fes c 0 (unat curlen) src d d'"
      by blast
    show ?thesis unfolding read and_then.simps prod.case d'(1) using d'(2) by blast
  next
    assume e: "write_pieces (unat curlen + 1) fes ext ?buf curlen 0 ?d = Exit 1"
    show ?thesis unfolding read and_then.simps prod.case e by simp
  qed
qed

lemma copy_buffers_spec:
  assumes area: "good_area n fes" and c: "re_chunk_offset ext = int c" "c + unat (re_len ext) \<le> n"
    and short: "unat (re_len ext) \<le> unat remap_buf_blocks"
  shows "copy_buffers (unat (re_len ext) + 1) remap_buf_blocks fes ext 0 d = Exit 1
    \<or> (\<exists>d'. copy_buffers (unat (re_len ext) + 1) remap_buf_blocks fes ext 0 d = Value d'
         \<and> copied fes c 0 (unat (re_len ext)) (\<lambda>j. rd_blocks d (unat (re_block ext) + j)) d d')"
proof (cases "re_len ext = 0")
  case True
  then show ?thesis by (simp add: copied_empty)
next
  case False
  then obtain k where k: "unat (re_len ext) = Suc k" by (metis not0_implies_Suc unat_eq_zero)
  have m: "min (re_len ext - 0) remap_buf_blocks = re_len ext" using short by (simp add: min_def word_le_nat_alt)
  have run: "copy_buffers (unat (re_len ext) + 1) remap_buf_blocks fes ext 0 d =
      and_then (read_blocks (re_block ext) (re_len ext) d) (\<lambda>(buf, d).
      and_then (write_pieces (unat (re_len ext) + 1) fes ext buf (re_len ext) 0 d) (copy_buffers (unat (re_len ext)) remap_buf_blocks fes ext (0 + re_len ext)))"
    using False unfolding Suc_eq_plus1 [symmetric] copy_buffers.simps(2) Let_def m by (simp add: word_gt_0)
  have last: "copy_buffers (unat (re_len ext)) remap_buf_blocks fes ext (0 + re_len ext) d' = Value d'" for d'
    unfolding k by simp
  from copy_round [OF area c, of d "re_block ext" "\<lambda>j. rd_blocks d (unat (re_block ext) + j)"
      "copy_buffers (unat (re_len ext)) remap_buf_blocks fes ext (0 + re_len ext)"]
  show ?thesis unfolding run last by blast
qed

text \<open>
  C35: An extent longer than the buffer is destroyed: the second buffer is written from the start of the
  extent's positions again, since the write position does not count the blocks before it. Afterwards
  the first new blocks hold the blocks behind the first buffer, and the last new blocks are never
  written.
\<close>

theorem copy_buffers_long:
  assumes area: "good_area n fes" and c: "re_chunk_offset ext = int c" "c + unat (re_len ext) \<le> n"
    and long: "0 < unat remap_buf_blocks" "unat remap_buf_blocks < unat (re_len ext)" "unat (re_len ext) \<le> 2 * unat remap_buf_blocks"
    and fits: "unat (re_block ext) + unat (re_len ext) < 2 ^ 32"
    and src: "\<forall>j<unat (re_len ext). unat (re_block ext) + j \<notin> target fes ` {..<n}"
  shows "copy_buffers (unat (re_len ext) + 1) remap_buf_blocks fes ext 0 d = Exit 1
    \<or> (\<exists>d'. copy_buffers (unat (re_len ext) + 1) remap_buf_blocks fes ext 0 d = Value d'
         \<and> (\<forall>j. j < unat (re_len ext) - unat remap_buf_blocks
              \<longrightarrow> rd_blocks d' (target fes (c + j)) = rd_blocks d (unat (re_block ext) + unat remap_buf_blocks + j))
         \<and> (\<forall>j. unat remap_buf_blocks \<le> j \<longrightarrow> j < unat (re_len ext) \<longrightarrow> rd_blocks d' (target fes (c + j)) = rd_blocks d (target fes (c + j))))"
proof -
  let ?b = "remap_buf_blocks" and ?m = "unat remap_buf_blocks" and ?len = "unat (re_len ext)"
  obtain k where k: "?len = Suc (Suc k)" using long by (metis Suc_less_eq gr0_implies_Suc less_Suc_eq_0_disj less_imp_Suc_add not_less_eq)
  have lt: "0 < re_len ext" "?b < re_len ext" using long(1,2) by (simp_all add: word_less_nat_alt)
  have m1: "min (re_len ext - 0) ?b = ?b" using lt(2) by (simp add: min_absorb2 less_imp_le)
  have u2: "unat (re_len ext - ?b) = ?len - ?m" using lt(2) by (simp add: unat_sub_le)
  then have "unat (re_len ext - ?b) \<le> ?m" using long(3) by linarith
  then have m2: "min (re_len ext - ?b) ?b = re_len ext - ?b" by (simp add: min_absorb1 word_le_nat_alt)
  have run1: "copy_buffers (?len + 1) ?b fes ext 0 d =
      and_then (read_blocks (re_block ext) ?b d) (\<lambda>(buf, d).
      and_then (write_pieces (?m + 1) fes ext buf ?b 0 d) (copy_buffers ?len ?b fes ext ?b))"
    using lt(1) unfolding Suc_eq_plus1 [symmetric] copy_buffers.simps(2) Let_def m1 by simp
  have run2: "copy_buffers ?len ?b fes ext ?b d1 =
      and_then (read_blocks (re_block ext + ?b) (re_len ext - ?b) d1) (\<lambda>(buf, d).
      and_then (write_pieces (unat (re_len ext - ?b) + 1) fes ext buf (re_len ext - ?b) 0 d)
        (copy_buffers (Suc k) ?b fes ext (re_len ext)))" for d1
    using lt(2) unfolding k copy_buffers.simps(2) Let_def m2 by simp
  have last: "copy_buffers (Suc k) ?b fes ext (re_len ext) d2 = Value d2" for d2 by simp
  have c1: "c + ?m \<le> n" and c2: "c + unat (re_len ext - ?b) \<le> n" using c(2) long(2) u2 by linarith+
  have ub: "unat (re_block ext + ?b) = unat (re_block ext) + ?m" using fits long(2) by (simp add: unat_word_ariths)
  from copy_round [OF area c(1) c1, of d "re_block ext" "\<lambda>j. rd_blocks d (unat (re_block ext) + j)" "copy_buffers ?len ?b fes ext ?b"]
  have "copy_buffers (?len + 1) ?b fes ext 0 d = Exit 1
    \<or> (\<exists>d1. copy_buffers (?len + 1) ?b fes ext 0 d = copy_buffers ?len ?b fes ext ?b d1
         \<and> copied fes c 0 ?m (\<lambda>j. rd_blocks d (unat (re_block ext) + j)) d d1)"
    unfolding run1 by simp
  then show ?thesis
  proof
    assume "\<exists>d1. copy_buffers (?len + 1) ?b fes ext 0 d = copy_buffers ?len ?b fes ext ?b d1
         \<and> copied fes c 0 ?m (\<lambda>j. rd_blocks d (unat (re_block ext) + j)) d d1"
    then obtain d1 where d1: "copy_buffers (?len + 1) ?b fes ext 0 d = copy_buffers ?len ?b fes ext ?b d1"
      "copied fes c 0 ?m (\<lambda>j. rd_blocks d (unat (re_block ext) + j)) d d1" by blast
    have keep: "rd_blocks d1 x = rd_blocks d x" if "x \<notin> target fes ` {c..<c + ?m}" for x
      using d1(2) that by (simp add: copied_def)
    have src1: "rd_blocks d1 (unat (re_block ext + ?b) + j) = rd_blocks d (unat (re_block ext) + ?m + j)" if "j < unat (re_len ext - ?b)" for j
    proof -
      have "?m + j < ?len" using that u2 by linarith
      then have "unat (re_block ext) + (?m + j) \<notin> target fes ` {..<n}" using src by blast
      then have "unat (re_block ext) + (?m + j) \<notin> target fes ` {c..<c + ?m}" using c1 by auto
      then show ?thesis unfolding ub by (simp add: keep add.assoc)
    qed
    from copy_round [OF area c(1) c2, of d1 "re_block ext + ?b" "\<lambda>j. rd_blocks d (unat (re_block ext) + ?m + j)"
        "copy_buffers (Suc k) ?b fes ext (re_len ext)", OF src1]
    have "copy_buffers ?len ?b fes ext ?b d1 = Exit 1
      \<or> (\<exists>d2. copy_buffers ?len ?b fes ext ?b d1 = Value d2
           \<and> copied fes c 0 (?len - ?m) (\<lambda>j. rd_blocks d (unat (re_block ext) + ?m + j)) d1 d2)"
      unfolding run2 last u2 .
    then show ?thesis
    proof
      assume "\<exists>d2. copy_buffers ?len ?b fes ext ?b d1 = Value d2
           \<and> copied fes c 0 (?len - ?m) (\<lambda>j. rd_blocks d (unat (re_block ext) + ?m + j)) d1 d2"
      then obtain d2 where d2: "copy_buffers ?len ?b fes ext ?b d1 = Value d2"
        "copied fes c 0 (?len - ?m) (\<lambda>j. rd_blocks d (unat (re_block ext) + ?m + j)) d1 d2" by blast
      have "rd_blocks d2 (target fes (c + j)) = rd_blocks d (target fes (c + j))" if j: "?m \<le> j" "j < ?len" for j
      proof -
        have out: "target fes (c + j) \<notin> target fes ` {c + 0..<c + q}" if "q \<le> ?m" for q
        proof
          assume "target fes (c + j) \<in> target fes ` {c + 0..<c + q}"
          then obtain p where p: "p \<in> {c + 0..<c + q}" "target fes (c + j) = target fes p" by blast
          have "c + j = p" by (rule target_inj [OF area _ _ p(2)]) (use p(1) that c j in auto)
          then show False using p(1) j(1) that by simp
        qed
        have "?len - ?m \<le> ?m" using long(3) by linarith
        then have "rd_blocks d2 (target fes (c + j)) = rd_blocks d1 (target fes (c + j))" using d2(2) out by (simp add: copied_def)
        also have "\<dots> = rd_blocks d (target fes (c + j))" using d1(2) out [of ?m] by (simp add: copied_def)
        finally show ?thesis .
      qed
      then show ?thesis unfolding d1(1) d2(1) using d2(2) by (auto simp: copied_def)
    next
      assume e: "copy_buffers ?len ?b fes ext ?b d1 = Exit 1"
      show ?thesis unfolding d1(1) e by simp
    qed
  qed blast
qed

definition long_extent :: remap_extent where
  "long_extent = \<lparr>re_block = 100, re_len = 3, re_offset = 0, re_chunk_offset = 0\<rparr>"

definition long_area :: "free_extent list" where
  "long_area = [\<lparr>fe_block = 8, fe_len = 3, fe_offset = 0\<rparr>]"

theorem copy_buffers_long_witness:
  "\<exists>d'. copy_buffers 4 2 long_area long_extent 0 \<lparr>rd_blocks = (\<lambda>b. [of_nat b]), rd_size = 200, rd_ios = 9\<rparr> = Value d'
     \<and> rd_blocks d' 8 = [102] \<and> rd_blocks d' 9 = [101] \<and> rd_blocks d' 10 = [10]"
proof -
  let ?d = "\<lparr>rd_blocks = (\<lambda>b. [of_nat b]), rd_size = 200, rd_ios = 9\<rparr> :: remap_dev"
  have run: "case copy_buffers 4 2 long_area long_extent 0 ?d of Value d' \<Rightarrow> rd_blocks d' 9 = [101] | _ \<Rightarrow> False" by code_simp
  have ext: "re_block long_extent = 100" "re_len long_extent = 3" "re_chunk_offset long_extent = 0"
    by (simp_all add: long_extent_def)
  have area: "target long_area j = (if j < 3 then 8 + j else 0)" for j by (simp add: long_area_def fe_start_def)
  have good: "good_area 3 long_area" by (simp add: long_area_def good_area_def fe_stop_def)
  have four: "unat (re_len long_extent) + 1 = 4" by (simp add: ext)
  have apart: "\<forall>j<unat (re_len long_extent). unat (re_block long_extent) + j \<notin> target long_area ` {..<3}" by (auto simp: ext area)
  have "re_chunk_offset long_extent = int 0" "0 + unat (re_len long_extent) \<le> 3" "0 < unat (2 :: u32)"
    "unat (2 :: u32) < unat (re_len long_extent)" "unat (re_len long_extent) \<le> 2 * unat (2 :: u32)"
    "unat (re_block long_extent) + unat (re_len long_extent) < 2 ^ 32" by (simp_all add: ext)
  from copy_buffers_long [OF good this apart, of ?d] show ?thesis
    unfolding four
  proof (elim disjE exE conjE)
    assume "copy_buffers 4 2 long_area long_extent 0 ?d = Exit 1"
    with run show ?thesis by simp
  next
    fix d' assume d': "copy_buffers 4 2 long_area long_extent 0 ?d = Value d'"
      and new: "\<forall>j<unat (re_len long_extent) - unat (2 :: u32).
        rd_blocks d' (target long_area (0 + j)) = rd_blocks ?d (unat (re_block long_extent) + unat (2 :: u32) + j)"
      and old: "\<forall>j\<ge>unat (2 :: u32). j < unat (re_len long_extent) \<longrightarrow>
        rd_blocks d' (target long_area (0 + j)) = rd_blocks ?d (target long_area (0 + j))"
    have "rd_blocks d' 8 = [102]" using new [rule_format, of 0] by (simp add: ext area)
    moreover have "rd_blocks d' 10 = [10]" using old [rule_format, of 2] by (simp add: ext area)
    moreover have "rd_blocks d' 9 = [101]" using run unfolding d' by simp
    ultimately show ?thesis using d' by blast
  qed
qed

section \<open>All extents\<close>

definition chunk :: "remap_extent \<Rightarrow> nat" where "chunk e = nat (re_chunk_offset e)"

definition chunks :: "remap_extent \<Rightarrow> nat set" where "chunks e = {chunk e..<chunk e + unat (re_len e)}"

definition extent_fits :: "free_extent list \<Rightarrow> nat \<Rightarrow> nat \<Rightarrow> remap_extent \<Rightarrow> bool" where
  "extent_fits fes n buf_blocks e \<longleftrightarrow> 0 \<le> re_chunk_offset e \<and> chunk e + unat (re_len e) \<le> n \<and> unat (re_len e) \<le> buf_blocks
     \<and> (\<forall>j<unat (re_len e). unat (re_block e) + j \<notin> target fes ` {..<n})"

definition extents_copied :: "free_extent list \<Rightarrow> remap_extent list \<Rightarrow> (nat \<Rightarrow> byte list) \<Rightarrow> remap_dev \<Rightarrow> remap_dev \<Rightarrow> bool" where
  "extents_copied fes exts B d d' \<longleftrightarrow>
     (\<forall>e\<in>set exts. \<forall>j<unat (re_len e). rd_blocks d' (target fes (chunk e + j)) = B (unat (re_block e) + j))
     \<and> (\<forall>x. x \<notin> target fes ` (\<Union>e\<in>set exts. chunks e) \<longrightarrow> rd_blocks d' x = rd_blocks d x)"

lemma extents_copied_append:
  assumes area: "good_area n fes" and apart: "\<forall>e\<in>set es. \<forall>f\<in>set fs. chunks e \<inter> chunks f = {}"
    and fits: "\<forall>e\<in>set es \<union> set fs. chunk e + unat (re_len e) \<le> n"
    and "extents_copied fes es B d d1" and "extents_copied fes fs B d1 d2"
  shows "extents_copied fes (es @ fs) B d d2"
  unfolding extents_copied_def
proof (intro conjI ballI allI impI)
  fix e j assume e: "e \<in> set (es @ fs)" and j: "j < unat (re_len e)"
  show "rd_blocks d2 (target fes (chunk e + j)) = B (unat (re_block e) + j)"
  proof (cases "e \<in> set fs")
    case True
    then show ?thesis using assms(5) j by (simp add: extents_copied_def)
  next
    case False
    then have es: "e \<in> set es" using e by simp
    have "target fes (chunk e + j) \<notin> target fes ` (\<Union>f\<in>set fs. chunks f)"
    proof
      assume "target fes (chunk e + j) \<in> target fes ` (\<Union>f\<in>set fs. chunks f)"
      then obtain f q where f: "f \<in> set fs" "q \<in> chunks f" "target fes (chunk e + j) = target fes q" by blast
      have "chunk e + unat (re_len e) \<le> n" "chunk f + unat (re_len f) \<le> n" using fits es f(1) by blast+
      then have lt: "chunk e + j < n" "q < n" using j f(2) by (simp_all add: chunks_def)
      have "chunk e + j = q" by (rule target_inj [OF area lt f(3)])
      then have "q \<in> chunks e" using j by (auto simp: chunks_def)
      then show False using apart es f(1,2) by blast
    qed
    then have "rd_blocks d2 (target fes (chunk e + j)) = rd_blocks d1 (target fes (chunk e + j))"
      using assms(5) by (simp add: extents_copied_def)
    then show ?thesis using assms(4) es j by (simp add: extents_copied_def)
  qed
next
  fix x assume "x \<notin> target fes ` (\<Union>e\<in>set (es @ fs). chunks e)"
  then have "x \<notin> target fes ` (\<Union>e\<in>set es. chunks e)" "x \<notin> target fes ` (\<Union>e\<in>set fs. chunks e)" by auto
  then show "rd_blocks d2 x = rd_blocks d x" using assms(4,5) by (simp add: extents_copied_def)
qed

lemma copied_extent:
  assumes "copied fes (chunk e) 0 (unat (re_len e)) (\<lambda>j. B (unat (re_block e) + j)) d d'"
  shows "extents_copied fes [e] B d d'"
  using assms by (simp add: extents_copied_def copied_def chunks_def)

text \<open>The sources keep their contents while targets are written.\<close>

lemma extents_copied_source:
  assumes "extents_copied fes es B d d1" and "\<forall>e\<in>set es. chunk e + unat (re_len e) \<le> n" and "x \<notin> target fes ` {..<n}"
  shows "rd_blocks d1 x = rd_blocks d x"
proof -
  have "(\<Union>e\<in>set es. chunks e) \<subseteq> {..<n}" using assms(2) by (fastforce simp: chunks_def)
  then have "x \<notin> target fes ` (\<Union>e\<in>set es. chunks e)" using assms(3) by blast
  then show ?thesis using assms(1) by (simp add: extents_copied_def)
qed

lemma copy_extents_spec:
  assumes area: "good_area n fes"
  shows "\<forall>e\<in>set exts. extent_fits fes n (unat buf_blocks) e \<Longrightarrow> sorted_wrt (\<lambda>e f. chunks e \<inter> chunks f = {}) exts \<Longrightarrow>
    \<forall>e\<in>set exts. \<forall>j<unat (re_len e). rd_blocks d (unat (re_block e) + j) = B (unat (re_block e) + j) \<Longrightarrow>
    copy_extents buf_blocks fes exts d = Exit 1
    \<or> (\<exists>d'. copy_extents buf_blocks fes exts d = Value d' \<and> extents_copied fes exts B d d')"
proof (induction exts arbitrary: d)
  case Nil
  then show ?case by (simp add: extents_copied_def)
next
  case (Cons e exts)
  have fit: "re_chunk_offset e = int (chunk e)" "chunk e + unat (re_len e) \<le> n" "unat (re_len e) \<le> unat buf_blocks"
    using Cons.prems(1) by (simp_all add: extent_fits_def chunk_def)
  from copy_buffers_spec [OF area fit, of d] show ?case
  proof
    assume "copy_buffers (unat (re_len e) + 1) buf_blocks fes e 0 d = Exit 1"
    then show ?thesis unfolding copy_extents.simps by simp
  next
    assume "\<exists>d'. copy_buffers (unat (re_len e) + 1) buf_blocks fes e 0 d = Value d'
      \<and> copied fes (chunk e) 0 (unat (re_len e)) (\<lambda>j. rd_blocks d (unat (re_block e) + j)) d d'"
    then obtain d1 where d1: "copy_buffers (unat (re_len e) + 1) buf_blocks fes e 0 d = Value d1"
      "copied fes (chunk e) 0 (unat (re_len e)) (\<lambda>j. rd_blocks d (unat (re_block e) + j)) d d1" by blast
    have "copied fes (chunk e) 0 (unat (re_len e)) (\<lambda>j. B (unat (re_block e) + j)) d d1"
      using d1(2) Cons.prems(3) by (simp add: copied_def)
    then have e1: "extents_copied fes [e] B d d1" by (rule copied_extent)
    have len: "\<forall>f\<in>set [e] \<union> set exts. chunk f + unat (re_len f) \<le> n" using Cons.prems(1) by (auto simp: extent_fits_def)
    have "\<forall>f\<in>set exts. \<forall>j<unat (re_len f). rd_blocks d1 (unat (re_block f) + j) = B (unat (re_block f) + j)"
    proof (intro ballI allI impI)
      fix f j assume f: "f \<in> set exts" "j < unat (re_len f)"
      then have "unat (re_block f) + j \<notin> target fes ` {..<n}" using Cons.prems(1) by (simp add: extent_fits_def)
      from extents_copied_source [OF e1 _ this] len f Cons.prems(3)
      show "rd_blocks d1 (unat (re_block f) + j) = B (unat (re_block f) + j)" by simp
    qed
    from Cons.IH [OF _ _ this] Cons.prems(1,2)
    have "copy_extents buf_blocks fes exts d1 = Exit 1
      \<or> (\<exists>d'. copy_extents buf_blocks fes exts d1 = Value d' \<and> extents_copied fes exts B d1 d')" by simp
    moreover have "extents_copied fes (e # exts) B d d'" if "extents_copied fes exts B d1 d'" for d'
    proof -
      have "\<forall>a\<in>set [e]. \<forall>f\<in>set exts. chunks a \<inter> chunks f = {}" using Cons.prems(2) by simp
      from extents_copied_append [OF area this len e1 that] show ?thesis by simp
    qed
    ultimately show ?thesis unfolding copy_extents.simps d1(1) and_then.simps by blast
  qed
qed

end
