(* ===== verification/E2remap_Visits.thy ===== *)
theory E2remap_Visits
  imports E2remap_Copied
begin

text \<open>
  The block numbers that the iteration over a file leaves: a block of an extent gets the block at its
  position, every other block stays. Extents and blocks are both in the order of the offsets, and
  \<open>actext\<close> moves along the extents.
\<close>

section \<open>Offsets\<close>

definition last_off :: "remap_extent \<Rightarrow> int" where
  "last_off e = re_offset e + uint (re_len e) - 1"

definition in_ext :: "remap_extent \<Rightarrow> int \<Rightarrow> bool" where
  "in_ext e off \<longleftrightarrow> re_offset e \<le> off \<and> off < re_offset e + uint (re_len e)"

text \<open>An extent of indirect blocks is a single block.\<close>

definition ext_ok :: "remap_extent \<Rightarrow> bool" where
  "ext_ok e \<longleftrightarrow> 0 < uint (re_len e) \<and> (re_offset e < 0 \<longrightarrow> uint (re_len e) = 1)"

lemma in_ext_order:
  assumes "ext_ok e" and "in_ext e off"
  shows "\<not> off_less off (re_offset e)" and "\<not> off_less (last_off e) off"
proof -
  have "\<not> off_less off (re_offset e) \<and> \<not> off_less (last_off e) off"
  proof (cases "re_offset e < 0")
    case True
    then have "off = re_offset e" "last_off e = re_offset e" using assms by (auto simp: ext_ok_def in_ext_def last_off_def)
    then show ?thesis by (simp add: off_less_irrefl)
  next
    case False
    then show ?thesis using assms by (auto simp: ext_ok_def in_ext_def last_off_def off_less_data)
  qed
  then show "\<not> off_less off (re_offset e)" "\<not> off_less (last_off e) off" by blast+
qed

lemma start_last: "ext_ok e \<Longrightarrow> \<not> off_less (last_off e) (re_offset e)"
  by (rule in_ext_order) (auto simp: ext_ok_def in_ext_def)

lemma off_less_le_trans: "off_less a b \<Longrightarrow> \<not> off_less c b \<Longrightarrow> off_less a c"
  using off_less_linear off_less_trans by metis

lemma off_le_less_trans: "\<not> off_less b a \<Longrightarrow> off_less b c \<Longrightarrow> off_less a c"
  using off_less_linear off_less_trans by metis

section \<open>The iteration on blocks with their offsets\<close>

text \<open>The offsets that the callback computes along the visits.\<close>

fun remap_entries :: "u32 \<Rightarrow> iter_visit list \<Rightarrow> block_traverse \<Rightarrow> (u32 \<times> int) list" where
  "remap_entries blocksize [] bt = []"
| "remap_entries blocksize (v # vs) bt =
     (if iv_offset v < 0 then
        (case remap_track (iv_offset v) (iv_parent_offset v) bt of
           Value (depth, bt) \<Rightarrow>
             (iv_block v, INDIRECT_TO_OFF (remap_index_to_offset blocksize (bt_depth bt) (bt_ind0 bt) (bt_ind1 bt)) depth)
               # remap_entries blocksize vs bt
         | _ \<Rightarrow> [])
      else (iv_block v, iv_offset v) # remap_entries blocksize vs bt)"

fun remap_list :: "u32 \<Rightarrow> free_extent list \<Rightarrow> (u32 \<times> int) list \<Rightarrow> remap_extent list \<Rightarrow> u32 list run_result" where
  "remap_list blocks_count fes [] exts = Value []"
| "remap_list blocks_count fes ((b, off) # es) exts =
     and_then (remap_at blocks_count fes b off exts) (\<lambda>(flag, b', exts).
     if flag = Abort_iteration then Value (map fst ((b, off) # es))
     else and_then (remap_list blocks_count fes es exts) (\<lambda>bs. Value (b' # bs)))"

definition remap_visit_ok :: "iter_visit \<Rightarrow> bool" where
  "remap_visit_ok v \<longleftrightarrow> iv_offset v \<ge> TIND_COUNT"

lemma remap_track_value:
  "TIND_COUNT \<le> off \<Longrightarrow> off < 0 \<Longrightarrow> \<exists>depth bt'. remap_track off parent_offset bt = Value (depth, bt')"
  by (auto simp: remap_track_def IND_COUNT_def DIND_COUNT_def TIND_COUNT_def)

lemma remap_track_ext:
  "remap_track off parent_offset bt = Value (depth, bt') \<Longrightarrow>
    remap_track off parent_offset (bt\<lparr>bt_ext := exts\<rparr>) = Value (depth, bt'\<lparr>bt_ext := exts\<rparr>)"
  by (auto simp: remap_track_def split: if_splits)

text \<open>The offset of a visit, and the traversal state after it.\<close>

lemma visit_offset:
  assumes "remap_visit_ok v"
  shows "\<exists>off bt'. \<forall>exts. remap_entries blocksize (v # vs) (bt\<lparr>bt_ext := exts\<rparr>) = (iv_block v, off) # remap_entries blocksize vs (bt'\<lparr>bt_ext := exts\<rparr>)
    \<and> (\<forall>blocks_count fes. remap_block blocksize blocks_count fes (iv_block v) (iv_offset v) (iv_parent_offset v) (bt\<lparr>bt_ext := exts\<rparr>)
        = and_then (remap_at blocks_count fes (iv_block v) off exts) (\<lambda>(flag, b, exts). Value (flag, b, bt'\<lparr>bt_ext := exts\<rparr>)))"
proof (cases "iv_offset v < 0")
  case True
  then obtain depth bt' where t: "remap_track (iv_offset v) (iv_parent_offset v) bt = Value (depth, bt')"
    using remap_track_value assms by (force simp: remap_visit_ok_def)
  note te = remap_track_ext [OF t]
  show ?thesis
    by (rule exI [of _ "INDIRECT_TO_OFF (remap_index_to_offset blocksize (bt_depth bt') (bt_ind0 bt') (bt_ind1 bt')) depth"], rule exI [of _ bt'])
      (simp add: te True remap_block_def)
next
  case False
  then show ?thesis by (intro exI [of _ "iv_offset v"] exI [of _ bt]) (simp add: remap_block_def)
qed

lemma remap_visits_entries:
  "\<forall>v\<in>set vs. remap_visit_ok v \<Longrightarrow>
    \<exists>es. map fst es = map iv_block vs \<and> (\<forall>exts. remap_entries blocksize vs (bt\<lparr>bt_ext := exts\<rparr>) = es)
      \<and> (\<forall>exts. remap_visits blocksize blocks_count fes vs (bt\<lparr>bt_ext := exts\<rparr>) = remap_list blocks_count fes es exts)"
proof (induction vs arbitrary: bt)
  case (Cons v vs)
  have "remap_visit_ok v" using Cons.prems by simp
  from visit_offset [OF this, of blocksize vs bt] obtain off bt' where
    v: "\<And>exts. remap_entries blocksize (v # vs) (bt\<lparr>bt_ext := exts\<rparr>) = (iv_block v, off) # remap_entries blocksize vs (bt'\<lparr>bt_ext := exts\<rparr>)"
      "\<And>exts. remap_block blocksize blocks_count fes (iv_block v) (iv_offset v) (iv_parent_offset v) (bt\<lparr>bt_ext := exts\<rparr>)
        = and_then (remap_at blocks_count fes (iv_block v) off exts) (\<lambda>(flag, b, exts). Value (flag, b, bt'\<lparr>bt_ext := exts\<rparr>))"
    by blast
  obtain es where es: "map fst es = map iv_block vs" "\<And>exts. remap_entries blocksize vs (bt'\<lparr>bt_ext := exts\<rparr>) = es"
    "\<And>exts. remap_visits blocksize blocks_count fes vs (bt'\<lparr>bt_ext := exts\<rparr>) = remap_list blocks_count fes es exts"
    using Cons.IH [of bt'] Cons.prems by auto
  have "remap_visits blocksize blocks_count fes (v # vs) (bt\<lparr>bt_ext := exts\<rparr>) = remap_list blocks_count fes ((iv_block v, off) # es) exts" for exts
    unfolding remap_visits.simps remap_list.simps v(2)
    by (cases "remap_at blocks_count fes (iv_block v) off exts") (auto simp: es)
  then show ?case using es(1,2) v(1) by (intro exI [of _ "(iv_block v, off) # es"]) simp
qed simp

section \<open>The new block numbers\<close>

text \<open>The block that a file has at an offset in the end.\<close>

definition new_number :: "free_extent list \<Rightarrow> remap_extent list \<Rightarrow> u32 \<times> int \<Rightarrow> u32" where
  "new_number fes exts x =
     (case find (\<lambda>e. in_ext e (snd x)) exts of
        None \<Rightarrow> fst x
      | Some e \<Rightarrow> word_of_int (int (target fes (chunk e + nat (snd x - re_offset e)))))"

text \<open>
  The extents as the file has them: in order, without overlap, the last offset of each is visited,
  and every visited block of an extent is where the extent says.
\<close>

definition exts_in_order :: "remap_extent list \<Rightarrow> bool" where
  "exts_in_order exts \<longleftrightarrow> (\<forall>e\<in>set exts. ext_ok e) \<and> sorted_wrt (\<lambda>e f. off_less (last_off e) (re_offset f)) exts"

definition entry_ok :: "u32 \<Rightarrow> free_extent list \<Rightarrow> remap_extent list \<Rightarrow> u32 \<times> int \<Rightarrow> bool" where
  "entry_ok blocks_count fes exts x \<longleftrightarrow> fst x < blocks_count \<and> new_number fes exts x < blocks_count
     \<and> (\<forall>e\<in>set exts. in_ext e (snd x) \<longrightarrow> uint (fst x) = uint (re_block e) + snd x - re_offset e)"

lemma find_None_all: "(\<And>e. e \<in> set exts \<Longrightarrow> \<not> in_ext e off) \<Longrightarrow> find (\<lambda>e. in_ext e off) exts = None"
  by (simp add: find_None_iff)

lemma new_number_head:
  assumes "exts_in_order (e # exts)" and "\<not> off_less (last_off e) off"
  shows "new_number fes (e # exts) (b, off) =
    (if in_ext e off then word_of_int (int (target fes (chunk e + nat (off - re_offset e)))) else b)"
proof -
  have "\<not> in_ext f off" if "f \<in> set exts" for f
  proof
    assume f: "in_ext f off"
    have ok: "ext_ok f" "off_less (last_off e) (re_offset f)" using assms(1) that by (simp_all add: exts_in_order_def)
    then show False using in_ext_order(1) [OF ok(1) f] off_less_le_trans assms(2) by blast
  qed
  then show ?thesis using find_None_all [of exts off] by (simp add: new_number_def)
qed

lemma new_number_behind:
  assumes "ext_ok e" and "off_less (last_off e) off"
  shows "new_number fes (e # exts) (b, off) = new_number fes exts (b, off)"
  using in_ext_order(2) [OF assms(1), of off] assms(2) by (auto simp: new_number_def)

text \<open>One block, when the current extent does not end before it.\<close>

lemma remap_at_head:
  assumes area: "good_area n fes" and order: "exts_in_order (e # exts)" and off: "\<not> off_less (last_off e) off"
    and fits: "0 \<le> re_chunk_offset e" "chunk e + unat (re_len e) \<le> n" and ok: "entry_ok blocks_count fes (e # exts) (b, off)"
  shows "\<exists>flag. flag \<noteq> Abort_iteration \<and>
    (if off \<ge> re_offset e \<and> off < re_offset e + uint (re_len e) then
       (let freeext = find_remapped_offset fes (word_of_int (re_chunk_offset e + off - re_offset e)) in
        if uint b \<noteq> uint (re_block e) + off - re_offset e then Exit 1
        else (case freeext of
            None \<Rightarrow> Undefined
          | Some k \<Rightarrow>
              let new = word_of_int (uint (fe_block (fes ! k)) + re_chunk_offset e + off - re_offset e
                          - uint (fe_offset (fes ! k))) in
              if new \<ge> blocks_count then Exit 1 else Value (Changed_block, new, e # exts)))
     else Value (Unchanged_block, b, e # exts)) = Value (flag, new_number fes (e # exts) (b, off), e # exts)"
proof (cases "in_ext e off")
  case False
  then show ?thesis using new_number_head [OF order off] by (auto simp: in_ext_def)
next
  case True
  define p where "p = chunk e + nat (off - re_offset e)"
  have o: "0 \<le> off - re_offset e" "nat (off - re_offset e) < unat (re_len e)"
    using True by (auto simp: in_ext_def nat_less_iff)
  then have pn: "p < n" using fits(2) by (simp add: p_def)
  have n: "n < 2 ^ 32" "placed 0 fes" "fe_total fes = n" using area by (simp_all add: good_area_def)
  have pos: "re_chunk_offset e + off - re_offset e = int p" using fits(1) o(1) by (simp add: p_def chunk_def)
  have up: "unat (word_of_int (int p) :: u32) = p"
  proof -
    have "int (unat (word_of_int (int p) :: u32)) = int p" using pn n(1) by (intro unat_of_small) simp_all
    then show ?thesis by (simp only: of_nat_eq_iff)
  qed
  obtain k where k: "k < length fes" "find_remapped_offset fes (word_of_int (int p)) = Some k" "fe_holds (fes ! k) p"
    using find_remapped_offset_spec [OF n(2), of "word_of_int (int p)"] pn n(1,3) unfolding up by blast
  have "target fes p = fe_start (fes ! k) + (p - unat (fe_offset (fes ! k)))" using target_holds [OF n(2) k(1), of p] k(3) by simp
  moreover have "unat (fe_offset (fes ! k)) \<le> p" using k(3) by (simp add: fe_holds_def)
  ultimately have tgt: "int (target fes p) = uint (fe_block (fes ! k)) + int p - uint (fe_offset (fes ! k))"
    unfolding uint_nat fe_start_def by linarith
  have new: "uint (fe_block (fes ! k)) + re_chunk_offset e + off - re_offset e - uint (fe_offset (fes ! k)) = int (target fes p)"
    unfolding tgt using pos by linarith
  have nn: "new_number fes (e # exts) (b, off) = word_of_int (int (target fes p))"
    unfolding new_number_head [OF order off] p_def using True by simp
  have b: "\<not> uint b \<noteq> uint (re_block e) + off - re_offset e" "\<not> new_number fes (e # exts) (b, off) \<ge> blocks_count"
    using ok True by (auto simp: entry_ok_def)
  have cond: "off \<ge> re_offset e \<and> off < re_offset e + uint (re_len e)" using True by (simp add: in_ext_def)
  show ?thesis
    unfolding if_P [OF cond] Let_def pos k(2) if_not_P [OF b(1)] option.case new nn [symmetric] if_not_P [OF b(2)]
    by (intro exI [of _ Changed_block]) simp
qed

section \<open>The whole file\<close>

definition exts_fit :: "nat \<Rightarrow> remap_extent list \<Rightarrow> bool" where
  "exts_fit n exts \<longleftrightarrow> (\<forall>e\<in>set exts. 0 \<le> re_chunk_offset e \<and> chunk e + unat (re_len e) \<le> n)"

definition seen_later :: "(u32 \<times> int) list \<Rightarrow> remap_extent list \<Rightarrow> bool" where
  "seen_later es exts \<longleftrightarrow> exts \<noteq> [] \<and> (\<forall>e\<in>set (tl exts). last_off e \<in> snd ` set es)
     \<and> (last_off (hd exts) \<in> snd ` set es \<or> (\<forall>x\<in>set es. off_less (last_off (hd exts)) (snd x)))"

lemma entry_ok_behind:
  "ext_ok a \<Longrightarrow> off_less (last_off a) (snd x) \<Longrightarrow> entry_ok blocks_count fes (a # exts) x \<Longrightarrow> entry_ok blocks_count fes exts x"
  using new_number_behind [of a "snd x" fes exts "fst x"] by (simp add: entry_ok_def)

lemma seen_later_step:
  assumes order: "exts_in_order (e # exts)" and off: "\<not> off_less (last_off e) off"
    and sorted: "\<forall>x\<in>set es. off_less off (snd x)"
    and seen: "last_off e \<in> snd ` set ((b, off) # es)" "\<forall>f\<in>set exts. last_off f \<in> snd ` set ((b, off) # es)"
  shows "seen_later es (e # exts)"
proof -
  have "last_off f \<in> snd ` set es" if "f \<in> set exts" for f
  proof -
    have "ext_ok f" "off_less (last_off e) (re_offset f)" using order that by (simp_all add: exts_in_order_def)
    then have "off_less (last_off e) (last_off f)" using start_last off_less_le_trans by blast
    then have "last_off f \<noteq> off" using off by blast
    then show ?thesis using seen(2) that by auto
  qed
  moreover have "last_off e \<in> snd ` set es \<or> (\<forall>x\<in>set es. off_less (last_off e) (snd x))"
    using seen(1) sorted by auto
  ultimately show ?thesis by (simp add: seen_later_def)
qed

lemma remap_list_spec:
  assumes area: "good_area n fes"
  shows "sorted_wrt (\<lambda>x y. off_less (snd x) (snd y)) es \<Longrightarrow> exts_in_order exts \<Longrightarrow> exts_fit n exts \<Longrightarrow>
    \<forall>x\<in>set es. entry_ok blocks_count fes exts x \<Longrightarrow> seen_later es exts \<Longrightarrow>
    remap_list blocks_count fes es exts = Value (map (new_number fes exts) es)"
proof (induction es arbitrary: exts)
  case (Cons x es)
  obtain b off where x: "x = (b, off)" by (cases x)
  obtain a rest where exts: "exts = a # rest" using Cons.prems(5) by (cases exts) (auto simp: seen_later_def)
  have sorted: "sorted_wrt (\<lambda>x y. off_less (snd x) (snd y)) es" "\<forall>y\<in>set es. off_less off (snd y)"
    using Cons.prems(1) by (simp_all add: x)
  have b: "\<not> b \<ge> blocks_count" using Cons.prems(4) by (auto simp: x entry_ok_def)
  have step: "remap_list blocks_count fes (x # es) exts = Value (map (new_number fes (e # r)) (x # es))"
    if order: "exts_in_order (e # r)" and off: "\<not> off_less (last_off e) off" and fit: "exts_fit n (e # r)"
      and ok: "\<forall>y\<in>set (x # es). entry_ok blocks_count fes (e # r) y"
      and seen: "last_off e \<in> snd ` set (x # es)" "\<forall>f\<in>set r. last_off f \<in> snd ` set (x # es)"
      and cur: "(if cmp_ext_offset_ptr_core off (re_offset a + uint (re_len a) - 1) > 0 then rest else a # rest) = e # r" for e r
  proof -
    have fit1: "0 \<le> re_chunk_offset e" "chunk e + unat (re_len e) \<le> n" using fit by (simp_all add: exts_fit_def)
    have "entry_ok blocks_count fes (e # r) (b, off)" using ok by (simp add: x)
    from remap_at_head [OF area order off fit1 this] obtain flag where flag: "flag \<noteq> Abort_iteration"
      "remap_at blocks_count fes b off exts = Value (flag, new_number fes (e # r) (b, off), e # r)"
      unfolding remap_at_def if_not_P [OF b] exts list.case Let_def cur by blast
    have "remap_list blocks_count fes es (e # r) = Value (map (new_number fes (e # r)) es)"
      by (rule Cons.IH [OF sorted(1) order fit _ seen_later_step [OF order off sorted(2)]]) (use ok seen x in simp_all)
    then show ?thesis using flag by (simp add: x)
  qed
  show ?case
  proof (cases "off_less (last_off a) off")
    case False
    have seen: "last_off a \<in> snd ` set (x # es)" "\<forall>f\<in>set rest. last_off f \<in> snd ` set (x # es)"
      using Cons.prems(5) False unfolding seen_later_def exts x by auto
    have "\<not> cmp_ext_offset_ptr_core off (re_offset a + uint (re_len a) - 1) > 0"
      using False unfolding cmp_core_greater last_off_def .
    then show ?thesis using step [of a rest] Cons.prems(2-4) False seen unfolding exts by simp
  next
    case True
    have cur: "cmp_ext_offset_ptr_core off (re_offset a + uint (re_len a) - 1) > 0"
      using True unfolding cmp_core_greater last_off_def .
    have oka: "ext_ok a" using Cons.prems(2) by (simp add: exts exts_in_order_def)
    have behind: "off_less (last_off a) (snd y)" if "y \<in> set (x # es)" for y
      using that True sorted(2) off_less_trans by (auto simp: x)
    then have nn: "new_number fes exts y = new_number fes rest y" if "y \<in> set (x # es)" for y
      using new_number_behind [OF oka, of "snd y" fes rest "fst y"] that by (simp add: exts)
    have ok: "\<forall>y\<in>set (x # es). entry_ok blocks_count fes rest y"
      using Cons.prems(4) entry_ok_behind [OF oka behind] unfolding exts by blast
    show ?thesis
    proof (cases rest)
      case Nil
      have "remap_at blocks_count fes b off exts = Value (Abort_iteration, b, [])"
        unfolding remap_at_def if_not_P [OF b] exts list.case Let_def if_P [OF cur] Nil ..
      moreover have "map (new_number fes exts) (x # es) = map fst (x # es)"
        by (rule map_cong [OF refl]) (use nn in \<open>simp add: Nil new_number_def\<close>)
      ultimately show ?thesis by (simp add: x)
    next
      case (Cons e r)
      have order: "exts_in_order (e # r)" using Cons.prems(2) by (simp add: exts Cons exts_in_order_def)
      have fit: "exts_fit n (e # r)" using Cons.prems(3) by (simp add: exts Cons exts_fit_def)
      have seen: "last_off e \<in> snd ` set (x # es)" "\<forall>f\<in>set r. last_off f \<in> snd ` set (x # es)"
        using Cons.prems(5) unfolding seen_later_def exts Cons by simp_all
      have off: "\<not> off_less (last_off e) off"
      proof
        assume lt: "off_less (last_off e) off"
        then have "last_off e \<noteq> off" using off_less_irrefl by metis
        then obtain y where "y \<in> set es" "last_off e = snd y" using seen(1) by (auto simp: x)
        then show False using lt sorted(2) off_less_trans off_less_irrefl by metis
      qed
      have "remap_list blocks_count fes (x # es) exts = Value (map (new_number fes (e # r)) (x # es))"
        by (rule step [OF order off fit _ seen]) (use ok cur Cons in simp_all)
      moreover have "map (new_number fes (e # r)) (x # es) = map (new_number fes exts) (x # es)"
        by (rule map_cong [OF refl]) (use nn Cons in simp)
      ultimately show ?thesis by simp
    qed
  qed
qed simp

end
