(* ===== verification/E2remap_Bitmap.thy ===== *)
theory E2remap_Bitmap
  imports E2remap_Copy
begin

text \<open>
  \<open>update_bitmap\<close>: the new blocks are in use, the old ones are free, and the counts of free blocks of
  the groups follow.
\<close>

section \<open>The bitmap of the library\<close>

locale bitmap_ranges =
  fixes lib :: "'m bitmap_lib"
    and used :: "'m \<Rightarrow> nat \<Rightarrow> bool"
  assumes used_mark: "used (bl_mark lib start len m) x \<longleftrightarrow> used m x \<or> unat start \<le> x \<and> x < unat start + unat len"
    and used_unmark: "used (bl_unmark lib start len m) x \<longleftrightarrow> used m x \<and> \<not> (unat start \<le> x \<and> x < unat start + unat len)"
begin

lemma used_update:
  "used (if free then bl_unmark lib start len m else bl_mark lib start len m) x \<longleftrightarrow>
    (if unat start \<le> x \<and> x < unat start + unat len then \<not> free else used m x)"
  by (auto simp: used_mark used_unmark)

end

text \<open>A bitmap as a predicate, with groups that begin at block 0.\<close>

definition plain_lib :: "u32 \<Rightarrow> (nat \<Rightarrow> bool) bitmap_lib" where
  "plain_lib blocks_per_group =
     \<lparr>bl_mark = (\<lambda>start len m x. m x \<or> unat start \<le> x \<and> x < unat start + unat len),
      bl_unmark = (\<lambda>start len m x. m x \<and> \<not> (unat start \<le> x \<and> x < unat start + unat len)),
      bl_group = (\<lambda>b. int (unat b div unat blocks_per_group)), bl_write = (\<lambda>_. True)\<rparr>"

interpretation plain: bitmap_ranges "plain_lib blocks_per_group" "\<lambda>m. m"
  by unfold_locales (simp_all add: plain_lib_def)

section \<open>The counts of the groups\<close>

definition group_part :: "nat \<Rightarrow> nat \<Rightarrow> nat \<Rightarrow> nat \<Rightarrow> nat" where
  "group_part per_group g start stop = card {x. start \<le> x \<and> x < stop \<and> x div per_group = g}"

lemma group_part_split:
  assumes "start \<le> mid" and "mid \<le> stop"
  shows "group_part p g start stop = group_part p g start mid + group_part p g mid stop"
proof -
  have "{x. start \<le> x \<and> x < stop \<and> x div p = g} = {x. start \<le> x \<and> x < mid \<and> x div p = g} \<union> {x. mid \<le> x \<and> x < stop \<and> x div p = g}"
    using assms by auto
  then show ?thesis unfolding group_part_def by (simp add: card_Un_disjoint disjoint_iff)
qed

lemma group_part_empty: "group_part p g start start = 0"
  by (simp add: group_part_def)

lemma group_part_inside:
  assumes "0 < p" and "start div p = k" and "stop \<le> p * (k + 1)" and "start \<le> stop"
  shows "group_part p g start stop = (if g = k then stop - start else 0)"
proof -
  have "x div p = k" if "start \<le> x" "x < stop" for x
  proof -
    have "p * k \<le> start" using times_div_less_eq_dividend [of p start] assms(2) by simp
    then have "p * k \<le> x" "x < p * Suc k" using that assms(3) by simp_all
    then show ?thesis by (rule div_nat_eqI)
  qed
  then have "{x. start \<le> x \<and> x < stop \<and> x div p = g} = (if g = k then {start..<stop} else {})"
    by (intro set_eqI) (cases "g = k"; simp; blast)
  then show ?thesis unfolding group_part_def by simp
qed

definition change :: "bool \<Rightarrow> nat \<Rightarrow> u16 \<Rightarrow> u16" where
  "change free n w = (if free then w + of_nat n else w - of_nat n)"

lemma change_simps: "change free 0 w = w" "change free m (change free n w) = change free (n + m) w"
  by (simp_all add: change_def algebra_simps)

lemma group_counts_spec:
  assumes bpg: "0 < unat bpg" "unat bpg * length counts0 < 2 ^ 32" and grp: "\<And>b. group_of b = int (unat b div unat bpg)"
  shows "unat len \<le> fuel \<Longrightarrow> unat start + unat len \<le> unat bpg * length counts0 \<Longrightarrow> length counts = length counts0 \<Longrightarrow>
    \<exists>counts'. group_counts fuel group_of bpg free start len counts = Value counts' \<and> length counts' = length counts0
      \<and> (\<forall>g<length counts0. counts' ! g = change free (group_part (unat bpg) g (unat start) (unat start + unat len)) (counts ! g))"
proof (induction fuel arbitrary: start len counts)
  case 0
  then have "len = 0" by (simp add: unat_eq_0)
  then show ?case using 0 by (simp add: group_part_empty change_simps)
next
  case (Suc fuel)
  show ?case
  proof (cases "len = 0")
    case True
    then show ?thesis using Suc.prems by (simp add: group_part_empty change_simps)
  next
    case False
    then have pos: "0 < unat len" by (simp add: unat_gt_0)
    define k where "k = unat start div unat bpg"
    have k: "k < length counts0"
    proof -
      have "unat start < unat bpg * length counts0" using Suc.prems(2) pos by linarith
      then show ?thesis unfolding k_def by (simp add: bpg(1) less_mult_imp_div_less mult.commute)
    qed
    have k1: "unat bpg * (k + 1) \<le> unat bpg * length counts0" using k by (intro mult_le_mono2) simp
    have uk: "unat (bpg * word_of_int (group_of start + 1)) = unat bpg * (k + 1)"
    proof -
      have w: "group_of start + 1 = int (k + 1)" by (simp add: grp k_def)
      have "k + 1 \<le> unat bpg * (k + 1)" using mult_le_mono1 [of 1 "unat bpg" "k + 1"] bpg(1) by simp
      then have lt: "k + 1 < 2 ^ 32" "unat bpg * (k + 1) < 2 ^ 32" using k1 bpg(2) by linarith+
      then have "int (unat (word_of_int (group_of start + 1) :: u32)) = int (k + 1)"
        unfolding w by (intro unat_of_small) simp_all
      then have "unat (word_of_int (group_of start + 1) :: u32) = k + 1" unfolding of_nat_eq_iff .
      then show ?thesis unfolding unat_word_ariths using lt(2) by simp
    qed
    have us: "unat (start + len) = unat start + unat len" using Suc.prems(2) bpg(2) by (simp add: unat_word_ariths)
    define stop where "stop = min (bpg * word_of_int (group_of start + 1)) (start + len)"
    have stop: "unat stop = min (unat bpg * (k + 1)) (unat start + unat len)" unfolding stop_def unat_min uk us ..
    have "unat start < unat bpg * (k + 1)" unfolding k_def using bpg(1)
      by (metis Suc_eq_plus1 dividend_less_times_div mult.commute mult_Suc)
    then have lt: "unat start < unat stop" "unat stop \<le> unat start + unat len" "unat stop \<le> unat bpg * (k + 1)" using pos by (simp_all add: stop)
    define n where "n = stop - start"
    have n: "unat n = unat stop - unat start" unfolding n_def using lt(1) by (simp add: unat_sub_le word_le_nat_alt)
    have ln: "unat (len - n) = unat len - unat n" using n lt by (simp add: unat_sub_le word_le_nat_alt)
    define counts1 where "counts1 = counts[k := (if free then counts ! k + ucast n else counts ! k - ucast n)]"
    have nk: "nat (group_of start) = k" by (simp add: grp k_def)
    have run: "group_counts (Suc fuel) group_of bpg free start len counts = group_counts fuel group_of bpg free stop (len - n) counts1"
      using False k Suc.prems(3)
      unfolding group_counts.simps(2) Let_def stop_def [symmetric] n_def [symmetric] nk counts1_def by (simp add: grp)
    have "unat (len - n) \<le> fuel" "unat stop + unat (len - n) \<le> unat bpg * length counts0" "length counts1 = length counts0"
      using Suc.prems ln n lt by (simp_all add: counts1_def)
    from Suc.IH [OF this] obtain counts' where c': "group_counts fuel group_of bpg free stop (len - n) counts1 = Value counts'"
      "length counts' = length counts0"
      "\<forall>g<length counts0. counts' ! g = change free (group_part (unat bpg) g (unat stop) (unat stop + unat (len - n))) (counts1 ! g)"
      by blast
    have uend: "unat stop + unat (len - n) = unat start + unat len" using ln n lt by linarith
    have first: "counts1 ! g = change free (group_part (unat bpg) g (unat start) (unat stop)) (counts ! g)" if "g < length counts0" for g
    proof -
      have "group_part (unat bpg) g (unat start) (unat stop) = (if g = k then unat n else 0)"
        using group_part_inside [OF bpg(1) k_def [symmetric] lt(3), of g] lt(1) n by simp
      moreover have "(ucast n :: u16) = of_nat (unat n)" by simp
      ultimately show ?thesis using k Suc.prems(3) by (simp add: counts1_def change_def)
    qed
    have "counts' ! g = change free (group_part (unat bpg) g (unat start) (unat start + unat len)) (counts ! g)" if "g < length counts0" for g
      using c'(3) that first [OF that] group_part_split [of "unat start" "unat stop" "unat start + unat len" "unat bpg" g] lt
      by (simp add: uend change_simps)
    then show ?thesis using run c'(1,2) by auto
  qed
qed

text \<open>
  With 1 KB blocks the groups begin at block 1: a range that begins with the last block of a group makes
  no progress, since the end of the group is computed without the first data block. The loop never ends.
\<close>

lemma group_counts_stuck:
  assumes start: "start = bpg * word_of_int (int k + 1)" "unat start + unat len < 2 ^ 32" and grp: "group_of start = int k" "k < length counts"
    and len: "len \<noteq> 0"
  shows "group_counts (Suc fuel) group_of bpg free start len counts = group_counts fuel group_of bpg free start len counts"
proof -
  have "unat (start + len) = unat start + unat len" using start(2) by (simp add: unat_word_ariths)
  then have stop: "min (bpg * word_of_int (group_of start + 1)) (start + len) = start"
    unfolding grp(1) start(1) [symmetric] by (simp add: min_absorb1 word_le_nat_alt)
  have "\<not> (group_of start < 0 \<or> nat (group_of start) \<ge> length counts)" using grp by simp
  then show ?thesis
    unfolding group_counts.simps(2) if_not_P [OF len] Let_def stop by (simp add: if_not_P grp(1))
qed

lemma group_counts_endless:
  assumes "start = bpg * word_of_int (int k + 1)" "unat start + unat len < 2 ^ 32" and "group_of start = int k" "k < length counts"
    and "len \<noteq> 0"
  shows "group_counts fuel group_of bpg free start len counts = Undefined"
proof (induction fuel)
  case (Suc fuel)
  have "group_counts (Suc fuel) group_of bpg free start len counts = group_counts fuel group_of bpg free start len counts"
    by (rule group_counts_stuck) (use assms in simp_all)
  then show ?case using Suc by simp
qed (simp add: assms(5))

section \<open>The whole update\<close>

definition in_ranges :: "(u32 \<times> u32) list \<Rightarrow> nat \<Rightarrow> bool" where
  "in_ranges rs x \<longleftrightarrow> (\<exists>(start, len)\<in>set rs. unat start \<le> x \<and> x < unat start + unat len)"

definition ranges_part :: "nat \<Rightarrow> (u32 \<times> u32) list \<Rightarrow> nat \<Rightarrow> nat" where
  "ranges_part p rs g = sum_list (map (\<lambda>(start, len). group_part p g (unat start) (unat start + unat len)) rs)"

lemma update_ranges_spec:
  assumes lib: "bitmap_ranges lib used" and bpg: "0 < unat bpg" "unat bpg * groups < 2 ^ 32"
    and grp: "\<And>b. bl_group lib b = int (unat b div unat bpg)"
  shows "\<forall>(start, len)\<in>set rs. unat start + unat len \<le> unat bpg * groups \<Longrightarrow> length counts = groups \<Longrightarrow>
    \<exists>m' counts'. update_ranges lib bpg free rs (m, counts) = Value (m', counts') \<and> length counts' = groups
      \<and> (\<forall>x. used m' x \<longleftrightarrow> (if in_ranges rs x then \<not> free else used m x))
      \<and> (\<forall>g<groups. counts' ! g = change free (ranges_part (unat bpg) rs g) (counts ! g))"
proof (induction rs arbitrary: m counts)
  case Nil
  then show ?case by (simp add: in_ranges_def ranges_part_def change_simps)
next
  case (Cons r rs)
  obtain start len where r: "r = (start, len)" by (cases r)
  have "unat start + unat len \<le> unat bpg * length counts" using Cons.prems by (simp add: r)
  from group_counts_spec [of bpg counts "bl_group lib" len "unat len" start counts free, OF bpg(1) _ grp order_refl this refl] bpg(2) Cons.prems(2)
  obtain counts1 where c1: "group_counts (unat len) (bl_group lib) bpg free start len counts = Value counts1" "length counts1 = groups"
    "\<forall>g<groups. counts1 ! g = change free (group_part (unat bpg) g (unat start) (unat start + unat len)) (counts ! g)"
    by auto
  let ?m = "if free then bl_unmark lib start len m else bl_mark lib start len m"
  have "\<forall>(start, len)\<in>set rs. unat start + unat len \<le> unat bpg * groups" using Cons.prems(1) by simp
  from Cons.IH [OF this c1(2), of ?m] obtain m' counts' where
    c': "update_ranges lib bpg free rs (?m, counts1) = Value (m', counts')" "length counts' = groups"
      "\<forall>x. used m' x \<longleftrightarrow> (if in_ranges rs x then \<not> free else used ?m x)"
      "\<forall>g<groups. counts' ! g = change free (ranges_part (unat bpg) rs g) (counts1 ! g)" by blast
  have "update_ranges lib bpg free (r # rs) (m, counts) = Value (m', counts')"
    unfolding r update_ranges.simps Let_def fst_conv snd_conv c1(1) and_then.simps c'(1) ..
  moreover have "used m' x \<longleftrightarrow> (if in_ranges (r # rs) x then \<not> free else used m x)" for x
    using c'(3) bitmap_ranges.used_update [OF lib, of free start len m x] by (auto simp: in_ranges_def r)
  moreover have "counts' ! g = change free (ranges_part (unat bpg) (r # rs) g) (counts ! g)" if "g < groups" for g
    using c'(4) c1(3) that by (simp add: ranges_part_def r change_simps)
  ultimately show ?case using c'(2) by blast
qed

definition new_ranges :: "free_extent list \<Rightarrow> (u32 \<times> u32) list" where
  "new_ranges fes = map (\<lambda>fe. (fe_block fe, fe_len fe)) fes"

definition old_ranges :: "inode_extents list \<Rightarrow> (u32 \<times> u32) list" where
  "old_ranges inos = map (\<lambda>e. (re_block e, re_len e)) (concat (map ix_extents inos))"

lemma update_bitmap_spec:
  assumes lib: "bitmap_ranges lib used" and bpg: "0 < unat bpg" "unat bpg * length counts < 2 ^ 32"
    and grp: "\<And>b. bl_group lib b = int (unat b div unat bpg)"
    and inside: "\<forall>(start, len)\<in>set (new_ranges fes @ old_ranges inos). unat start + unat len \<le> unat bpg * length counts"
  shows "update_bitmap lib bpg fes inos (m, counts) = Exit 1
    \<or> (\<exists>m' counts'. update_bitmap lib bpg fes inos (m, counts) = Value (m', counts') \<and> length counts' = length counts
        \<and> (\<forall>x. used m' x \<longleftrightarrow> (used m x \<or> in_ranges (new_ranges fes) x) \<and> \<not> in_ranges (old_ranges inos) x)
        \<and> (\<forall>g<length counts. counts' ! g = counts ! g - of_nat (ranges_part (unat bpg) (new_ranges fes) g)
              + of_nat (ranges_part (unat bpg) (old_ranges inos) g)))"
proof -
  have "\<forall>(start, len)\<in>set (new_ranges fes). unat start + unat len \<le> unat bpg * length counts" using inside by auto
  from update_ranges_spec [OF lib bpg grp this refl, of False m] obtain m1 counts1 where
    c1: "update_ranges lib bpg False (new_ranges fes) (m, counts) = Value (m1, counts1)" "length counts1 = length counts"
      "\<forall>x. used m1 x \<longleftrightarrow> (if in_ranges (new_ranges fes) x then \<not> False else used m x)"
      "\<forall>g<length counts. counts1 ! g = change False (ranges_part (unat bpg) (new_ranges fes) g) (counts ! g)" by blast
  have "\<forall>(start, len)\<in>set (old_ranges inos). unat start + unat len \<le> unat bpg * length counts" using inside by auto
  from update_ranges_spec [OF lib bpg grp this c1(2), of True m1] obtain m2 counts2 where
    c2: "update_ranges lib bpg True (old_ranges inos) (m1, counts1) = Value (m2, counts2)" "length counts2 = length counts"
      "\<forall>x. used m2 x \<longleftrightarrow> (if in_ranges (old_ranges inos) x then \<not> True else used m1 x)"
      "\<forall>g<length counts. counts2 ! g = change True (ranges_part (unat bpg) (old_ranges inos) g) (counts1 ! g)" by blast
  have run: "update_bitmap lib bpg fes inos (m, counts) = (if bl_write lib m2 then Value (m2, counts2) else Exit 1)"
    unfolding update_bitmap_def new_ranges_def [symmetric] old_ranges_def [symmetric] c1(1) and_then.simps c2(1) fst_conv ..
  have "\<forall>x. used m2 x \<longleftrightarrow> (used m x \<or> in_ranges (new_ranges fes) x) \<and> \<not> in_ranges (old_ranges inos) x"
    using c1(3) c2(3) by auto
  moreover have "\<forall>g<length counts. counts2 ! g = counts ! g - of_nat (ranges_part (unat bpg) (new_ranges fes) g)
              + of_nat (ranges_part (unat bpg) (old_ranges inos) g)"
    using c1(4) c2(4) by (simp add: change_def)
  ultimately show ?thesis unfolding run using c2(2) by (cases "bl_write lib m2") auto
qed

section \<open>The counts agree with the bitmap\<close>

definition ranges_apart :: "(u32 \<times> u32) list \<Rightarrow> bool" where
  "ranges_apart rs \<longleftrightarrow>
     sorted_wrt (\<lambda>(a, k) (b, l). unat a + unat k \<le> unat b \<or> unat b + unat l \<le> unat a) rs"

definition counts_agree :: "(nat \<Rightarrow> bool) \<Rightarrow> nat \<Rightarrow> u16 list \<Rightarrow> bool" where
  "counts_agree used blocks_per_group counts \<longleftrightarrow>
     (\<forall>g<length counts. counts ! g = of_nat (card {x. x div blocks_per_group = g \<and> \<not> used x}))"

lemma finite_group: "0 < p \<Longrightarrow> finite {x::nat. x div p = g}"
  by (rule finite_subset [of _ "{..<p * Suc g}"]) (auto simp: dividend_less_times_div)

lemma ranges_part_card:
  assumes p: "0 < p"
  shows "ranges_apart rs \<Longrightarrow> ranges_part p rs g = card {x. x div p = g \<and> in_ranges rs x}"
proof (induction rs)
  case Nil
  then show ?case by (simp add: ranges_part_def in_ranges_def)
next
  case (Cons r rs)
  obtain a k where r: "r = (a, k)" by (cases r)
  let ?A = "{x. unat a \<le> x \<and> x < unat a + unat k \<and> x div p = g}" and ?B = "{x. x div p = g \<and> in_ranges rs x}"
  have fin: "finite ?A" "finite ?B" by (rule finite_subset [OF _ finite_group [OF p, of g]], blast)+
  have apart: "\<forall>(b, l)\<in>set rs. unat a + unat k \<le> unat b \<or> unat b + unat l \<le> unat a" and rs: "ranges_apart rs"
    using Cons.prems by (auto simp: ranges_apart_def r)
  have "?A \<inter> ?B = {}" using apart by (fastforce simp: in_ranges_def)
  then have "card (?A \<union> ?B) = card ?A + card ?B" using fin by (simp add: card_Un_disjoint)
  moreover have "?A \<union> ?B = {x. x div p = g \<and> in_ranges (r # rs) x}" by (auto simp: in_ranges_def r)
  moreover have "ranges_part p (r # rs) g = card ?A + card ?B" using Cons.IH [OF rs] by (simp add: ranges_part_def r group_part_def)
  ultimately show ?case by simp
qed

lemma counts_agree_update:
  assumes p: "0 < p" and agree: "counts_agree used p counts" and len: "length counts' = length counts"
    and apart: "ranges_apart new" "ranges_apart old" and free: "\<And>x. in_ranges new x \<Longrightarrow> \<not> used x" and busy: "\<And>x. in_ranges old x \<Longrightarrow> used x"
    and used': "\<And>x. used' x \<longleftrightarrow> (used x \<or> in_ranges new x) \<and> \<not> in_ranges old x"
    and counts': "\<forall>g<length counts. counts' ! g = counts ! g - of_nat (ranges_part p new g) + of_nat (ranges_part p old g)"
  shows "counts_agree used' p counts'"
  unfolding counts_agree_def len
proof (intro allI impI)
  fix g assume g: "g < length counts"
  let ?F = "{x. x div p = g \<and> \<not> used x}" and ?N = "{x. x div p = g \<and> in_ranges new x}" and ?O = "{x. x div p = g \<and> in_ranges old x}"
  have fin: "finite ?F" "finite ?N" "finite ?O" by (rule finite_subset [OF _ finite_group [OF p, of g]], blast)+
  have sub: "?N \<subseteq> ?F" using free by blast
  have "{x. x div p = g \<and> \<not> used' x} = (?F - ?N) \<union> ?O" unfolding used' using busy free by blast
  moreover have "(?F - ?N) \<inter> ?O = {}" using busy by blast
  ultimately have "card {x. x div p = g \<and> \<not> used' x} = card ?F - card ?N + card ?O"
    using fin sub by (simp add: card_Un_disjoint card_Diff_subset)
  moreover have "card ?N \<le> card ?F" by (rule card_mono [OF fin(1) sub])
  ultimately have "(of_nat (card {x. x div p = g \<and> \<not> used' x}) :: u16) = of_nat (card ?F) - of_nat (card ?N) + of_nat (card ?O)"
    by (simp add: of_nat_diff)
  also have "\<dots> = counts' ! g"
    using counts' agree g apart by (simp add: counts_agree_def ranges_part_card [OF p])
  finally show "counts' ! g = of_nat (card {x. x div p = g \<and> \<not> used' x})" by simp
qed

text \<open>
  C29: \<open>update_bitmap\<close> keeps the counts of free blocks of all groups in agreement with the bitmap, when the
  new ranges are free and the old ones in use before, without overlap, and the groups begin at block 0.
\<close>

theorem update_bitmap_keeps_counts:
  assumes lib: "bitmap_ranges lib used" and bpg: "0 < unat bpg" "unat bpg * length counts < 2 ^ 32"
    and grp: "\<And>b. bl_group lib b = int (unat b div unat bpg)"
    and inside: "\<forall>(start, len)\<in>set (new_ranges fes @ old_ranges inos). unat start + unat len \<le> unat bpg * length counts"
    and apart: "ranges_apart (new_ranges fes)" "ranges_apart (old_ranges inos)"
    and free: "\<forall>x. in_ranges (new_ranges fes) x \<longrightarrow> \<not> used m x" and busy: "\<forall>x. in_ranges (old_ranges inos) x \<longrightarrow> used m x"
    and agree: "counts_agree (used m) (unat bpg) counts"
  shows "update_bitmap lib bpg fes inos (m, counts) = Exit 1
    \<or> (\<exists>m' counts'. update_bitmap lib bpg fes inos (m, counts) = Value (m', counts')
        \<and> (\<forall>x. used m' x \<longleftrightarrow> (used m x \<or> in_ranges (new_ranges fes) x) \<and> \<not> in_ranges (old_ranges inos) x)
        \<and> length counts' = length counts \<and> counts_agree (used m') (unat bpg) counts')"
  using update_bitmap_spec [OF lib bpg grp inside, of m]
proof
  assume "\<exists>m' counts'. update_bitmap lib bpg fes inos (m, counts) = Value (m', counts') \<and> length counts' = length counts
        \<and> (\<forall>x. used m' x \<longleftrightarrow> (used m x \<or> in_ranges (new_ranges fes) x) \<and> \<not> in_ranges (old_ranges inos) x)
        \<and> (\<forall>g<length counts. counts' ! g = counts ! g - of_nat (ranges_part (unat bpg) (new_ranges fes) g)
              + of_nat (ranges_part (unat bpg) (old_ranges inos) g))"
  then obtain m' counts' where u: "update_bitmap lib bpg fes inos (m, counts) = Value (m', counts')" "length counts' = length counts"
    "\<And>x. used m' x \<longleftrightarrow> (used m x \<or> in_ranges (new_ranges fes) x) \<and> \<not> in_ranges (old_ranges inos) x"
    "\<forall>g<length counts. counts' ! g = counts ! g - of_nat (ranges_part (unat bpg) (new_ranges fes) g)
        + of_nat (ranges_part (unat bpg) (old_ranges inos) g)" by blast
  have "counts_agree (used m') (unat bpg) counts'"
    by (rule counts_agree_update [OF bpg(1) agree u(2) apart _ _ u(3,4)]) (use free busy in blast)+
  then show ?thesis using u(1-3) by blast
qed blast

text \<open>Groups of 8 blocks: blocks 1 to 4 move to 9 to 12.\<close>

definition two_fes :: "free_extent list" where
  "two_fes = [\<lparr>fe_block = 9, fe_len = 4, fe_offset = 0\<rparr>]"

definition two_inos :: "inode_extents list" where
  "two_inos = [\<lparr>ix_ino = 12, ix_extents = [\<lparr>re_block = 1, re_len = 4, re_offset = 0, re_chunk_offset = 0\<rparr>]\<rparr>]"

theorem update_bitmap_keeps_counts_witness:
  "\<exists>m' counts'. update_bitmap (plain_lib 8) 8 two_fes two_inos (\<lambda>x. x < 5, [3, 8]) = Value (m', counts')
     \<and> counts' = [7, 4] \<and> counts_agree m' 8 counts'"
proof -
  have run: "case update_bitmap (plain_lib 8) 8 two_fes two_inos (\<lambda>x. x < 5, [3, 8]) of
      Value (m', counts') \<Rightarrow> counts' = [7, 4] | _ \<Rightarrow> False" by code_simp
  have new: "new_ranges two_fes = [(9, 4)]" and old: "old_ranges two_inos = [(1, 4)]"
    by (simp_all add: new_ranges_def old_ranges_def two_fes_def two_inos_def)
  have "{x::nat. x div 8 = 0 \<and> \<not> x < 5} = {5, 6, 7}" "{x::nat. x div 8 = 1 \<and> \<not> x < 5} = {8..<16}" by auto
  then have agree: "counts_agree (\<lambda>x. x < 5) (unat (8 :: u32)) [3, 8]"
    by (auto simp: counts_agree_def less_Suc_eq)
  show ?thesis
    using update_bitmap_keeps_counts [of "plain_lib 8" "\<lambda>m. m" 8 "[3, 8]" two_fes two_inos "\<lambda>x. x < 5", OF plain.bitmap_ranges_axioms _ _ _ _ _ _ _ _ agree] run
    by (auto simp: new old ranges_apart_def in_ranges_def plain_lib_def)
qed

end
