(* ===== verification/E2remap_Lines.thy ===== *)
theory E2remap_Lines
  imports E2remap_Load
begin

text \<open>
  What \<open>load_extents\<close> makes of its input: every block belongs to the first line that claims it. The
  loop for one line serves a range of blocks, in rounds that each find the extent next to the rest of
  the range; a tree of disjoint extents stays one.
\<close>

section \<open>One round\<close>

text \<open>The outcome that a range of blocks is to have: it is given up, or its free blocks are claimed.\<close>

definition served ::
  "remap_state \<Rightarrow> u32 set \<Rightarrow> bool \<Rightarrow> int \<Rightarrow> nat \<Rightarrow> int \<Rightarrow> u32 \<Rightarrow> remap_state run_result \<Rightarrow> bool" where
  "served s A good b n offset ino res \<longleftrightarrow> res = Exit 1
     \<or> (\<exists>s'. res = Value s' \<and> ready A s' \<and> claims s' = claims s \<union> fresh_claims good (re_covered s) b n offset ino)"

lemma served_then:
  assumes rdy: "ready A s" and r: "served s A good b m offset ino res"
    and f: "\<And>s'. ready A s' \<Longrightarrow> (\<And>x. x \<in> re_covered s' \<longleftrightarrow> x \<in> re_covered s \<or> good \<and> b \<le> int x \<and> int x < b + int m)
      \<Longrightarrow> served s' A good (b + int m) n (offset + int m) ino (f s')"
  shows "served s A good b (m + n) offset ino (and_then res f)"
proof (cases "res = Exit 1")
  case True
  then show ?thesis by (simp add: served_def)
next
  case False
  then obtain s' where s': "res = Value s'" "ready A s'" "claims s' = claims s \<union> fresh_claims good (re_covered s) b m offset ino"
    using r by (auto simp: served_def)
  have inv: "load_inv s" "load_inv s'" using rdy s'(2) by (simp_all add: ready_def)
  note cov = covered_step [OF inv s'(3)]
  have "fresh_claims good (re_covered s') (b + int m) n (offset + int m) ino
      = fresh_claims good (re_covered s) (b + int m) n (offset + int m) ino"
    by (rule fresh_claims_cong) (use cov in auto)
  then show ?thesis using f [OF s'(2) cov] s' by (auto simp: served_def fresh_claims_split)
qed

lemma served_covered:
  "ready A s \<Longrightarrow> (\<And>x. b \<le> int x \<Longrightarrow> int x < b + int n \<Longrightarrow> x \<in> re_covered s) \<Longrightarrow> served s A good b n offset ino (Value s)"
  unfolding served_def by (simp add: fresh_claims_none)

lemma served_splay:
  "served (s\<lparr>rs_tree := extent_splay w (rs_tree s)\<rparr>) A good b n offset ino res \<Longrightarrow> ready A s
    \<Longrightarrow> served s A good b n offset ino res"
  by (simp add: served_def ready_splay(2,3))

lemma served_insert:
  "ready A s \<Longrightarrow> ino \<in> A \<Longrightarrow> 0 \<le> b \<Longrightarrow> 0 < unat len \<Longrightarrow> b + int (unat len) < 2 ^ 32
    \<Longrightarrow> \<forall>e\<in>set (inorder (rs_tree s)). int (ext_stop e) \<le> b \<or> b + int (unat len) \<le> int (ext_start e)
    \<Longrightarrow> served s A (good_inode first_ino ino) b (unat len) offset ino (insert_new_extent first_ino (word_of_int b) len offset ino s)"
  unfolding served_def by (rule insert_any)

lemma unat_word_gap: "0 \<le> g \<Longrightarrow> g \<le> int (unat (len::u32)) \<Longrightarrow> unat (word_of_int g :: u32) = nat g \<and> unat (len - word_of_int g) = unat len - nat g"
proof -
  assume g: "0 \<le> g" "g \<le> int (unat len)"
  have "int (unat len) < 2 ^ 32" using unsigned_less [of len, where ?'a = int] by simp
  then have "uint (word_of_int g :: u32) = g" using g by (simp add: uint_word_of_int)
  then have u: "unat (word_of_int g :: u32) = nat g" by (simp add: unat_eq_nat_uint)
  then have "word_of_int g \<le> len" using g by (simp add: word_le_nat_alt nat_le_iff)
  then show ?thesis using u unat_sub_le [of "word_of_int g" len] by simp
qed

text \<open>What the rest of the rounds has to do.\<close>

definition serves :: "u32 set \<Rightarrow> bool \<Rightarrow> u32 \<Rightarrow> (int \<Rightarrow> u32 \<Rightarrow> int \<Rightarrow> remap_state \<Rightarrow> remap_state run_result) \<Rightarrow> nat \<Rightarrow> bool" where
  "serves A good ino again n \<longleftrightarrow> (\<forall>b len offset s. unat len \<le> n \<longrightarrow> ready A s \<longrightarrow> 0 \<le> b \<longrightarrow> b + int (unat len) < 2 ^ 32
     \<longrightarrow> served s A good b (unat len) offset ino (again b len offset s))"

lemma servesD:
  "serves A good ino again n \<Longrightarrow> unat len \<le> n \<Longrightarrow> ready A s \<Longrightarrow> 0 \<le> b \<Longrightarrow> b + int (unat len) < 2 ^ 32
    \<Longrightarrow> served s A good b (unat len) offset ino (again b len offset s)"
  unfolding serves_def by blast

text \<open>The range starts in the extent \<open>e\<close>.\<close>

lemma served_inside:
  assumes rdy: "ready A s" and e: "ext_stop e < 2 ^ 32" "int (ext_start e) \<le> b" "b < int (ext_stop e)"
    and cov: "{ext_start e..<ext_stop e} \<subseteq> re_covered s"
    and b: "0 \<le> b" "b + int (unat len) < 2 ^ 32" "unat len \<le> Suc n"
    and again: "serves A good ino again n"
  shows "served s A good b (unat len) offset ino
    (if uint (re_end e) \<ge> b + uint len then Value s
     else again (uint (re_end e)) (len - word_of_int (uint (re_end e) - b)) (offset + (uint (re_end e) - b)) s)"
proof -
  have re: "uint (re_end e) = int (ext_stop e)" using unat_re_end [OF e(1)] by (simp add: uint_nat)
  have ul: "uint len = int (unat len)" by simp
  have in_cov: "x \<in> re_covered s" if "b \<le> int x" "int x < int (ext_stop e)" for x
    using cov that e(2) by (auto simp: subset_iff)
  show ?thesis
  proof (cases "int (ext_stop e) \<ge> b + int (unat len)")
    case True
    have "served s A good b (unat len) offset ino (Value s)"
      using rdy by (rule served_covered) (use in_cov True in force)
    then show ?thesis using True unfolding re ul by simp
  next
    case False
    define d where "d = nat (int (ext_stop e) - b)"
    have d: "int d = int (ext_stop e) - b" "0 < d" "d < unat len"
      unfolding d_def using e False by linarith+
    have ld: "unat (len - word_of_int (int d)) = unat len - d"
    proof -
      have "0 \<le> int d" "int d \<le> int (unat len)" using d(3) unfolding of_nat_le_iff by linarith+
      from unat_word_gap [OF this] show ?thesis by (simp only: nat_int)
    qed
    have "served s A good b (d + unat (len - word_of_int (int d))) offset ino
        (and_then (Value s) (again (b + int d) (len - word_of_int (int d)) (offset + int d)))"
    proof (rule served_then [OF rdy])
      show "served s A good b d offset ino (Value s)"
        using rdy by (rule served_covered) (use in_cov d in force)
      fix s' assume "ready A s'"
      then show "served s' A good (b + int d) (unat (len - word_of_int (int d))) (offset + int d) ino
          (again (b + int d) (len - word_of_int (int d)) (offset + int d) s')"
        using again by (intro servesD) (use d ld b in auto)
    qed
    moreover have "d + (unat len - d) = unat len" "b + int d = int (ext_stop e)" using d by linarith+
    ultimately show ?thesis using False unfolding re ul ld d(1) [symmetric] by simp
  qed
qed

text \<open>
  A round in which the root does not end before the range: it serves the range or leaves a shorter
  one.
\<close>

lemma load_round_near:
  assumes rdy: "ready A s" and ino: "ino \<in> A"
    and b: "0 \<le> b" "b + int (unat len) < 2 ^ 32" "0 < unat len" "unat len \<le> Suc n"
    and sp: "extent_splay (word_of_int b) (rs_tree s) = Node l e r"
    and near: "b < int (ext_stop e)"
    and again: "serves A (good_inode first_ino ino) ino again n"
  shows "served s A (good_inode first_ino ino) b (unat len) offset ino (load_round again first_ino ino b len offset s)"
proof -
  define s1 where "s1 = s\<lparr>rs_tree := extent_splay (word_of_int b) (rs_tree s)\<rparr>"
  have rdy1: "ready A s1" unfolding s1_def by (rule ready_splay(1) [OF rdy])
  have s1': "s1 = s\<lparr>rs_tree := Node l e r\<rparr>" by (simp add: s1_def sp)
  have t1: "rs_tree s1 = Node l e r" by (simp add: s1_def sp)
  have ord: "ordered (inorder (rs_tree s))" using rdy by (simp add: ready_def load_inv_def)
  have ne: "rs_tree s \<noteq> Leaf" using sp by (auto simp: extent_splay_def)
  note N = near_neighbours [OF ord ne sp]
  have b32: "b < 2 ^ 32" using b(2,3) by linarith
  note ub = unat_of_small [OF b(1) b32]
  have eo: "ext_start e < ext_stop e" "ext_stop e < 2 ^ 32"
    "\<And>f. f \<in> set (inorder r) \<Longrightarrow> ext_stop e \<le> ext_start f"
    using ord unfolding N(1) by (auto simp: ordered_simps)
  have cov1: "{ext_start e..<ext_stop e} \<subseteq> re_covered s1" by (auto simp: re_covered_def t1)
  have rb: "uint (re_block e) = int (ext_start e)" by (simp add: ext_start_def)
  have ul: "uint len = int (unat len)" by simp
  have re: "uint (re_end e) = int (ext_stop e)" using unat_re_end [OF eo(2)] by (simp add: uint_nat)
  have before: "int (ext_stop f) \<le> b" if "f \<in> set (inorder l)" "b < int (ext_start e)" for f
  proof -
    have "unat (word_of_int b :: u32) < ext_start e" using that(2) ub by linarith
    then have "ext_stop f \<le> unat (word_of_int b :: u32)" using N(2) that(1) by blast
    then show ?thesis using ub by linarith
  qed
  have free: "\<forall>f\<in>set (inorder (rs_tree s1)). int (ext_stop f) \<le> b \<or> b + m \<le> int (ext_start f)"
    if "b < int (ext_start e)" "b + m \<le> int (ext_start e)" for m
  proof
    fix f assume "f \<in> set (inorder (rs_tree s1))"
    then consider "f \<in> set (inorder l)" | "f = e" | "f \<in> set (inorder r)" unfolding t1 by auto
    then show "int (ext_stop f) \<le> b \<or> b + m \<le> int (ext_start f)"
    proof cases
      case 3
      then have "ext_start e \<le> ext_start f" using eo(1) eo(3) by fastforce
      then show ?thesis using that(2) by linarith
    qed (use before that in blast)+
  qed
  have "served s1 A (good_inode first_ino ino) b (unat len) offset ino (load_round again first_ino ino b len offset s)"
  proof (cases "b < int (ext_start e) \<and> b + int (unat len) < int (ext_start e)")
    case True
    then have "load_round again first_ino ino b len offset s = insert_new_extent first_ino (word_of_int b) len offset ino s1"
      unfolding load_round_def Let_def sp tree.case rb ul s1' [symmetric] by (simp only: if_True simp_thms)
    then show ?thesis using served_insert [OF rdy1 ino b(1,3,2)] free True by simp
  next
    case F: False
    define g where "g = (if b < int (ext_start e) then int (ext_start e) - b else 0)"
    have g: "0 \<le> g" "g \<le> int (unat len)" "int (ext_start e) \<le> b + g" "b + g < int (ext_stop e)"
      using F eo(1) near unfolding g_def by (auto split: if_splits)
    note ug = unat_word_gap [OF g(1,2)]
    have split: "unat len = nat g + unat (len - word_of_int g)" using ug g by linarith
    let ?first = "if b < int (ext_start e) then insert_new_extent first_ino (word_of_int b) (word_of_int g) offset ino s1 else Value s1"
    have inside: "int (ext_start e) \<le> b + g \<and> b + g < int (ext_stop e)" using g by blast
    have run: "load_round again first_ino ino b len offset s = and_then ?first (\<lambda>s.
        if uint (re_end e) \<ge> (b + g) + uint (len - word_of_int g) then Value s
        else again (uint (re_end e)) (len - word_of_int g - word_of_int (uint (re_end e) - (b + g)))
          (offset + g + (uint (re_end e) - (b + g))) s)"
      unfolding load_round_def Let_def sp tree.case rb s1' [symmetric] g_def [symmetric] re
      unfolding ul if_not_P [OF F] if_P [OF inside] by (simp add: g_def)
    have "served s1 A (good_inode first_ino ino) b (nat g + unat (len - word_of_int g)) offset ino
        (load_round again first_ino ino b len offset s)"
      unfolding run
    proof (rule served_then [OF rdy1])
      show "served s1 A (good_inode first_ino ino) b (nat g) offset ino ?first"
      proof (cases "b < int (ext_start e)")
        case True
        then have "0 < nat g" "b + int (nat g) \<le> int (ext_start e)" "b + int (nat g) < 2 ^ 32"
          using g eo b(2) by (auto simp: g_def)
        then have "served s1 A (good_inode first_ino ino) b (unat (word_of_int g :: u32)) offset ino
            (insert_new_extent first_ino (word_of_int b) (word_of_int g) offset ino s1)"
          using ug free [OF True, of "int (nat g)"] by (intro served_insert [OF rdy1 ino b(1)]) auto
        then show ?thesis using True ug by simp
      next
        case False
        then have z: "nat g = 0" by (simp add: g_def)
        show ?thesis unfolding z using False rdy1 by (auto intro: served_covered)
      qed
      fix s' assume s': "ready A s'"
        and cov: "\<And>x. x \<in> re_covered s' \<longleftrightarrow> x \<in> re_covered s1 \<or> good_inode first_ino ino \<and> b \<le> int x \<and> int x < b + int (nat g)"
      have cov': "{ext_start e..<ext_stop e} \<subseteq> re_covered s'" using cov cov1 by blast
      have "served s' A (good_inode first_ino ino) (b + g) (unat (len - word_of_int g)) (offset + g) ino
          (if uint (re_end e) \<ge> (b + g) + uint (len - word_of_int g) then Value s'
           else again (uint (re_end e)) (len - word_of_int g - word_of_int (uint (re_end e) - (b + g)))
             (offset + g + (uint (re_end e) - (b + g))) s')"
        using b g split by (intro served_inside [OF s' eo(2) g(3,4) cov' _ _ _ again]) linarith+
      then show "served s' A (good_inode first_ino ino) (b + int (nat g)) (unat (len - word_of_int g)) (offset + int (nat g)) ino
          (if uint (re_end e) \<ge> (b + g) + uint (len - word_of_int g) then Value s'
           else again (uint (re_end e)) (len - word_of_int g - word_of_int (uint (re_end e) - (b + g)))
             (offset + g + (uint (re_end e) - (b + g))) s')"
        using g(1) by simp
    qed
    then show ?thesis using split by simp
  qed
  then show ?thesis using rdy unfolding s1_def by (rule served_splay)
qed

text \<open>
  A round in which the root ends before the range: it serves the range when nothing follows the root,
  and leaves it to the next round otherwise, which finds an extent behind.
\<close>

lemma load_round_behind:
  assumes rdy: "ready A s" and ino: "ino \<in> A"
    and b: "0 \<le> b" "b + int (unat len) < 2 ^ 32" "0 < unat len" "unat len \<le> Suc n"
    and sp: "extent_splay (word_of_int b) (rs_tree s) = Node l e r"
    and behind: "int (ext_stop e) \<le> b"
    and again: "serves A (good_inode first_ino ino) ino again n"
    and first: "first b len offset (s\<lparr>rs_tree := Node l e r\<rparr>) = load_round again first_ino ino b len offset (s\<lparr>rs_tree := Node l e r\<rparr>)"
  shows "served s A (good_inode first_ino ino) b (unat len) offset ino (load_round first first_ino ino b len offset s)"
proof -
  define s1 where "s1 = s\<lparr>rs_tree := extent_splay (word_of_int b) (rs_tree s)\<rparr>"
  have rdy1: "ready A s1" unfolding s1_def by (rule ready_splay(1) [OF rdy])
  have s1': "s1 = s\<lparr>rs_tree := Node l e r\<rparr>" by (simp add: s1_def sp)
  have t1: "rs_tree s1 = Node l e r" by (simp add: s1')
  have ord: "ordered (inorder (rs_tree s))" using rdy by (simp add: ready_def load_inv_def)
  have ne: "rs_tree s \<noteq> Leaf" using sp by (auto simp: extent_splay_def)
  note N = near_neighbours [OF ord ne sp]
  have b32: "b < 2 ^ 32" using b(2,3) by linarith
  note ub = unat_of_small [OF b(1) b32]
  have eo: "ext_start e < ext_stop e" "ext_stop e < 2 ^ 32" "\<And>f. f \<in> set (inorder l) \<Longrightarrow> ext_stop f \<le> ext_start e"
    using ord unfolding N(1) by (auto simp: ordered_simps)
  have rb: "uint (re_block e) = int (ext_start e)" by (simp add: ext_start_def)
  have re: "uint (re_end e) = int (ext_stop e)" using unat_re_end [OF eo(2)] by (simp add: uint_nat)
  have tests: "\<not> b < int (ext_start e)" "\<not> (int (ext_start e) \<le> b \<and> b < int (ext_stop e))"
    using eo(1) behind by linarith+
  have right: "right_subtree e (rs_tree s1) = r" by (simp add: t1)
  have run: "load_round first first_ino ino b len offset s =
      (if r = Leaf then insert_new_extent first_ino (word_of_int b) len offset ino s1 else first b len offset s1)"
    unfolding load_round_def Let_def sp tree.case s1' [symmetric] rb re
    using tests by (simp add: right)
  have stop: "ext_stop e \<le> unat (word_of_int b :: u32)" using ub behind by linarith
  have "served s1 A (good_inode first_ino ino) b (unat len) offset ino (load_round first first_ino ino b len offset s)"
  proof (cases "r = Leaf")
    case True
    have "\<forall>f\<in>set (inorder (rs_tree s1)). int (ext_stop f) \<le> b \<or> b + int (unat len) \<le> int (ext_start f)"
      unfolding t1 True using eo behind by fastforce
    then have "served s1 A (good_inode first_ino ino) b (unat len) offset ino (insert_new_extent first_ino (word_of_int b) len offset ino s1)"
      by (rule served_insert [OF rdy1 ino b(1,3,2)])
    then show ?thesis using run True by simp
  next
    case False
    have ord1: "ordered (inorder (Node l e r))" using ord N(1) by simp
    obtain l' e' r' where sp': "extent_splay (word_of_int b) (Node l e r) = Node l' e' r'" "unat (word_of_int b :: u32) < ext_start e'"
      using splay_right_root [OF ord1 False stop N(3) [OF stop]] by blast
    have sp1: "extent_splay (word_of_int b) (rs_tree s1) = Node l' e' r'" using sp'(1) t1 by simp
    have "ordered (inorder (extent_splay (word_of_int b) (Node l e r)))" using ord1 by (simp only: inorder_splay)
    then have "ext_start e' < ext_stop e'" unfolding sp' by (simp add: ordered_simps)
    then have "b < int (ext_stop e')" using sp'(2) ub by linarith
    from load_round_near [OF rdy1 ino b sp1 this again]
    show ?thesis using run False first unfolding s1' by simp
  qed
  then show ?thesis using rdy unfolding s1_def by (rule served_splay)
qed

text \<open>The loop serves its range.\<close>

lemma load_line_serves:
  assumes ino: "ino \<in> A"
  shows "2 * n + 1 \<le> fuel \<Longrightarrow> serves A (good_inode first_ino ino) ino (load_line fuel first_ino ino) n"
proof (induction n arbitrary: fuel)
  case 0
  then obtain f where "fuel = Suc f" by (cases fuel) auto
  then show ?case unfolding serves_def by (auto simp: unsigned_eq_0_iff intro: served_covered)
next
  case (Suc n)
  then obtain f where f: "fuel = Suc (Suc f)" "2 * n + 1 \<le> f" by (cases fuel; cases "fuel - 1") auto
  show ?case
    unfolding serves_def
  proof (intro allI impI)
    fix b :: int and len :: u32 and offset :: int and s :: remap_state
    assume len: "unat len \<le> Suc n" and rdy: "ready A s" and b: "0 \<le> b" "b + int (unat len) < 2 ^ 32"
    let ?res = "load_line fuel first_ino ino b len offset s"
    show "served s A (good_inode first_ino ino) b (unat len) offset ino ?res"
    proof (cases "len = 0")
      case True
      then show ?thesis using rdy f by (auto intro: served_covered)
    next
      case False
      then have pos: "0 < unat len" by (simp add: unat_gt_0)
      have res: "?res = load_round (load_line (Suc f) first_ino ino) first_ino ino b len offset s"
        using False f(1) by simp
      have next_round: "load_line (Suc f) first_ino ino b len offset s' = load_round (load_line f first_ino ino) first_ino ino b len offset s'" for s'
        using False by simp
      show ?thesis
      proof (cases "extent_splay (word_of_int b) (rs_tree s)")
        case Leaf
        have "ordered (inorder (rs_tree s))" using rdy by (simp add: ready_def load_inv_def)
        then have t: "rs_tree s = Leaf" using Leaf extent_splay_not_Leaf by blast
        then have s: "s\<lparr>rs_tree := Leaf\<rparr> = s" by simp
        have "load_round (load_line (Suc f) first_ino ino) first_ino ino b len offset s = insert_new_extent first_ino (word_of_int b) len offset ino s"
          unfolding load_round_def Let_def Leaf s by simp
        then show ?thesis unfolding res using served_insert [OF rdy ino b(1) pos b(2)] t by simp
      next
        case (Node l e r)
        show ?thesis
        proof (cases "b < int (ext_stop e)")
          case True
          have "serves A (good_inode first_ino ino) ino (load_line (Suc f) first_ino ino) n" using f(2) by (intro Suc.IH) simp
          from load_round_near [OF rdy ino b pos len Node True this] show ?thesis unfolding res .
        next
          case F: False
          then have "int (ext_stop e) \<le> b" by simp
          then show ?thesis
            unfolding res using next_round
            by (rule load_round_behind [OF rdy ino b pos len Node _ Suc.IH [OF f(2)]])
        qed
      qed
    qed
  qed
qed

section \<open>The whole input\<close>

text \<open>
  The promise: a block goes to the first line that names it for an inode that may be moved, with the
  offset that the line gives it.
\<close>

fun line_claims :: "u32 \<Rightarrow> remap_line \<Rightarrow> (nat \<times> u32 \<times> int) set \<Rightarrow> (nat \<times> u32 \<times> int) set" where
  "line_claims first_ino (Extent_in blocknr len offset ino) C =
     C \<union> (if good_inode first_ino ino
          then (\<lambda>j. (nat blocknr + j, ino, offset + int j)) ` {j. j < unat len \<and> nat blocknr + j \<notin> fst ` C} else {})"
| "line_claims first_ino _ C = C"

definition first_claims :: "u32 \<Rightarrow> remap_line list \<Rightarrow> (nat \<times> u32 \<times> int) set" where
  "first_claims first_ino lines = fold (line_claims first_ino) lines {}"

text \<open>Lines within the range of block numbers, and the inodes they name.\<close>

fun line_ok :: "remap_line \<Rightarrow> bool" where
  "line_ok (Extent_in blocknr len offset ino) \<longleftrightarrow> 0 \<le> blocknr \<and> blocknr + int (unat len) < 2 ^ 32"
| "line_ok _ \<longleftrightarrow> True"

fun line_inodes :: "remap_line \<Rightarrow> u32 set" where
  "line_inodes (Extent_in blocknr len offset ino) = {ino}"
| "line_inodes _ = {}"

lemma fresh_line_claims:
  assumes "load_inv s" and "0 \<le> blocknr"
  shows "claims s \<union> fresh_claims (good_inode first_ino ino) (re_covered s) blocknr (unat len) offset ino
    = line_claims first_ino (Extent_in blocknr len offset ino) (claims s)"
proof -
  have cov: "x \<in> re_covered s \<longleftrightarrow> x \<in> fst ` claims s" for x
    unfolding covered_claims [OF assms(1)] by force
  have "fresh_claims True (re_covered s) blocknr (unat len) offset ino
      = (\<lambda>j. (nat blocknr + j, ino, offset + int j)) ` {j. j < unat len \<and> nat blocknr + j \<notin> fst ` claims s}"
  proof (rule set_eqI)
    fix p :: "nat \<times> u32 \<times> int"
    obtain x i off where p: "p = (x, i, off)" by (cases p)
    have "(\<exists>j<unat len. x = nat blocknr + j \<and> off = offset + int j \<and> x \<notin> fst ` claims s)
      \<longleftrightarrow> off = offset + (int x - blocknr) \<and> blocknr \<le> int x \<and> int x < blocknr + int (unat len) \<and> x \<notin> fst ` claims s"
    proof
      assume "off = offset + (int x - blocknr) \<and> blocknr \<le> int x \<and> int x < blocknr + int (unat len) \<and> x \<notin> fst ` claims s"
      moreover from this have "x - nat blocknr < unat len" "x = nat blocknr + (x - nat blocknr)" "int x - blocknr = int (x - nat blocknr)"
        using assms(2) by linarith+
      ultimately show "\<exists>j<unat len. x = nat blocknr + j \<and> off = offset + int j \<and> x \<notin> fst ` claims s" by metis
    next
      assume "\<exists>j<unat len. x = nat blocknr + j \<and> off = offset + int j \<and> x \<notin> fst ` claims s"
      then obtain j where "j < unat len" "x = nat blocknr + j" "off = offset + int j" "x \<notin> fst ` claims s" by blast
      moreover from this have "int x < blocknr + int (unat len)" using assms(2) by linarith
      ultimately show "off = offset + (int x - blocknr) \<and> blocknr \<le> int x \<and> int x < blocknr + int (unat len) \<and> x \<notin> fst ` claims s"
        using assms(2) by simp
    qed
    then show "p \<in> fresh_claims True (re_covered s) blocknr (unat len) offset ino
      \<longleftrightarrow> p \<in> (\<lambda>j. (nat blocknr + j, ino, offset + int j)) ` {j. j < unat len \<and> nat blocknr + j \<notin> fst ` claims s}"
      unfolding p fresh_claims_def cov by auto
  qed
  then show ?thesis by (cases "good_inode first_ino ino") (simp_all add: fresh_claims_def)
qed

lemma load_one_spec:
  assumes rdy: "ready A s" and line: "line_ok line" "line_inodes line \<subseteq> A"
  shows "load_one first_ino line s = Exit 1
    \<or> (\<exists>s'. load_one first_ino line s = Value s' \<and> ready A s' \<and> claims s' = line_claims first_ino line (claims s))"
proof (cases line)
  case (Extent_in blocknr len offset ino)
  then have b: "ino \<in> A" "0 \<le> blocknr" "blocknr + int (unat len) < 2 ^ 32" using line by auto
  have "serves A (good_inode first_ino ino) ino (load_line (2 * unat len + 1) first_ino ino) (unat len)"
    by (rule load_line_serves [OF b(1)]) simp
  from servesD [OF this _ rdy b(2,3), of offset]
  have "served s A (good_inode first_ino ino) blocknr (unat len) offset ino (load_one first_ino line s)"
    by (simp add: load_one_def Extent_in)
  moreover have "load_inv s" using rdy by (simp add: ready_def)
  ultimately show ?thesis unfolding served_def fresh_line_claims [OF \<open>load_inv s\<close> b(2)] Extent_in by blast
qed (use rdy in \<open>auto simp: load_one_def\<close>)

lemma load_lines_spec:
  assumes "ready A s" and "\<forall>line\<in>set lines. line_ok line \<and> line_inodes line \<subseteq> A"
  shows "load_lines first_ino lines s = Exit 1
    \<or> (\<exists>s'. load_lines first_ino lines s = Value s' \<and> ready A s' \<and> claims s' = fold (line_claims first_ino) lines (claims s))"
  using assms
proof (induction lines arbitrary: s)
  case (Cons line lines)
  have "load_one first_ino line s = Exit 1
    \<or> (\<exists>s'. load_one first_ino line s = Value s' \<and> ready A s' \<and> claims s' = line_claims first_ino line (claims s))"
    using Cons.prems by (intro load_one_spec) auto
  then show ?case
  proof
    assume "\<exists>s'. load_one first_ino line s = Value s' \<and> ready A s' \<and> claims s' = line_claims first_ino line (claims s)"
    then obtain s' where s': "load_one first_ino line s = Value s'" "ready A s'" "claims s' = line_claims first_ino line (claims s)"
      by blast
    have "\<forall>line\<in>set lines. line_ok line \<and> line_inodes line \<subseteq> A" using Cons.prems(2) by simp
    from Cons.IH [OF s'(2) this] show ?thesis by (simp add: s'(1,3))
  qed simp
qed auto

text \<open>The state before the first line, with memory for \<open>n\<close> allocations.\<close>

definition remap_start :: "nat \<Rightarrow> remap_state" where
  "remap_start n = \<lparr>rs_tree = Leaf, rs_inodes = [], rs_allocated = 0, rs_gen = 0, rs_hash = [], rs_blocks = 0, rs_allocs = n\<rparr>"

lemma ready_start:
  assumes "0 < inode_hash_size" and "finite A" and "int (card A) \<le> INODE_ALLOC_ENTRIES"
  shows "ready A ((remap_start n)\<lparr>rs_hash := replicate (unat (inode_hash_size :: u32)) (Some [])\<rparr>)"
proof -
  have "0 < unat inode_hash_size" using assms(1) by (simp add: word_less_nat_alt)
  then show ?thesis
    using assms(2,3) by (simp add: ready_def load_inv_def hash_fits_def remap_start_def ordered_simps numbered_def)
qed

lemma load_extents_spec:
  assumes "0 < inode_hash_size" and "\<forall>line\<in>set (input_lines input). line_ok line"
    and "int (card (\<Union>line\<in>set (input_lines input). line_inodes line)) \<le> INODE_ALLOC_ENTRIES"
  shows "load_extents first_ino inode_hash_size True input (remap_start n) = Exit 1
    \<or> (\<exists>s. load_extents first_ino inode_hash_size True input (remap_start n) = Value s \<and> load_inv s \<and> rs_hash s = []
         \<and> claims s = first_claims first_ino (input_lines input))"
proof (cases n)
  case 0
  then show ?thesis by (simp add: load_extents_def remap_alloc_def remap_start_def)
next
  case (Suc m)
  let ?A = "\<Union>line\<in>set (input_lines input). line_inodes line"
  have fin: "finite (line_inodes line)" for line by (cases line) auto
  define s0 where "s0 = (remap_start m)\<lparr>rs_hash := replicate (unat inode_hash_size) (Some [])\<rparr>"
  have "finite ?A" using fin by blast
  then have rdy: "ready ?A s0"
    unfolding s0_def using assms(1,3) by (intro ready_start)
  have empty: "claims s0 = {}" by (simp add: s0_def claims_def remap_start_def)
  have run: "load_extents first_ino inode_hash_size True input (remap_start n)
      = and_then (load_lines first_ino (input_lines input) s0) (\<lambda>s. Value (s\<lparr>rs_hash := []\<rparr>))"
    by (simp add: load_extents_def remap_alloc_def remap_start_def s0_def Suc)
  have "\<forall>line\<in>set (input_lines input). line_ok line \<and> line_inodes line \<subseteq> ?A" using assms(2) by blast
  from load_lines_spec [OF rdy this, of first_ino] show ?thesis
  proof
    assume "\<exists>s'. load_lines first_ino (input_lines input) s0 = Value s' \<and> ready ?A s'
      \<and> claims s' = fold (line_claims first_ino) (input_lines input) (claims s0)"
    then obtain s' where s': "load_lines first_ino (input_lines input) s0 = Value s'" "ready ?A s'"
      "claims s' = first_claims first_ino (input_lines input)"
      by (auto simp: first_claims_def empty)
    moreover have "load_inv (s'\<lparr>rs_hash := []\<rparr>)" 
    proof -
      have "load_inv (s'\<lparr>rs_hash := []\<rparr>) = load_inv s'" by (simp add: load_inv_def)
      then show ?thesis using s'(2) by (simp add: ready_def)
    qed
    moreover have "claims (s'\<lparr>rs_hash := []\<rparr>) = claims s'" by (simp add: claims_def)
    ultimately show ?thesis using run by simp
  qed (use run in simp)
qed

text \<open>
  C27: for an input whose lines stay within the range of block numbers and name at most 8192 inodes, and
  when the memory of the hash table happens to be zero, \<open>load_extents\<close> never goes wrong: it refuses the input with exit
  code 1, or leaves a tree with non-empty, disjoint extents, the same extents in the lists of the
  inodes, no inode twice and none without an extent, the positions numbered without a gap, and every
  block claimed by the first line that names it for an inode that may be moved, and by no other.
\<close>

theorem load_extents_first_claims:
  assumes "0 < inode_hash_size" and "\<forall>line\<in>set (input_lines input). line_ok line"
    and "int (card (\<Union>line\<in>set (input_lines input). line_inodes line)) \<le> INODE_ALLOC_ENTRIES"
  shows "load_extents first_ino inode_hash_size True input (remap_start n) = Exit 1
    \<or> (\<exists>s. load_extents first_ino inode_hash_size True input (remap_start n) = Value s
         \<and> ordered (inorder (rs_tree s)) \<and> mset (inorder (rs_tree s)) = mset (concat (map ix_extents (rs_inodes s)))
         \<and> distinct (map ix_ino (rs_inodes s)) \<and> (\<forall>x\<in>set (rs_inodes s). ix_extents x \<noteq> [])
         \<and> (\<exists>es. mset es = mset (inorder (rs_tree s)) \<and> numbered es (rs_blocks s))
         \<and> claims s = first_claims first_ino (input_lines input))"
  using load_extents_spec [OF assms, of first_ino n] unfolding load_inv_def by blast

text \<open>The text of four lines: \<open>100+2 0 INO 12\<close>, \<open>7+1 unmapped\<close>, \<open>101+2 4 INO 13\<close>, \<open>40+4 0 INO 5\<close>.\<close>

definition sample_text :: "byte list" where
  "sample_text =
     [49, 48, 48, 43, 50, 32, 48, 32, 73, 78, 79, 32, 49, 50, 10]
     @ [55, 43, 49, 32, 117, 110, 109, 97, 112, 112, 101, 100, 10]
     @ [49, 48, 49, 43, 50, 32, 52, 32, 73, 78, 79, 32, 49, 51, 10]
     @ [52, 48, 43, 52, 32, 48, 32, 73, 78, 79, 32, 53, 10]"

definition sample_lines :: "remap_line list" where
  "sample_lines = [Extent_in 100 2 0 12, Unmapped_in, Extent_in 101 2 4 13, Extent_in 40 4 0 5]"

lemma sample_text_lines: "input_lines sample_text = sample_lines"
  by code_simp

theorem load_extents_first_claims_witness:
  "(\<exists>s. load_extents 11 257 True sample_text (remap_start 9) = Value s
      \<and> ordered (inorder (rs_tree s)) \<and> mset (inorder (rs_tree s)) = mset (concat (map ix_extents (rs_inodes s)))
      \<and> distinct (map ix_ino (rs_inodes s)) \<and> (\<forall>x\<in>set (rs_inodes s). ix_extents x \<noteq> [])
      \<and> (\<exists>es. mset es = mset (inorder (rs_tree s)) \<and> numbered es (rs_blocks s))
      \<and> claims s = first_claims 11 sample_lines)"
proof -
  have "load_extents 11 257 True sample_text (remap_start 9) \<noteq> Exit 1"
    by code_simp
  then show ?thesis using load_extents_first_claims [of 257 sample_text 11 9] unfolding sample_text_lines
    by (simp add: sample_lines_def INODE_ALLOC_ENTRIES_def)
qed

lemma nat_less_32: "int n < 2 ^ 32 \<Longrightarrow> n < 2 ^ 32"
  by simp

lemma create_new_inode_tree: "create_new_inode ino s = Value (i, s') \<Longrightarrow> rs_tree s' = rs_tree s"
  by (auto simp: create_new_inode_def remap_alloc_def and_then_Value Let_def split: if_splits option.splits)

lemma insert_new_extent_tree:
  assumes run: "insert_new_extent first_ino blocknr len offset ino s = Value s'" and good: "good_inode first_ino ino"
  shows "\<exists>n. extent_insert \<lparr>re_block = blocknr, re_len = len, re_offset = offset, re_chunk_offset = n\<rparr> (rs_tree s) = Value (rs_tree s')"
proof -
  obtain s0 where s0: "remap_alloc s = Value s0" "rs_tree s0 = rs_tree s"
    using run good by (auto simp: insert_new_extent_def remap_alloc_def split: if_splits)
  obtain found where found: "lookup_inode ino s0 = Value found"
    using run good unfolding insert_new_extent_def s0 by (auto simp: and_then_Value)
  obtain i s1 where s1: "(case found of Some i \<Rightarrow> Value (i, s0) | None \<Rightarrow> create_new_inode ino s0) = Value (i, s1)"
    using run good unfolding insert_new_extent_def s0 and_then.simps found by (auto simp: and_then_Value)
  have "rs_tree s1 = rs_tree s" using s1 s0(2) create_new_inode_tree by (auto split: option.splits)
  then show ?thesis
    using run good unfolding insert_new_extent_def s0(1) and_then.simps found s1
    by (auto simp: Let_def and_then_Value)
qed

text \<open>
  C37: a line whose range ends exactly where the only extent begins overlaps nothing, but the tree
  refuses it (the comparison of \<open>extent_insert\<close> is strict): \<open>load_extents\<close> gives the input up with
  exit code 1, however much memory there is.
\<close>

theorem adjacent_extent_refused:
  assumes "0 < inode_hash_size" and "good_inode first_ino ino" and "good_inode first_ino ino'"
    and "0 \<le> blocknr" and "0 < unat len" and "0 < unat len'" and "blocknr + int (unat len) + int (unat len') < 2 ^ 32"
    and input: "input_lines input = [Extent_in (blocknr + int (unat len)) len' offset' ino', Extent_in blocknr len offset ino]"
  shows "load_extents first_ino inode_hash_size True input (remap_start n) = Exit 1"
proof (cases n)
  case 0
  then show ?thesis by (simp add: load_extents_def remap_alloc_def remap_start_def)
next
  case (Suc m)
  let ?A = "{ino, ino'}" and ?b' = "blocknr + int (unat len)"
  let ?second = "\<lambda>s. load_one first_ino (Extent_in blocknr len offset ino) s"
  define s0 where "s0 = (remap_start m)\<lparr>rs_hash := replicate (unat inode_hash_size) (Some [])\<rparr>"
  have "card ?A \<le> 2" by (simp add: card_insert_if)
  then have rdy: "ready ?A s0" unfolding s0_def using assms(1) by (intro ready_start) (simp_all add: INODE_ALLOC_ENTRIES_def)
  have t0: "rs_tree s0 = Leaf" and s0_tree: "s0\<lparr>rs_tree := Leaf\<rparr> = s0" by (simp_all add: s0_def remap_start_def)
  have b: "0 \<le> ?b'" "?b' < 2 ^ 32" "?b' + int (unat len') < 2 ^ 32" "blocknr < 2 ^ 32" "blocknr + int (unat len) < 2 ^ 32"
    using assms(4-7) by linarith+
  have len': "len' \<noteq> 0" using assms(6) by auto
  have "load_one first_ino (Extent_in ?b' len' offset' ino') s0 = insert_new_extent first_ino (word_of_int ?b') len' offset' ino' s0"
    unfolding load_one_def remap_line.case Suc_eq_plus1 [symmetric] load_line.simps(2) if_not_P [OF len']
      load_round_def Let_def t0 by (simp add: extent_splay_def s0_tree)
  moreover have "served s0 ?A (good_inode first_ino ino') ?b' (unat len') offset' ino' (insert_new_extent first_ino (word_of_int ?b') len' offset' ino' s0)"
    using t0 by (intro served_insert [OF rdy _ b(1) assms(6) b(3)]) auto
  ultimately consider "load_one first_ino (Extent_in ?b' len' offset' ino') s0 = Exit 1"
    | s1 where "load_one first_ino (Extent_in ?b' len' offset' ino') s0 = Value s1" "ready ?A s1"
      "insert_new_extent first_ino (word_of_int ?b') len' offset' ino' s0 = Value s1"
    unfolding served_def by fastforce
  then have "and_then (load_one first_ino (Extent_in ?b' len' offset' ino') s0) ?second = Exit 1"
  proof cases
    case (2 s1)
    obtain k where "extent_insert \<lparr>re_block = word_of_int ?b', re_len = len', re_offset = offset', re_chunk_offset = k\<rparr> Leaf = Value (rs_tree s1)"
      using insert_new_extent_tree [OF 2(3) assms(3)] unfolding t0 ..
    then have "rs_tree s1 = Node Leaf \<lparr>re_block = word_of_int ?b', re_len = len', re_offset = offset', re_chunk_offset = k\<rparr> Leaf"
      by (simp add: extent_insert_def eq_commute)
    then obtain e where e: "rs_tree s1 = Node Leaf e Leaf" "re_block e = word_of_int ?b'" "re_len e = len'"
      using that by simp
    have ub: "uint (re_block e) = ?b'" using unat_of_small [OF b(1,2)] unfolding e(2) uint_nat .
    have ub0: "uint (word_of_int blocknr :: u32) = blocknr" using assms(4) b(4) by (simp add: uint_word_of_int)
    have before: "(word_of_int blocknr :: u32) < re_block e" unfolding word_less_def ub ub0 using assms(5) by linarith
    have splay: "extent_splay (word_of_int blocknr) (rs_tree s1) = Node Leaf e Leaf"
      unfolding e(1) extent_splay_def using before by (simp add: splay_loop.simps(2) assemble_def)
    have s1: "s1\<lparr>rs_tree := Node Leaf e Leaf\<rparr> = s1" by (simp flip: e(1))
    have gap: "word_of_int (uint (re_block e) - blocknr) = len" unfolding ub by simp
    have lt: "blocknr < uint (re_block e)" unfolding ub using assms(5) by linarith
    have over: "\<not> (blocknr < uint (re_block e) \<and> blocknr + uint len < uint (re_block e))" unfolding ub by simp
    have len: "len \<noteq> 0" using assms(5) by auto
    have line: "\<exists>f. ?second s1 = and_then (insert_new_extent first_ino (word_of_int blocknr) len offset ino s1) f"
      unfolding load_one_def remap_line.case add_0_right Suc_eq_plus1 [symmetric] load_line.simps(2) if_not_P [OF len]
        load_round_def Let_def splay tree.case s1 if_not_P [OF over] if_P [OF lt] gap
      by (rule exI) (rule refl)
    have fits: "\<not> word_of_int blocknr + len < re_block e"
    proof -
      have "word_of_int blocknr + len = re_block e" unfolding e(2) by simp
      then show ?thesis by simp
    qed
    have after: "\<not> word_of_int blocknr \<ge> re_end e"
    proof -
      have "?b' + int (unat (re_len e)) < 2 ^ 32" using b(3) e(3) by simp
      moreover have "int (ext_start e) = ?b'" using ub by (simp only: ext_start_def uint_nat)
      ultimately have "int (ext_stop e) < 2 ^ 32" "ext_stop e = ext_start e + unat (re_len e)"
        unfolding ext_stop_def ext_start_def by linarith+
      then have "unat (re_end e) = ext_stop e" by (intro unat_re_end nat_less_32)
      then show ?thesis
        using before \<open>ext_stop e = _\<close> by (simp add: word_le_nat_alt word_less_nat_alt ext_start_def)
    qed
    have refused: "extent_insert \<lparr>re_block = word_of_int blocknr, re_len = len, re_offset = offset, re_chunk_offset = c\<rparr> (rs_tree s1) = Exit 1" for c
      unfolding extent_insert_def remap_extent.simps splay using e(1) fits after by simp
    have "insert_new_extent first_ino (word_of_int blocknr) len offset ino s1 \<noteq> Value s2" for s2
    proof
      assume "insert_new_extent first_ino (word_of_int blocknr) len offset ino s1 = Value s2"
      from insert_new_extent_tree [OF this assms(2)] show False unfolding refused by simp
    qed
    moreover have "served s1 ?A (good_inode first_ino ino) blocknr (unat len) offset ino (insert_new_extent first_ino (word_of_int blocknr) len offset ino s1)"
    proof (rule served_insert [OF 2(2) _ assms(4,5) b(5)])
      have "int (ext_start e) = ?b'" using ub by (simp only: ext_start_def uint_nat)
      then show "\<forall>f\<in>set (inorder (rs_tree s1)). int (ext_stop f) \<le> blocknr \<or> blocknr + int (unat len) \<le> int (ext_start f)"
        unfolding e(1) by simp
    qed simp
    ultimately have "insert_new_extent first_ino (word_of_int blocknr) len offset ino s1 = Exit 1"
      unfolding served_def by blast
    then show ?thesis using line unfolding 2(1) by (metis and_then.simps(1,2))
  qed simp
  moreover have "load_lines first_ino [line] = load_one first_ino line" for line
  proof
    fix s show "load_lines first_ino [line] s = load_one first_ino line s"
      by (cases "load_one first_ino line s") simp_all
  qed
  then have "load_lines first_ino [Extent_in ?b' len' offset' ino', Extent_in blocknr len offset ino] s0
      = and_then (load_one first_ino (Extent_in ?b' len' offset' ino') s0) ?second"
    unfolding load_lines.simps(2) [of _ _ "[_]"] by simp
  ultimately have "load_lines first_ino [Extent_in ?b' len' offset' ino', Extent_in blocknr len offset ino] s0 = Exit 1"
    by simp
  then show ?thesis
    unfolding Suc by (simp add: load_extents_def remap_alloc_def remap_start_def s0_def input del: load_lines.simps)
qed

theorem adjacent_extent_refused_witness:
  "load_extents 11 257 True ([49, 48, 48, 43, 56, 32, 48, 32, 73, 78, 79, 32, 49, 50, 10]
     @ [57, 54, 43, 52, 32, 48, 32, 73, 78, 79, 32, 49, 51, 10]) (remap_start 100) = Exit 1"
proof (rule adjacent_extent_refused)
  show "input_lines ([49, 48, 48, 43, 56, 32, 48, 32, 73, 78, 79, 32, 49, 50, 10] @ [57, 54, 43, 52, 32, 48, 32, 73, 78, 79, 32, 49, 51, 10])
    = [Extent_in (96 + int (unat (4::u32))) 8 0 12, Extent_in 96 4 0 13]"
    by code_simp
qed (simp_all add: good_inode_def)

text \<open>When the memory of the hash table is not zero, the first extent already goes wrong.\<close>

lemma load_extents_uninitialised:
  assumes "0 < inode_hash_size" and "good_inode first_ino ino" and "len \<noteq> 0"
    and input: "input_lines input = Extent_in blocknr len offset ino # lines"
  shows "load_extents first_ino inode_hash_size False input (remap_start (Suc (Suc n))) = Undefined"
proof -
  define s where "s = (remap_start (Suc n))\<lparr>rs_hash := replicate (unat inode_hash_size) None\<rparr>"
  have s: "rs_allocs s = Suc n" "rs_tree s = Leaf" "rs_hash s = replicate (unat inode_hash_size) None"
    "s\<lparr>rs_tree := Leaf\<rparr> = s"
    by (simp_all add: s_def remap_start_def)
  have "0 < unat inode_hash_size" using assms(1) by (simp add: word_less_nat_alt)
  then have slot: "unat ino mod unat inode_hash_size < unat inode_hash_size" by simp
  then have "lookup_inode ino (s\<lparr>rs_allocs := n\<rparr>) = Undefined"
    by (simp add: lookup_inode_def hash_slot_def s(3))
  then have "insert_new_extent first_ino b len offset ino s = Undefined" for b
    using assms(2) by (simp add: insert_new_extent_def remap_alloc_def s(1))
  then have "load_one first_ino (Extent_in blocknr len offset ino) s = Undefined"
    unfolding load_one_def remap_line.case Suc_eq_plus1 [symmetric] load_line.simps(2) if_not_P [OF assms(3)]
      load_round_def Let_def by (simp add: extent_splay_def s(2,4))
  then show ?thesis by (simp add: load_extents_def remap_alloc_def remap_start_def s_def input)
qed

end
