(* ===== verification/E2remap_Files.thy ===== *)
theory E2remap_Files
  imports E2remap_Visits E2remap_Bitmap E2remap_Lines
begin

text \<open>
  The work of \<open>e2remapblocks\<close> behind \<open>load_extents\<close>, as \<open>main\<close> composes it: when the extents describe the
  files, every file has the same contents afterwards, at its new blocks.
\<close>

section \<open>The work after loading\<close>

record qsorts =
  by_offset :: "remap_extent list \<Rightarrow> remap_extent list"
  by_len :: "free_extent list \<Rightarrow> free_extent list"
  by_start :: "free_extent list \<Rightarrow> free_extent list"

definition remap_work ::
  "qsorts \<Rightarrow> 'm remap_fs \<Rightarrow> block_bitmap option \<Rightarrow> int \<Rightarrow> u32 \<Rightarrow> 'm \<times> u16 list \<Rightarrow> remap_dev \<Rightarrow> remap_state
     \<Rightarrow> ((u32 \<times> u32 list) list \<times> ('m \<times> u16 list) \<times> copy_state) run_result" where
  "remap_work srt fs bitmap min_free_extent_size remap_buf_blocks mc dev s =
     and_then (sort_inodes_extents (by_offset srt) s) (\<lambda>s.
     and_then (find_free_blocks (by_len srt) (by_start srt) bitmap min_free_extent_size s) (\<lambda>(fes, s).
     copy_and_remap_extents fs remap_buf_blocks fes (rs_inodes s) mc \<lparr>cs_dev = dev, cs_buf = False, cs_allocs = rs_allocs s\<rparr>))"

definition qsorts_ok :: "qsorts \<Rightarrow> bool" where
  "qsorts_ok srt \<longleftrightarrow> c_qsort ext_offset_less (by_offset srt) \<and> c_qsort len_less (by_len srt) \<and> c_qsort start_less (by_start srt)"

definition cmp_qsorts :: qsorts where
  "cmp_qsorts = \<lparr>by_offset = cmp_sort ext_offset_less, by_len = cmp_sort len_less, by_start = cmp_sort start_less\<rparr>"

lemma cmp_qsorts_ok: "qsorts_ok cmp_qsorts"
  by (simp add: qsorts_ok_def cmp_qsorts_def offset_qsort.c_qsort_axioms len_qsort.c_qsort_axioms start_qsort.c_qsort_axioms)

section \<open>Lists without order\<close>

lemma sorted_wrt_perm:
  assumes sym: "\<And>x y. P x y \<Longrightarrow> P y x"
  shows "sorted_wrt P xs \<Longrightarrow> mset xs = mset ys \<Longrightarrow> sorted_wrt P ys"
proof (induction ys arbitrary: xs)
  case (Cons y ys)
  then have "y \<in> set xs" by (metis list.set_intros(1) mset_eq_setD)
  then obtain as bs where xs: "xs = as @ y # bs" by (meson split_list)
  then have m: "mset (as @ bs) = mset ys" using Cons.prems(2) by simp
  have s: "sorted_wrt P (as @ bs)" "\<forall>z\<in>set (as @ bs). P y z"
    using Cons.prems(1) sym unfolding xs by (auto simp: sorted_wrt_append)
  have "set ys = set (as @ bs)" using mset_eq_setD [OF m] by simp
  then show ?case using Cons.IH [OF s(1) m] s(2) by simp
qed simp

lemma sorted_wrt_concat: "sorted_wrt P (concat xss) \<Longrightarrow> xs \<in> set xss \<Longrightarrow> sorted_wrt P xs"
  by (induction xss) (auto simp: sorted_wrt_append)

lemma mset_concat_pointwise:
  "list_all2 (\<lambda>x y. mset (f x) = mset (f y)) xs ys \<Longrightarrow> mset (concat (map f xs)) = mset (concat (map f ys))"
  by (induction rule: list_all2_induct) simp_all

section \<open>Positions of the extents\<close>

lemma sum_take_mono:
  fixes f :: "'a \<Rightarrow> nat"
  assumes "i < j" and "j \<le> length xs"
  shows "sum_list (map f (take i xs)) + f (xs ! i) \<le> sum_list (map f (take j xs))"
proof -
  have "take j xs = take i xs @ xs ! i # drop (Suc i) (take j xs)"
    using assms id_take_nth_drop [of i "take j xs"] by (simp add: min_absorb1)
  then have "sum_list (map f (take j xs)) = sum_list (map f (take i xs)) + (f (xs ! i) + sum_list (map f (drop (Suc i) (take j xs))))"
    by (metis map_append list.simps(9) sum_list.Cons sum_list_append)
  then show ?thesis by simp
qed

lemma int_sum_list: "sum_list (map (\<lambda>x. int (f x)) xs) = int (sum_list (map f xs))"
  by (induction xs) simp_all

lemma numbered_chunks:
  assumes "numbered es n"
  shows "\<forall>e\<in>set es. 0 \<le> re_chunk_offset e \<and> int (chunk e) + int (unat (re_len e)) \<le> n"
    and "sorted_wrt (\<lambda>e f. chunks e \<inter> chunks f = {}) es"
proof -
  let ?l = "\<lambda>e. unat (re_len e)"
  have off: "re_chunk_offset (es ! k) = int (sum_list (map ?l (take k es)))" if "k < length es" for k
    using assms that unfolding numbered_def int_sum_list by blast
  have n: "n = int (sum_list (map ?l es))" using assms unfolding numbered_def int_sum_list by blast
  have ch: "chunk (es ! k) = sum_list (map ?l (take k es))" if "k < length es" for k using off [OF that] by (simp add: chunk_def)
  show "\<forall>e\<in>set es. 0 \<le> re_chunk_offset e \<and> int (chunk e) + int (unat (re_len e)) \<le> n"
  proof
    fix e assume "e \<in> set es"
    then obtain k where k: "k < length es" "e = es ! k" by (auto simp: in_set_conv_nth)
    have "sum_list (map ?l (take k es)) + ?l (es ! k) \<le> sum_list (map ?l es)"
      using sum_take_mono [of k "length es" es ?l] k(1) by simp
    then show "0 \<le> re_chunk_offset e \<and> int (chunk e) + int (unat (re_len e)) \<le> n"
      unfolding k(2) ch [OF k(1)] n using off [OF k(1)] by (intro conjI) linarith+
  qed
  show "sorted_wrt (\<lambda>e f. chunks e \<inter> chunks f = {}) es"
    unfolding sorted_wrt_iff_nth_less
  proof (intro allI impI)
    fix i j assume ij: "i < j" "j < length es"
    have "chunk (es ! i) + ?l (es ! i) \<le> chunk (es ! j)"
      using sum_take_mono [of i j es ?l] ij by (simp add: ch)
    then show "chunks (es ! i) \<inter> chunks (es ! j) = {}" by (auto simp: chunks_def)
  qed
qed

section \<open>Extents that describe a file\<close>

definition file_visits :: "'m remap_fs \<Rightarrow> u32 \<Rightarrow> iter_visit list" where
  "file_visits fs ino = fst (rf_visits fs ino)"

definition file_entries :: "'m remap_fs \<Rightarrow> u32 \<Rightarrow> (u32 \<times> int) list" where
  "file_entries fs ino = remap_entries (rf_blocksize fs) (file_visits fs ino) \<lparr>bt_ind0 = 0, bt_ind1 = 0, bt_depth = -1, bt_ext = []\<rparr>"

text \<open>
  The file is visited in the order of the offsets, its blocks are in use, and it has the blocks that
  the extents claim, at their offsets. No extent begins inside another one in the order of the offsets.
\<close>

definition file_matches :: "'m remap_fs \<Rightarrow> block_bitmap \<Rightarrow> inode_extents \<Rightarrow> bool" where
  "file_matches fs bm x \<longleftrightarrow>
     (\<forall>v\<in>set (file_visits fs (ix_ino x)). remap_visit_ok v)
     \<and> sorted_wrt (\<lambda>x y. off_less (snd x) (snd y)) (file_entries fs (ix_ino x))
     \<and> (\<forall>p\<in>set (file_entries fs (ix_ino x)). fst p < rf_blocks_count fs \<and> bb_used bm (fst p))
     \<and> (\<forall>e\<in>set (ix_extents x). ext_ok e
         \<and> (\<forall>j<unat (re_len e). (re_block e + of_nat j, re_offset e + int j) \<in> set (file_entries fs (ix_ino x))))
     \<and> (\<forall>e\<in>set (ix_extents x). \<forall>f\<in>set (ix_extents x). e \<noteq> f
         \<longrightarrow> off_less (last_off e) (re_offset f) \<or> off_less (last_off f) (re_offset e))"

text \<open>No extent is longer than the buffer of the copying, which loses the rest of a longer one.\<close>

definition short_extents :: "nat \<Rightarrow> inode_extents \<Rightarrow> bool" where
  "short_extents buf_blocks x \<longleftrightarrow> (\<forall>e\<in>set (ix_extents x). unat (re_len e) \<le> buf_blocks)"

definition file_ready :: "'m remap_fs \<Rightarrow> block_bitmap \<Rightarrow> nat \<Rightarrow> inode_extents \<Rightarrow> bool" where
  "file_ready fs bm buf_blocks x \<longleftrightarrow> file_matches fs bm x \<and> short_extents buf_blocks x"

lemmas file_ready_defs = file_ready_def file_matches_def short_extents_def

lemma sorted_entries_unique:
  assumes "sorted_wrt (\<lambda>x y. off_less (snd x) (snd y)) es" and "x \<in> set es" and "y \<in> set es" and "snd x = snd y"
  shows "x = y"
  using assms
proof (induction es)
  case (Cons z es)
  then show ?case using off_less_irrefl by (metis set_ConsD sorted_wrt.simps(2))
qed simp

lemma matches_order:
  assumes m: "file_ready fs bm buf_blocks x" and y: "sorted_inode x y" and d: "distinct (ix_extents x)"
  shows "exts_in_order (ix_extents y)"
proof -
  have set: "set (ix_extents y) = set (ix_extents x)" and dy: "distinct (ix_extents y)"
    using y d by (auto simp: sorted_inode_def dest: mset_eq_setD mset_eq_imp_distinct_iff)
  have ok: "ext_ok e" if "e \<in> set (ix_extents y)" for e using m that set by (simp add: file_ready_defs)
  have "sorted_wrt (\<lambda>e f. \<not> ext_offset_less f e \<and> e \<noteq> f) (ix_extents y)"
    using y dy by (simp add: sorted_inode_def sorted_wrt_iff_nth_less distinct_conv_nth)
  then have "sorted_wrt (\<lambda>e f. off_less (last_off e) (re_offset f)) (ix_extents y)"
  proof (rule sorted_wrt_mono_rel [rotated])
    fix e f assume e: "e \<in> set (ix_extents y)" and f: "f \<in> set (ix_extents y)" and ef: "\<not> ext_offset_less f e \<and> e \<noteq> f"
    have "off_less (last_off e) (re_offset f) \<or> off_less (last_off f) (re_offset e)" using m e f ef set by (simp add: file_ready_defs)
    moreover have "\<not> off_less (last_off f) (re_offset e)"
    proof
      assume "off_less (last_off f) (re_offset e)"
      with start_last [OF ok [OF f]] have "off_less (re_offset f) (re_offset e)" using off_le_less_trans by blast
      then show False using ef by (simp add: ext_offset_less_iff)
    qed
    ultimately show "off_less (last_off e) (re_offset f)" by blast
  qed
  then show ?thesis using ok by (simp add: exts_in_order_def)
qed

lemma matches_block:
  assumes m: "file_ready fs bm buf_blocks x" and e: "e \<in> set (ix_extents x)" "ext_stop e < 2 ^ 32"
    and p: "p \<in> set (file_entries fs (ix_ino x))" "in_ext e (snd p)"
  shows "unat (fst p) = unat (re_block e) + nat (snd p - re_offset e) \<and> nat (snd p - re_offset e) < unat (re_len e)"
proof -
  define j where "j = nat (snd p - re_offset e)"
  have j: "j < unat (re_len e)" "re_offset e + int j = snd p"
    using p(2) unfolding in_ext_def j_def uint_nat by linarith+
  have q: "(re_block e + of_nat j, re_offset e + int j) \<in> set (file_entries fs (ix_ino x))" using m e(1) j(1) by (simp add: file_ready_defs)
  have s: "sorted_wrt (\<lambda>x y. off_less (snd x) (snd y)) (file_entries fs (ix_ino x))" using m by (simp add: file_ready_defs)
  have "p = (re_block e + of_nat j, re_offset e + int j)" by (rule sorted_entries_unique [OF s p(1) q]) (simp add: j(2))
  then have "fst p = re_block e + of_nat j" by simp
  moreover have "unat (re_block e + of_nat j) = unat (re_block e) + j"
  proof -
    have lt: "unat (re_block e) + j < 2 ^ 32" using e(2) j(1) by (simp add: ext_stop_def)
    then have "unat (of_nat j :: u32) = j" by (simp add: unat_of_nat take_bit_nat_eq_self)
    then show ?thesis using lt by (simp add: unat_word_ariths)
  qed
  ultimately show ?thesis using j(1) by (simp add: j_def)
qed

lemma matches_last:
  assumes "file_ready fs bm buf_blocks x" and "e \<in> set (ix_extents x)"
  shows "last_off e \<in> snd ` set (file_entries fs (ix_ino x))"
proof -
  have e: "ext_ok e" "\<forall>j<unat (re_len e). (re_block e + of_nat j, re_offset e + int j) \<in> set (file_entries fs (ix_ino x))"
    using assms by (simp_all add: file_ready_defs)
  have len: "0 < unat (re_len e)" using e(1) unfolding ext_ok_def uint_nat by linarith
  then have "re_offset e + int (unat (re_len e) - 1) = last_off e" unfolding last_off_def uint_nat using len by linarith
  then show ?thesis using e(2) len by (metis diff_less less_numeral_extra(1) image_eqI snd_conv)
qed

section \<open>The chosen extents are free\<close>

lemma area_good:
  assumes "area bm n True fes" and "0 < n" and "n < 2 ^ 32"
  shows "good_area (nat n) fes"
    and "p < nat n \<Longrightarrow> target fes p < unat (bb_end bm) \<and> (\<forall>w. unat w = target fes p \<longrightarrow> \<not> bb_used bm w)"
proof -
  have fes: "fes \<noteq> []" "\<forall>e\<in>set (butlast fes). run_free bm e" "run_free bm (last fes)" using assms(1) by (simp_all add: area_def)
  have free: "run_free bm e" if "e \<in> set fes" for e
  proof -
    have "e \<in> set (butlast fes @ [last fes])" using that append_butlast_last_id [OF fes(1)] by simp
    then show ?thesis using fes(2,3) by auto
  qed
  have "fe_stop e < 2 ^ 32" if "e \<in> set fes" for e
    using free [OF that] unsigned_less [of "bb_end bm", where ?'a = nat] by (simp add: run_free_def)
  moreover have "fe_total fes = nat n" using assms(1) by (simp add: area_def nat_eq_iff2)
  ultimately show good: "good_area (nat n) fes" using assms by (simp add: good_area_def area_def nat_less_iff)
  assume p: "p < nat n"
  obtain k where k: "k < length fes" "fe_start (fes ! k) \<le> target fes p" "target fes p < fe_stop (fes ! k)"
    using target_in [OF good p] by blast
  have "run_free bm (fes ! k)" using free nth_mem [OF k(1)] .
  then show "target fes p < unat (bb_end bm) \<and> (\<forall>w. unat w = target fes p \<longrightarrow> \<not> bb_used bm w)"
    using k(2,3) by (auto simp: run_free_def)
qed

section \<open>One file\<close>

lemma target_word:
  assumes "good_area n fes" and "p < n"
  shows "unat (word_of_int (int (target fes p)) :: u32) = target fes p"
proof -
  obtain k where "k < length fes" "target fes p < fe_stop (fes ! k)" using target_in [OF assms] by blast
  moreover from this(1) have "fe_stop (fes ! k) < 2 ^ 32" using assms(1) by (simp add: good_area_def)
  ultimately have "target fes p < 2 ^ 32" by linarith
  then have "int (unat (word_of_int (int (target fes p)) :: u32)) = int (target fes p)" by (intro unat_of_small) simp_all
  then show ?thesis unfolding of_nat_eq_iff .
qed

definition file_fits :: "free_extent list \<Rightarrow> nat \<Rightarrow> nat \<Rightarrow> inode_extents \<Rightarrow> bool" where
  "file_fits fes n buf_blocks x \<longleftrightarrow> ix_extents x \<noteq> [] \<and> distinct (ix_extents x)
     \<and> (\<forall>e\<in>set (ix_extents x). extent_fits fes n buf_blocks e \<and> ext_stop e < 2 ^ 32)"

lemma in_chunk:
  assumes "extent_fits fes n buf_blocks e" and "in_ext e off"
  shows "chunk e + nat (off - re_offset e) < n"
proof -
  have "nat (off - re_offset e) < unat (re_len e)" using assms(2) unfolding in_ext_def uint_nat by linarith
  then show ?thesis using assms(1) unfolding extent_fits_def by linarith
qed

lemma matches_visits:
  assumes area: "good_area n fes" "\<And>p. p < n \<Longrightarrow> target fes p < unat (rf_blocks_count fs)"
    and m: "file_ready fs bm buf_blocks x" and fit: "file_fits fes n buf_blocks x" and y: "sorted_inode x y"
  shows "remap_visits (rf_blocksize fs) (rf_blocks_count fs) fes (file_visits fs (ix_ino y))
      \<lparr>bt_ind0 = 0, bt_ind1 = 0, bt_depth = -1, bt_ext = ix_extents y\<rparr>
    = Value (map (new_number fes (ix_extents y)) (file_entries fs (ix_ino y)))"
proof -
  let ?bt = "\<lparr>bt_ind0 = 0, bt_ind1 = 0, bt_depth = -1, bt_ext = []\<rparr>" and ?es = "file_entries fs (ix_ino x)"
  have ino: "ix_ino y = ix_ino x" using y by (simp add: sorted_inode_def)
  have set: "set (ix_extents y) = set (ix_extents x)" using y by (auto simp: sorted_inode_def dest: mset_eq_setD)
  have ne: "ix_extents y \<noteq> []" using fit set by (auto simp: file_fits_def)
  have "\<forall>v\<in>set (file_visits fs (ix_ino x)). remap_visit_ok v" using m by (simp add: file_ready_defs)
  from remap_visits_entries [OF this, of "rf_blocksize fs" ?bt "rf_blocks_count fs" fes] obtain es where
    es: "\<forall>exts. remap_entries (rf_blocksize fs) (file_visits fs (ix_ino x)) (?bt\<lparr>bt_ext := exts\<rparr>) = es"
    "\<forall>exts. remap_visits (rf_blocksize fs) (rf_blocks_count fs) fes (file_visits fs (ix_ino x)) (?bt\<lparr>bt_ext := exts\<rparr>)
      = remap_list (rf_blocks_count fs) fes es exts" by blast
  have esx: "es = ?es" using es(1) [rule_format, of "[]"] by (simp add: file_entries_def)
  have order: "exts_in_order (ix_extents y)" using matches_order [OF m y] fit by (simp add: file_fits_def)
  have exts: "exts_fit n (ix_extents y)" using fit set by (auto simp: exts_fit_def file_fits_def extent_fits_def)
  have seen: "seen_later ?es (ix_extents y)"
    using ne matches_last [OF m] set by (auto simp: seen_later_def dest: list.set_sel)
  have ok: "entry_ok (rf_blocks_count fs) fes (ix_extents y) p" if p: "p \<in> set ?es" for p
    unfolding entry_ok_def
  proof (intro conjI ballI impI)
    show b: "fst p < rf_blocks_count fs" using m p by (simp add: file_ready_defs)
    show "new_number fes (ix_extents y) p < rf_blocks_count fs"
    proof (cases "find (\<lambda>e. in_ext e (snd p)) (ix_extents y)")
      case None
      then show ?thesis using b by (simp add: new_number_def)
    next
      case (Some e)
      then have e: "e \<in> set (ix_extents y)" "in_ext e (snd p)" by (auto simp: find_Some_iff)
      have "extent_fits fes n buf_blocks e" using fit e(1) set by (simp add: file_fits_def)
      note q = in_chunk [OF this e(2)]
      show ?thesis
        unfolding new_number_def Some option.case word_less_nat_alt target_word [OF area(1) q] by (rule area(2) [OF q])
    qed
    fix e assume e: "e \<in> set (ix_extents y)" "in_ext e (snd p)"
    have "ext_stop e < 2 ^ 32" using fit e(1) set by (simp add: file_fits_def)
    from matches_block [OF m _ this p e(2)] e(1) set
    have u: "unat (fst p) = unat (re_block e) + nat (snd p - re_offset e)" by simp
    have "0 \<le> snd p - re_offset e" using e(2) by (simp add: in_ext_def)
    then show "uint (fst p) = uint (re_block e) + snd p - re_offset e" unfolding uint_nat u by simp
  qed
  have sorted: "sorted_wrt (\<lambda>x y. off_less (snd x) (snd y)) ?es" using m by (simp add: file_ready_defs)
  have "remap_list (rf_blocks_count fs) fes ?es (ix_extents y) = Value (map (new_number fes (ix_extents y)) ?es)"
    by (rule remap_list_spec [OF area(1) sorted order exts _ seen]) (use ok in blast)
  then show ?thesis using es(2) [rule_format, of "ix_extents y"] unfolding esx ino by simp
qed

text \<open>The contents of the file at its new blocks.\<close>

lemma matches_contents:
  assumes area: "good_area n fes" and m: "file_ready fs bm buf_blocks x" and fit: "file_fits fes n buf_blocks x"
    and y: "sorted_inode x y" and free: "\<And>q w. q < n \<Longrightarrow> unat w = target fes q \<Longrightarrow> \<not> bb_used bm w"
    and copied: "\<forall>e\<in>set (ix_extents y). \<forall>j<unat (re_len e). rd_blocks d' (target fes (chunk e + j)) = B (unat (re_block e) + j)"
    and same: "\<And>b. b \<notin> target fes ` {..<n} \<Longrightarrow> rd_blocks d' b = B b" and p: "p \<in> set (file_entries fs (ix_ino x))"
  shows "rd_blocks d' (unat (new_number fes (ix_extents y) p)) = B (unat (fst p))"
proof (cases "find (\<lambda>e. in_ext e (snd p)) (ix_extents y)")
  case None
  have "bb_used bm (fst p)" using m p by (simp add: file_ready_defs)
  then have "unat (fst p) \<notin> target fes ` {..<n}" using free by auto
  then show ?thesis using same None by (simp add: new_number_def)
next
  case (Some e)
  have set: "set (ix_extents y) = set (ix_extents x)" using y by (auto simp: sorted_inode_def dest: mset_eq_setD)
  have e: "e \<in> set (ix_extents y)" "in_ext e (snd p)" using Some by (auto simp: find_Some_iff)
  have fe: "extent_fits fes n buf_blocks e" "ext_stop e < 2 ^ 32" using fit e(1) set by (simp_all add: file_fits_def)
  from matches_block [OF m _ fe(2) p e(2)] e(1) set
  have b: "unat (fst p) = unat (re_block e) + nat (snd p - re_offset e)" "nat (snd p - re_offset e) < unat (re_len e)" by simp_all
  have "unat (new_number fes (ix_extents y) p) = target fes (chunk e + nat (snd p - re_offset e))"
    unfolding new_number_def Some option.case by (rule target_word [OF area in_chunk [OF fe(1) e(2)]])
  then show ?thesis using copied e(1) b by simp
qed

section \<open>All files\<close>

lemma copy_inode_spec:
  assumes area: "good_area n fes" and fit: "\<forall>e\<in>set (ix_extents y). extent_fits fes n (unat buf_blocks) e"
    and apart: "sorted_wrt (\<lambda>e f. chunks e \<inter> chunks f = {}) (ix_extents y)"
    and src: "\<forall>e\<in>set (ix_extents y). \<forall>j<unat (re_len e). rd_blocks (cs_dev c) (unat (re_block e) + j) = B (unat (re_block e) + j)"
  shows "copy_inode_blocks buf_blocks fes y c = Exit 1
    \<or> (\<exists>c'. copy_inode_blocks buf_blocks fes y c = Value c' \<and> extents_copied fes (ix_extents y) B (cs_dev c) (cs_dev c'))"
proof (cases "cs_buf c \<or> cs_allocs c \<noteq> 0")
  case False
  then show ?thesis by (simp add: copy_inode_blocks_def)
next
  case True
  define c0 where "c0 = (if cs_buf c then c else c\<lparr>cs_buf := True, cs_allocs := cs_allocs c - 1\<rparr>)"
  have dev: "cs_dev c0 = cs_dev c" by (simp add: c0_def)
  have run: "copy_inode_blocks buf_blocks fes y c = and_then (copy_extents buf_blocks fes (ix_extents y) (cs_dev c)) (\<lambda>d. Value (c0\<lparr>cs_dev := d\<rparr>))"
    using True by (auto simp: copy_inode_blocks_def c0_def)
  from copy_extents_spec [OF area fit apart src] show ?thesis
  proof
    assume "\<exists>d'. copy_extents buf_blocks fes (ix_extents y) (cs_dev c) = Value d' \<and> extents_copied fes (ix_extents y) B (cs_dev c) d'"
    then obtain d' where d': "copy_extents buf_blocks fes (ix_extents y) (cs_dev c) = Value d'" "extents_copied fes (ix_extents y) B (cs_dev c) d'"
      by blast
    show ?thesis unfolding run d'(1) using d'(2) by simp
  next
    assume e: "copy_extents buf_blocks fes (ix_extents y) (cs_dev c) = Exit 1"
    show ?thesis unfolding run e by simp
  qed
qed

definition new_file :: "'m remap_fs \<Rightarrow> free_extent list \<Rightarrow> inode_extents \<Rightarrow> u32 \<times> u32 list" where
  "new_file fs fes y = (ix_ino y, map (new_number fes (ix_extents y)) (file_entries fs (ix_ino y)))"

lemma remap_inodes_spec:
  assumes area: "good_area n fes" "\<And>p. p < n \<Longrightarrow> target fes p < unat (rf_blocks_count fs)"
  shows "list_all2 sorted_inode xs ys \<Longrightarrow>
    \<forall>x\<in>set xs. file_ready fs bm (unat buf_blocks) x \<and> file_fits fes n (unat buf_blocks) x \<Longrightarrow>
    sorted_wrt (\<lambda>e f. chunks e \<inter> chunks f = {}) (concat (map ix_extents ys)) \<Longrightarrow>
    \<forall>e\<in>set (concat (map ix_extents ys)). \<forall>j<unat (re_len e). rd_blocks (cs_dev c) (unat (re_block e) + j) = B (unat (re_block e) + j) \<Longrightarrow>
    remap_inodes fs buf_blocks fes ys c = Exit 1
    \<or> (\<exists>c'. remap_inodes fs buf_blocks fes ys c = Value (map (new_file fs fes) ys, c')
         \<and> extents_copied fes (concat (map ix_extents ys)) B (cs_dev c) (cs_dev c'))"
proof (induction xs ys arbitrary: c rule: list_all2_induct)
  case Nil
  then show ?case by (simp add: extents_copied_def)
next
  case (Cons x xs y ys)
  have y: "sorted_inode x y" using Cons.hyps by blast
  have set: "set (ix_extents y) = set (ix_extents x)" and ino: "ix_ino y = ix_ino x"
    using y by (auto simp: sorted_inode_def dest: mset_eq_setD)
  have m: "file_ready fs bm (unat buf_blocks) x" "file_fits fes n (unat buf_blocks) x" using Cons.prems(1) by simp_all
  have fit: "\<forall>e\<in>set (ix_extents y). extent_fits fes n (unat buf_blocks) e" using m(2) set by (simp add: file_fits_def)
  have apart: "sorted_wrt (\<lambda>e f. chunks e \<inter> chunks f = {}) (ix_extents y)"
    "sorted_wrt (\<lambda>e f. chunks e \<inter> chunks f = {}) (concat (map ix_extents ys))"
    "\<forall>e\<in>set (ix_extents y). \<forall>f\<in>set (concat (map ix_extents ys)). chunks e \<inter> chunks f = {}"
    using Cons.prems(2) by (simp_all add: sorted_wrt_append)
  have fit': "\<forall>f\<in>set (concat (map ix_extents ys)). extent_fits fes n (unat buf_blocks) f"
  proof
    fix f assume "f \<in> set (concat (map ix_extents ys))"
    then obtain z where z: "z \<in> set ys" "f \<in> set (ix_extents z)" by auto
    obtain w where w: "w \<in> set xs" "sorted_inode w z" using Cons.hyps z(1) by (metis in_set_conv_nth list_all2_conv_all_nth)
    then have "f \<in> set (ix_extents w)" using z(2) by (auto simp: sorted_inode_def dest: mset_eq_setD)
    moreover have "file_fits fes n (unat buf_blocks) w" using Cons.prems(1) w(1) by simp
    ultimately show "extent_fits fes n (unat buf_blocks) f" by (simp add: file_fits_def)
  qed
  show ?case
  proof (cases "rf_links fs (ix_ino y)")
    case None
    then show ?thesis by simp
  next
    case (Some links)
    show ?thesis
    proof (cases "links = 0")
      case True
      then show ?thesis using Some by simp
    next
      case False
      have src: "\<forall>e\<in>set (ix_extents y). \<forall>j<unat (re_len e). rd_blocks (cs_dev c) (unat (re_block e) + j) = B (unat (re_block e) + j)"
        using Cons.prems(3) by simp
      from copy_inode_spec [OF area(1) fit apart(1) src] show ?thesis
      proof
        assume e: "copy_inode_blocks buf_blocks fes y c = Exit 1"
        show ?thesis using Some False e by simp
      next
        assume "\<exists>c'. copy_inode_blocks buf_blocks fes y c = Value c' \<and> extents_copied fes (ix_extents y) B (cs_dev c) (cs_dev c')"
        then obtain c1 where c1: "copy_inode_blocks buf_blocks fes y c = Value c1" "extents_copied fes (ix_extents y) B (cs_dev c) (cs_dev c1)"
          by blast
        have len: "\<forall>e\<in>set (ix_extents y) \<union> set (concat (map ix_extents ys)). chunk e + unat (re_len e) \<le> n"
          using fit fit' by (auto simp: extent_fits_def)
        have src': "\<forall>e\<in>set (concat (map ix_extents ys)). \<forall>j<unat (re_len e). rd_blocks (cs_dev c1) (unat (re_block e) + j) = B (unat (re_block e) + j)"
        proof (intro ballI allI impI)
          fix e j assume e: "e \<in> set (concat (map ix_extents ys))" "j < unat (re_len e)"
          have "extent_fits fes n (unat buf_blocks) e" using fit' e(1) by blast
          then have nt: "unat (re_block e) + j \<notin> target fes ` {..<n}" using e(2) unfolding extent_fits_def by blast
          have old: "rd_blocks (cs_dev c) (unat (re_block e) + j) = B (unat (re_block e) + j)" using Cons.prems(3) e by simp
          have "\<forall>e\<in>set (ix_extents y). chunk e + unat (re_len e) \<le> n" using len by blast
          from extents_copied_source [OF c1(2) this nt] show "rd_blocks (cs_dev c1) (unat (re_block e) + j) = B (unat (re_block e) + j)"
            unfolding old .
        qed
        have vis: "remap_visits (rf_blocksize fs) (rf_blocks_count fs) fes (fst (rf_visits fs (ix_ino y)))
            \<lparr>bt_ind0 = 0, bt_ind1 = 0, bt_depth = -1, bt_ext = ix_extents y\<rparr> = Value (snd (new_file fs fes y))"
          using matches_visits [OF area m y] by (simp add: new_file_def file_visits_def)
        have run: "remap_inodes fs buf_blocks fes (y # ys) c =
            (if \<not> snd (rf_visits fs (ix_ino y)) then Exit 1
             else and_then (remap_inodes fs buf_blocks fes ys c1) (\<lambda>(files, c). Value ((ix_ino y, snd (new_file fs fes y)) # files, c)))"
          using Some False unfolding remap_inodes.simps c1(1) and_then.simps vis by simp
        have nf: "(ix_ino y, snd (new_file fs fes y)) = new_file fs fes y" by (simp add: new_file_def)
        have "\<forall>x\<in>set xs. file_ready fs bm (unat buf_blocks) x \<and> file_fits fes n (unat buf_blocks) x" using Cons.prems(1) by simp
        from Cons.IH [OF this apart(2) src'] show ?thesis
        proof
          assume e: "remap_inodes fs buf_blocks fes ys c1 = Exit 1"
          show ?thesis unfolding run e by simp
        next
          assume "\<exists>c'. remap_inodes fs buf_blocks fes ys c1 = Value (map (new_file fs fes) ys, c')
             \<and> extents_copied fes (concat (map ix_extents ys)) B (cs_dev c1) (cs_dev c')"
          then obtain c' where c': "remap_inodes fs buf_blocks fes ys c1 = Value (map (new_file fs fes) ys, c')"
            "extents_copied fes (concat (map ix_extents ys)) B (cs_dev c1) (cs_dev c')" by blast
          have "extents_copied fes (concat (map ix_extents (y # ys))) B (cs_dev c) (cs_dev c')"
            using extents_copied_append [OF area(1) apart(3) len c1(2) c'(2)] by simp
          then show ?thesis unfolding run c'(1) nf by simp
        qed
      qed
    qed
  qed
qed

end
