(* ===== verification/E2remap_Moved.thy ===== *)
theory E2remap_Moved
  imports E2remap_Files
begin

text \<open>
  What the work of \<open>e2remapblocks\<close> leaves when the loaded extents describe the files: the same contents
  at the new blocks, all of them in use, and group counts that agree with the bitmap.
\<close>

section \<open>The whole work\<close>

text \<open>The extents that \<open>load_extents\<close> leaves fit the chosen area when they describe the files.\<close>

lemma file_entries_blocks:
  assumes "\<forall>v\<in>set (file_visits fs ino). remap_visit_ok v"
  shows "map fst (file_entries fs ino) = map iv_block (file_visits fs ino)"
proof -
  from remap_visits_entries [OF assms, of "rf_blocksize fs" "\<lparr>bt_ind0 = 0, bt_ind1 = 0, bt_depth = -1, bt_ext = []\<rparr>"]
  obtain es where "map fst es = map iv_block (file_visits fs ino)"
    "\<forall>exts. remap_entries (rf_blocksize fs) (file_visits fs ino) (\<lparr>bt_ind0 = 0, bt_ind1 = 0, bt_depth = -1, bt_ext = []\<rparr>\<lparr>bt_ext := exts\<rparr>) = es"
    by blast
  from this(1) this(2) [rule_format, of "[]"] show ?thesis by (simp add: file_entries_def)
qed

lemma ordered_distinct: "ordered es \<Longrightarrow> distinct es"
proof -
  assume o: "ordered es"
  then have nonempty: "ext_start e < ext_stop e" if "e \<in> set es" for e using that by (simp add: ordered_def)
  have "sorted_wrt (\<lambda>e f. ext_stop e \<le> ext_start f) es" using o by (simp add: ordered_def)
  then have "sorted_wrt (\<lambda>e f. ext_start e < ext_start f) es"
    by (rule sorted_wrt_mono_rel [rotated]) (use nonempty in \<open>fastforce intro: less_le_trans\<close>)
  then show ?thesis unfolding sorted_wrt_iff_nth_less distinct_conv_nth
    by (metis less_irrefl linorder_neqE_nat)
qed

lemma load_inv_extents:
  assumes "load_inv s"
  shows "distinct (concat (map ix_extents (rs_inodes s)))"
    and "e \<in> set (concat (map ix_extents (rs_inodes s))) \<Longrightarrow> ext_stop e < 2 ^ 32 \<and> 0 \<le> re_chunk_offset e
      \<and> int (chunk e) + int (unat (re_len e)) \<le> rs_blocks s"
    and "sorted_wrt (\<lambda>e f. chunks e \<inter> chunks f = {}) (concat (map ix_extents (rs_inodes s)))"
proof -
  let ?es = "concat (map ix_extents (rs_inodes s))"
  have o: "ordered (inorder (rs_tree s))" and m: "mset (inorder (rs_tree s)) = mset ?es" using assms by (simp_all add: load_inv_def)
  show "distinct ?es" using ordered_distinct [OF o] mset_eq_imp_distinct_iff [OF m] by simp
  obtain es where es: "mset es = mset (inorder (rs_tree s))" "numbered es (rs_blocks s)" using assms by (auto simp: load_inv_def)
  have me: "mset es = mset ?es" using es(1) m by simp
  show "sorted_wrt (\<lambda>e f. chunks e \<inter> chunks f = {}) ?es"
    by (rule sorted_wrt_perm [OF _ numbered_chunks(2) [OF es(2)] me]) (simp add: Int_commute)
  assume e: "e \<in> set ?es"
  then have "e \<in> set (inorder (rs_tree s))" "e \<in> set es" using mset_eq_setD [OF m] mset_eq_setD [OF me] by simp_all
  then show "ext_stop e < 2 ^ 32 \<and> 0 \<le> re_chunk_offset e \<and> int (chunk e) + int (unat (re_len e)) \<le> rs_blocks s"
    using o numbered_chunks(1) [OF es(2)] by (simp add: ordered_def)
qed

lemma load_inv_fits:
  assumes inv: "load_inv s" and x: "x \<in> set (rs_inodes s)" and m: "file_ready fs bm buf_blocks x"
    and free: "\<And>p w. p < nat (rs_blocks s) \<Longrightarrow> unat w = target fes p \<Longrightarrow> \<not> bb_used bm w"
  shows "file_fits fes (nat (rs_blocks s)) buf_blocks x"
  unfolding file_fits_def
proof (intro conjI ballI)
  have x': "ix_extents x \<in> set (map ix_extents (rs_inodes s))" using x by simp
  show "ix_extents x \<noteq> []" using inv x by (simp add: load_inv_def)
  show "distinct (ix_extents x)" using load_inv_extents(1) [OF inv] x' by (simp add: distinct_concat_iff)
  fix e assume e: "e \<in> set (ix_extents x)"
  then have "e \<in> set (concat (map ix_extents (rs_inodes s)))" using x by auto
  note l = load_inv_extents(2) [OF inv this]
  then show "ext_stop e < 2 ^ 32" by blast
  have "unat (re_block e) + j \<notin> target fes ` {..<nat (rs_blocks s)}" if j: "j < unat (re_len e)" for j
  proof
    assume "unat (re_block e) + j \<in> target fes ` {..<nat (rs_blocks s)}"
    then obtain p where p: "p < nat (rs_blocks s)" "unat (re_block e) + j = target fes p" by auto
    have lt: "unat (re_block e) + j < 2 ^ 32" using l j by (simp add: ext_stop_def)
    then have "unat (re_block e + of_nat j) = target fes p"
      using p(2) by (simp add: unat_word_ariths unat_of_nat take_bit_nat_eq_self)
    moreover have "(re_block e + of_nat j, re_offset e + int j) \<in> set (file_entries fs (ix_ino x))" using m e j by (simp add: file_ready_defs)
    ultimately show False using free [OF p(1)] m by (fastforce simp: file_ready_defs)
  qed
  moreover have "chunk e + unat (re_len e) \<le> nat (rs_blocks s)" using l by linarith
  moreover have "unat (re_len e) \<le> buf_blocks" using m e by (simp add: file_ready_defs)
  ultimately show "extent_fits fes (nat (rs_blocks s)) buf_blocks e" using l by (simp add: extent_fits_def)
qed

text \<open>What the extents, the files and the free space promise before the run.\<close>

definition remap_ready :: "qsorts \<Rightarrow> 'm remap_fs \<Rightarrow> block_bitmap \<Rightarrow> int \<Rightarrow> remap_state \<Rightarrow> bool" where
  "remap_ready srt fs bm min_size s \<longleftrightarrow> 0 < rs_blocks s \<and> rs_blocks s < 2 ^ 32
     \<and> 0 < min_size \<and> min_size < 2 ^ 31 \<and> unat (bb_end bm) + 8 \<le> 2 ^ 32 \<and> unat (bb_end bm) \<le> unat (rf_blocks_count fs)
     \<and> (\<forall>x\<in>set (rs_inodes s). file_matches fs bm x)
     \<and> (\<forall>found k. runs_found bm (rs_blocks s) min_size k found \<longrightarrow> enough_runs (by_len srt) (rs_blocks s) found)"

definition work_result ::
  "'m remap_fs \<Rightarrow> block_bitmap \<Rightarrow> nat \<Rightarrow> 'm \<times> u16 list \<Rightarrow> remap_dev \<Rightarrow> remap_state
     \<Rightarrow> ((u32 \<times> u32 list) list \<times> ('m \<times> u16 list) \<times> copy_state) run_result \<Rightarrow> bool" where
  "work_result fs bm buf_blocks mc dev s r \<longleftrightarrow> (\<exists>ys fes c. list_all2 sorted_inode (rs_inodes s) ys \<and> area bm (rs_blocks s) True fes
     \<and> (\<forall>x\<in>set (rs_inodes s). file_fits fes (nat (rs_blocks s)) buf_blocks x)
     \<and> r = and_then (update_bitmap (rf_lib fs) (rf_blocks_per_group fs) fes ys mc) (\<lambda>mc. Value (map (new_file fs fes) ys, mc, c))
     \<and> extents_copied fes (concat (map ix_extents ys)) (rd_blocks dev) dev (cs_dev c))"

lemma sorted_inodes_mset:
  assumes "list_all2 sorted_inode xs ys"
  shows "mset (concat (map ix_extents xs)) = mset (concat (map ix_extents ys))" and "map ix_ino ys = map ix_ino xs"
proof -
  have "list_all2 (\<lambda>x y. mset (ix_extents x) = mset (ix_extents y)) xs ys"
    using assms by (rule list_all2_mono) (simp add: sorted_inode_def)
  then show "mset (concat (map ix_extents xs)) = mset (concat (map ix_extents ys))" by (rule mset_concat_pointwise)
  show "map ix_ino ys = map ix_ino xs" using assms by (induction rule: list_all2_induct) (simp_all add: sorted_inode_def)
qed

lemma remap_work_result:
  assumes srt: "qsorts_ok srt" and inv: "load_inv s" and ready: "remap_ready srt fs bm min_size s"
    and short: "\<forall>x\<in>set (rs_inodes s). short_extents (unat buf_blocks) x"
  shows "remap_work srt fs (Some bm) min_size buf_blocks mc dev s = Exit 1
    \<or> work_result fs bm (unat buf_blocks) mc dev s (remap_work srt fs (Some bm) min_size buf_blocks mc dev s)"
proof -
  have n: "0 < rs_blocks s" "rs_blocks s < 2 ^ 32" and min: "0 < min_size" "min_size < 2 ^ 31"
    and bm: "unat (bb_end bm) + 8 \<le> 2 ^ 32" "unat (bb_end bm) \<le> unat (rf_blocks_count fs)"
    and files: "\<And>x. x \<in> set (rs_inodes s) \<Longrightarrow> file_ready fs bm (unat buf_blocks) x"
    and enough: "\<And>found k. runs_found bm (rs_blocks s) min_size k found \<Longrightarrow> enough_runs (by_len srt) (rs_blocks s) found"
    using ready short unfolding remap_ready_def file_ready_def by blast+
  have srt': "c_qsort ext_offset_less (by_offset srt)" "c_qsort len_less (by_len srt)" "c_qsort start_less (by_start srt)"
    using srt by (simp_all add: qsorts_ok_def)
  from sort_inodes_extents_spec [OF srt'(1) inv] show ?thesis
  proof
    assume "sort_inodes_extents (by_offset srt) s = Exit 1"
    then show ?thesis by (simp add: remap_work_def)
  next
    assume "\<exists>xs m. sort_inodes_extents (by_offset srt) s = Value (s\<lparr>rs_inodes := xs, rs_allocs := m\<rparr>)
      \<and> list_all2 sorted_inode (rs_inodes s) xs"
    then obtain ys m where sort: "sort_inodes_extents (by_offset srt) s = Value (s\<lparr>rs_inodes := ys, rs_allocs := m\<rparr>)"
      and ys: "list_all2 sorted_inode (rs_inodes s) ys" by blast
    let ?s = "s\<lparr>rs_inodes := ys, rs_allocs := m\<rparr>"
    have n': "0 < rs_blocks ?s" "rs_blocks ?s < 2 ^ 32" using n by simp_all
    from find_free_blocks_spec [OF srt'(2,3) bm(1) n' min] show ?thesis
    proof
      assume "find_free_blocks (by_len srt) (by_start srt) (Some bm) min_size ?s = Exit 1"
      then show ?thesis unfolding remap_work_def sort and_then.simps by simp
    next
      assume "\<exists>fes m. find_free_blocks (by_len srt) (by_start srt) (Some bm) min_size ?s = Value (fes, ?s\<lparr>rs_allocs := m\<rparr>)
         \<and> (area bm (rs_blocks ?s) True fes
           \<or> (\<exists>found. runs_found bm (rs_blocks ?s) min_size (rs_allocs ?s - 1) found \<and> runs bm found
             \<and> \<not> enough_runs (by_len srt) (rs_blocks ?s) found \<and> area bm (rs_blocks ?s) False fes))"
      then obtain fes m' where find: "find_free_blocks (by_len srt) (by_start srt) (Some bm) min_size ?s = Value (fes, ?s\<lparr>rs_allocs := m'\<rparr>)"
        and "area bm (rs_blocks s) True fes \<or> (\<exists>found. runs_found bm (rs_blocks s) min_size (m - 1) found
             \<and> \<not> enough_runs (by_len srt) (rs_blocks s) found)" by auto
      then have area: "area bm (rs_blocks s) True fes" using enough by blast
      note good = area_good(1) [OF area n] and target = area_good(2) [OF area n, THEN conjunct1] and free = area_good(2) [OF area n, THEN conjunct2, rule_format]
      have fits: "\<forall>x\<in>set (rs_inodes s). file_ready fs bm (unat buf_blocks) x \<and> file_fits fes (nat (rs_blocks s)) (unat buf_blocks) x"
      proof (intro ballI conjI)
        fix x assume x: "x \<in> set (rs_inodes s)"
        show "file_ready fs bm (unat buf_blocks) x" using files [OF x] .
        from load_inv_fits [OF inv x this free] show "file_fits fes (nat (rs_blocks s)) (unat buf_blocks) x" .
      qed
      have apart: "sorted_wrt (\<lambda>e f. chunks e \<inter> chunks f = {}) (concat (map ix_extents ys))"
        by (rule sorted_wrt_perm [OF _ load_inv_extents(3) [OF inv] sorted_inodes_mset(1) [OF ys]]) (simp add: Int_commute)
      have inside: "\<And>p. p < nat (rs_blocks s) \<Longrightarrow> target fes p < unat (rf_blocks_count fs)" using target bm(2) by (meson less_le_trans)
      let ?c = "\<lparr>cs_dev = dev, cs_buf = False, cs_allocs = m'\<rparr>"
      have "remap_inodes fs buf_blocks fes ys ?c = Exit 1
        \<or> (\<exists>c'. remap_inodes fs buf_blocks fes ys ?c = Value (map (new_file fs fes) ys, c')
             \<and> extents_copied fes (concat (map ix_extents ys)) (rd_blocks dev) (cs_dev ?c) (cs_dev c'))"
        by (rule remap_inodes_spec [OF good inside ys fits apart]) simp_all
      moreover have run: "remap_work srt fs (Some bm) min_size buf_blocks mc dev s = copy_and_remap_extents fs buf_blocks fes ys mc ?c"
        unfolding remap_work_def sort and_then.simps find by simp
      ultimately show ?thesis
        unfolding work_result_def run copy_and_remap_extents_def using ys area fits by (elim disjE exE conjE) (simp, force)
    qed
  qed
qed

lemma sorted_inodes_nth:
  assumes "list_all2 sorted_inode xs ys" and "y \<in> set ys"
  shows "\<exists>x\<in>set xs. sorted_inode x y"
  using assms by (induction rule: list_all2_induct) auto

lemma new_file_contents:
  assumes n: "0 < rs_blocks s" "rs_blocks s < 2 ^ 32" and files: "\<forall>x\<in>set (rs_inodes s). file_ready fs bm buf_blocks x"
    and area: "area bm (rs_blocks s) True fes" and fits: "\<forall>x\<in>set (rs_inodes s). file_fits fes (nat (rs_blocks s)) buf_blocks x"
    and ys: "list_all2 sorted_inode (rs_inodes s) ys" "y \<in> set ys"
    and copied: "extents_copied fes (concat (map ix_extents ys)) (rd_blocks dev) dev d"
  shows "map (\<lambda>b. rd_blocks d (unat b)) (snd (new_file fs fes y)) = map (\<lambda>v. rd_blocks dev (unat (iv_block v))) (file_visits fs (ix_ino y))"
proof -
  obtain x where x: "x \<in> set (rs_inodes s)" "sorted_inode x y" using sorted_inodes_nth [OF ys] by blast
  have m: "file_ready fs bm buf_blocks x" and f: "file_fits fes (nat (rs_blocks s)) buf_blocks x" using files fits x(1) by blast+
  have ino: "ix_ino y = ix_ino x" using x(2) by (simp add: sorted_inode_def)
  note good = area_good(1) [OF area n] and free = area_good(2) [OF area n, THEN conjunct2, rule_format]
  have c: "\<forall>e\<in>set (ix_extents y). \<forall>j<unat (re_len e). rd_blocks d (target fes (chunk e + j)) = rd_blocks dev (unat (re_block e) + j)"
    using copied ys(2) by (auto simp: extents_copied_def)
  have all: "\<forall>e\<in>set (concat (map ix_extents ys)). chunk e + unat (re_len e) \<le> nat (rs_blocks s)"
  proof
    fix e assume "e \<in> set (concat (map ix_extents ys))"
    then obtain y' where y': "y' \<in> set ys" "e \<in> set (ix_extents y')" by auto
    obtain x' where x': "x' \<in> set (rs_inodes s)" "sorted_inode x' y'" using sorted_inodes_nth [OF ys(1) y'(1)] by blast
    have "e \<in> set (ix_extents x')" using x'(2) y'(2) by (auto simp: sorted_inode_def dest: mset_eq_setD)
    then show "chunk e + unat (re_len e) \<le> nat (rs_blocks s)" using fits x'(1) by (auto simp: file_fits_def extent_fits_def)
  qed
  have same: "rd_blocks d b = rd_blocks dev b" if "b \<notin> target fes ` {..<nat (rs_blocks s)}" for b
    by (rule extents_copied_source [OF copied all that])
  have "rd_blocks d (unat (new_number fes (ix_extents y) p)) = rd_blocks dev (unat (fst p))" if "p \<in> set (file_entries fs (ix_ino x))" for p
    by (rule matches_contents [OF good m f x(2) free c same that])
  then have "map (\<lambda>b. rd_blocks d (unat b)) (snd (new_file fs fes y)) = map (\<lambda>b. rd_blocks dev (unat b)) (map fst (file_entries fs (ix_ino x)))"
    by (simp add: new_file_def ino)
  also have "map fst (file_entries fs (ix_ino x)) = map iv_block (file_visits fs (ix_ino x))"
    using m by (intro file_entries_blocks) (simp add: file_ready_defs)
  finally show ?thesis by (simp add: ino comp_def)
qed

text \<open>The bitmap.\<close>

lemma concat_distinct_same:
  "distinct (concat (map g xs)) \<Longrightarrow> x \<in> set xs \<Longrightarrow> z \<in> set xs \<Longrightarrow> b \<in> set (g x) \<Longrightarrow> b \<in> set (g z) \<Longrightarrow> x = z"
  by (induction xs) auto

lemma new_file_used:
  assumes n: "0 < rs_blocks s" "rs_blocks s < 2 ^ 32" and files: "\<forall>x\<in>set (rs_inodes s). file_ready fs bm buf_blocks x"
    and area: "area bm (rs_blocks s) True fes" and fits: "\<forall>x\<in>set (rs_inodes s). file_fits fes (nat (rs_blocks s)) buf_blocks x"
    and ys: "list_all2 sorted_inode (rs_inodes s) ys" "y \<in> set ys"
    and own: "distinct (concat (map (\<lambda>x. map iv_block (file_visits fs (ix_ino x))) (rs_inodes s)))"
    and b: "b \<in> set (snd (new_file fs fes y))"
  shows "(bb_used bm b \<or> in_ranges (new_ranges fes) (unat b)) \<and> \<not> in_ranges (old_ranges ys) (unat b)"
proof -
  obtain x where x: "x \<in> set (rs_inodes s)" "sorted_inode x y" using sorted_inodes_nth [OF ys] by blast
  have m: "file_ready fs bm buf_blocks x" and f: "file_fits fes (nat (rs_blocks s)) buf_blocks x" using files fits x(1) by blast+
  have set: "ix_ino y = ix_ino x" "set (ix_extents y) = set (ix_extents x)" using x(2) by (auto simp: sorted_inode_def dest: mset_eq_setD)
  note good = area_good(1) [OF area n]
  obtain p where p: "p \<in> set (file_entries fs (ix_ino x))" "b = new_number fes (ix_extents y) p"
    using b by (auto simp: new_file_def set(1))
  have old: "\<exists>z\<in>set (rs_inodes s). \<exists>e\<in>set (ix_extents z). \<exists>j<unat (re_len e). unat b = unat (re_block e) + j" if "in_ranges (old_ranges ys) (unat b)"
  proof -
    from that obtain y' e where y': "y' \<in> set ys" "e \<in> set (ix_extents y')" "unat (re_block e) \<le> unat b" "unat b < unat (re_block e) + unat (re_len e)"
      by (auto simp: in_ranges_def old_ranges_def)
    obtain z where z: "z \<in> set (rs_inodes s)" "sorted_inode z y'" using sorted_inodes_nth [OF ys(1) y'(1)] by blast
    have "e \<in> set (ix_extents z)" using z(2) y'(2) by (auto simp: sorted_inode_def dest: mset_eq_setD)
    moreover have "unat b - unat (re_block e) < unat (re_len e)" "unat b = unat (re_block e) + (unat b - unat (re_block e))" using y'(3,4) by linarith+
    ultimately show ?thesis using z(1) by blast
  qed
  show ?thesis
  proof (cases "find (\<lambda>e. in_ext e (snd p)) (ix_extents y)")
    case (Some e)
    then have e: "e \<in> set (ix_extents y)" "in_ext e (snd p)" by (auto simp: find_Some_iff)
    have "extent_fits fes (nat (rs_blocks s)) buf_blocks e" using f e(1) set by (simp add: file_fits_def)
    note q = in_chunk [OF this e(2)]
    have ub: "unat b = target fes (chunk e + nat (snd p - re_offset e))"
      unfolding p(2) new_number_def Some option.case by (rule target_word [OF good q])
    obtain k where "k < length fes" "fe_start (fes ! k) \<le> unat b" "unat b < fe_stop (fes ! k)" using target_in [OF good q] ub by auto
    then have "in_ranges (new_ranges fes) (unat b)"
      by (force simp: in_ranges_def new_ranges_def fe_start_def fe_stop_def)
    moreover have "\<not> in_ranges (old_ranges ys) (unat b)"
    proof
      assume "in_ranges (old_ranges ys) (unat b)"
      from old [OF this] obtain z g j where z: "z \<in> set (rs_inodes s)" "g \<in> set (ix_extents z)" "j < unat (re_len g)" "unat b = unat (re_block g) + j" by blast
      have "extent_fits fes (nat (rs_blocks s)) buf_blocks g" using fits z(1,2) by (simp add: file_fits_def)
      then have "unat b \<notin> target fes ` {..<nat (rs_blocks s)}" using z(3,4) by (simp add: extent_fits_def)
      then show False using q ub by simp
    qed
    ultimately show ?thesis by blast
  next
    case None
    then have b: "b = fst p" by (simp add: p(2) new_number_def)
    have blocks: "map fst (file_entries fs (ix_ino z)) = map iv_block (file_visits fs (ix_ino z))" if "z \<in> set (rs_inodes s)" for z
      using files that by (intro file_entries_blocks) (simp add: file_ready_defs)
    have "bb_used bm b" using m p(1) b by (simp add: file_ready_defs)
    moreover have "\<not> in_ranges (old_ranges ys) (unat b)"
    proof
      assume "in_ranges (old_ranges ys) (unat b)"
      from old [OF this] obtain z g j where z: "z \<in> set (rs_inodes s)" "g \<in> set (ix_extents z)" "j < unat (re_len g)" "unat b = unat (re_block g) + j" by blast
      have "unat (re_block g) + j < 2 ^ 32" using z(4) unsigned_less [of b, where ?'a = nat] by simp
      then have "unat (re_block g + of_nat j) = unat b" using z(4) by (simp add: unat_word_ariths unat_of_nat take_bit_nat_eq_self)
      then have bg: "re_block g + of_nat j = b" unfolding word_unat_eq_iff .
      have zq: "(b, re_offset g + int j) \<in> set (file_entries fs (ix_ino z))" using files z(1,2,3) bg by (auto simp: file_ready_defs)
      have bx: "b \<in> set (map iv_block (file_visits fs (ix_ino x)))" using p(1) b blocks [OF x(1)] by (metis image_eqI list.set_map)
      have bz: "b \<in> set (map iv_block (file_visits fs (ix_ino z)))" using zq blocks [OF z(1)] by (metis fst_conv image_eqI list.set_map)
      have xz: "x = z" by (rule concat_distinct_same [OF own x(1) z(1) bx bz])
      have "distinct (map fst (file_entries fs (ix_ino x)))" using own x(1) blocks [OF x(1)] by (simp add: distinct_concat_iff)
      then have "p = (b, re_offset g + int j)" using p(1) zq b xz by (metis distinct_map fst_conv inj_onD)
      moreover have "int j < int (unat (re_len g))" using z(3) by linarith
      ultimately have "in_ext g (snd p)" unfolding in_ext_def uint_nat by simp
      then show False using None z(2) xz set(2) by (auto simp: find_None_iff)
    qed
    ultimately show ?thesis by blast
  qed
qed

section \<open>Which blocks move\<close>

text \<open>
  What happens to one block \<open>p\<close> (with its offset) of a file, when no two places of the files share a
  block: it moves exactly when an extent claims it.
\<close>

definition claimed :: "remap_state \<Rightarrow> u32 \<Rightarrow> u32 \<Rightarrow> bool" where
  "claimed s ino b \<longleftrightarrow> (\<exists>off. (unat b, ino, off) \<in> claims s)"

lemma claimed_extent:
  "claimed s ino b \<longleftrightarrow> (\<exists>z\<in>set (rs_inodes s). \<exists>g\<in>set (ix_extents z). ix_ino z = ino
     \<and> unat (re_block g) \<le> unat b \<and> unat b < unat (re_block g) + unat (re_len g))"
  unfolding claimed_def claims_def ext_start_def ext_stop_def by blast

lemma claimed_in_ext:
  assumes files: "\<forall>x\<in>set (rs_inodes s). file_ready fs bm buf_blocks x"
    and own: "distinct (concat (map (\<lambda>x. map iv_block (file_visits fs (ix_ino x))) (rs_inodes s)))"
    and x: "x \<in> set (rs_inodes s)" "p \<in> set (file_entries fs (ix_ino x))"
    and z: "z \<in> set (rs_inodes s)" "g \<in> set (ix_extents z)" "unat (re_block g) \<le> unat (fst p)"
      "unat (fst p) < unat (re_block g) + unat (re_len g)"
  shows "x = z \<and> in_ext g (snd p)"
proof -
  have blocks: "map fst (file_entries fs (ix_ino z)) = map iv_block (file_visits fs (ix_ino z))" if "z \<in> set (rs_inodes s)" for z
    using files that by (intro file_entries_blocks) (simp add: file_ready_defs)
  define j where "j = unat (fst p) - unat (re_block g)"
  have j: "j < unat (re_len g)" "unat (fst p) = unat (re_block g) + j" using z(3,4) by (simp_all add: j_def)
  have "unat (re_block g) + j < 2 ^ 32" using j(2) unsigned_less [of "fst p", where ?'a = nat] by simp
  then have "unat (re_block g + of_nat j) = unat (fst p)" using j(2) by (simp add: unat_word_ariths unat_of_nat take_bit_nat_eq_self)
  then have bg: "re_block g + of_nat j = fst p" unfolding word_unat_eq_iff .
  have "file_ready fs bm buf_blocks z" using files z(1) by blast
  then have "(re_block g + of_nat j, re_offset g + int j) \<in> set (file_entries fs (ix_ino z))"
    using z(2) j(1) by (simp add: file_ready_defs)
  then have zq: "(fst p, re_offset g + int j) \<in> set (file_entries fs (ix_ino z))" unfolding bg .
  have bx: "fst p \<in> set (map iv_block (file_visits fs (ix_ino x)))" using x(2) blocks [OF x(1)] by (metis image_eqI list.set_map)
  have bz: "fst p \<in> set (map iv_block (file_visits fs (ix_ino z)))" using zq blocks [OF z(1)] by (metis fst_conv image_eqI list.set_map)
  have xz: "x = z" by (rule concat_distinct_same [OF own x(1) z(1) bx bz])
  have "distinct (map fst (file_entries fs (ix_ino x)))" using own x(1) blocks [OF x(1)] by (simp add: distinct_concat_iff)
  then have "p = (fst p, re_offset g + int j)" using x(2) zq xz by (metis distinct_map fst_conv inj_onD)
  moreover have "int j < int (unat (re_len g))" using j(1) by linarith
  ultimately have "in_ext g (snd p)" unfolding in_ext_def uint_nat by (metis add_diff_cancel_left' le_add_same_cancel1 of_nat_0_le_iff snd_conv add_less_cancel_left)
  then show ?thesis using xz by blast
qed

lemma new_number_moved:
  assumes n: "0 < rs_blocks s" "rs_blocks s < 2 ^ 32" and files: "\<forall>x\<in>set (rs_inodes s). file_ready fs bm buf_blocks x"
    and area: "area bm (rs_blocks s) True fes" and fits: "\<forall>x\<in>set (rs_inodes s). file_fits fes (nat (rs_blocks s)) buf_blocks x"
    and ys: "list_all2 sorted_inode (rs_inodes s) ys" "y \<in> set ys"
    and own: "distinct (concat (map (\<lambda>x. map iv_block (file_visits fs (ix_ino x))) (rs_inodes s)))"
    and p: "p \<in> set (file_entries fs (ix_ino y))"
  shows "if claimed s (ix_ino y) (fst p)
    then \<exists>e\<in>set (ix_extents y). \<exists>i<unat (re_len e). unat (fst p) = unat (re_block e) + i
      \<and> chunk e + i < nat (rs_blocks s) \<and> unat (new_number fes (ix_extents y) p) = target fes (chunk e + i)
    else new_number fes (ix_extents y) p = fst p"
proof -
  obtain x where x: "x \<in> set (rs_inodes s)" "sorted_inode x y" using sorted_inodes_nth [OF ys] by blast
  have m: "file_ready fs bm buf_blocks x" and f: "file_fits fes (nat (rs_blocks s)) buf_blocks x" using files fits x(1) by blast+
  have set: "ix_ino y = ix_ino x" "set (ix_extents y) = set (ix_extents x)" using x(2) by (auto simp: sorted_inode_def dest: mset_eq_setD)
  have px: "p \<in> set (file_entries fs (ix_ino x))" using p set(1) by simp
  show ?thesis
  proof (cases "find (\<lambda>e. in_ext e (snd p)) (ix_extents y)")
    case (Some e)
    then have e: "e \<in> set (ix_extents y)" "in_ext e (snd p)" by (auto simp: find_Some_iff)
    have fe: "extent_fits fes (nat (rs_blocks s)) buf_blocks e" "ext_stop e < 2 ^ 32" using f e(1) set by (simp_all add: file_fits_def)
    note q = in_chunk [OF fe(1) e(2)]
    have ub: "unat (new_number fes (ix_extents y) p) = target fes (chunk e + nat (snd p - re_offset e))"
      unfolding new_number_def Some option.case by (rule target_word [OF area_good(1) [OF area n] q])
    have b: "unat (fst p) = unat (re_block e) + nat (snd p - re_offset e)" "nat (snd p - re_offset e) < unat (re_len e)"
      using matches_block [OF m _ fe(2) px e(2)] e(1) set(2) by simp_all
    have "claimed s (ix_ino y) (fst p)"
      unfolding claimed_extent using x(1) e(1) set b by (intro bexI [of _ x] bexI [of _ e]) simp_all
    then show ?thesis using e(1) q ub b by auto
  next
    case None
    have "\<not> claimed s (ix_ino y) (fst p)"
    proof
      assume "claimed s (ix_ino y) (fst p)"
      then obtain z g where z: "z \<in> set (rs_inodes s)" "g \<in> set (ix_extents z)"
        "unat (re_block g) \<le> unat (fst p)" "unat (fst p) < unat (re_block g) + unat (re_len g)"
        unfolding claimed_extent by blast
      from claimed_in_ext [OF files own x(1) px z] have "g \<in> set (ix_extents y)" "in_ext g (snd p)" using z(2) set(2) by simp_all
      then show False using None by (auto simp: find_None_iff)
    qed
    then show ?thesis using None by (simp add: new_number_def)
  qed
qed

text \<open>No two places of the files have the same block afterwards either.\<close>

lemma new_numbers_distinct:
  assumes n: "0 < rs_blocks s" "rs_blocks s < 2 ^ 32" and inv: "load_inv s"
    and files: "\<forall>x\<in>set (rs_inodes s). file_ready fs bm buf_blocks x"
    and area: "area bm (rs_blocks s) True fes" and fits: "\<forall>x\<in>set (rs_inodes s). file_fits fes (nat (rs_blocks s)) buf_blocks x"
    and ys: "list_all2 sorted_inode (rs_inodes s) ys"
    and own: "distinct (concat (map (\<lambda>x. map iv_block (file_visits fs (ix_ino x))) (rs_inodes s)))"
  shows "distinct (concat (map (\<lambda>y. snd (new_file fs fes y)) ys))"
proof -
  let ?P = "concat (map (\<lambda>y. map (Pair y) (file_entries fs (ix_ino y))) ys)"
  let ?f = "\<lambda>(y, p). new_number fes (ix_extents y) p"
  have eq: "concat (map (\<lambda>y. snd (new_file fs fes y)) ys) = map ?f ?P"
    by (simp add: new_file_def map_concat comp_def)
  have old: "distinct (map (fst \<circ> snd) ?P)"
  proof -
    have e: "map fst (file_entries fs (ix_ino y)) = map iv_block (file_visits fs (ix_ino y))" if y: "y \<in> set ys" for y
    proof -
      obtain x where "x \<in> set (rs_inodes s)" "sorted_inode x y" using sorted_inodes_nth [OF ys y] by blast
      then show ?thesis using files by (intro file_entries_blocks) (auto simp: file_ready_defs sorted_inode_def)
    qed
    have "map (fst \<circ> snd) ?P = concat (map (\<lambda>y. map iv_block (file_visits fs (ix_ino y))) ys)"
      using e by (simp add: map_concat comp_def cong: map_cong)
    also have "\<dots> = concat (map (\<lambda>ino. map iv_block (file_visits fs ino)) (map ix_ino ys))" by (simp add: comp_def)
    also have "\<dots> = concat (map (\<lambda>x. map iv_block (file_visits fs (ix_ino x))) (rs_inodes s))"
      unfolding sorted_inodes_mset(2) [OF ys] by (simp add: comp_def)
    finally show ?thesis using own by simp
  qed
  have inj: "inj_on ?f (set ?P)"
  proof (rule inj_onI)
    fix a b assume a: "a \<in> set ?P" and b: "b \<in> set ?P" and ab: "?f a = ?f b"
    obtain y p where yp: "a = (y, p)" by (cases a)
    obtain z q where zq: "b = (z, q)" by (cases b)
    have y: "y \<in> set ys" "p \<in> set (file_entries fs (ix_ino y))" using a yp by auto
    have z: "z \<in> set ys" "q \<in> set (file_entries fs (ix_ino z))" using b zq by auto
    note moved = new_number_moved [OF n files area fits ys _ own]
    note mp = moved [OF y] and mq = moved [OF z]
    note good = area_good(1) [OF area n] and free = area_good(2) [OF area n, THEN conjunct2, rule_format]
    have used: "bb_used bm (fst r)" if "w \<in> set ys" "r \<in> set (file_entries fs (ix_ino w))" for w r
    proof -
      from sorted_inodes_nth [OF ys that(1)] obtain x where x: "x \<in> set (rs_inodes s)" "sorted_inode x w" by blast
      then show ?thesis using files that(2) by (auto simp: file_ready_defs sorted_inode_def)
    qed
    have new: "\<not> bb_used bm w" if "i < nat (rs_blocks s)" "unat w = target fes i" for i w
      using free [OF that] .
    have "fst p = fst q"
    proof (cases "claimed s (ix_ino y) (fst p)")
      case False
      then have p: "new_number fes (ix_extents y) p = fst p" using mp by simp
      show ?thesis
      proof (cases "claimed s (ix_ino z) (fst q)")
        case True
        then show ?thesis using mq new used [OF y] ab p yp zq by auto
      qed (use mq p ab yp zq in simp)
    next
      case P: True
      then obtain e i where e: "e \<in> set (ix_extents y)" "i < unat (re_len e)" "unat (fst p) = unat (re_block e) + i"
        "chunk e + i < nat (rs_blocks s)" "unat (new_number fes (ix_extents y) p) = target fes (chunk e + i)"
        using mp by auto
      show ?thesis
      proof (cases "claimed s (ix_ino z) (fst q)")
        case False
        then have "new_number fes (ix_extents z) q = fst q" using mq by simp
        then show ?thesis using new [OF e(4,5)] used [OF z] ab yp zq by simp
      next
        case True
        then obtain g j where g: "g \<in> set (ix_extents z)" "j < unat (re_len g)" "unat (fst q) = unat (re_block g) + j"
          "chunk g + j < nat (rs_blocks s)" "unat (new_number fes (ix_extents z) q) = target fes (chunk g + j)"
          using mq by auto
        have "target fes (chunk e + i) = target fes (chunk g + j)" using e(5) g(5) ab yp zq by simp
        then have c: "chunk e + i = chunk g + j" by (rule target_inj [OF good e(4) g(4)])
        have "e = g"
        proof (rule ccontr)
          assume ne: "e \<noteq> g"
          let ?es = "concat (map ix_extents ys)"
          have "sorted_wrt (\<lambda>e f. chunks e \<inter> chunks f = {}) ?es"
            by (rule sorted_wrt_perm [OF _ load_inv_extents(3) [OF inv] sorted_inodes_mset(1) [OF ys]]) (simp add: Int_commute)
          moreover have "e \<in> set ?es" "g \<in> set ?es" using e(1) g(1) y(1) z(1) by auto
          then obtain k l where "k < length ?es" "?es ! k = e" "l < length ?es" "?es ! l = g"
            by (metis in_set_conv_nth)
          ultimately have "chunks e \<inter> chunks g = {}"
            using ne unfolding sorted_wrt_iff_nth_less by (metis Int_commute linorder_neqE_nat)
          moreover have "chunk e + i \<in> chunks e" "chunk g + j \<in> chunks g" using e(2) g(2) by (simp_all add: chunks_def)
          ultimately show False using c by auto
        qed
        then show ?thesis using c e(3) g(3) by (simp add: word_unat_eq_iff)
      qed
    qed
    then have "(fst \<circ> snd) a = (fst \<circ> snd) b" by (simp add: yp zq)
    moreover have "inj_on (fst \<circ> snd) (set ?P)" using old unfolding distinct_map by blast
    ultimately show "a = b" using a b by (meson inj_onD)
  qed
  have "distinct ?P" using old unfolding distinct_map by blast
  then have "distinct (map ?f ?P)" unfolding distinct_map using inj by blast
  then show ?thesis by (simp only: eq)
qed

section \<open>The specification\<close>

definition groups_ok :: "'m remap_fs \<Rightarrow> nat \<Rightarrow> bool" where
  "groups_ok fs groups \<longleftrightarrow> 0 < unat (rf_blocks_per_group fs) \<and> unat (rf_blocks_per_group fs) * groups < 2 ^ 32
     \<and> unat (rf_blocks_count fs) \<le> unat (rf_blocks_per_group fs) * groups
     \<and> (\<forall>b. bl_group (rf_lib fs) b = int (unat b div unat (rf_blocks_per_group fs)))"

lemma ranges_inside:
  assumes files: "\<forall>x\<in>set (rs_inodes s). file_ready fs bm buf_blocks x" and area: "area bm n True fes"
    and bm: "unat (bb_end bm) \<le> unat (rf_blocks_count fs)" and fits: "\<forall>x\<in>set (rs_inodes s). file_fits fes k buf_blocks x"
    and ys: "list_all2 sorted_inode (rs_inodes s) ys"
  shows "\<forall>(start, len)\<in>set (new_ranges fes @ old_ranges ys). unat start + unat len \<le> unat (rf_blocks_count fs)"
proof -
  have fes: "fes \<noteq> []" "\<forall>e\<in>set (butlast fes). run_free bm e" "run_free bm (last fes)" using area by (simp_all add: area_def)
  have "unat (fe_block e) + unat (fe_len e) \<le> unat (rf_blocks_count fs)" if "e \<in> set fes" for e
  proof -
    have "e \<in> set (butlast fes @ [last fes])" using that append_butlast_last_id [OF fes(1)] by simp
    then have "run_free bm e" using fes(2,3) by auto
    then show ?thesis using bm by (simp add: run_free_def fe_stop_def)
  qed
  moreover have "unat (re_block e) + unat (re_len e) \<le> unat (rf_blocks_count fs)" if e: "y \<in> set ys" "e \<in> set (ix_extents y)" for y e
  proof -
    obtain x where x: "x \<in> set (rs_inodes s)" "sorted_inode x y" using sorted_inodes_nth [OF ys e(1)] by blast
    have m: "file_ready fs bm buf_blocks x" and f: "file_fits fes k buf_blocks x" using files fits x(1) by blast+
    have ex: "e \<in> set (ix_extents x)" using x(2) e(2) by (auto simp: sorted_inode_def dest: mset_eq_setD)
    define j where "j = unat (re_len e) - 1"
    have "0 < uint (re_len e)" using m ex by (simp add: file_ready_defs ext_ok_def)
    then have j: "j < unat (re_len e)" "unat (re_len e) = Suc j" unfolding j_def uint_nat by linarith+
    have "unat (re_block e) + unat (re_len e) < 2 ^ 32" using f ex by (simp add: file_fits_def ext_stop_def)
    then have "unat (re_block e) + j < 2 ^ 32" using j(1) by linarith
    then have u: "unat (re_block e + of_nat j) = unat (re_block e) + j" by (simp add: unat_word_ariths unat_of_nat take_bit_nat_eq_self)
    have "(re_block e + of_nat j, re_offset e + int j) \<in> set (file_entries fs (ix_ino x))" using m ex j(1) by (simp add: file_ready_defs)
    then have "re_block e + of_nat j < rf_blocks_count fs" using m by (auto simp: file_ready_defs)
    then show ?thesis using u j(2) unfolding word_less_nat_alt by linarith
  qed
  ultimately show ?thesis by (auto simp: new_ranges_def old_ranges_def)
qed

lemma work_ranges:
  assumes inv: "load_inv s" and files: "\<forall>x\<in>set (rs_inodes s). file_ready fs bm buf_blocks x" and area: "area bm n True fes"
    and ys: "list_all2 sorted_inode (rs_inodes s) ys"
  shows "ranges_apart (new_ranges fes)" and "ranges_apart (old_ranges ys)"
    and "in_ranges (new_ranges fes) x \<Longrightarrow> \<exists>b. unat b = x \<and> \<not> bb_used bm b"
    and "in_ranges (old_ranges ys) x \<Longrightarrow> \<exists>b. unat b = x \<and> bb_used bm b"
proof -
  have fes: "fes \<noteq> []" "\<forall>e\<in>set (butlast fes). run_free bm e" "run_free bm (last fes)" "sorted_wrt (\<lambda>e f. fe_stop e \<le> fe_start f) fes"
    using area by (simp_all add: area_def)
  show "ranges_apart (new_ranges fes)"
    using fes(4) unfolding ranges_apart_def new_ranges_def sorted_wrt_map
    by (rule sorted_wrt_mono_rel [rotated]) (simp add: fe_start_def fe_stop_def)
  have o: "ordered (inorder (rs_tree s))" and m: "mset (inorder (rs_tree s)) = mset (concat (map ix_extents (rs_inodes s)))"
    using inv by (simp_all add: load_inv_def)
  from o have "sorted_wrt (\<lambda>e f. ext_stop e \<le> ext_start f) (inorder (rs_tree s))" by (simp add: ordered_def)
  then have srt: "sorted_wrt (\<lambda>e f. ext_stop e \<le> ext_start f \<or> ext_stop f \<le> ext_start e) (inorder (rs_tree s))"
    by (rule sorted_wrt_mono_rel [rotated]) simp
  have "mset (inorder (rs_tree s)) = mset (concat (map ix_extents ys))" using m sorted_inodes_mset(1) [OF ys] by simp
  from sorted_wrt_perm [OF _ srt this]
  have "sorted_wrt (\<lambda>e f. ext_stop e \<le> ext_start f \<or> ext_stop f \<le> ext_start e) (concat (map ix_extents ys))" by blast
  then show "ranges_apart (old_ranges ys)"
    unfolding ranges_apart_def old_ranges_def sorted_wrt_map by (simp add: ext_start_def ext_stop_def)
  show "\<exists>b. unat b = x \<and> \<not> bb_used bm b" if "in_ranges (new_ranges fes) x"
  proof -
    from that obtain e where e: "e \<in> set fes" "fe_start e \<le> x" "x < fe_stop e"
      by (auto simp: in_ranges_def new_ranges_def fe_start_def fe_stop_def)
    have "e \<in> set (butlast fes @ [last fes])" using e(1) append_butlast_last_id [OF fes(1)] by simp
    then have run: "run_free bm e" using fes(2,3) by auto
    then have "x < 2 ^ 32" using e(3) unsigned_less [of "bb_end bm", where ?'a = nat] by (simp add: run_free_def)
    then have "unat (of_nat x :: u32) = x" by (simp add: unat_of_nat take_bit_nat_eq_self)
    then show ?thesis using run e(2,3) by (intro exI [of _ "of_nat x"]) (simp add: run_free_def)
  qed
  show "\<exists>b. unat b = x \<and> bb_used bm b" if "in_ranges (old_ranges ys) x"
  proof -
    from that obtain y e where e: "y \<in> set ys" "e \<in> set (ix_extents y)" "unat (re_block e) \<le> x" "x < unat (re_block e) + unat (re_len e)"
      by (auto simp: in_ranges_def old_ranges_def)
    obtain z where z: "z \<in> set (rs_inodes s)" "sorted_inode z y" using sorted_inodes_nth [OF ys e(1)] by blast
    have ez: "e \<in> set (ix_extents z)" using z(2) e(2) by (auto simp: sorted_inode_def dest: mset_eq_setD)
    then have "e \<in> set (concat (map ix_extents (rs_inodes s)))" using z(1) by auto
    from load_inv_extents(2) [OF inv this] have "ext_stop e < 2 ^ 32" by blast
    then have lt: "x < 2 ^ 32" using e(4) by (simp add: ext_stop_def)
    define j where "j = x - unat (re_block e)"
    have j: "j < unat (re_len e)" "x = unat (re_block e) + j" using e(3,4) by (simp_all add: j_def)
    have "unat (re_block e + of_nat j) = x" using lt j by (simp add: unat_word_ariths unat_of_nat take_bit_nat_eq_self)
    moreover have "(re_block e + of_nat j, re_offset e + int j) \<in> set (file_entries fs (ix_ino z))" using files z(1) ez j(1) by (simp add: file_ready_defs)
    then have "bb_used bm (re_block e + of_nat j)" using files z(1) by (fastforce simp: file_ready_defs)
    ultimately show ?thesis by blast
  qed
qed

text \<open>
  What happens to a block of a file, with the numbers before and after: a block that the input claims
  gets a new number whose block was free and is in use now, and the old one is free; any other block
  stays where it is, in use.
\<close>

definition block_moved :: "(nat \<Rightarrow> bool) \<Rightarrow> (nat \<Rightarrow> bool) \<Rightarrow> bool \<Rightarrow> u32 \<Rightarrow> u32 \<Rightarrow> bool" where
  "block_moved used used' moves b b' \<longleftrightarrow>
     (if moves then \<not> used (unat b') \<and> used' (unat b') \<and> used (unat b) \<and> \<not> used' (unat b)
      else b' = b \<and> used' (unat b))"

text \<open>
  The files have the same contents on the device \<open>d\<close>; and unless two places of the files shared a
  block before, exactly the claimed blocks have moved, and no two places share a block afterwards.
\<close>

definition files_kept ::
  "'m remap_fs \<Rightarrow> remap_dev \<Rightarrow> (nat \<Rightarrow> bool) \<Rightarrow> remap_state \<Rightarrow> (u32 \<times> u32 list) list \<Rightarrow> remap_dev \<Rightarrow> (nat \<Rightarrow> bool) \<Rightarrow> bool" where
  "files_kept fs dev used s files d used' \<longleftrightarrow> map fst files = map ix_ino (rs_inodes s)
     \<and> (\<forall>(ino, bs)\<in>set files.
          map (\<lambda>b. rd_blocks d (unat b)) bs = map (\<lambda>v. rd_blocks dev (unat (iv_block v))) (file_visits fs ino))
     \<and> (distinct (concat (map (\<lambda>x. map iv_block (file_visits fs (ix_ino x))) (rs_inodes s)))
          \<longrightarrow> (\<forall>(ino, bs)\<in>set files.
                list_all2 (\<lambda>v b'. block_moved used used' (claimed s ino (iv_block v)) (iv_block v) b')
                  (file_visits fs ino) bs)
            \<and> distinct (concat (map snd files)))"

lemma new_file_moved:
  assumes n: "0 < rs_blocks s" "rs_blocks s < 2 ^ 32" and files: "\<forall>x\<in>set (rs_inodes s). file_ready fs bm buf_blocks x"
    and area: "area bm (rs_blocks s) True fes" and fits: "\<forall>x\<in>set (rs_inodes s). file_fits fes (nat (rs_blocks s)) buf_blocks x"
    and ys: "list_all2 sorted_inode (rs_inodes s) ys" "y \<in> set ys"
    and own: "distinct (concat (map (\<lambda>x. map iv_block (file_visits fs (ix_ino x))) (rs_inodes s)))"
    and bm: "\<forall>b. bb_used bm b \<longleftrightarrow> used (unat b)"
    and used': "\<And>x. used' x \<longleftrightarrow> (used x \<or> in_ranges (new_ranges fes) x) \<and> \<not> in_ranges (old_ranges ys) x"
  shows "list_all2 (\<lambda>v b'. block_moved used used' (claimed s (ix_ino y) (iv_block v)) (iv_block v) b')
    (file_visits fs (ix_ino y)) (snd (new_file fs fes y))"
proof -
  obtain x where x: "x \<in> set (rs_inodes s)" "sorted_inode x y" using sorted_inodes_nth [OF ys] by blast
  have ino: "ix_ino y = ix_ino x" using x(2) by (simp add: sorted_inode_def)
  have blocks: "map fst (file_entries fs (ix_ino y)) = map iv_block (file_visits fs (ix_ino y))"
    using files x(1) unfolding ino by (intro file_entries_blocks) (simp add: file_ready_defs)
  have moved: "block_moved used used' (claimed s (ix_ino y) (fst p)) (fst p) (new_number fes (ix_extents y) p)"
    if p: "p \<in> set (file_entries fs (ix_ino y))" for p
  proof -
    let ?b' = "new_number fes (ix_extents y) p"
    have b': "?b' \<in> set (snd (new_file fs fes y))" using p by (simp add: new_file_def)
    have after: "used' (unat ?b')"
      using new_file_used [OF n files area fits ys own b'] bm used' by blast
    have before: "used (unat (fst p))" using files x(1) p ino bm by (auto simp: file_ready_defs)
    show ?thesis
    proof (cases "claimed s (ix_ino y) (fst p)")
      case False
      then show ?thesis using new_number_moved [OF n files area fits ys own p] after by (simp add: block_moved_def)
    next
      case True
      then obtain e i where e: "e \<in> set (ix_extents y)" "i < unat (re_len e)" "unat (fst p) = unat (re_block e) + i"
        "chunk e + i < nat (rs_blocks s)" "unat ?b' = target fes (chunk e + i)"
        using new_number_moved [OF n files area fits ys own p] by auto
      have "\<not> used (unat ?b')" using area_good(2) [OF area n e(4)] e(5) bm by blast
      moreover have "in_ranges (old_ranges ys) (unat (fst p))"
        using ys(2) e(1-3) by (force simp: in_ranges_def old_ranges_def)
      ultimately show ?thesis using True after before used' by (simp add: block_moved_def)
    qed
  qed
  show ?thesis
  proof (rule list_all2_all_nthI)
    show len: "length (file_visits fs (ix_ino y)) = length (snd (new_file fs fes y))"
      using arg_cong [OF blocks, of length] by (simp add: new_file_def)
    fix k assume k: "k < length (file_visits fs (ix_ino y))"
    then have k': "k < length (file_entries fs (ix_ino y))" using len by (simp add: new_file_def)
    have "iv_block (file_visits fs (ix_ino y) ! k) = fst (file_entries fs (ix_ino y) ! k)"
      using arg_cong [OF blocks, of "\<lambda>xs. xs ! k"] k k' by simp
    then show "block_moved used used' (claimed s (ix_ino y) (iv_block (file_visits fs (ix_ino y) ! k)))
        (iv_block (file_visits fs (ix_ino y) ! k)) (snd (new_file fs fes y) ! k)"
      using moved [OF nth_mem [OF k']] k' by (simp add: new_file_def)
  qed
qed

lemma remap_work_spec:
  assumes srt: "qsorts_ok srt" and inv: "load_inv s" and ready: "remap_ready srt fs bm min_size s"
    and short: "\<forall>x\<in>set (rs_inodes s). short_extents (unat buf_blocks) x"
    and lib: "bitmap_ranges (rf_lib fs) used" and groups: "groups_ok fs (length counts)"
    and bm: "\<forall>b. bb_used bm b \<longleftrightarrow> used m (unat b)"
  shows "remap_work srt fs (Some bm) min_size buf_blocks (m, counts) dev s = Exit 1
    \<or> (\<exists>files m' counts' c. remap_work srt fs (Some bm) min_size buf_blocks (m, counts) dev s = Value (files, (m', counts'), c)
      \<and> files_kept fs dev (used m) s files (cs_dev c) (used m')
      \<and> (counts_agree (used m) (unat (rf_blocks_per_group fs)) counts \<longrightarrow> counts_agree (used m') (unat (rf_blocks_per_group fs)) counts'))"
  using remap_work_result [OF srt inv ready short, of "(m, counts)" dev]
proof
  let ?r = "remap_work srt fs (Some bm) min_size buf_blocks (m, counts) dev s"
  assume "work_result fs bm (unat buf_blocks) (m, counts) dev s ?r"
  then obtain ys fes c where ys: "list_all2 sorted_inode (rs_inodes s) ys" and area: "area bm (rs_blocks s) True fes"
    and fits: "\<forall>x\<in>set (rs_inodes s). file_fits fes (nat (rs_blocks s)) (unat buf_blocks) x"
    and r: "?r = and_then (update_bitmap (rf_lib fs) (rf_blocks_per_group fs) fes ys (m, counts)) (\<lambda>mc. Value (map (new_file fs fes) ys, mc, c))"
    and copied: "extents_copied fes (concat (map ix_extents ys)) (rd_blocks dev) dev (cs_dev c)"
    unfolding work_result_def by blast
  have n: "0 < rs_blocks s" "rs_blocks s < 2 ^ 32" and files: "\<forall>x\<in>set (rs_inodes s). file_ready fs bm (unat buf_blocks) x"
    and ends: "unat (bb_end bm) \<le> unat (rf_blocks_count fs)" using ready short by (simp_all add: remap_ready_def file_ready_def)
  have g: "0 < unat (rf_blocks_per_group fs)" "unat (rf_blocks_per_group fs) * length counts < 2 ^ 32"
    "\<And>b. bl_group (rf_lib fs) b = int (unat b div unat (rf_blocks_per_group fs))"
    "unat (rf_blocks_count fs) \<le> unat (rf_blocks_per_group fs) * length counts" using groups by (simp_all add: groups_ok_def)
  have "\<forall>(start, len)\<in>set (new_ranges fes @ old_ranges ys). unat start + unat len \<le> unat (rf_blocks_per_group fs) * length counts"
    using ranges_inside [OF files area ends fits ys] g(4) by fastforce
  from update_bitmap_spec [OF lib g(1-3) this, of m] show ?thesis
  proof
    assume "update_bitmap (rf_lib fs) (rf_blocks_per_group fs) fes ys (m, counts) = Exit 1"
    then show ?thesis unfolding r by simp
  next
    assume "\<exists>m' counts'. update_bitmap (rf_lib fs) (rf_blocks_per_group fs) fes ys (m, counts) = Value (m', counts') \<and> length counts' = length counts
        \<and> (\<forall>x. used m' x \<longleftrightarrow> (used m x \<or> in_ranges (new_ranges fes) x) \<and> \<not> in_ranges (old_ranges ys) x)
        \<and> (\<forall>g<length counts. counts' ! g = counts ! g - of_nat (ranges_part (unat (rf_blocks_per_group fs)) (new_ranges fes) g)
              + of_nat (ranges_part (unat (rf_blocks_per_group fs)) (old_ranges ys) g))"
    then obtain m' counts' where u: "update_bitmap (rf_lib fs) (rf_blocks_per_group fs) fes ys (m, counts) = Value (m', counts')"
      "length counts' = length counts" "\<And>x. used m' x \<longleftrightarrow> (used m x \<or> in_ranges (new_ranges fes) x) \<and> \<not> in_ranges (old_ranges ys) x"
      "\<forall>g<length counts. counts' ! g = counts ! g - of_nat (ranges_part (unat (rf_blocks_per_group fs)) (new_ranges fes) g)
          + of_nat (ranges_part (unat (rf_blocks_per_group fs)) (old_ranges ys) g)" by blast
    note ranges = work_ranges [OF inv files area ys]
    have agree: "counts_agree (used m') (unat (rf_blocks_per_group fs)) counts'" if "counts_agree (used m) (unat (rf_blocks_per_group fs)) counts"
      by (rule counts_agree_update [OF g(1) that u(2) ranges(1,2) _ _ u(3,4)]) (use ranges(3,4) bm in blast)+
    have contents: "map (\<lambda>b. rd_blocks (cs_dev c) (unat b)) (snd (new_file fs fes y)) = map (\<lambda>v. rd_blocks dev (unat (iv_block v))) (file_visits fs (ix_ino y))"
      if "y \<in> set ys" for y by (rule new_file_contents [OF n files area fits ys that copied])
    have moved: "list_all2 (\<lambda>v b'. block_moved (used m) (used m') (claimed s (ix_ino y) (iv_block v)) (iv_block v) b')
        (file_visits fs (ix_ino y)) (snd (new_file fs fes y))"
      if "distinct (concat (map (\<lambda>x. map iv_block (file_visits fs (ix_ino x))) (rs_inodes s)))" "y \<in> set ys" for y
      by (rule new_file_moved [OF n files area fits ys that(2,1) bm u(3)])
    have apart: "distinct (concat (map (\<lambda>y. snd (new_file fs fes y)) ys))"
      if "distinct (concat (map (\<lambda>x. map iv_block (file_visits fs (ix_ino x))) (rs_inodes s)))"
      by (rule new_numbers_distinct [OF n inv files area fits ys that])
    have fst: "map fst (map (new_file fs fes) ys) = map ix_ino (rs_inodes s)"
      using sorted_inodes_mset(2) [OF ys] by (simp add: comp_def new_file_def)
    have "files_kept fs dev (used m) s (map (new_file fs fes) ys) (cs_dev c) (used m')"
      unfolding files_kept_def
    proof (intro conjI impI fst)
      show "\<forall>(ino, bs)\<in>set (map (new_file fs fes) ys).
          map (\<lambda>b. rd_blocks (cs_dev c) (unat b)) bs = map (\<lambda>v. rd_blocks dev (unat (iv_block v))) (file_visits fs ino)"
        using contents by (auto simp: new_file_def)
      assume own: "distinct (concat (map (\<lambda>x. map iv_block (file_visits fs (ix_ino x))) (rs_inodes s)))"
      show "\<forall>(ino, bs)\<in>set (map (new_file fs fes) ys).
          list_all2 (\<lambda>v b'. block_moved (used m) (used m') (claimed s ino (iv_block v)) (iv_block v) b') (file_visits fs ino) bs"
        using moved [OF own] by (auto simp: new_file_def)
      show "distinct (concat (map snd (map (new_file fs fes) ys)))" using apart [OF own] by (simp add: comp_def)
    qed
    then show ?thesis unfolding r u(1) and_then.simps using agree by blast
  qed
qed blast

end
