(* ===== verification/E2remap.thy ===== *)
theory E2remap
  imports E2remap_Moved Layout_List
begin

text \<open>
  The command line and \<open>main\<close> of \<open>e2remapblocks\<close>, and the tool as a whole. \<open>getopt\<close> is a list of its
  results; which files and devices can be opened is a part of the input.
\<close>

section \<open>The command line\<close>

definition INODE_HASH_SIZE :: u32 where "INODE_HASH_SIZE = 8192"
definition MIN_INODE_HASH_SIZE :: u32 where "MIN_INODE_HASH_SIZE = 256"
definition MIN_FREE_EXTENT_SIZE :: u32 where "MIN_FREE_EXTENT_SIZE = 16"
definition REMAP_BUF_BLOCKS :: u32 where "REMAP_BUF_BLOCKS = 256"

record remap_options =
  ro_inode_hash_size :: u32
  ro_min_free_extent_size :: u32
  ro_remap_buf_blocks :: u32

definition remap_defaults :: remap_options where
  "remap_defaults = \<lparr>ro_inode_hash_size = INODE_HASH_SIZE, ro_min_free_extent_size = MIN_FREE_EXTENT_SIZE,
     ro_remap_buf_blocks = REMAP_BUF_BLOCKS\<rparr>"

text \<open>The cases of the \<open>switch\<close>: \<open>'f'\<close> falls into \<open>'r'\<close>, \<open>'r'\<close> into the usage message.\<close>

definition remap_usage :: "remap_options \<Rightarrow> remap_options run_result" where
  "remap_usage o' = Exit 1"

definition remap_case_r :: "byte list \<Rightarrow> remap_options \<Rightarrow> remap_options run_result" where
  "remap_case_r optarg o' =
     (let (v, rest) = strtol10 optarg; o' = o'\<lparr>ro_remap_buf_blocks := word_of_int v\<rparr> in
      if rest \<noteq> [] \<or> sint (ro_remap_buf_blocks o') < 1 then Exit 1 else remap_usage o')"

definition remap_case_f :: "byte list \<Rightarrow> remap_options \<Rightarrow> remap_options run_result" where
  "remap_case_f optarg o' =
     (let (v, rest) = strtol10 optarg; o' = o'\<lparr>ro_min_free_extent_size := word_of_int v\<rparr> in
      if rest \<noteq> [] \<or> sint (ro_min_free_extent_size o') < 1 then Exit 1 else remap_case_r optarg o')"

definition remap_option :: "char \<times> byte list \<Rightarrow> remap_options \<Rightarrow> remap_options run_result" where
  "remap_option = (\<lambda>(c, optarg) o'.
     if c = CHR ''i'' then
       (let (v, rest) = strtol10 optarg; o' = o'\<lparr>ro_inode_hash_size := word_of_int v\<rparr> in
        if rest \<noteq> [] \<or> ro_inode_hash_size o' \<le> MIN_INODE_HASH_SIZE then Exit 1 else Value o')
     else if c = CHR ''f'' then remap_case_f optarg o'
     else if c = CHR ''r'' then remap_case_r optarg o'
     else if c = CHR ''?'' \<or> c = CHR ''h'' then remap_usage o'
     else Value o')"

fun remap_option_list :: "(char \<times> byte list) list \<Rightarrow> remap_options \<Rightarrow> remap_options run_result" where
  "remap_option_list [] o' = Value o'"
| "remap_option_list (x # xs) o' = and_then (remap_option x o') (remap_option_list xs)"

text \<open>
  What the tool is called with and finds: the results of \<open>getopt\<close>, the number of other arguments, the
  state of the file system when it can be opened, the contents of the input, whether \<open>malloc\<close> returns
  zeroed memory, and the success of the calls.
\<close>

definition EXT2_VALID_FS :: u16 where "EXT2_VALID_FS = 1"
definition EXT2_ERROR_FS :: u16 where "EXT2_ERROR_FS = 2"

record remap_input =
  ri_opts :: "(char \<times> byte list) list"
  ri_args :: nat
  ri_input_opens :: bool
  ri_state :: "u16 option"
  ri_device_opens :: bool
  ri_text :: "byte list"
  ri_zeroed :: bool
  ri_memory :: nat
  ri_bitmap :: "block_bitmap option"
  ri_closes :: bool

definition remap_parse_options :: "remap_input \<Rightarrow> remap_options run_result" where
  "remap_parse_options i =
     and_then (remap_option_list (ri_opts i) remap_defaults) (\<lambda>o'.
     if ri_args i \<noteq> 2 then remap_usage o'
     else if \<not> ri_input_opens i then Exit 1
     else (case ri_state i of
         None \<Rightarrow> Exit 1
       | Some state \<Rightarrow>
           if state AND EXT2_ERROR_FS \<noteq> 0 \<or> state AND EXT2_VALID_FS = 0 then Exit 1
           else if \<not> ri_device_opens i then Exit 1
           else Value o'))"

section \<open>\<open>main\<close>\<close>

definition remap_main ::
  "qsorts \<Rightarrow> 'm remap_fs \<Rightarrow> remap_input \<Rightarrow> 'm \<times> u16 list \<Rightarrow> remap_dev
     \<Rightarrow> ((u32 \<times> u32 list) list \<times> ('m \<times> u16 list) \<times> copy_state \<times> int) run_result" where
  "remap_main srt fs i mc dev =
     and_then (remap_parse_options i) (\<lambda>o'.
     and_then (load_extents (rf_first_ino fs) (ro_inode_hash_size o') (ri_zeroed i) (ri_text i) (remap_start (ri_memory i))) (\<lambda>s.
     and_then (remap_work srt fs (ri_bitmap i) (sint (ro_min_free_extent_size o')) (ro_remap_buf_blocks o') mc dev s) (\<lambda>(files, mc, c).
     Value (files, mc, c, if ri_closes i then 0 else 1))))"

section \<open>The options\<close>

text \<open>The options that end the tool.\<close>

definition ends_tool :: "char \<Rightarrow> bool" where
  "ends_tool c \<longleftrightarrow> c = CHR ''f'' \<or> c = CHR ''r'' \<or> c = CHR ''h'' \<or> c = CHR ''?''"

lemma remap_case_exits: "remap_usage o' = Exit 1" "remap_case_r a o' = Exit 1" "remap_case_f a o' = Exit 1"
  by (simp_all add: remap_usage_def remap_case_r_def remap_case_f_def Let_def split_beta)

lemma remap_option_value:
  assumes "remap_option x o' = Value o''"
  shows "\<not> ends_tool (fst x) \<and> ro_min_free_extent_size o'' = ro_min_free_extent_size o'
    \<and> ro_remap_buf_blocks o'' = ro_remap_buf_blocks o' \<and> (ro_inode_hash_size o'' = ro_inode_hash_size o' \<or> MIN_INODE_HASH_SIZE < ro_inode_hash_size o'')"
proof (cases x)
  case (Pair c a)
  show ?thesis
    using assms unfolding Pair remap_option_def
    by (auto simp: remap_case_exits ends_tool_def Let_def split_beta not_le split: if_splits)
qed

lemma remap_option_list_value:
  "remap_option_list xs o' = Value o'' \<Longrightarrow> MIN_INODE_HASH_SIZE < ro_inode_hash_size o' \<Longrightarrow>
    (\<forall>x\<in>set xs. \<not> ends_tool (fst x)) \<and> ro_min_free_extent_size o'' = ro_min_free_extent_size o'
      \<and> ro_remap_buf_blocks o'' = ro_remap_buf_blocks o' \<and> MIN_INODE_HASH_SIZE < ro_inode_hash_size o''"
proof (induction xs arbitrary: o')
  case (Cons x xs)
  then obtain o1 where o1: "remap_option x o' = Value o1" "remap_option_list xs o1 = Value o''" by (auto simp: and_then_Value)
  note x = remap_option_value [OF o1(1)]
  then have "MIN_INODE_HASH_SIZE < ro_inode_hash_size o1" using Cons.prems(2) by auto
  from Cons.IH [OF o1(2) this] x show ?case by simp
qed simp

lemma remap_parse_options_value:
  assumes "remap_parse_options i = Value o'"
  shows "(\<forall>x\<in>set (ri_opts i). \<not> ends_tool (fst x)) \<and> ro_min_free_extent_size o' = 16
    \<and> ro_remap_buf_blocks o' = 256 \<and> 256 < ro_inode_hash_size o'"
proof -
  have "remap_option_list (ri_opts i) remap_defaults = Value o'"
    using assms by (cases "remap_option_list (ri_opts i) remap_defaults")
      (auto simp: remap_parse_options_def remap_usage_def split: option.splits if_splits)
  from remap_option_list_value [OF this] show ?thesis
    by (simp add: remap_defaults_def MIN_INODE_HASH_SIZE_def INODE_HASH_SIZE_def MIN_FREE_EXTENT_SIZE_def REMAP_BUF_BLOCKS_def)
qed

lemma remap_option_list_total: "remap_option_list xs o' = Exit 1 \<or> (\<exists>o''. remap_option_list xs o' = Value o'')"
proof (induction xs arbitrary: o')
  case (Cons x xs)
  have "remap_option x o' = Exit 1 \<or> (\<exists>o1. remap_option x o' = Value o1)"
    by (cases x) (auto simp: remap_option_def remap_case_exits Let_def split_beta)
  then show ?case using Cons.IH by (metis and_then.simps(1,2) remap_option_list.simps(2))
qed simp

lemma remap_parse_options_total: "remap_parse_options i = Exit 1 \<or> (\<exists>o'. remap_parse_options i = Value o')"
  using remap_option_list_total [of "ri_opts i" remap_defaults]
  by (auto simp: remap_parse_options_def remap_usage_def split: option.split)

text \<open>
  C36: The options \<open>-f\<close> and \<open>-r\<close> cannot be used: whatever their argument is, the tool ends with exit
  code 1 before it touches the device, as with \<open>-h\<close>, since their cases fall through into the usage
  message.
\<close>

theorem buffer_options_end_the_tool:
  assumes "x \<in> set (ri_opts i)" and "fst x \<in> {CHR ''f'', CHR ''r'', CHR ''h''}"
  shows "remap_main srt fs i mc dev = Exit 1"
proof -
  have "remap_parse_options i \<noteq> Value o'" for o'
    using remap_parse_options_value [of i o'] assms by (auto simp: ends_tool_def)
  then have "remap_parse_options i = Exit 1" using remap_parse_options_total [of i] by blast
  then show ?thesis by (simp add: remap_main_def)
qed

section \<open>The tool as a whole\<close>


text \<open>A file system of 32 blocks of which 8 are used, one file of two blocks, and the line \<open>3+2 0 INO 12\<close> that names them.\<close>

definition small_fs :: "(nat \<Rightarrow> bool) remap_fs" where
  "small_fs = \<lparr>rf_blocksize = 1024, rf_blocks_count = 32, rf_first_ino = 11, rf_blocks_per_group = 32, rf_links = (\<lambda>_. Some 1),
     rf_visits = (\<lambda>_. ([\<lparr>iv_block = 3, iv_offset = 0, iv_parent_offset = 0\<rparr>, \<lparr>iv_block = 4, iv_offset = 1, iv_parent_offset = 0\<rparr>], True)),
     rf_lib = plain_lib 32\<rparr>"

definition small_bitmap :: block_bitmap where
  "small_bitmap = \<lparr>bb_used = (\<lambda>b. b < 8), bb_start = 0, bb_end = 31\<rparr>"

definition small_text :: "byte list" where
  "small_text = [51, 43, 50, 32, 48, 32, 73, 78, 79, 32, 49, 50, 10]"

lemma small_lines: "input_lines small_text = [Extent_in 3 2 0 12]"
  by code_simp

definition small_input :: remap_input where
  "small_input = \<lparr>ri_opts = [(CHR ''i'', [50, 53, 55])], ri_args = 2, ri_input_opens = True, ri_state = Some 1,
     ri_device_opens = True, ri_text = small_text, ri_zeroed = True, ri_memory = 9,
     ri_bitmap = Some small_bitmap, ri_closes = True\<rparr>"

definition small_dev :: remap_dev where
  "small_dev = \<lparr>rd_blocks = (\<lambda>b. [of_nat b]), rd_size = 32, rd_ios = 9\<rparr>"

definition small_extent :: remap_extent where
  "small_extent = \<lparr>re_block = 3, re_len = 2, re_offset = 0, re_chunk_offset = 0\<rparr>"

definition small_state :: remap_state where
  "small_state = \<lparr>rs_tree = Node Leaf small_extent Leaf, rs_inodes = [\<lparr>ix_ino = 12, ix_extents = [small_extent]\<rparr>],
     rs_allocated = 8192, rs_gen = 1, rs_hash = [], rs_blocks = 2, rs_allocs = 6\<rparr>"

lemma small_options:
  "remap_parse_options small_input = Value \<lparr>ro_inode_hash_size = 257, ro_min_free_extent_size = 16, ro_remap_buf_blocks = 256\<rparr>"
  by code_simp

lemma small_load: "load_extents 11 257 True small_text (remap_start 9) = Value small_state"
  by code_simp

lemma small_entries: "file_entries small_fs ino = [(3, 0), (4, 1)]" "rf_blocks_count small_fs = 32"
  "file_visits small_fs ino = [\<lparr>iv_block = 3, iv_offset = 0, iv_parent_offset = 0\<rparr>, \<lparr>iv_block = 4, iv_offset = 1, iv_parent_offset = 0\<rparr>]"
  by (simp_all add: file_entries_def file_visits_def small_fs_def)

lemma small_matches: "file_matches small_fs small_bitmap \<lparr>ix_ino = 12, ix_extents = [small_extent]\<rparr>"
proof -
  have "(re_block small_extent + of_nat j, re_offset small_extent + int j) \<in> {(3, 0), (4, 1)}" if "j < unat (re_len small_extent)" for j
  proof -
    from that have "j = 0 \<or> j = 1" by (simp add: small_extent_def less_2_cases_iff)
    then show ?thesis by (elim disjE) (simp_all add: small_extent_def)
  qed
  then have "\<forall>j<unat (re_len small_extent). (re_block small_extent + of_nat j, re_offset small_extent + int j) \<in> {(3, 0), (4, 1)}" by blast
  moreover have "ext_ok small_extent" by (simp_all add: small_extent_def ext_ok_def)
  moreover have "\<forall>v\<in>set (file_visits small_fs 12). remap_visit_ok v"
    by (simp add: small_entries remap_visit_ok_def TIND_COUNT_def)
  ultimately show ?thesis
    by (simp add: file_matches_def small_entries off_less_data small_bitmap_def)
qed

lemma small_fields:
  "bb_start small_bitmap = 0" "bb_end small_bitmap = 31" "bb_used small_bitmap b \<longleftrightarrow> unat b < 8"
  "rf_first_ino small_fs = 11" "rf_blocks_count small_fs = 32" "rf_blocks_per_group small_fs = 32" "rf_lib small_fs = plain_lib 32"
  "ri_text small_input = small_text" "ri_zeroed small_input" "ri_memory small_input = 9"
  "ri_bitmap small_input = Some small_bitmap"
  by (simp_all add: small_bitmap_def small_fs_def small_input_def word_less_nat_alt)

lemma small_ready: "remap_ready srt small_fs small_bitmap 16 small_state"
proof -
  have scan: "scan_free (Suc 32) small_bitmap 2 16 0 [] FREE_EXTENT_ALLOC_ENTRIES k = Value (True, [\<lparr>fe_block = 8, fe_len = 2, fe_offset = 0\<rparr>], k)" for k
  proof -
    have "skip_used 32 small_bitmap ((0 + 8) AND NOT 7) = Value 8" "skip_free 32 small_bitmap 8 = Value 31" by code_simp+
    then show ?thesis unfolding scan_free.simps(2) small_fields by simp
  qed
  have "unat (bb_end small_bitmap) + 2 = Suc 32" by (simp add: small_fields)
  then have "\<not> runs_found small_bitmap 2 16 k found" for k found
    unfolding runs_found_def by (simp only: scan small_fields word_of_int_numeral) simp
  then show ?thesis using small_matches by (simp add: remap_ready_def small_state_def small_fields)
qed


theorem buffer_options_end_the_tool_witness:
  "remap_main cmp_qsorts small_fs (small_input\<lparr>ri_opts := [(CHR ''r'', [51, 50])]\<rparr>) (\<lambda>b. b < 8, [24]) small_dev = Exit 1"
  by (rule buffer_options_end_the_tool [of "(CHR ''r'', [51, 50])"]) simp_all

end
