(* ===== verification/Tool_Formats.thy ===== *)
theory Tool_Formats
  imports E2block2file_Dump E2remap_Load
begin

text \<open>
  The text that \<open>e2block2file\<close> prints, and that \<open>e2remapblocks\<close> can read it: the format of
  \<open>e2block2file -t\<close> is that of the list of extents to move (\<open>README\<close>).
\<close>

section \<open>Printing\<close>

definition ino_name_text :: "byte list option \<Rightarrow> byte list" where
  "ino_name_text name = (case name of None \<Rightarrow> [] | Some name \<Rightarrow> 32 # name)"

text \<open>The formats of \<open>dump_times\<close>, in which the name follows when there is one.\<close>

definition unmapped_text :: "int \<Rightarrow> u32 \<Rightarrow> byte list" where
  "unmapped_text b n = dec_int b @ [43] @ dec (unat n) @ [32] @ unmapped_word @ [10]"

definition mapped_text :: "int \<Rightarrow> u32 \<Rightarrow> int \<Rightarrow> u32 \<Rightarrow> byte list option \<Rightarrow> byte list" where
  "mapped_text b n off ino name =
     dec_int b @ [43] @ dec (unat n) @ [32] @ dec_int off @ [32] @ INO_word @ [32] @ dec (unat ino)
       @ ino_name_text name @ [10]"

declare unmapped_text_def [simp] mapped_text_def [simp]

text \<open>The text of every line; \<open>dump_inode\<close> prints the inode number with \<open>%d\<close>.\<close>

fun dump_text :: "dump_line \<Rightarrow> byte list" where
  "dump_text (Inode_line ino None) = [73, 110, 111, 100, 101, 32] @ dec_int (sint ino) @ [58, 10]"
| "dump_text (Inode_line ino (Some name)) = name @ [32, 40, 105, 110, 111, 32] @ dec_int (sint ino) @ [41, 58, 10]"
| "dump_text (Extent_line b n off) = [32, 32] @ dec (unat b) @ [43] @ dec (unat n) @ [32] @ dec_int off @ [10]"
| "dump_text (Unmapped_line b n) = unmapped_text b n"
| "dump_text (Mapped_line b n off ino name) = mapped_text b n off ino name"

section \<open>Lines without a line feed inside\<close>

text \<open>The bytes of printed numbers.\<close>

definition number_byte :: "byte \<Rightarrow> bool" where
  "number_byte c \<longleftrightarrow> is_digit c \<or> c = 45"

lemma number_byte_other: "number_byte c \<Longrightarrow> c \<noteq> 0 \<and> c \<noteq> 10 \<and> c \<noteq> 32 \<and> c \<noteq> 117"
  by (auto simp: number_byte_def is_digit_def)

lemma dec_bytes: "\<forall>c\<in>set (dec n). number_byte c"
  using dec_digits [of n] by (auto simp: number_byte_def)

lemma dec_int_bytes: "\<forall>c\<in>set (dec_int i). number_byte c"
  using dec_bytes by (auto simp: dec_int_def number_byte_def)

lemma length_dec: "n < 10 ^ Suc k \<Longrightarrow> length (dec n) \<le> Suc k"
proof (induction n arbitrary: k rule: dec.induct)
  case (1 n)
  show ?case
  proof (cases "n < 10")
    case False
    then obtain j where k: "k = Suc j" using 1(2) by (cases k) auto
    then have "n div 10 < 10 ^ Suc j" using 1(2) by (simp add: div_less_iff_less_mult)
    then show ?thesis using 1(1) [OF False, of j] False k by (simp add: dec.simps [of n])
  qed (simp add: dec.simps [of n])
qed

lemma length_dec_u32: "length (dec (unat (w :: u32))) \<le> 10"
proof -
  have "unat w < 2 ^ 32" using unsigned_less [of w] by simp
  then have "unat w < 10 ^ Suc 9" by simp
  then show ?thesis using length_dec [of "unat w" 9] by simp
qed

lemma length_dec_int:
  assumes "- (2 ^ 63) \<le> i" and "i < 2 ^ 63"
  shows "length (dec_int i) \<le> 20"
proof -
  have "nat i < 10 ^ Suc 18" "nat (- i) < 10 ^ Suc 18" using assms by simp_all
  then show ?thesis using length_dec [of "nat i" 18] length_dec [of "nat (- i)" 18] by (simp add: dec_int_def)
qed

text \<open>
  Lines of \<open>dump_times\<close> with 64-bit numbers, whose name has no line feed (and no zero byte, like
  every C string) and leaves the line shorter than the buffer of \<open>e2remapblocks\<close>.
\<close>

fun printable :: "dump_line \<Rightarrow> bool" where
  "printable (Unmapped_line b n) \<longleftrightarrow> - (2 ^ 63) \<le> b \<and> b < 2 ^ 63"
| "printable (Mapped_line b n off ino name) \<longleftrightarrow> - (2 ^ 63) \<le> b \<and> b < 2 ^ 63 \<and> - (2 ^ 63) \<le> off \<and> off < 2 ^ 63
     \<and> (case name of None \<Rightarrow> True | Some nm \<Rightarrow> 0 \<notin> set nm \<and> 10 \<notin> set nm \<and> length nm \<le> 180)"
| "printable _ \<longleftrightarrow> False"

text \<open>What \<open>e2remapblocks\<close> should make of a line.\<close>

fun line_read :: "dump_line \<Rightarrow> remap_line" where
  "line_read (Unmapped_line b n) = Unmapped_in"
| "line_read (Mapped_line b n off ino name) = Extent_in b n off ino"
| "line_read _ = Bad_line"

lemma printable_text:
  assumes "printable l"
  shows "\<exists>t. dump_text l = t @ [10] \<and> 10 \<notin> set t \<and> 0 \<notin> set t \<and> length t + 1 < LINEBUF_SIZE"
proof (cases l)
  case (Unmapped_line b n)
  let ?t = "dec_int b @ [43] @ dec (unat n) @ [32] @ unmapped_word"
  have "length (dec_int b) \<le> 20" using assms length_dec_int [of b] by (simp add: Unmapped_line)
  then have "length ?t + 1 < LINEBUF_SIZE" using length_dec_u32 [of n] by (simp add: unmapped_word_def LINEBUF_SIZE_def)
  moreover have "10 \<notin> set ?t \<and> 0 \<notin> set ?t"
    using dec_int_bytes [of b] dec_bytes [of "unat n"] by (auto simp: unmapped_word_def dest: number_byte_other)
  ultimately show ?thesis by (intro exI [of _ ?t]) (simp add: Unmapped_line)
next
  case (Mapped_line b n off ino name)
  let ?t = "dec_int b @ [43] @ dec (unat n) @ [32] @ dec_int off @ [32] @ INO_word @ [32] @ dec (unat ino) @ ino_name_text name"
  have "length (dec_int b) \<le> 20" "length (dec_int off) \<le> 20" "length (ino_name_text name) \<le> 181"
    using assms length_dec_int [of b] length_dec_int [of off]
    by (simp_all add: Mapped_line ino_name_text_def split: option.splits)
  then have "length ?t + 1 < LINEBUF_SIZE" using length_dec_u32 [of n] length_dec_u32 [of ino]
    by (simp add: INO_word_def LINEBUF_SIZE_def)
  moreover have "10 \<notin> set (ino_name_text name) \<and> 0 \<notin> set (ino_name_text name)"
    using assms by (simp add: Mapped_line ino_name_text_def split: option.splits)
  then have "10 \<notin> set ?t \<and> 0 \<notin> set ?t"
    using dec_int_bytes [of b] dec_int_bytes [of off] dec_bytes [of "unat n"] dec_bytes [of "unat ino"]
    by (auto simp: INO_word_def dest: number_byte_other)
  ultimately show ?thesis by (intro exI [of _ ?t]) (simp add: Mapped_line)
qed (use assms in simp_all)

section \<open>Reading\<close>

lemma first_blank:
  assumes "\<forall>c\<in>set s. number_byte c \<or> c = 43"
  shows "dropWhile (\<lambda>c. c \<noteq> 32) (s @ 32 # t) = 32 # t"
proof -
  have "32 \<notin> set s" using assms number_byte_other by fastforce
  then show ?thesis by (subst dropWhile_append2) auto
qed

lemma range_bytes: "\<forall>c\<in>set (dec_int b @ [43] @ dec n). number_byte c \<or> c = 43"
  using dec_int_bytes [of b] dec_bytes [of n] by auto

lemma not_unmapped: "number_byte c \<Longrightarrow> strncmp (c # t) unmapped_word 8 \<noteq> 0"
proof -
  assume c: "number_byte c"
  have "strncmp (c # t) unmapped_word (Suc 7) = uint c - 117"
    using number_byte_other [OF c] by (subst strncmp.simps(2)) (simp add: unmapped_word_def Let_def)
  moreover have "uint c \<noteq> uint (117 :: byte)" using number_byte_other [OF c] by (simp only: word_uint_eq_iff [symmetric]) simp
  ultimately show ?thesis by simp
qed

lemma dec_int_head: "\<exists>c t. dec_int i = c # t \<and> number_byte c"
  using dec_int_bytes [of i] dec_digits by (cases "dec_int i") (auto simp: dec_int_def split: if_splits)

lemma extent_line_text:
  assumes b: "- (2 ^ 63) \<le> b" "b < 2 ^ 63" and off: "- (2 ^ 63) \<le> off" "off < 2 ^ 63" and e: "ends_number rest"
  shows "scan_extent_line (dec_int b @ 43 # dec (unat n) @ 32 # dec_int off @ 32 # INO_word @ 32 # dec (unat ino) @ rest)
    = Extent_in b n off ino"
proof -
  obtain c t where ct: "dec_int off = c # t" "number_byte c" using dec_int_head by blast
  obtain d u where du: "dec (unat ino) = d # u" "is_digit d" using dec_digits [of "unat ino"] by (cases "dec (unat ino)") auto
  have white: "scan_white (32 # dec_int off @ r) = dec_int off @ r" "scan_white (32 # INO_word @ r) = INO_word @ r"
    "scan_white (32 # dec (unat ino) @ r) = dec (unat ino) @ r" for r
    using ct du digit_not_white [of c] digit_not_white [of d]
    by (auto simp: scan_white_def white_def number_byte_def INO_word_def)
  have ends: "ends_number (43 # r)" "ends_number (32 # r)" for r
    by (simp_all add: ends_number_def not_digit)
  have lit: "scan_literal [43] (43 # r) = Some r" "scan_literal INO_word (INO_word @ r) = Some r" for r
    by (simp_all add: scan_literal_def)
  show ?thesis
    unfolding scan_extent_line_def
    by (simp only: scan_Ld_dec [OF ends(1) b] bind.bind_lunit prod.case lit scan_u_dec [OF ends(2)] white
        scan_Ld_dec [OF ends(2) off] scan_u_dec [OF e] option.case)
qed

lemma read_line_text:
  assumes "printable l"
  shows "read_line (dump_text l) = line_read l"
proof -
  obtain t where t: "dump_text l = t @ [10]" "0 \<notin> set t" using printable_text [OF assms] by blast
  have s: "c_string (dump_text l) = dump_text l" unfolding t(1) by (rule c_string_line [OF t(2)])
  show ?thesis
  proof (cases l)
    case (Unmapped_line b n)
    have eq: "dump_text l = (dec_int b @ [43] @ dec (unat n)) @ 32 # unmapped_word @ [10]" by (simp add: Unmapped_line)
    note fb = first_blank [OF range_bytes [of b "unat n"], of "unmapped_word @ [10]"]
    have "strncmp (unmapped_word @ [10]) unmapped_word 8 = 0"
      by code_simp
    then show ?thesis unfolding read_line_def s Let_def unfolding eq fb by (simp add: Unmapped_line)
  next
    case (Mapped_line b n off ino name)
    let ?rest = "ino_name_text name @ [10]"
    let ?r = "dec_int off @ 32 # INO_word @ 32 # dec (unat ino) @ ?rest"
    have eq: "dump_text l = (dec_int b @ [43] @ dec (unat n)) @ 32 # ?r" by (simp add: Mapped_line)
    note fb = first_blank [OF range_bytes [of b "unat n"], of ?r]
    have "ends_number ?rest" by (simp add: ino_name_text_def ends_number_def not_digit split: option.split)
    then have "scan_extent_line (dump_text l) = Extent_in b n off ino"
      using extent_line_text [of b off ?rest n ino] assms by (simp add: Mapped_line)
    moreover have "strncmp ?r unmapped_word 8 \<noteq> 0" using dec_int_head [of off] not_unmapped by force
    ultimately show ?thesis unfolding read_line_def s Let_def using fb by (simp add: eq Mapped_line)
  qed (use assms in simp_all)
qed

text \<open>
  C26: what \<open>e2block2file -t\<close> prints is a list of extents for \<open>e2remapblocks\<close>: reading the text of any
  lines of \<open>dump_times\<close> line by line gives back, in order, the block, length, offset and inode of every
  mapped line and the mark of every unmapped one, signs included, whether or not the name of the file
  follows. The numbers are 64-bit; a name has at most 180 bytes, no line feed and no zero byte.
\<close>

theorem dump_text_read_back:
  assumes "\<forall>l\<in>set ls. printable l"
  shows "input_lines (concat (map dump_text ls)) = map line_read ls"
  using assms
proof (induction ls)
  case Nil
  show ?case by (simp add: input_lines.simps fgets_def)
next
  case (Cons l ls)
  have l: "printable l" using Cons.prems by simp
  obtain t where t: "dump_text l = t @ [10]" "10 \<notin> set t" "length t + 1 < LINEBUF_SIZE" using printable_text [OF l] by blast
  have "fgets LINEBUF_SIZE (concat (map dump_text (l # ls))) = Some (dump_text l, concat (map dump_text ls))"
    using fgets_line [OF t(2,3)] by (simp add: t(1))
  then show ?case using Cons read_line_text [OF l] by (subst input_lines.simps) simp
qed

lemma dump_text_read_back_witness:
  "input_lines (concat (map dump_text
      [Unmapped_line (-7) 9, Mapped_line 20 2 (-48) 12 None, Mapped_line 4294967295 1 7 13 (Some [47, 97, 32, 98])]))
    = [Unmapped_in, Extent_in 20 2 (-48) 12, Extent_in 4294967295 1 7 13]"
  using dump_text_read_back [of "[Unmapped_line (-7) 9, Mapped_line 20 2 (-48) 12 None,
      Mapped_line 4294967295 1 7 13 (Some [47, 97, 32, 98])]"]
  by simp

end
